(* ===== verification/Enroute_Prelude.thy ===== *)
theory Enroute_Prelude
  imports Main "HOL-Library.Word" "HOL-Library.Product_Lexorder" "HOL-Library.List_Lexorder"
begin

text \<open>
  The vocabulary every component shares: the machine integers of the Rust sources, fallible
  results, slices that answer \<open>None\<close> out of range, saturating arithmetic and the little- and
  big-endian byte codecs of the integers.

  \<^item> \<open>u8\<close>, \<open>u32\<close>, \<open>u64\<close>, \<open>u128\<close> are words of that width, so \<open>+\<close> wraps and the bitwise operators
    are the machine's.
  \<^item> \<open>usize\<close> is \<open>nat\<close> (a 64-bit target: lengths and indices); where the source saturates or checks a
    \<open>usize\<close> the bound \<open>usize_max\<close> is written out.
  \<^item> \<open>i64\<close> is \<open>int\<close> with \<open>sat_i64\<close> at every saturating operation.
  \<^item> \<open>Result<T, E>\<close> is \<open>'e + 'a\<close> with the error on the left; \<open>?\<close> is \<open>rbind\<close>.
\<close>

unbundle bit_operations_syntax

type_synonym u8 = "8 word"
type_synonym u32 = "32 word"
type_synonym u64 = "64 word"
type_synonym u128 = "128 word"
type_synonym bytes = "u8 list"
type_synonym ('e, 'a) result = "'e + 'a"

named_theorems slice_simps "reading a slice back out of an append"
named_theorems codec_simps "an integer read back from the bytes it was written as"
named_theorems result_simps "stepping through a result"

section \<open>Results\<close>

definition rbind :: "('e, 'a) result \<Rightarrow> ('a \<Rightarrow> ('e, 'b) result) \<Rightarrow> ('e, 'b) result" where
  "rbind r f = (case r of Inl e \<Rightarrow> Inl e | Inr a \<Rightarrow> f a)"

definition ok_or :: "'a option \<Rightarrow> 'e \<Rightarrow> ('e, 'a) result" where
  "ok_or x e = (case x of None \<Rightarrow> Inl e | Some a \<Rightarrow> Inr a)"

lemma rbind_Inl [simp]: "rbind (Inl e) f = Inl e"
  by (simp add: rbind_def)

lemma rbind_Inr [simp]: "rbind (Inr a) f = f a"
  by (simp add: rbind_def)

lemma rbind_eq_Inr_iff [result_simps]:
  "rbind r f = Inr b \<longleftrightarrow> (\<exists>a. r = Inr a \<and> f a = Inr b)"
  by (cases r) auto

lemma rbind_cong [fundef_cong]:
  "r = r' \<Longrightarrow> (\<And>a. r' = Inr a \<Longrightarrow> f a = f' a) \<Longrightarrow> rbind r f = rbind r' f'"
  by (cases r') auto

lemma ok_or_simps [simp]: "ok_or None e = Inl e" "ok_or (Some a) e = Inr a"
  by (simp_all add: ok_or_def)

lemma ok_or_eq_Inr_iff [result_simps]: "ok_or x e = Inr a \<longleftrightarrow> x = Some a"
  by (cases x) auto

text \<open>Collecting a list of results, stopping at the first error.\<close>

fun collect_results :: "('e, 'a) result list \<Rightarrow> ('e, 'a list) result" where
  "collect_results [] = Inr []"
| "collect_results (r # rs) = rbind r (\<lambda>a. rbind (collect_results rs) (\<lambda>as. Inr (a # as)))"

lemma collect_results_Inr_map [simp]: "collect_results (map (\<lambda>x. Inr (f x)) xs) = Inr (map f xs)"
  by (induction xs) auto

lemma collect_results_Inr: "collect_results rs = Inr vs \<longleftrightarrow> rs = map Inr vs"
  by (induction rs arbitrary: vs) (auto simp: rbind_eq_Inr_iff)

lemma collect_results_Inl: "collect_results rs = Inl e \<Longrightarrow> Inl e \<in> set rs"
  by (induction rs) (auto simp: rbind_def split: sum.splits)

text \<open>\<open>Iterator::find_map\<close>.\<close>

fun find_map :: "('a \<Rightarrow> 'b option) \<Rightarrow> 'a list \<Rightarrow> 'b option" where
  "find_map f [] = None"
| "find_map f (x # xs) = (case f x of None \<Rightarrow> find_map f xs | Some y \<Rightarrow> Some y)"

lemma find_map_None: "find_map f xs = None \<longleftrightarrow> (\<forall>x \<in> set xs. f x = None)"
  by (induction xs) (auto split: option.split)

lemma find_map_Some:
  assumes "\<exists>x \<in> set xs. f x \<noteq> None"
  obtains x where "x \<in> set xs" "find_map f xs = f x" "f x \<noteq> None"
proof -
  have "\<exists>x \<in> set xs. find_map f xs = f x \<and> f x \<noteq> None"
    using assms
  proof (induction xs)
    case (Cons x xs)
    then show ?case by (cases "f x") auto
  qed simp
  then show thesis using that by blast
qed

lemma list_all2_in_set: "list_all2 P xs ys \<Longrightarrow> x \<in> set xs \<Longrightarrow> \<exists>y. y \<in> set ys \<and> P x y"
  by (induction rule: list_all2_induct) auto

lemma list_all2_in_set2: "list_all2 P xs ys \<Longrightarrow> y \<in> set ys \<Longrightarrow> \<exists>x \<in> set xs. P x y"
  by (induction rule: list_all2_induct) auto

section \<open>Slices\<close>

definition get_at :: "'a list \<Rightarrow> nat \<Rightarrow> 'a option" where
  "get_at xs i = (if i < length xs then Some (xs ! i) else None)"

definition slice_from :: "'a list \<Rightarrow> nat \<Rightarrow> 'a list option" where
  "slice_from xs a = (if a \<le> length xs then Some (drop a xs) else None)"

definition slice_upto :: "'a list \<Rightarrow> nat \<Rightarrow> 'a list option" where
  "slice_upto xs b = (if b \<le> length xs then Some (take b xs) else None)"

definition slice :: "'a list \<Rightarrow> nat \<Rightarrow> nat \<Rightarrow> 'a list option" where
  "slice xs a b = (if a \<le> b \<and> b \<le> length xs then Some (take (b - a) (drop a xs)) else None)"

lemma get_at_eq_Some_iff [slice_simps]: "get_at xs i = Some x \<longleftrightarrow> i < length xs \<and> xs ! i = x"
  by (auto simp: get_at_def)

lemma get_at_eq_None_iff [slice_simps]: "get_at xs i = None \<longleftrightarrow> length xs \<le> i"
  by (auto simp: get_at_def)

lemma slice_append_mid [slice_simps]:
  "length xs = a \<Longrightarrow> b = a + length ys \<Longrightarrow> slice (xs @ ys @ zs) a b = Some ys"
  by (simp add: slice_def)

lemma slice_append_front [slice_simps]: "b = length ys \<Longrightarrow> slice (ys @ zs) 0 b = Some ys"
  by (simp add: slice_def)

lemma slice_length: "slice xs a b = Some ys \<Longrightarrow> length ys = b - a"
  by (auto simp: slice_def split: if_splits)

lemma slice_append_left:
  "b \<le> length xs \<Longrightarrow> slice (xs @ ys) a b = slice xs a b"
  by (auto simp: slice_def)

lemma slice_append_right:
  "length xs \<le> a \<Longrightarrow> slice (xs @ ys) a b =
    (if a \<le> b \<and> b \<le> length xs + length ys then slice ys (a - length xs) (b - length xs) else None)"
  by (auto simp: slice_def)

lemma slice_from_append [slice_simps]: "a = length xs \<Longrightarrow> slice_from (xs @ ys) a = Some ys"
  by (simp add: slice_from_def)

section \<open>Saturating and checked arithmetic\<close>

definition usize_max :: nat where
  "usize_max = 2 ^ 64 - 1"

definition sat_usize :: "nat \<Rightarrow> nat" where
  "sat_usize n = min n usize_max"

definition i64_max :: int where
  "i64_max = 2 ^ 63 - 1"

definition i64_min :: int where
  "i64_min = - (2 ^ 63)"

definition sat_i64 :: "int \<Rightarrow> int" where
  "sat_i64 x = max i64_min (min i64_max x)"

definition sat_add :: "'a::len word \<Rightarrow> 'a word \<Rightarrow> 'a word" where
  "sat_add a b = (if unat a + unat b < 2 ^ LENGTH('a) then a + b else - 1)"

definition sat_sub :: "'a::len word \<Rightarrow> 'a word \<Rightarrow> 'a word" where
  "sat_sub a b = (if b \<le> a then a - b else 0)"

definition sat_mul :: "'a::len word \<Rightarrow> 'a word \<Rightarrow> 'a word" where
  "sat_mul a b = (if unat a * unat b < 2 ^ LENGTH('a) then a * b else - 1)"

definition checked_add :: "'a::len word \<Rightarrow> 'a word \<Rightarrow> 'a word option" where
  "checked_add a b = (if unat a + unat b < 2 ^ LENGTH('a) then Some (a + b) else None)"

text \<open>Rust's \<open>checked_shl\<close> answers \<open>None\<close> only for a shift of the width or more: bits pushed off the
  top are lost without an error.\<close>

definition checked_shl :: "'a::len word \<Rightarrow> nat \<Rightarrow> 'a word option" where
  "checked_shl w n = (if n < LENGTH('a) then Some (push_bit n w) else None)"

text \<open>\<open>uN::try_from\<close> of a length.\<close>

definition try_u32 :: "nat \<Rightarrow> u32 option" where
  "try_u32 n = (if n < 2 ^ 32 then Some (of_nat n) else None)"

text \<open>\<open>u64::try_from(len).unwrap_or(u64::MAX)\<close>.\<close>

definition u64_len :: "'a list \<Rightarrow> u64" where
  "u64_len xs = (if length xs < 2 ^ 64 then of_nat (length xs) else - 1)"

lemma unat_bound: "unat (w :: 'a::len word) < 2 ^ LENGTH('a)"
  by (fact unsigned_less)

lemma unat_u64_max: "unat (- 1 :: u64) = 18446744073709551615"
  by (simp add: unsigned_minus_1_eq_mask mask_eq_exp_minus_1)

lemma sat_usize_id [simp]: "n \<le> usize_max \<Longrightarrow> sat_usize n = n"
  by (simp add: sat_usize_def)

lemma sat_i64_id [simp]: "i64_min \<le> x \<Longrightarrow> x \<le> i64_max \<Longrightarrow> sat_i64 x = x"
  by (simp add: sat_i64_def)

lemma sat_i64_range [simp]: "i64_min \<le> sat_i64 x" "sat_i64 x \<le> i64_max"
  by (auto simp: sat_i64_def i64_min_def i64_max_def)

lemma sat_i64_mono: "x \<le> y \<Longrightarrow> sat_i64 x \<le> sat_i64 y"
  by (auto simp: sat_i64_def)

lemma try_u32_unat [simp]: "try_u32 (unat (w :: u32)) = Some w"
  using unat_bound [of w] by (simp add: try_u32_def)

section \<open>Integers as bytes\<close>

primrec le_bytes :: "nat \<Rightarrow> nat \<Rightarrow> bytes" where
  "le_bytes 0 v = []"
| "le_bytes (Suc n) v = of_nat (v mod 256) # le_bytes n (v div 256)"

primrec le_nat :: "bytes \<Rightarrow> nat" where
  "le_nat [] = 0"
| "le_nat (b # bs) = unat b + 256 * le_nat bs"

definition be_bytes :: "nat \<Rightarrow> nat \<Rightarrow> bytes" where
  "be_bytes n v = rev (le_bytes n v)"

definition be_nat :: "bytes \<Rightarrow> nat" where
  "be_nat bs = le_nat (rev bs)"

lemma length_le_bytes [simp]: "length (le_bytes n v) = n"
  by (induction n arbitrary: v) auto

lemma length_be_bytes [simp]: "length (be_bytes n v) = n"
  by (simp add: be_bytes_def)

lemma unat_of_nat_byte [simp]: "unat (of_nat (v mod 256) :: u8) = v mod 256"
  by (simp add: unat_of_nat)

lemma le_nat_le_bytes [codec_simps]: "le_nat (le_bytes n v) = v mod 256 ^ n"
proof (induction n arbitrary: v)
  case 0
  show ?case by simp
next
  case (Suc n)
  have "v mod 256 + 256 * (v div 256 mod 256 ^ n) = v mod (256 * 256 ^ n)"
    by (simp add: mod_mult2_eq)
  with Suc show ?case by simp
qed

lemma be_nat_be_bytes [codec_simps]: "be_nat (be_bytes n v) = v mod 256 ^ n"
  by (simp add: be_nat_def be_bytes_def le_nat_le_bytes)

lemma le_nat_bound: "le_nat bs < 256 ^ length bs"
proof (induction bs)
  case Nil
  show ?case by simp
next
  case (Cons b bs)
  have "unat b < 256" using unat_bound [of b] by simp
  with Cons show ?case by simp
qed

lemma le_bytes_le_nat: "length bs = n \<Longrightarrow> le_bytes n (le_nat bs) = bs"
proof (induction bs arbitrary: n)
  case Nil
  then show ?case by simp
next
  case (Cons b bs)
  have b: "unat b < 256" using unat_bound [of b] by simp
  then have "(unat b + 256 * le_nat bs) mod 256 = unat b" "(unat b + 256 * le_nat bs) div 256 = le_nat bs"
    by simp_all
  with Cons show ?case by auto
qed

definition to_le32 :: "u32 \<Rightarrow> bytes" where
  "to_le32 w = le_bytes 4 (unat w)"

definition from_le32 :: "bytes \<Rightarrow> u32" where
  "from_le32 bs = of_nat (le_nat bs)"

definition to_le64 :: "u64 \<Rightarrow> bytes" where
  "to_le64 w = le_bytes 8 (unat w)"

definition from_le64 :: "bytes \<Rightarrow> u64" where
  "from_le64 bs = of_nat (le_nat bs)"

definition to_le128 :: "u128 \<Rightarrow> bytes" where
  "to_le128 w = le_bytes 16 (unat w)"

definition from_le128 :: "bytes \<Rightarrow> u128" where
  "from_le128 bs = of_nat (le_nat bs)"

definition to_be32 :: "u32 \<Rightarrow> bytes" where
  "to_be32 w = be_bytes 4 (unat w)"

definition from_be32 :: "bytes \<Rightarrow> u32" where
  "from_be32 bs = of_nat (be_nat bs)"

lemma length_to_bytes [simp]:
  "length (to_le32 a) = 4" "length (to_le64 b) = 8" "length (to_le128 c) = 16"
  "length (to_be32 a) = 4"
  by (simp_all add: to_le32_def to_le64_def to_le128_def to_be32_def)

lemma from_to_le32 [simp, codec_simps]: "from_le32 (to_le32 w) = w"
proof -
  have "unat w mod 256 ^ 4 = unat w" using unat_bound [of w] by simp
  then show ?thesis by (simp add: from_le32_def to_le32_def le_nat_le_bytes)
qed

lemma to_from_le32: "length bs = 4 \<Longrightarrow> to_le32 (from_le32 bs) = bs"
  using le_nat_bound [of bs] by (simp add: to_le32_def from_le32_def unat_of_nat le_bytes_le_nat)

lemma to_from_le64: "length bs = 8 \<Longrightarrow> to_le64 (from_le64 bs) = bs"
  using le_nat_bound [of bs] by (simp add: to_le64_def from_le64_def unat_of_nat le_bytes_le_nat)

lemma from_to_le64 [simp, codec_simps]: "from_le64 (to_le64 w) = w"
proof -
  have "unat w mod 256 ^ 8 = unat w" using unat_bound [of w] by simp
  then show ?thesis by (simp add: from_le64_def to_le64_def le_nat_le_bytes)
qed

lemma from_to_le128 [simp, codec_simps]: "from_le128 (to_le128 w) = w"
proof -
  have "unat w mod 256 ^ 16 = unat w" using unat_bound [of w] by simp
  then show ?thesis by (simp add: from_le128_def to_le128_def le_nat_le_bytes)
qed

lemma from_to_be32 [simp, codec_simps]: "from_be32 (to_be32 w) = w"
proof -
  have "unat w mod 256 ^ 4 = unat w" using unat_bound [of w] by simp
  then show ?thesis by (simp add: from_be32_def to_be32_def be_nat_be_bytes)
qed

section \<open>Ordered maps\<close>

text \<open>A \<open>BTreeMap\<close> is an association list in strictly increasing key order; \<open>get\<close> is \<open>map_of\<close>.\<close>

fun btree_insert :: "'k::linorder \<Rightarrow> 'v \<Rightarrow> ('k \<times> 'v) list \<Rightarrow> ('k \<times> 'v) list" where
  "btree_insert k v [] = [(k, v)]"
| "btree_insert k v ((k', v') # m) =
     (if k < k' then (k, v) # (k', v') # m
      else if k = k' then (k, v) # m
      else (k', v') # btree_insert k v m)"

lemma set_btree_insert_keys [simp]: "fst ` set (btree_insert k v m) = insert k (fst ` set m)"
  by (induction k v m rule: btree_insert.induct) auto

lemma btree_insert_sorted:
  "sorted_wrt (<) (map fst m) \<Longrightarrow> sorted_wrt (<) (map fst (btree_insert k v m))"
proof (induction k v m rule: btree_insert.induct)
  case (2 k v k' v' m)
  have "set (map fst (btree_insert k v m)) = insert k (set (map fst m))" by simp
  with 2 show ?case by (auto simp: not_less less_le simp del: set_map)
qed simp

lemma set_btree_insert: "set (btree_insert k v m) \<subseteq> insert (k, v) (set m)"
  by (induction k v m rule: btree_insert.induct) auto

lemma map_of_btree_insert:
  "sorted_wrt (<) (map fst m) \<Longrightarrow> map_of (btree_insert k v m) k2 = (if k2 = k then Some v else map_of m k2)"
proof (induction k v m rule: btree_insert.induct)
  case (2 k v k' v' m)
  then show ?case by (auto simp: map_of_eq_None_iff)
qed simp

lemma lookup_btree_insert [simp]: "map_of (btree_insert k v m) k2 = (if k2 = k then Some v else map_of m k2)"
  by (induction k v m rule: btree_insert.induct) auto

section \<open>Errors of the git layers\<close>

text \<open>\<open>Error\<close> of \<open>git/core/src/lib.rs\<close>. A message keeps its fixed text; the numbers a message
  interpolates are not part of the value, since no caller reads them.\<close>

datatype error = Internal string | Invalid string | Missing bytes

end
