(* ===== verification/Varint.thy ===== *)
theory Varint
  imports Enroute_Prelude
begin

text \<open>
  Unsigned LEB128 of \<open>git/packfile/src/varint.rs\<close>: \<open>read_varint\<close> and \<open>write_varint\<close> at 64 bits, the
  round trip, the length bound, and what the reader does with a value that does not fit.
\<close>

section \<open>The codec\<close>

text \<open>The loop of \<open>read_varint\<close>: \<open>i\<close> bytes consumed, \<open>shift\<close> and \<open>value\<close> as the source has them. The
  shift \<open><<\<close> of a 64-bit value drops what it pushes off the top.\<close>

fun read_varint_from :: "nat \<Rightarrow> nat \<Rightarrow> u64 \<Rightarrow> bytes \<Rightarrow> (error, u64 \<times> nat) result" where
  "read_varint_from i shift value [] = Inl (Invalid ''varint truncated'')"
| "read_varint_from i shift value (byte # data) =
     (if 64 \<le> shift then Inl (Invalid ''varint overflow'')
      else
        let value' = value OR push_bit shift (ucast (byte AND 0x7f))
        in if byte AND 0x80 = 0 then Inr (value', i + 1)
           else read_varint_from (i + 1) (shift + 7) value' data)"

definition read_varint :: "bytes \<Rightarrow> (error, u64 \<times> nat) result" where
  "read_varint data = read_varint_from 0 0 0 data"

lemma unat_drop_bit_less: "drop_bit 7 v \<noteq> 0 \<Longrightarrow> unat (drop_bit 7 v) < unat (v :: u64)"
proof -
  assume nz: "drop_bit 7 v \<noteq> 0"
  have "unat (drop_bit 7 v) = unat v div 128"
    by (simp only: unat_drop_bit_eq) (simp add: drop_bit_eq_div)
  moreover have "unat v \<noteq> 0" using nz by (auto simp: unat_eq_0)
  ultimately show ?thesis by simp
qed

function write_varint :: "bytes \<Rightarrow> u64 \<Rightarrow> bytes" where
  "write_varint out value =
     (let byte = (ucast (value AND 0x7f) :: u8);
          value' = drop_bit 7 value;
          out' = out @ [if 0 < value' then byte OR 0x80 else byte]
      in if value' = 0 then out' else write_varint out' value')"
  by pat_completeness auto
termination
  by (relation "measure (\<lambda>(out, v). unat v)") (auto intro: unat_drop_bit_less)

declare write_varint.simps [simp del]

section \<open>Round trip\<close>

lemma write_varint_acc: "write_varint out v = out @ write_varint [] v"
proof (induction v arbitrary: out rule: measure_induct_rule [of unat])
  case (less v)
  show ?case
  proof (cases "drop_bit 7 v = 0")
    case True
    then show ?thesis by (simp add: write_varint.simps [of _ v] Let_def)
  next
    case False
    have step: "write_varint ys (drop_bit 7 v) = ys @ write_varint [] (drop_bit 7 v)" for ys
      using False by (intro less unat_drop_bit_less) simp
    show ?thesis using False
      by (simp add: write_varint.simps [of _ v] Let_def step [of "out @ _"] step [of "[_]"])
  qed
qed

lemma write_varint_step:
  "write_varint [] v =
     (if drop_bit 7 v = 0 then [ucast (v AND 0x7f)]
      else (ucast (v AND 0x7f) OR 0x80) # write_varint [] (drop_bit 7 v))"
  by (subst write_varint.simps) (simp add: Let_def write_varint_acc [of "[_]"] word_neq_0_conv)

lemma low7_mask: "(0x7f :: 'a::len word) = mask 7"
  by (simp add: mask_eq_exp_minus_1)

lemma high_bit_set: "((b :: u8) AND 0x80 = 0) = (\<not> bit b 7)"
proof -
  have "(0x80 :: u8) = 2 ^ 7" by simp
  then show ?thesis by (simp only: and_exp_eq_0_iff_not_bit)
qed

lemma varint_low_bits: "ucast (ucast (v AND 0x7f :: u64) :: u8) = v AND (0x7f :: u64)"
  unfolding low7_mask by (rule bit_word_eqI) (auto simp: bit_simps)

lemma varint_rejoin:
  "push_bit s (v AND 0x7f) OR push_bit (s + 7) (drop_bit 7 v) = push_bit s (v :: u64)"
proof (rule bit_word_eqI)
  fix n
  assume "n < LENGTH(64)"
  moreover have "7 + (n - (s + 7)) = n - s" if "s + 7 \<le> n" using that by simp
  ultimately show "bit (push_bit s (v AND 0x7f) OR push_bit (s + 7) (drop_bit 7 v)) n =
      bit (push_bit s v) n"
    unfolding low7_mask by (cases "s + 7 \<le> n") (auto simp: bit_simps)
qed

lemma varint_last_byte:
  "(ucast (v AND 0x7f :: u64) :: u8) AND 0x80 = 0"
  "(ucast (v AND 0x7f :: u64) :: u8) AND 0x7f = ucast (v AND 0x7f)"
  unfolding low7_mask high_bit_set by (auto intro!: bit_word_eqI simp: bit_simps)

lemma varint_more_byte:
  "(ucast (v AND 0x7f :: u64) OR 0x80 :: u8) AND 0x80 \<noteq> 0"
  "(ucast (v AND 0x7f :: u64) OR 0x80 :: u8) AND 0x7f = ucast (v AND 0x7f)"
proof -
  have "(0x80 :: u8) AND 0x7f = 0" by simp
  then show "(ucast (v AND 0x7f :: u64) OR 0x80 :: u8) AND 0x7f = ucast (v AND 0x7f)"
    by (simp only: bit.conj_disj_distrib2 varint_last_byte or.right_neutral)
  have "bit (0x80 :: u8) 7" by simp
  then show "(ucast (v AND 0x7f :: u64) OR 0x80 :: u8) AND 0x80 \<noteq> 0"
    unfolding high_bit_set by (simp only: bit_or_iff simp_thms)
qed

lemma unat_drop_bit_7: "unat (drop_bit 7 (v :: u64)) = unat v div 128"
  by (simp only: unat_drop_bit_eq) (simp add: drop_bit_eq_div)

lemma varint_small: "drop_bit 7 v = 0 \<Longrightarrow> v AND 0x7f = (v :: u64)"
proof -
  assume "drop_bit 7 v = 0"
  then have "unat v < 128" using unat_drop_bit_7 [of v] by (simp add: div_eq_0_iff)
  then have "unat (v AND 0x7f) = unat v"
    unfolding low7_mask
    by (simp only: take_bit_eq_mask [symmetric] unsigned_take_bit_eq) (simp add: take_bit_eq_mod)
  then show ?thesis by (simp only: unsigned_word_eqI)
qed

lemma varint_next_bound:
  assumes "drop_bit 7 v \<noteq> 0" and "shift < 64" and "unat (v :: u64) < 2 ^ (64 - shift)"
  shows "shift + 7 < 64" and "unat (drop_bit 7 v) < 2 ^ (64 - (shift + 7))"
proof -
  have ge: "128 \<le> unat v"
    using assms(1) unat_drop_bit_7 [of v] by (auto simp: unat_eq_0 [symmetric])
  then have lt: "(2 :: nat) ^ 7 < 2 ^ (64 - shift)" using assms(3) by simp
  then have "7 < 64 - shift" by (simp only: power_strict_increasing_iff)
  then show s: "shift + 7 < 64" by simp
  then have "64 - shift = (64 - (shift + 7)) + 7" by simp
  then have "(2 :: nat) ^ (64 - shift) = 2 ^ (64 - (shift + 7)) * 2 ^ 7"
    by (simp only: power_add)
  then show "unat (drop_bit 7 v) < 2 ^ (64 - (shift + 7))"
    using assms(3) by (simp add: unat_drop_bit_7 less_mult_imp_div_less)
qed

lemma read_varint_from_write:
  "shift < 64 \<Longrightarrow> unat v < 2 ^ (64 - shift) \<Longrightarrow>
     read_varint_from i shift acc (write_varint [] v @ rest) =
       Inr (acc OR push_bit shift v, i + length (write_varint [] v))"
proof (induction v arbitrary: i shift acc rule: measure_induct_rule [of unat])
  case (less v)
  show ?case
  proof (cases "drop_bit 7 v = 0")
    case True
    from varint_last_byte [of v] varint_low_bits [of v] have
      "(ucast v :: u8) AND 0x80 = 0" "ucast ((ucast v :: u8) AND 0x7f) = v"
      by (simp_all add: varint_small [OF True])
    with True less.prems show ?thesis
      by (simp add: write_varint_step [of v] varint_small)
  next
    case False
    note nx = varint_next_bound [OF False less.prems]
    have join: "acc OR push_bit shift v =
        (acc OR push_bit shift (v AND 0x7f)) OR push_bit (shift + 7) (drop_bit 7 v)"
      by (simp only: or.assoc varint_rejoin)
    have "read_varint_from (i + 1) (shift + 7) (acc OR push_bit shift (v AND 0x7f))
            (write_varint [] (drop_bit 7 v) @ rest) =
          Inr (acc OR push_bit shift v, i + 1 + length (write_varint [] (drop_bit 7 v)))"
      unfolding join using False by (intro less.IH unat_drop_bit_less nx)
    with False less.prems show ?thesis
      by (simp add: write_varint_step [of v] varint_more_byte varint_low_bits)
  qed
qed

lemma read_varint_write [codec_simps]:
  "read_varint (write_varint [] v @ rest) = Inr (v, length (write_varint [] v))"
  using read_varint_from_write [of 0 v 0 0 rest] unat_bound [of v] by (simp add: read_varint_def)

lemma write_varint_length: "unat v < 2 ^ (7 * Suc k) \<Longrightarrow> length (write_varint [] v) \<le> Suc k"
proof (induction k arbitrary: v)
  case 0
  then have "drop_bit 7 v = 0"
    by (simp add: word_unat_eq_iff unat_drop_bit_7)
  then show ?case by (simp add: write_varint_step [of v])
next
  case (Suc k)
  have "unat (drop_bit 7 v) < 2 ^ (7 * Suc k)"
    using Suc.prems by (simp add: unat_drop_bit_7 power_add less_mult_imp_div_less mult.commute)
  from Suc.IH [OF this] show ?case by (simp add: write_varint_step [of v])
qed

text \<open>
  C11: writing appends between one and ten bytes after what the buffer holds, and reading those bytes
  back gives the value and their number, whatever follows, for every 64-bit value.
\<close>

theorem write_varint_round_trip:
  "\<exists>enc. write_varint out v = out @ enc \<and> 0 < length enc \<and> length enc \<le> 10 \<and>
     (\<forall>rest. read_varint (enc @ rest) = Inr (v, length enc))"
proof -
  have "unat v < 2 ^ (7 * Suc 9)" using unat_bound [of v] by simp
  then have "length (write_varint [] v) \<le> 10" using write_varint_length by fastforce
  moreover have "0 < length (write_varint [] v)" by (simp add: write_varint_step [of v])
  ultimately show ?thesis
    by (intro exI [of _ "write_varint [] v"]) (simp add: write_varint_acc [of out] read_varint_write)
qed

section \<open>What the reader accepts\<close>

text \<open>The number a LEB128 byte string stands for, and how many of its bytes ask for another.\<close>

fun leb_nat :: "bytes \<Rightarrow> nat" where
  "leb_nat [] = 0"
| "leb_nat (b # bs) = unat (b AND 0x7f) + 128 * leb_nat bs"

definition leb_run :: "bytes \<Rightarrow> nat" where
  "leb_run data = length (takeWhile (\<lambda>b. b AND 0x80 \<noteq> 0) data)"

lemma leb_run_simps [simp]:
  "leb_run [] = 0"
  "leb_run (b # bs) = (if b AND 0x80 = 0 then 0 else Suc (leb_run bs))"
  by (simp_all add: leb_run_def)

lemma low7_bound: "unat ((b :: u8) AND 0x7f) < 128"
  unfolding low7_mask
  by (simp only: take_bit_eq_mask [symmetric] unsigned_take_bit_eq) (simp add: take_bit_eq_mod)

lemma or_push_bit_7:
  "ucast (b AND 0x7f :: u8) OR push_bit 7 y = ucast (b AND 0x7f) + 128 * (y :: u64)"
proof -
  have "ucast (b AND 0x7f :: u8) + push_bit 7 y = ucast (b AND 0x7f) OR push_bit 7 y"
    unfolding low7_mask by (rule disjunctive_add_eq_or) (auto intro!: bit_word_eqI simp: bit_simps)
  then show ?thesis by (simp add: push_bit_eq_mult mult.commute)
qed

lemma varint_accumulate:
  "(acc OR push_bit s (ucast (b AND 0x7f))) OR push_bit (s + 7) (of_nat n) =
     acc OR push_bit s (of_nat (unat ((b :: u8) AND 0x7f) + 128 * n) :: u64)"
proof -
  have "push_bit (s + 7) (of_nat n :: u64) = push_bit s (push_bit 7 (of_nat n))"
    by (simp add: add.commute)
  then have "push_bit s (ucast (b AND 0x7f)) OR push_bit (s + 7) (of_nat n :: u64)
      = push_bit s (ucast (b AND 0x7f) + 128 * of_nat n)"
    by (simp only: push_bit_or [symmetric] or_push_bit_7)
  moreover have "ucast (b AND 0x7f) = (of_nat (unat (b AND 0x7f)) :: u64)"
    by (simp add: unsigned_of_nat)
  ultimately show ?thesis by (simp only: or.assoc of_nat_add of_nat_mult of_nat_numeral)
qed

lemma read_varint_from_spec:
  "i \<le> 10 \<Longrightarrow> read_varint_from i (7 * i) acc data =
     (if leb_run data < length data \<and> i + leb_run data < 10
      then Inr (acc OR push_bit (7 * i) (of_nat (leb_nat (take (Suc (leb_run data)) data))),
                i + Suc (leb_run data))
      else if 10 \<le> i + leb_run data \<and> 10 < i + length data then Inl (Invalid ''varint overflow'')
      else Inl (Invalid ''varint truncated''))"
proof (induction data arbitrary: i acc)
  case Nil
  then show ?case by (simp add: leb_run_def)
next
  case (Cons b data)
  show ?case
  proof (cases "b AND 0x80 = 0")
    case True
    with Cons.prems show ?thesis by (auto simp: Let_def)
  next
    case False
    show ?thesis
    proof (cases "i = 10")
      case True
      then show ?thesis by simp
    next
      case neq: False
      with Cons.prems have i: "Suc i \<le> 10" "7 * i < 64" by auto
      have shift: "7 * Suc i = 7 * i + 7" by simp
      from i False Cons.IH [OF i(1), of "acc OR push_bit (7 * i) (ucast (b AND 0x7f))"] show ?thesis
        unfolding shift by (simp add: Let_def varint_accumulate del: of_nat_add of_nat_mult)
    qed
  qed
qed

text \<open>
  C12: the reader is the LEB128 reading of the input taken modulo \<open>2 ^ 64\<close>: with the first byte
  whose high bit is clear among the first ten it returns the value and its length, with ten
  continuation bytes and an eleventh byte it reports the overflow, and otherwise the truncation.
  Bits of the tenth byte past the 64th are dropped, not reported.
\<close>

theorem read_varint_spec:
  "read_varint data =
     (if leb_run data < length data \<and> leb_run data < 10
      then Inr (of_nat (leb_nat (take (Suc (leb_run data)) data)), Suc (leb_run data))
      else if 10 \<le> leb_run data \<and> 10 < length data then Inl (Invalid ''varint overflow'')
      else Inl (Invalid ''varint truncated''))"
  using read_varint_from_spec [of 0 0 data] by (simp add: read_varint_def)

text \<open>Ten bytes standing for \<open>2 ^ 70 - 1\<close> are accepted, with the value reduced modulo \<open>2 ^ 64\<close>.\<close>

lemma read_varint_accepts_overrun:
  "read_varint [255, 255, 255, 255, 255, 255, 255, 255, 255, 127] = Inr (18446744073709551615, 10)"
  by (simp add: read_varint_def Let_def)

lemma leb_nat_overrun:
  "leb_nat [255, 255, 255, 255, 255, 255, 255, 255, 255, 127] = 2 ^ 70 - 1"
  by simp

end
