(* ===== verification/Delta.thy ===== *)
theory Delta
  imports Varint
begin

text \<open>
  The git delta codec of \<open>git/packfile/src/delta\<close>: \<open>apply_delta\<close> (apply.rs) and \<open>encode_delta\<close>
  (encode.rs) with its block index and rolling hash. A delta is read as the suffix not yet consumed,
  so the index \<open>i\<close> of the source is the length already dropped; the output buffer \<open>out\<close> of
  \<open>apply_delta\<close> is the bytes written and the room left. A \<open>usize\<close> holds every \<open>u32\<close> and \<open>u64\<close>, so
  the conversions into it do not fail.
\<close>

section \<open>Limits\<close>

definition MAX_OBJECT_BYTES :: u64 where
  "MAX_OBJECT_BYTES = 100 * 1024 * 1024"

definition MAX_COPY :: nat where
  "MAX_COPY = 0x00ffffff"

definition MAX_INSERT :: nat where
  "MAX_INSERT = 0x7f"

definition BLOCK :: nat where
  "BLOCK = 16"

definition MAX_CANDIDATES :: nat where
  "MAX_CANDIDATES = 64"

definition MULT :: u32 where
  "MULT = 0x01000193"

definition OUTGOING :: u32 where
  "OUTGOING = ((\<lambda>pow. pow * MULT) ^^ (BLOCK - 1)) 1"

definition NO_BLOCK :: u32 where
  "NO_BLOCK = - 1"

section \<open>Applying a delta\<close>

text \<open>The macro \<open>read_byte!\<close>.\<close>

definition read_byte :: "u8 \<Rightarrow> u8 \<Rightarrow> nat \<Rightarrow> u32 \<times> bytes \<Rightarrow> (error, u32 \<times> bytes) result" where
  "read_byte cmd msk shift st = (case st of (dst, ds) \<Rightarrow>
     if cmd AND msk \<noteq> 0 then
       (case ds of [] \<Rightarrow> Inl (Invalid ''delta copy instruction truncated'')
        | b # ds' \<Rightarrow> Inr (dst OR push_bit shift (ucast b), ds'))
     else Inr (dst, ds))"

definition read_copy :: "u8 \<Rightarrow> bytes \<Rightarrow> (error, nat \<times> nat \<times> bytes) result" where
  "read_copy cmd ds =
     rbind (read_byte cmd 0x01 0 (0, ds)) (\<lambda>st.
     rbind (read_byte cmd 0x02 8 st) (\<lambda>st.
     rbind (read_byte cmd 0x04 16 st) (\<lambda>st.
     rbind (read_byte cmd 0x08 24 st) (\<lambda>(ofs, ds).
     rbind (read_byte cmd 0x10 0 (0, ds)) (\<lambda>st.
     rbind (read_byte cmd 0x20 8 st) (\<lambda>st.
     rbind (read_byte cmd 0x40 16 st) (\<lambda>(sz, ds).
       Inr (unat ofs, unat (if sz = 0 then 0x10000 else sz), ds))))))))"

text \<open>\<open>write_all\<close> into the unwritten part of the result buffer.\<close>

definition write_out :: "nat \<times> bytes \<Rightarrow> bytes \<Rightarrow> (error, nat \<times> bytes) result" where
  "write_out out src = (case out of (room, written) \<Rightarrow>
     if length src \<le> room then Inr (room - length src, written @ src)
     else Inl (Invalid ''delta result buffer overflow''))"

lemma read_byte_shrinks: "read_byte cmd msk shift (dst, ds) = Inr (dst', ds') \<Longrightarrow> length ds' \<le> length ds"
  by (auto simp: read_byte_def split: if_splits list.splits)

lemma read_copy_shrinks: "read_copy cmd ds = Inr (ofs, sz, ds') \<Longrightarrow> length ds' \<le> length ds"
  by (auto simp: read_copy_def result_simps dest!: read_byte_shrinks)

function apply_instrs :: "bytes \<Rightarrow> nat \<times> bytes \<Rightarrow> bytes \<Rightarrow> (error, nat \<times> bytes) result" where
  "apply_instrs base out [] = Inr out"
| "apply_instrs base out (cmd # ds) =
     (if cmd AND 0x80 \<noteq> 0 then
        rbind (read_copy cmd ds) (\<lambda>(ofs, sz, ds').
        if usize_max < ofs + sz then Inl (Invalid ''delta copy range overflow'')
        else rbind (ok_or (slice base ofs (ofs + sz)) (Invalid ''delta copy range exceeds base'')) (\<lambda>src.
        rbind (write_out out src) (\<lambda>out. apply_instrs base out ds')))
      else if cmd = 0 then Inl (Invalid ''invalid delta command 0x00'')
      else
        rbind (ok_or (slice_upto ds (unat cmd)) (Invalid ''delta insert data truncated'')) (\<lambda>src.
        rbind (write_out out src) (\<lambda>out. apply_instrs base out (drop (unat cmd) ds))))"
  by pat_completeness auto
termination
  by (relation "measure (\<lambda>(base, out, ds). length ds)") (auto dest!: read_copy_shrinks)

definition apply_delta :: "bytes \<Rightarrow> bytes \<Rightarrow> (error, bytes) result" where
  "apply_delta base delta =
     rbind (read_varint delta) (\<lambda>(base_size, n).
     rbind (ok_or (slice_from delta n) (Invalid ''delta truncated after base_size'')) (\<lambda>delta.
     if unat base_size \<noteq> length base then Inl (Invalid ''delta base size mismatch'')
     else rbind (read_varint delta) (\<lambda>(result_size, n).
     rbind (ok_or (slice_from delta n) (Invalid ''delta truncated after result_size'')) (\<lambda>delta.
     if MAX_OBJECT_BYTES < result_size then Inl (Invalid ''delta result too large'')
     else rbind (apply_instrs base (unat result_size, []) delta) (\<lambda>(room, written).
     if room \<noteq> 0 then Inl (Invalid ''delta instructions produced fewer bytes than promised'')
     else Inr written)))))"

section \<open>The rolling hash\<close>

definition block_hash :: "bytes \<Rightarrow> u32" where
  "block_hash window = foldl (\<lambda>acc byte. acc * MULT + ucast byte) 0 window"

definition roll :: "u32 \<Rightarrow> u8 \<Rightarrow> u8 \<Rightarrow> u32" where
  "roll hash outgoing incoming = (hash - ucast outgoing * OUTGOING) * MULT + ucast incoming"

definition bucket :: "u32 \<Rightarrow> nat \<Rightarrow> nat" where
  "bucket hash msk = unat (hash XOR drop_bit 13 hash) AND msk"

definition common_prefix :: "bytes \<Rightarrow> bytes \<Rightarrow> nat" where
  "common_prefix a b = length (takeWhile (\<lambda>(x, y). x = y) (zip a b))"

definition common_suffix :: "bytes \<Rightarrow> bytes \<Rightarrow> nat" where
  "common_suffix a b = length (takeWhile (\<lambda>(x, y). x = y) (zip (rev a) (rev b)))"

section \<open>The block index\<close>

record block_index =
  bi_head :: "u32 list"
  bi_next :: "u32 list"
  bi_mask :: nat

record match =
  m_start :: nat
  m_base_offset :: nat
  m_len :: nat

function next_power_from :: "nat \<Rightarrow> nat \<Rightarrow> nat" where
  "next_power_from k n = (if 2 ^ k < n then next_power_from (Suc k) n else 2 ^ k)"
  by pat_completeness auto
termination
proof (relation "measure (\<lambda>(k, n). n - k)")
  fix k n :: nat
  assume "2 ^ k < n"
  with less_exp [of k] have "k < n" by (rule less_trans)
  then show "((Suc k, n), (k, n)) \<in> measure (\<lambda>(k, n). n - k)" by simp
qed simp

declare next_power_from.simps [simp del]

definition next_power_of_two :: "nat \<Rightarrow> nat" where
  "next_power_of_two n = next_power_from 0 n"

text \<open>The windows of \<open>as_chunks::<BLOCK>().0\<close>: the whole blocks, without the remainder.\<close>

definition block_at :: "bytes \<Rightarrow> nat \<Rightarrow> bytes" where
  "block_at base n = take BLOCK (drop (n * BLOCK) base)"

fun build_loop :: "nat \<Rightarrow> bytes list \<Rightarrow> nat \<Rightarrow> u32 list \<times> u32 list \<Rightarrow> u32 list \<times> u32 list" where
  "build_loop msk [] number hn = hn"
| "build_loop msk (window # windows) number (head, chain) =
     (case try_u32 number of None \<Rightarrow> (head, chain)
      | Some block \<Rightarrow>
          (let slot = bucket (block_hash window) msk in
           build_loop msk windows (Suc number)
             (if number < length chain \<and> slot < length head
              then (head[slot := block], chain[number := head ! slot])
              else (head, chain))))"

definition build_index :: "bytes \<Rightarrow> block_index" where
  "build_index base =
     (let blocks = length base div BLOCK in
      if blocks = 0 then \<lparr>bi_head = [], bi_next = [], bi_mask = 0\<rparr>
      else let size = next_power_of_two blocks;
               (head, chain) = build_loop (size - 1) (map (block_at base) [0..<blocks]) 0
                 (replicate size NO_BLOCK, replicate blocks NO_BLOCK)
           in \<lparr>bi_head = head, bi_next = chain, bi_mask = size - 1\<rparr>)"

text \<open>One candidate of \<open>best_match\<close>: the best match so far after looking at the block at \<open>offset\<close>.\<close>

definition consider_block ::
    "bytes \<Rightarrow> nat \<Rightarrow> bytes \<Rightarrow> bytes \<Rightarrow> nat \<Rightarrow> match option \<Rightarrow> match option" where
  "consider_block base pos ahead behind offset best =
     (let forward = (case slice_from base offset of None \<Rightarrow> 0 | Some from \<Rightarrow> common_prefix from ahead);
          backward = (case slice_upto base offset of None \<Rightarrow> 0 | Some before \<Rightarrow> common_suffix before behind);
          len = forward + backward
      in if 0 < forward \<and> BLOCK \<le> len \<and> (case best of None \<Rightarrow> True | Some b \<Rightarrow> m_len b < len)
         then Some \<lparr>m_start = pos - backward, m_base_offset = offset - backward, m_len = len\<rparr>
         else best)"

fun best_match_loop ::
    "block_index \<Rightarrow> bytes \<Rightarrow> nat \<Rightarrow> bytes \<Rightarrow> bytes \<Rightarrow> nat \<Rightarrow> u32 \<Rightarrow> match option \<Rightarrow> match option" where
  "best_match_loop index base pos ahead behind 0 candidate best = best"
| "best_match_loop index base pos ahead behind (Suc k) candidate best =
     (let block = unat candidate; offset = block * BLOCK in
      if usize_max < offset then None
      else let best = consider_block base pos ahead behind offset best in
      (case get_at (bi_next index) block of None \<Rightarrow> None
       | Some candidate \<Rightarrow>
           if candidate = NO_BLOCK then best
           else best_match_loop index base pos ahead behind k candidate best))"

definition best_match ::
    "block_index \<Rightarrow> bytes \<Rightarrow> bytes \<Rightarrow> nat \<Rightarrow> nat \<Rightarrow> u32 \<Rightarrow> match option" where
  "best_match index base target pos pending hash =
     (case slice_from target pos of None \<Rightarrow> None
      | Some ahead \<Rightarrow>
     (case slice target pending pos of None \<Rightarrow> None
      | Some behind \<Rightarrow>
     (case get_at (bi_head index) (bucket hash (bi_mask index)) of None \<Rightarrow> None
      | Some candidate \<Rightarrow>
          best_match_loop index base pos ahead behind MAX_CANDIDATES candidate None)))"

section \<open>Emitting instructions\<close>

function chunks :: "nat \<Rightarrow> 'a list \<Rightarrow> 'a list list" where
  "chunks n xs = (if n = 0 \<or> xs = [] then [] else take n xs # chunks n (drop n xs))"
  by pat_completeness auto
termination by (relation "measure (\<lambda>(n, xs). length xs)") auto

declare chunks.simps [simp del]

fun push_literal_chunks :: "bytes \<Rightarrow> bytes list \<Rightarrow> (error, bytes) result" where
  "push_literal_chunks out [] = Inr out"
| "push_literal_chunks out (chunk # cs) =
     (if 256 \<le> length chunk then Inl (Invalid ''delta insert length'')
      else push_literal_chunks (out @ of_nat (length chunk) # chunk) cs)"

definition push_literal :: "bytes \<Rightarrow> bytes \<Rightarrow> (error, bytes) result" where
  "push_literal out data = push_literal_chunks out (chunks MAX_INSERT data)"

text \<open>The two loops of \<open>push_copy_instruction\<close>: every non-zero byte sets its bit of the command and
  takes the next of the seven payload slots.\<close>

fun push_copy_bytes :: "nat \<Rightarrow> bytes \<Rightarrow> u8 \<times> bytes \<Rightarrow> u8 \<times> bytes" where
  "push_copy_bytes i [] st = st"
| "push_copy_bytes i (byte # bs) (cmd, payload) =
     push_copy_bytes (Suc i) bs
       (if byte \<noteq> 0
        then (cmd OR push_bit i 1, if length payload < 7 then payload @ [byte] else payload)
        else (cmd, payload))"

definition push_copy_instruction :: "bytes \<Rightarrow> u32 \<Rightarrow> u32 \<Rightarrow> bytes" where
  "push_copy_instruction out offset sz =
     (let st = push_copy_bytes 0 (to_le32 offset) (0x80, []);
          (cmd, payload) = push_copy_bytes 4 (take 3 (to_le32 sz)) st
      in out @ cmd # payload)"

function push_copy_from :: "bytes \<Rightarrow> nat \<Rightarrow> nat \<Rightarrow> nat \<Rightarrow> (error, bytes) result" where
  "push_copy_from out base_offset len finished =
     (if finished < len then
        (let taken = min (len - finished) MAX_COPY in
         rbind (ok_or (try_u32 (base_offset + finished)) (Invalid ''delta copy offset'')) (\<lambda>offset.
         rbind (ok_or (try_u32 taken) (Invalid ''delta copy size'')) (\<lambda>sz.
         push_copy_from (push_copy_instruction out offset sz) base_offset len (finished + taken))))
      else Inr out)"
  by pat_completeness auto
termination
  by (relation "measure (\<lambda>(out, off, len, finished). len - finished)") (auto simp: MAX_COPY_def)

declare push_copy_from.simps [simp del]

definition push_copy :: "bytes \<Rightarrow> nat \<Rightarrow> nat \<Rightarrow> (error, bytes) result" where
  "push_copy out base_offset len = push_copy_from out base_offset len 0"

section \<open>Soundness of a match\<close>

lemma common_prefix_take: "take (common_prefix a b) a = take (common_prefix a b) b"
proof (induction a arbitrary: b)
  case Nil
  show ?case by (simp add: common_prefix_def)
next
  case (Cons x a)
  show ?case
  proof (cases b)
    case Nil
    then show ?thesis by (simp add: common_prefix_def)
  next
    case [simp]: (Cons y b')
    show ?thesis using Cons.IH [of b'] by (simp add: common_prefix_def)
  qed
qed

lemma common_prefix_le: "common_prefix a b \<le> length a" "common_prefix a b \<le> length b"
proof -
  have "common_prefix a b \<le> length (zip a b)"
    unfolding common_prefix_def by (rule length_takeWhile_le)
  then show "common_prefix a b \<le> length a" "common_prefix a b \<le> length b" by simp_all
qed

lemma common_suffix_prefix: "common_suffix a b = common_prefix (rev a) (rev b)"
  by (simp add: common_suffix_def common_prefix_def)

lemma common_suffix_le: "common_suffix a b \<le> length a" "common_suffix a b \<le> length b"
  using common_prefix_le [of "rev a" "rev b"] by (simp_all add: common_suffix_prefix)

lemma common_suffix_drop:
  "drop (length a - common_suffix a b) a = drop (length b - common_suffix a b) b"
  using common_prefix_take [of "rev a" "rev b"]
  by (simp add: common_suffix_prefix take_rev)

text \<open>What a match promises: it ends after \<open>pos\<close>, starts no earlier than the literal run, and the
  run of \<open>target\<close> is the run of \<open>base\<close>.\<close>

definition match_ok :: "bytes \<Rightarrow> bytes \<Rightarrow> nat \<Rightarrow> nat \<Rightarrow> match \<Rightarrow> bool" where
  "match_ok base target pending pos m \<longleftrightarrow>
     pending \<le> m_start m \<and> m_start m \<le> pos \<and> pos < m_start m + m_len m \<and>
     m_start m + m_len m \<le> length target \<and> m_base_offset m + m_len m \<le> length base \<and>
     take (m_len m) (drop (m_start m) target) = take (m_len m) (drop (m_base_offset m) base)"

lemma backward_run:
  assumes "b \<le> n" "n \<le> length xs"
  shows "drop (n - b) (take n xs) = take b (drop (n - b) xs)"
  using assms by (simp add: drop_take)

lemma extend_both_ways:
  assumes "ahead = drop pos target" and "behind = take (pos - pending) (drop pending target)"
    and "pending \<le> pos" "pos \<le> length target" "offset \<le> length base"
    and f: "f = common_prefix (drop offset base) ahead"
    and b: "b = common_suffix (take offset base) behind"
  shows "b \<le> offset" "b \<le> pos - pending"
    and "take (b + f) (drop (offset - b) base) = take (b + f) (drop (pos - b) target)"
proof -
  have len: "length behind = pos - pending" "length (take offset base) = offset"
    using assms by simp_all
  show b1: "b \<le> offset" and b2: "b \<le> pos - pending"
    using common_suffix_le [of "take offset base" behind] unfolding b len by simp_all
  have "take b (drop (offset - b) base) = drop (offset - b) (take offset base)"
    using b1 assms(5) by (simp add: backward_run)
  also have "\<dots> = drop (pos - pending - b) behind"
    using common_suffix_drop [of "take offset base" behind] unfolding b [symmetric] len by simp
  also have "\<dots> = take b (drop (pos - b) target)"
    using b2 assms(2-4) by (simp add: drop_take)
  finally have bk: "take b (drop (offset - b) base) = take b (drop (pos - b) target)" .
  have "take f (drop offset base) = take f (drop pos target)"
    using common_prefix_take [of "drop offset base" ahead] unfolding f assms(1) .
  with bk b1 b2 assms(3) show "take (b + f) (drop (offset - b) base) = take (b + f) (drop (pos - b) target)"
    by (simp add: take_add)
qed

lemma consider_block_ok:
  assumes "ahead = drop pos target" "behind = take (pos - pending) (drop pending target)"
    and "pending \<le> pos" "pos \<le> length target"
    and best: "\<And>m. best = Some m \<Longrightarrow> match_ok base target pending pos m"
    and res: "consider_block base pos ahead behind offset best = Some m"
  shows "match_ok base target pending pos m"
proof (cases "offset \<le> length base")
  case False
  with res best show ?thesis
    by (simp add: consider_block_def slice_from_def slice_upto_def)
next
  case True
  define f where "f = common_prefix (drop offset base) ahead"
  define b where "b = common_suffix (take offset base) behind"
  note ext = extend_both_ways [OF assms(1-4) True f_def b_def]
  have "f \<le> length base - offset" "f \<le> length target - pos"
    using common_prefix_le [of "drop offset base" ahead] by (simp_all add: f_def assms(1))
  with res best ext True assms(3,4) show ?thesis
    by (auto simp: consider_block_def slice_from_def slice_upto_def Let_def match_ok_def add.commute
          simp flip: f_def b_def split: if_splits)
qed

lemma best_match_loop_ok:
  assumes "ahead = drop pos target" "behind = take (pos - pending) (drop pending target)"
    and "pending \<le> pos" "pos \<le> length target"
  shows "(\<And>m. best = Some m \<Longrightarrow> match_ok base target pending pos m) \<Longrightarrow>
    best_match_loop index base pos ahead behind k candidate best = Some m \<Longrightarrow>
    match_ok base target pending pos m"
proof (induction k arbitrary: candidate best)
  case 0
  then show ?case by simp
next
  case (Suc k)
  have step: "match_ok base target pending pos m"
    if "consider_block base pos ahead behind offset best = Some m" for offset m
    using assms Suc.prems(1) that by (rule consider_block_ok)
  show ?case
    using Suc.prems(2) by (auto simp: Let_def split: if_splits option.splits intro: step elim: Suc.IH [rotated])
qed

lemma best_match_ok:
  "best_match index base target pos pending hash = Some m \<Longrightarrow> match_ok base target pending pos m"
  by (auto simp: best_match_def slice_from_def slice_def split: option.splits if_splits
      elim!: best_match_loop_ok [OF refl refl, rotated 3])

section \<open>Encoding a delta\<close>

function encode_loop ::
    "block_index \<Rightarrow> bytes \<Rightarrow> bytes \<Rightarrow> bytes \<Rightarrow> nat \<Rightarrow> nat \<Rightarrow> u32 \<Rightarrow> (error, bytes \<times> nat) result" where
  "encode_loop index base target out pending pos hash =
     (if pos < length target then
        (case (if pos + BLOCK \<le> length target then best_match index base target pos pending hash else None)
         of Some m \<Rightarrow>
              rbind (ok_or (slice target pending (m_start m)) (Invalid ''delta literal range out of bounds'')) (\<lambda>literal.
              rbind (push_literal out literal) (\<lambda>out.
              rbind (push_copy out (m_base_offset m) (m_len m)) (\<lambda>out.
              let pos = m_start m + m_len m in
              encode_loop index base target out pos pos
                (case slice target pos (pos + BLOCK) of None \<Rightarrow> 0 | Some window \<Rightarrow> block_hash window))))
          | None \<Rightarrow>
              encode_loop index base target out pending (pos + 1)
                (case (get_at target pos, get_at target (pos + BLOCK)) of
                   (Some outgoing, Some incoming) \<Rightarrow> roll hash outgoing incoming
                 | _ \<Rightarrow> hash))
      else Inr (out, pending))"
  by pat_completeness auto
termination
  by (relation "measure (\<lambda>(index, base, target, out, pending, pos, hash). length target - pos)")
    (auto simp: match_ok_def split: if_splits dest!: best_match_ok)

declare encode_loop.simps [simp del]

definition encode_delta :: "bytes \<Rightarrow> bytes \<Rightarrow> (error, bytes) result" where
  "encode_delta base target =
     (let base_len = u64_len base; target_len = u64_len target in
      if MAX_OBJECT_BYTES < base_len \<or> MAX_OBJECT_BYTES < target_len
      then Inl (Invalid ''delta inputs exceed MAX_OBJECT_BYTES'')
      else let out = write_varint (write_varint [] base_len) target_len;
               hash = (case slice_upto target BLOCK of None \<Rightarrow> 0 | Some window \<Rightarrow> block_hash window)
      in rbind (encode_loop (build_index base) base target out 0 0 hash) (\<lambda>(out, pending).
         rbind (ok_or (slice_from target pending) (Invalid ''delta literal tail out of bounds'')) (\<lambda>literal.
         push_literal out literal)))"

section \<open>Instructions that write a given run\<close>

definition emits :: "bytes \<Rightarrow> bytes \<Rightarrow> bytes \<Rightarrow> bool" where
  "emits base ins ts \<longleftrightarrow> (\<forall>room written ds. length ts \<le> room \<longrightarrow>
     apply_instrs base (room, written) (ins @ ds) = apply_instrs base (room - length ts, written @ ts) ds)"

lemma emits_Nil [simp]: "emits base [] []"
  by (simp add: emits_def)

lemma emits_append:
  "emits base ins1 ts1 \<Longrightarrow> emits base ins2 ts2 \<Longrightarrow> emits base (ins1 @ ins2) (ts1 @ ts2)"
  by (simp add: emits_def)

lemma insert_command:
  assumes "0 < n" "n \<le> MAX_INSERT"
  shows "(of_nat n :: u8) AND 0x80 = 0" "(of_nat n :: u8) \<noteq> 0" "unat (of_nat n :: u8) = n"
proof -
  show u: "unat (of_nat n :: u8) = n"
    using assms by (simp add: unat_of_nat MAX_INSERT_def)
  then show "(of_nat n :: u8) \<noteq> 0" using assms by auto
  have "\<not> bit n 7" using assms by (simp add: bit_iff_odd MAX_INSERT_def)
  then have "\<not> bit (unat (of_nat n :: u8)) 7" by (subst u)
  then have "(of_nat n :: u8) AND 2 ^ 7 = 0"
    by (simp add: bit_unsigned_iff and_exp_eq_0_iff_not_bit del: power_numeral)
  then show "(of_nat n :: u8) AND 0x80 = 0" by simp
qed

lemma emits_insert:
  assumes "chunk \<noteq> []" "length chunk \<le> MAX_INSERT"
  shows "emits base (of_nat (length chunk) # chunk) chunk"
  using assms insert_command [of "length chunk"]
  by (simp add: emits_def slice_upto_def write_out_def)

lemma push_literal_chunks_emits:
  "\<forall>c \<in> set cs. c \<noteq> [] \<and> length c \<le> MAX_INSERT \<Longrightarrow>
     \<exists>ins. push_literal_chunks out cs = Inr (out @ ins) \<and> emits base ins (concat cs)"
proof (induction cs arbitrary: out)
  case Nil
  show ?case by simp
next
  case (Cons c cs)
  let ?i = "of_nat (length c) # c"
  from Cons.IH [of "out @ ?i"] Cons.prems obtain ins where
    "push_literal_chunks (out @ ?i) cs = Inr ((out @ ?i) @ ins)" "emits base ins (concat cs)"
    by auto
  moreover have "emits base ?i c" using Cons.prems by (simp add: emits_insert)
  moreover have "length c < 256" using Cons.prems by (simp add: MAX_INSERT_def)
  ultimately show ?case
    using emits_append [of base ?i c ins "concat cs"] by auto
qed

lemma concat_chunks: "0 < n \<Longrightarrow> concat (chunks n xs) = xs"
  by (induction n xs rule: chunks.induct) (subst chunks.simps, simp)

lemma chunks_bounds: "c \<in> set (chunks n xs) \<Longrightarrow> c \<noteq> [] \<and> length c \<le> n"
proof (induction n xs rule: chunks.induct)
  case (1 n xs)
  from 1(2) have ne: "n \<noteq> 0" "xs \<noteq> []" and c: "c = take n xs \<or> c \<in> set (chunks n (drop n xs))"
    by (simp_all add: chunks.simps [of n xs] split: if_splits)
  from c show ?case using ne 1(1) by auto
qed

lemma push_literal_emits:
  "\<exists>ins. push_literal out data = Inr (out @ ins) \<and> emits base ins data"
proof -
  have "\<forall>c \<in> set (chunks MAX_INSERT data). c \<noteq> [] \<and> length c \<le> MAX_INSERT"
    using chunks_bounds by blast
  from push_literal_chunks_emits [OF this, of out base] show ?thesis
    by (simp add: push_literal_def concat_chunks MAX_INSERT_def)
qed

section \<open>Copy instructions\<close>

lemma push_copy_bytes_payload:
  "length payload + length bs \<le> 7 \<Longrightarrow>
     snd (push_copy_bytes i bs (cmd, payload)) = payload @ filter (\<lambda>b. b \<noteq> 0) bs"
  by (induction bs arbitrary: i cmd payload) auto

lemma push_copy_bytes_bit:
  "j < 8 \<Longrightarrow> bit (fst (push_copy_bytes i bs (cmd, payload))) j \<longleftrightarrow>
     bit cmd j \<or> (i \<le> j \<and> j < i + length bs \<and> bs ! (j - i) \<noteq> 0)"
proof (induction bs arbitrary: i j cmd payload)
  case Nil
  then show ?case by auto
next
  case (Cons b bs)
  have set_bit: "bit (cmd OR 2 ^ i) j \<longleftrightarrow> bit cmd j \<or> j = i" if "j < 8" for j
    using that by (auto simp: bit_simps)
  consider "j < i" | "j = i" | "i < j" by linarith
  then show ?case
    by cases (use Cons.prems in \<open>simp_all add: Cons.IH set_bit nth_Cons'\<close>)
qed

lemma read_byte_present:
  assumes "cmd AND msk \<noteq> 0 \<longleftrightarrow> b \<noteq> 0"
  shows "read_byte cmd msk shift (dst, filter (\<lambda>b. b \<noteq> 0) (b # bs) @ ds) =
    Inr (dst OR push_bit shift (ucast b), filter (\<lambda>b. b \<noteq> 0) bs @ ds)"
  using assms by (auto simp: read_byte_def)

lemma le_bytes_4: "le_bytes 4 v = [of_nat (v mod 256), of_nat (v div 2 ^ 8 mod 256),
    of_nat (v div 2 ^ 16 mod 256), of_nat (v div 2 ^ 24 mod 256)]"
proof -
  have four: "(4::nat) = Suc (Suc (Suc (Suc 0)))" by simp
  show ?thesis unfolding four by (simp add: div_mult2_eq [symmetric])
qed

lemma to_le32_bytes:
  "to_le32 w = [ucast w, ucast (drop_bit 8 w), ucast (drop_bit 16 w), ucast (drop_bit 24 w)]"
proof -
  have byte: "of_nat (unat w div 2 ^ n mod 256) = (ucast (drop_bit n w) :: u8)" for n
  proof -
    have "unat (drop_bit n w) = unat w div 2 ^ n"
      by (simp only: unat_drop_bit_eq) (simp add: drop_bit_eq_div)
    then have "(ucast (drop_bit n w) :: u8) = of_nat (unat w div 2 ^ n)"
      by (metis of_nat_unat)
    also have "\<dots> = of_nat (unat w div 2 ^ n mod 256)"
      by (simp add: word_of_nat_eq_iff take_bit_eq_mod)
    finally show ?thesis by simp
  qed
  then have "of_nat (unat w mod 256) = (ucast w :: u8)" by (metis div_by_1 drop_bit_0 id_apply power_0)
  then show ?thesis unfolding to_le32_def le_bytes_4 byte by simp
qed

lemma take_bit_rejoin:
  "take_bit k w OR push_bit k (ucast (ucast (drop_bit k w) :: u8)) = take_bit (k + 8) (w :: u32)"
  by (rule bit_word_eqI) (auto simp: bit_simps)

lemma low_byte: "0 OR push_bit 0 (ucast (ucast w :: u8)) = take_bit 8 (w :: u32)"
  using take_bit_rejoin [of 0 w] by simp

lemma le24_rejoin:
  "((0 OR push_bit 0 (ucast (ucast w :: u8))) OR push_bit 8 (ucast (ucast (drop_bit 8 w) :: u8))) OR
     push_bit 16 (ucast (ucast (drop_bit 16 w) :: u8)) = take_bit 24 (w :: u32)"
  using take_bit_rejoin [of 8 w] take_bit_rejoin [of 16 w] unfolding low_byte by simp

lemma le32_rejoin:
  "(((0 OR push_bit 0 (ucast (ucast w :: u8))) OR push_bit 8 (ucast (ucast (drop_bit 8 w) :: u8))) OR
     push_bit 16 (ucast (ucast (drop_bit 16 w) :: u8))) OR
     push_bit 24 (ucast (ucast (drop_bit 24 w) :: u8)) = (w :: u32)"
  using take_bit_rejoin [of 24 w] unfolding le24_rejoin by (simp add: take_bit_word_eq_self)

lemma mask_bits:
  "(cmd :: u8) AND 1 \<noteq> 0 \<longleftrightarrow> bit cmd 0" "cmd AND 2 \<noteq> 0 \<longleftrightarrow> bit cmd 1"
  "cmd AND 4 \<noteq> 0 \<longleftrightarrow> bit cmd 2" "cmd AND 8 \<noteq> 0 \<longleftrightarrow> bit cmd 3"
  "cmd AND 16 \<noteq> 0 \<longleftrightarrow> bit cmd 4" "cmd AND 32 \<noteq> 0 \<longleftrightarrow> bit cmd 5"
  "cmd AND 64 \<noteq> 0 \<longleftrightarrow> bit cmd 6" "cmd AND 128 \<noteq> 0 \<longleftrightarrow> bit cmd 7"
  using and_exp_eq_0_iff_not_bit [of cmd 0] and_exp_eq_0_iff_not_bit [of cmd 1]
    and_exp_eq_0_iff_not_bit [of cmd 2] and_exp_eq_0_iff_not_bit [of cmd 3]
    and_exp_eq_0_iff_not_bit [of cmd 4] and_exp_eq_0_iff_not_bit [of cmd 5]
    and_exp_eq_0_iff_not_bit [of cmd 6] and_exp_eq_0_iff_not_bit [of cmd 7]
  by simp_all

lemma copy_command_bits:
  assumes "length os = 4" "length ss = 3"
    and "st = push_copy_bytes 0 os (0x80, [])" and "(cmd, payload) = push_copy_bytes 4 ss st"
  shows "\<And>j. j < 4 \<Longrightarrow> bit cmd j \<longleftrightarrow> os ! j \<noteq> 0"
    and "\<And>j. 4 \<le> j \<Longrightarrow> j < 7 \<Longrightarrow> bit cmd j \<longleftrightarrow> ss ! (j - 4) \<noteq> 0"
    and "bit cmd 7"
    and "payload = filter (\<lambda>b. b \<noteq> 0) (os @ ss)"
proof -
  obtain c p where st: "st = (c, p)" by (cases st)
  have c: "c = fst (push_copy_bytes 0 os (0x80, []))" and p: "p = snd (push_copy_bytes 0 os (0x80, []))"
    using assms(3) st by (metis fst_conv, metis snd_conv)
  have cmd: "cmd = fst (push_copy_bytes 4 ss (c, p))" and pl: "payload = snd (push_copy_bytes 4 ss (c, p))"
    using assms(4) unfolding st by (metis fst_conv, metis snd_conv)
  have top: "bit (0x80 :: int) j \<longleftrightarrow> j = 7" for j
    using bit_exp_iff [of 7 j, where 'a = int] by simp
  show "\<And>j. j < 4 \<Longrightarrow> bit cmd j \<longleftrightarrow> os ! j \<noteq> 0"
    and "\<And>j. 4 \<le> j \<Longrightarrow> j < 7 \<Longrightarrow> bit cmd j \<longleftrightarrow> ss ! (j - 4) \<noteq> 0"
    and "bit cmd 7"
    by (auto simp: cmd c push_copy_bytes_bit top assms(1,2))
  have pf: "p = filter (\<lambda>b. b \<noteq> 0) os"
    using push_copy_bytes_payload [of "[]" os 0 "0x80"] assms(1) by (simp add: p)
  have "length p \<le> 4" using length_filter_le [of "\<lambda>b. b \<noteq> 0" os] assms(1) by (simp add: pf)
  then show "payload = filter (\<lambda>b. b \<noteq> 0) (os @ ss)"
    using push_copy_bytes_payload [of p ss 4 c] assms(2) by (simp add: pl pf)
qed

lemma read_copy_push_copy_instruction:
  assumes "0 < unat size'" "unat size' < 2 ^ 24"
  shows "\<exists>cmd payload. push_copy_instruction out offset size' = out @ cmd # payload \<and> bit cmd 7 \<and>
    read_copy cmd (payload @ ds) = Inr (unat offset, unat size', ds)"
proof -
  define os where "os = to_le32 offset"
  define ss where "ss = take 3 (to_le32 size')"
  define st where "st = push_copy_bytes 0 os (0x80, [])"
  obtain cmd payload where r: "(cmd, payload) = push_copy_bytes 4 ss st" by (metis surj_pair)
  have ln: "length os = 4" "length ss = 3" by (simp_all add: os_def ss_def)
  note bits = copy_command_bits [OF ln st_def r]
  have out: "push_copy_instruction out offset size' = out @ cmd # payload"
    unfolding push_copy_instruction_def Let_def os_def [symmetric] ss_def [symmetric] st_def [symmetric]
      r [symmetric] by simp
  have osv: "os = [ucast offset, ucast (drop_bit 8 offset), ucast (drop_bit 16 offset), ucast (drop_bit 24 offset)]"
    and ssv: "ss = [ucast size', ucast (drop_bit 8 size'), ucast (drop_bit 16 size')]"
    by (simp_all add: os_def ss_def to_le32_bytes)
  have m: "bit cmd 0 \<longleftrightarrow> os ! 0 \<noteq> 0" "bit cmd 1 \<longleftrightarrow> os ! 1 \<noteq> 0"
    "bit cmd 2 \<longleftrightarrow> os ! 2 \<noteq> 0" "bit cmd 3 \<longleftrightarrow> os ! 3 \<noteq> 0"
    "bit cmd 4 \<longleftrightarrow> ss ! 0 \<noteq> 0" "bit cmd 5 \<longleftrightarrow> ss ! 1 \<noteq> 0" "bit cmd 6 \<longleftrightarrow> ss ! 2 \<noteq> 0"
    using bits(1) [of 0] bits(1) [of 1] bits(1) [of 2] bits(1) [of 3]
      bits(2) [of 4] bits(2) [of 5] bits(2) [of 6] by simp_all
  have os: "os = [os ! 0, os ! 1, os ! 2, os ! 3]" and ss: "ss = [ss ! 0, ss ! 1, ss ! 2]"
    by (simp_all add: osv ssv)
  have pl: "payload @ ds = filter (\<lambda>b. b \<noteq> 0) (os ! 0 # os ! 1 # os ! 2 # os ! 3 #
      ss ! 0 # ss ! 1 # ss ! 2 # []) @ ds"
    unfolding bits(4) by (subst os, subst ss) simp
  have nz: "size' \<noteq> 0" using assms(1) by auto
  have low24: "take_bit 24 size' = size'"
    using assms(2) by (simp add: word_unat_eq_iff unsigned_take_bit_eq take_bit_nat_eq_self)
  have "read_copy cmd (payload @ ds) = Inr (unat offset, unat size', ds)"
    unfolding pl read_copy_def
    by (simp only: read_byte_present mask_bits m rbind_Inr prod.case)
      (simp add: osv ssv le32_rejoin [unfolded le24_rejoin] le24_rejoin [simplified] low24 nz)
  with out bits(3) show ?thesis by blast
qed

lemma emits_copy_instruction:
  assumes "0 < sz" "sz \<le> MAX_COPY" "ofs + sz \<le> length base" "ofs < 2 ^ 32"
  shows "\<exists>ins. push_copy_instruction out (of_nat ofs) (of_nat sz) = out @ ins \<and>
    emits base ins (take sz (drop ofs base))"
proof -
  have u: "unat (of_nat ofs :: u32) = ofs" "unat (of_nat sz :: u32) = sz"
    using assms(2,4) by (simp_all add: unat_of_nat MAX_COPY_def)
  have small: "ofs + sz \<le> usize_max"
    using assms(2,4) by (simp add: MAX_COPY_def usize_max_def)
  have sz24: "sz < 2 ^ 24" using assms(2) by (simp add: MAX_COPY_def)
  obtain cmd payload where p: "push_copy_instruction [] (of_nat ofs) (of_nat sz) = cmd # payload"
    by (metis (no_types, lifting) append_Nil case_prod_conv push_copy_instruction_def surj_pair)
  have b7: "bit cmd 7" and rc: "\<And>ds. read_copy cmd (payload @ ds) = Inr (ofs, sz, ds)"
    using read_copy_push_copy_instruction [of "of_nat sz" "[]" "of_nat ofs"] assms(1) sz24
    unfolding p u by auto
  have "push_copy_instruction out (of_nat ofs) (of_nat sz) = out @ cmd # payload"
    using p by (auto simp: push_copy_instruction_def Let_def split: prod.splits)
  moreover have "emits base (cmd # payload) (take sz (drop ofs base))"
    using b7 assms(3) small rc mask_bits(8) [of cmd]
    by (simp add: emits_def slice_def write_out_def)
  ultimately show ?thesis by blast
qed

lemma take_between:
  assumes "a \<le> b" "b \<le> c"
  shows "take (c - a) (drop a xs) = take (b - a) (drop a xs) @ take (c - b) (drop b xs)"
proof -
  have "c - a = (b - a) + (c - b)" using assms by simp
  then show ?thesis using assms by (simp only: take_add drop_drop) simp
qed

lemma push_copy_from_emits:
  assumes "ofs + len \<le> length base" "length base < 2 ^ 32"
  shows "finished \<le> len \<Longrightarrow> \<exists>ins. push_copy_from out ofs len finished = Inr (out @ ins) \<and>
    emits base ins (take (len - finished) (drop (ofs + finished) base))"
proof (induction "len - finished" arbitrary: out finished rule: less_induct)
  case less
  show ?case
  proof (cases "finished < len")
    case False
    then show ?thesis by (simp add: push_copy_from.simps)
  next
    case True
    define n where "n = min (len - finished) MAX_COPY"
    have n: "0 < n" "n \<le> MAX_COPY" "finished + n \<le> len"
      using True by (auto simp: n_def MAX_COPY_def)
    have at: "ofs + finished + n \<le> length base" "ofs + finished < 2 ^ 32" "n < 2 ^ 32"
      using n assms by (auto simp: MAX_COPY_def)
    obtain i1 where i1: "push_copy_instruction out (of_nat (ofs + finished)) (of_nat n) = out @ i1"
        "emits base i1 (take n (drop (ofs + finished) base))"
      using emits_copy_instruction [OF n(1,2) at(1,2)] by blast
    have dec: "len - (finished + n) < len - finished" using n True by simp
    obtain i2 where i2: "push_copy_from (out @ i1) ofs len (finished + n) = Inr ((out @ i1) @ i2)"
        "emits base i2 (take (len - (finished + n)) (drop (ofs + (finished + n)) base))"
      using less.hyps [OF dec n(3)] by blast
    have "push_copy_from out ofs len finished = Inr (out @ i1 @ i2)"
      using True at i1(1) i2(1)
      by (simp add: push_copy_from.simps [of out] try_u32_def Let_def flip: n_def)
    moreover have "take (len - finished) (drop (ofs + finished) base) =
        take n (drop (ofs + finished) base) @ take (len - (finished + n)) (drop (ofs + (finished + n)) base)"
      using take_between [of "ofs + finished" "ofs + finished + n" "ofs + len" base] n by (simp add: add.assoc)
    ultimately show ?thesis using emits_append [OF i1(2) i2(2)] by auto
  qed
qed

lemma push_copy_emits:
  assumes "ofs + len \<le> length base" "length base < 2 ^ 32"
  shows "\<exists>ins. push_copy out ofs len = Inr (out @ ins) \<and> emits base ins (take len (drop ofs base))"
  using push_copy_from_emits [OF assms, of 0 out] by (simp add: push_copy_def)

section \<open>The round trip\<close>

lemma match_emits:
  assumes "match_ok base target pending pos m" "length base < 2 ^ 32"
  shows "\<exists>i1 i2. push_literal out (take (m_start m - pending) (drop pending target)) = Inr (out @ i1) \<and>
    push_copy (out @ i1) (m_base_offset m) (m_len m) = Inr (out @ i1 @ i2) \<and>
    emits base (i1 @ i2) (take (m_start m + m_len m - pending) (drop pending target))"
proof -
  have m: "pending \<le> m_start m" "m_base_offset m + m_len m \<le> length base"
    and run: "take (m_len m) (drop (m_start m) target) = take (m_len m) (drop (m_base_offset m) base)"
    using assms(1) by (simp_all add: match_ok_def)
  obtain i1 where i1: "push_literal out (take (m_start m - pending) (drop pending target)) = Inr (out @ i1)"
      "emits base i1 (take (m_start m - pending) (drop pending target))"
    using push_literal_emits by blast
  obtain i2 where i2: "push_copy (out @ i1) (m_base_offset m) (m_len m) = Inr ((out @ i1) @ i2)"
      "emits base i2 (take (m_len m) (drop (m_start m) target))"
    using push_copy_emits [OF m(2) assms(2)] unfolding run by blast
  have "take (m_start m + m_len m - pending) (drop pending target) =
      take (m_start m - pending) (drop pending target) @ take (m_len m) (drop (m_start m) target)"
    using take_between [of pending "m_start m" "m_start m + m_len m" target] m(1) by simp
  with i1 i2 emits_append [OF i1(2) i2(2)] show ?thesis by auto
qed

lemma encode_loop_emits:
  assumes base: "length base < 2 ^ 32"
  shows "pending \<le> pos \<Longrightarrow> pos \<le> length target \<Longrightarrow>
    \<exists>ins pending'. encode_loop index base target out pending pos hash = Inr (out @ ins, pending') \<and>
      pending \<le> pending' \<and> pending' \<le> length target \<and>
      emits base ins (take (pending' - pending) (drop pending target))"
proof (induction "length target - pos" arbitrary: out pending pos hash rule: less_induct)
  case less
  define found where "found =
    (if pos + BLOCK \<le> length target then best_match index base target pos pending hash else None)"
  consider (fin) "\<not> pos < length target" | (scan) "pos < length target" "found = None"
    | (copy) m where "pos < length target" "found = Some m" by (cases found) auto
  then show ?case
  proof cases
    case fin
    with less.prems show ?thesis by (subst encode_loop.simps) simp
  next
    case scan
    define h where "h = (case (get_at target pos, get_at target (pos + BLOCK)) of
      (Some outgoing, Some incoming) \<Rightarrow> roll hash outgoing incoming | _ \<Rightarrow> hash)"
    have "encode_loop index base target out pending pos hash =
        encode_loop index base target out pending (pos + 1) h"
      using scan by (subst encode_loop.simps) (simp add: h_def flip: found_def)
    moreover have "length target - (pos + 1) < length target - pos" using scan by simp
    ultimately show ?thesis using less.hyps [of "pos + 1" pending out h] less.prems scan by simp
  next
    case (copy m)
    then have ok: "match_ok base target pending pos m"
      by (auto simp: found_def split: if_splits dest: best_match_ok)
    let ?p = "m_start m + m_len m"
    from ok have m: "pending \<le> m_start m" "pos < ?p" "?p \<le> length target"
      by (simp_all add: match_ok_def)
    obtain i1 i2 where i12: "push_literal out (take (m_start m - pending) (drop pending target)) = Inr (out @ i1)"
        "push_copy (out @ i1) (m_base_offset m) (m_len m) = Inr (out @ i1 @ i2)"
        "emits base (i1 @ i2) (take (?p - pending) (drop pending target))"
      using match_emits [OF ok base, of out] by blast
    define h where "h = (case slice target ?p (?p + BLOCK) of None \<Rightarrow> 0 | Some window \<Rightarrow> block_hash window)"
    have dec: "length target - ?p < length target - pos" using copy m by simp
    obtain i3 p' where i3: "encode_loop index base target (out @ i1 @ i2) ?p ?p h = Inr ((out @ i1 @ i2) @ i3, p')"
        "?p \<le> p'" "p' \<le> length target" "emits base i3 (take (p' - ?p) (drop ?p target))"
      using less.hyps [OF dec order_refl m(3)] by blast
    have lit: "slice target pending (m_start m) = Some (take (m_start m - pending) (drop pending target))"
      using m by (simp add: slice_def)
    have "encode_loop index base target out pending pos hash = Inr ((out @ i1 @ i2) @ i3, p')"
      using copy by (subst encode_loop.simps) (simp add: lit i12 i3(1) Let_def flip: found_def h_def)
    moreover have "take (p' - pending) (drop pending target) =
        take (?p - pending) (drop pending target) @ take (p' - ?p) (drop ?p target)"
      using m i3(2) by (intro take_between) simp_all
    ultimately show ?thesis
      using m i3(2,3) emits_append [OF i12(3) i3(4)] by (intro exI [of _ "i1 @ i2 @ i3"] exI [of _ p']) simp
  qed
qed

lemma max_object_bytes: "unat MAX_OBJECT_BYTES = 104857600"
  by (simp add: MAX_OBJECT_BYTES_def)

lemma u64_len_le: "\<not> MAX_OBJECT_BYTES < u64_len xs \<longleftrightarrow> length xs \<le> unat MAX_OBJECT_BYTES"
  by (auto simp: u64_len_def word_less_nat_alt unat_of_nat max_object_bytes not_less unat_u64_max)

lemma unat_u64_len: "length xs \<le> unat MAX_OBJECT_BYTES \<Longrightarrow> unat (u64_len xs) = length xs"
  by (simp add: u64_len_def unat_of_nat max_object_bytes)

lemma encode_delta_shape:
  assumes "length base \<le> unat MAX_OBJECT_BYTES" "length target \<le> unat MAX_OBJECT_BYTES"
  shows "\<exists>ins. encode_delta base target =
      Inr (write_varint [] (u64_len base) @ write_varint [] (u64_len target) @ ins) \<and> emits base ins target"
proof -
  define hash where "hash = (case slice_upto target BLOCK of None \<Rightarrow> 0 | Some window \<Rightarrow> block_hash window)"
  define out where "out = write_varint [] (u64_len base) @ write_varint [] (u64_len target)"
  have "length base < 2 ^ 32" using assms(1) by (simp add: max_object_bytes)
  from encode_loop_emits [OF this, of 0 0 target "build_index base" out hash]
  obtain i1 p where i1: "encode_loop (build_index base) base target out 0 0 hash = Inr (out @ i1, p)"
      "p \<le> length target" "emits base i1 (take p target)"
    by auto
  obtain i2 where i2: "push_literal (out @ i1) (drop p target) = Inr ((out @ i1) @ i2)"
      "emits base i2 (drop p target)"
    using push_literal_emits by blast
  have w: "write_varint (write_varint [] (u64_len base)) (u64_len target) = out"
    by (simp add: out_def write_varint_acc [of "write_varint [] (u64_len base)"])
  have "encode_delta base target = Inr (out @ i1 @ i2)"
    using assms i1 i2 u64_len_le [of base] u64_len_le [of target]
    by (simp add: encode_delta_def Let_def slice_from_def w flip: hash_def)
  moreover have "emits base (i1 @ i2) target"
    using emits_append [OF i1(3) i2(2)] by simp
  ultimately show ?thesis by (auto simp: out_def)
qed

lemma apply_delta_of_emits:
  assumes "length base \<le> unat MAX_OBJECT_BYTES" "length target \<le> unat MAX_OBJECT_BYTES"
    and "emits base ins target"
  shows "apply_delta base (write_varint [] (u64_len base) @ write_varint [] (u64_len target) @ ins) = Inr target"
proof -
  have "apply_instrs base (length target, []) (ins @ []) = Inr (0, target)"
    using assms(3) unfolding emits_def by (metis append_Nil apply_instrs.simps(1) diff_self_eq_0 order_refl)
  then show ?thesis
    using u64_len_le [of target] assms(1,2)
    by (simp add: apply_delta_def read_varint_write slice_from_def unat_u64_len)
qed

text \<open>
  C5: for every pair of inputs within the object size limit the encoder succeeds and applying its delta
  to the base gives the target back; the encoder fails only when one of the two is too large. This
  holds whatever the block index offers, because every match is extended over equal bytes only.
\<close>

theorem encode_delta_round_trip:
  "case encode_delta base target of
     Inr delta \<Rightarrow> length base \<le> unat MAX_OBJECT_BYTES \<and> length target \<le> unat MAX_OBJECT_BYTES \<and>
       apply_delta base delta = Inr target
   | Inl e \<Rightarrow> unat MAX_OBJECT_BYTES < length base \<or> unat MAX_OBJECT_BYTES < length target"
proof (cases "length base \<le> unat MAX_OBJECT_BYTES \<and> length target \<le> unat MAX_OBJECT_BYTES")
  case True
  with encode_delta_shape [of base target] apply_delta_of_emits show ?thesis by auto
next
  case False
  then have "MAX_OBJECT_BYTES < u64_len base \<or> MAX_OBJECT_BYTES < u64_len target"
    using u64_len_le by blast
  then show ?thesis using False by (auto simp: encode_delta_def)
qed

section \<open>What applying a delta can produce\<close>

lemma read_byte_suffix: "read_byte cmd msk shift (dst, ds) = Inr (dst', ds') \<Longrightarrow> set ds' \<subseteq> set ds"
  by (auto simp: read_byte_def split: if_splits list.splits)

lemma read_copy_suffix: "read_copy cmd ds = Inr (ofs, sz, ds') \<Longrightarrow> set ds' \<subseteq> set ds"
  by (auto simp: read_copy_def result_simps dest!: read_byte_suffix) blast

lemma write_out_Inr:
  "write_out (room, w) src = Inr (room', w') \<longleftrightarrow>
     length src \<le> room \<and> room' = room - length src \<and> w' = w @ src"
  by (auto simp: write_out_def)

lemma slice_subset: "slice xs a b = Some ys \<Longrightarrow> set ys \<subseteq> set xs"
  by (auto simp: slice_def split: if_splits dest: in_set_takeD in_set_dropD)

lemma slice_upto_subset: "slice_upto xs b = Some ys \<Longrightarrow> set ys \<subseteq> set xs"
  by (auto simp: slice_upto_def split: if_splits dest: in_set_takeD)

lemma apply_instrs_step:
  assumes "apply_instrs base (room, w) (cmd # rest) = Inr final"
  shows "\<exists>src rest'. set src \<subseteq> set base \<union> set rest \<and> length src \<le> room \<and>
    apply_instrs base (room - length src, w @ src) rest' = Inr final \<and>
    length rest' \<le> length rest \<and> set rest' \<subseteq> set rest"
proof (cases "cmd AND 0x80 = 0")
  case True
  with assms obtain src where "slice_upto rest (unat cmd) = Some src" "length src \<le> room"
      "apply_instrs base (room - length src, w @ src) (drop (unat cmd) rest) = Inr final"
    by (auto simp: result_simps write_out_Inr split: if_splits)
  then show ?thesis
    using set_drop_subset [of "unat cmd" rest] slice_upto_subset [of rest "unat cmd" src]
    by (intro exI [of _ src] exI [of _ "drop (unat cmd) rest"]) auto
next
  case False
  with assms obtain ofs sz rest' src where "read_copy cmd rest = Inr (ofs, sz, rest')"
      "slice base ofs (ofs + sz) = Some src" "length src \<le> room"
      "apply_instrs base (room - length src, w @ src) rest' = Inr final"
    by (auto simp: result_simps write_out_Inr split: if_splits)
  then show ?thesis
    using read_copy_suffix read_copy_shrinks slice_subset
    by (intro exI [of _ src] exI [of _ rest']) blast
qed

lemma apply_instrs_accounts:
  "apply_instrs base (room, w) ds = Inr (room', w') \<Longrightarrow>
     room' + length w' = room + length w \<and> set w' \<subseteq> set w \<union> set base \<union> set ds"
proof (induction ds arbitrary: room w rule: length_induct)
  case (1 ds)
  show ?case
  proof (cases ds)
    case Nil
    with 1 show ?thesis by simp
  next
    case [simp]: (Cons cmd rest)
    obtain src rest' where step: "set src \<subseteq> set base \<union> set rest" "length src \<le> room"
        "apply_instrs base (room - length src, w @ src) rest' = Inr (room', w')"
        "length rest' \<le> length rest" "set rest' \<subseteq> set rest"
      using 1(2) apply_instrs_step [of base room w cmd rest "(room', w')"] by auto
    from step(4) have "length rest' < length ds" by simp
    with 1(1) step(3) have "room' + length w' = room - length src + length (w @ src) \<and>
        set w' \<subseteq> set (w @ src) \<union> set base \<union> set rest'"
      by blast
    with step show ?thesis by auto
  qed
qed

text \<open>
  C6: a delta is applied only to a base of the size it declares, the result has exactly the size it
  declares, which is within the object size limit, and every byte of it comes from the base or from
  the delta.
\<close>

theorem apply_delta_sound:
  assumes "apply_delta base delta = Inr r"
  shows "\<exists>base_size n result_size m.
    read_varint delta = Inr (base_size, n) \<and> unat base_size = length base \<and>
    read_varint (drop n delta) = Inr (result_size, m) \<and> unat result_size = length r \<and>
    length r \<le> unat MAX_OBJECT_BYTES \<and> set r \<subseteq> set base \<union> set delta"
proof -
  obtain base_size n result_size m where
    h: "read_varint delta = Inr (base_size, n)" "unat base_size = length base"
      "read_varint (drop n delta) = Inr (result_size, m)" "result_size \<le> MAX_OBJECT_BYTES"
      "apply_instrs base (unat result_size, []) (drop m (drop n delta)) = Inr (0, r)"
    using assms by (auto simp: apply_delta_def result_simps slice_from_def split: if_splits)
  from apply_instrs_accounts [OF h(5)]
  have "length r = unat result_size" "set r \<subseteq> set base \<union> set delta"
    by (auto dest: in_set_dropD)
  with h show ?thesis by (auto simp: word_le_nat_alt)
qed

theorem apply_delta_sound_witness:
  "\<exists>base_size n result_size m.
    read_varint [3, 2, 0x91, 1, 2] = Inr (base_size, n) \<and> unat base_size = length [7, 8, 9 :: u8] \<and>
    read_varint (drop n [3, 2, 0x91, 1, 2]) = Inr (result_size, m) \<and> unat result_size = length [8, 9 :: u8] \<and>
    length [8, 9 :: u8] \<le> unat MAX_OBJECT_BYTES \<and> set [8, 9] \<subseteq> set [7, 8, 9] \<union> set [3, 2, 0x91, 1, 2 :: u8]"
  by (rule apply_delta_sound)
    (simp add: apply_delta_def read_varint_def slice_from_def read_copy_def read_byte_def slice_def
      write_out_def usize_max_def MAX_OBJECT_BYTES_def)

section \<open>The rolling hash is the hash of the window\<close>

lemma block_hash_foldl:
  "foldl (\<lambda>acc byte. acc * MULT + ucast byte) a window = a * MULT ^ length window + block_hash window"
proof (induction window arbitrary: a)
  case Nil
  show ?case by (simp add: block_hash_def)
next
  case (Cons b window)
  show ?case
    using Cons.IH [of "a * MULT + ucast b"] Cons.IH [of "ucast b"]
    by (simp add: block_hash_def algebra_simps)
qed

lemma outgoing_power: "OUTGOING = MULT ^ (BLOCK - 1)"
proof -
  have "((\<lambda>pow. pow * MULT) ^^ n) 1 = MULT ^ n" for n
    by (induction n) (simp_all add: mult.commute)
  then show ?thesis by (simp add: OUTGOING_def)
qed

lemma roll_block_hash:
  assumes "length window = BLOCK - 1"
  shows "roll (block_hash (outgoing # window)) outgoing incoming = block_hash (window @ [incoming])"
proof -
  have "block_hash (outgoing # window) = ucast outgoing * OUTGOING + block_hash window"
    using block_hash_foldl [of "ucast outgoing" window] assms
    by (simp add: block_hash_def outgoing_power)
  then show ?thesis by (simp add: roll_def) (simp add: block_hash_def)
qed

text \<open>The encoder's loop with the hash of the window computed afresh at every position.\<close>

function encode_scan ::
    "block_index \<Rightarrow> bytes \<Rightarrow> bytes \<Rightarrow> bytes \<Rightarrow> nat \<Rightarrow> nat \<Rightarrow> (error, bytes \<times> nat) result" where
  "encode_scan index base target out pending pos =
     (if pos < length target then
        (case (if pos + BLOCK \<le> length target
               then best_match index base target pos pending (block_hash (take BLOCK (drop pos target)))
               else None)
         of Some m \<Rightarrow>
              rbind (ok_or (slice target pending (m_start m)) (Invalid ''delta literal range out of bounds'')) (\<lambda>literal.
              rbind (push_literal out literal) (\<lambda>out.
              rbind (push_copy out (m_base_offset m) (m_len m)) (\<lambda>out.
              encode_scan index base target out (m_start m + m_len m) (m_start m + m_len m))))
          | None \<Rightarrow> encode_scan index base target out pending (pos + 1))
      else Inr (out, pending))"
  by pat_completeness auto
termination
  by (relation "measure (\<lambda>(index, base, target, out, pending, pos). length target - pos)")
    (auto simp: match_ok_def split: if_splits dest!: best_match_ok)

declare encode_scan.simps [simp del]

lemma roll_window:
  assumes "pos + BLOCK < length target"
  shows "roll (block_hash (take BLOCK (drop pos target))) (target ! pos) (target ! (pos + BLOCK)) =
    block_hash (take BLOCK (drop (Suc pos) target))"
proof -
  let ?w = "take (BLOCK - 1) (drop (Suc pos) target)"
  have "take BLOCK (drop pos target) = target ! pos # ?w"
    using assms by (simp add: BLOCK_def Cons_nth_drop_Suc [symmetric] take_Cons')
  moreover have "take BLOCK (drop (Suc pos) target) = ?w @ [target ! (pos + BLOCK)]"
    using assms take_Suc_conv_app_nth [of "BLOCK - 1" "drop (Suc pos) target"]
    by (simp add: BLOCK_def add.commute)
  moreover have "length ?w = BLOCK - 1" using assms by (simp add: BLOCK_def)
  ultimately show ?thesis by (simp add: roll_block_hash)
qed

lemma encode_loop_scan:
  "(pos + BLOCK \<le> length target \<Longrightarrow> hash = block_hash (take BLOCK (drop pos target))) \<Longrightarrow>
     encode_loop index base target out pending pos hash = encode_scan index base target out pending pos"
proof (induction "length target - pos" arbitrary: out pending pos hash rule: less_induct)
  case less
  define found where "found =
    (if pos + BLOCK \<le> length target then best_match index base target pos pending hash else None)"
  have found': "found = (if pos + BLOCK \<le> length target
      then best_match index base target pos pending (block_hash (take BLOCK (drop pos target))) else None)"
    using less.prems by (simp add: found_def)
  consider (fin) "\<not> pos < length target" | (scan) "pos < length target" "found = None"
    | (copy) m where "pos < length target" "found = Some m" by (cases found) auto
  then show ?case
  proof cases
    case fin
    then show ?thesis by (subst encode_loop.simps, subst encode_scan.simps) simp
  next
    case scan
    define h where "h = (case (get_at target pos, get_at target (pos + BLOCK)) of
      (Some outgoing, Some incoming) \<Rightarrow> roll hash outgoing incoming | _ \<Rightarrow> hash)"
    have "encode_loop index base target out pending (pos + 1) h =
        encode_scan index base target out pending (pos + 1)"
      using scan less.prems by (intro less.hyps) (auto simp: h_def get_at_def roll_window)
    with scan show ?thesis
      by (subst encode_loop.simps, subst encode_scan.simps) (simp add: h_def flip: found_def found')
  next
    case (copy m)
    then have ok: "match_ok base target pending pos m"
      by (auto simp: found_def split: if_splits dest: best_match_ok)
    define p where "p = m_start m + m_len m"
    from ok have m: "pos < p" by (simp add: match_ok_def p_def)
    define h where "h = (case slice target p (p + BLOCK) of None \<Rightarrow> 0 | Some window \<Rightarrow> block_hash window)"
    have "encode_loop index base target out' p p h = encode_scan index base target out' p p" for out'
      using copy m by (intro less.hyps) (auto simp: h_def slice_def)
    with copy show ?thesis
      by (subst encode_loop.simps, subst encode_scan.simps)
        (simp add: Let_def flip: found_def found' h_def p_def)
  qed
qed

text \<open>
  C7: maintaining the hash by rolling it one byte at a time is the same as hashing the window at every
  position: \<open>encode_delta\<close> makes the same matches and emits the same bytes as the scan that does so.
\<close>

theorem encode_delta_rolls_exactly:
  "encode_delta base target =
     (if MAX_OBJECT_BYTES < u64_len base \<or> MAX_OBJECT_BYTES < u64_len target
      then Inl (Invalid ''delta inputs exceed MAX_OBJECT_BYTES'')
      else rbind (encode_scan (build_index base) base target
             (write_varint (write_varint [] (u64_len base)) (u64_len target)) 0 0) (\<lambda>(out, pending).
           rbind (ok_or (slice_from target pending) (Invalid ''delta literal tail out of bounds'')) (\<lambda>literal.
           push_literal out literal)))"
proof -
  have "encode_loop index base target out 0 0
      (case slice_upto target BLOCK of None \<Rightarrow> 0 | Some window \<Rightarrow> block_hash window) =
    encode_scan index base target out 0 0" for index out
    by (rule encode_loop_scan) (simp add: slice_upto_def)
  then show ?thesis by (simp add: encode_delta_def Let_def)
qed

end
