(* ===== verification/Core_Objects.thy ===== *)
theory Core_Objects
  imports Enroute_Prelude
begin

text \<open>
  The object vocabulary of \<open>git/core/src/object_meta.rs\<close>: kinds and their numbers, where an object's
  bytes sit, and the sets of objects held apart by the numbering their kind is counted in. An object id
  is its bytes; a roaring bitmap is the set it represents.
\<close>

section \<open>Kinds\<close>

datatype kind = Commit | Tree | Blob | Tag

type_synonym oid = bytes

definition kind_to_u8 :: "kind \<Rightarrow> u8" where
  "kind_to_u8 k = (case k of Commit \<Rightarrow> 1 | Tree \<Rightarrow> 2 | Blob \<Rightarrow> 3 | Tag \<Rightarrow> 4)"

definition kind_from_u8 :: "u8 \<Rightarrow> kind option" where
  "kind_from_u8 b =
     (if b = 1 then Some Commit else if b = 2 then Some Tree else if b = 3 then Some Blob
      else if b = 4 then Some Tag else None)"

lemma kind_from_to [simp]: "kind_from_u8 (kind_to_u8 k) = Some k"
  by (cases k) (simp_all add: kind_to_u8_def kind_from_u8_def)

lemma kind_to_from: "kind_from_u8 b = Some k \<Longrightarrow> kind_to_u8 k = b"
  by (auto simp: kind_from_u8_def kind_to_u8_def split: if_splits)

section \<open>Locations\<close>

record segment_location =
  sl_id :: u128
  sl_base_offset :: u64
  sl_image_len :: u64

record pack_image_location =
  pi_pack_sha :: oid
  pi_offset :: u64
  pi_entry_len :: u64
  pi_base :: "oid option"

record commit_pack_location =
  cp_image :: pack_image_location
  cp_segment :: segment_location

text \<open>The sum is an unchecked \<open>u64\<close> one.\<close>

definition segment_offset :: "commit_pack_location \<Rightarrow> u64" where
  "segment_offset l = sl_base_offset (cp_segment l) + pi_offset (cp_image l)"

section \<open>Sets of objects\<close>

datatype object_seq = TreeSeq u64 | BlobSeq u64 | TagSeq u64

definition seq_number :: "object_seq \<Rightarrow> u64" where
  "seq_number s = (case s of TreeSeq n \<Rightarrow> n | BlobSeq n \<Rightarrow> n | TagSeq n \<Rightarrow> n)"

definition seq_kind :: "object_seq \<Rightarrow> kind" where
  "seq_kind s = (case s of TreeSeq _ \<Rightarrow> Tree | BlobSeq _ \<Rightarrow> Blob | TagSeq _ \<Rightarrow> Tag)"

definition seq_of :: "kind \<Rightarrow> u64 \<Rightarrow> object_seq option" where
  "seq_of k n = (case k of Tree \<Rightarrow> Some (TreeSeq n) | Blob \<Rightarrow> Some (BlobSeq n) | Tag \<Rightarrow> Some (TagSeq n)
     | Commit \<Rightarrow> None)"

lemma seq_of_parts: "seq_of k n = Some s \<longleftrightarrow> k \<noteq> Commit \<and> seq_kind s = k \<and> seq_number s = n"
  by (cases s; cases k) (auto simp: seq_of_def seq_kind_def seq_number_def)

record object_seqs =
  os_trees :: "u64 set"
  os_blobs :: "u64 set"

definition os_empty :: object_seqs where
  "os_empty = \<lparr>os_trees = {}, os_blobs = {}\<rparr>"

definition os_is_empty :: "object_seqs \<Rightarrow> bool" where
  "os_is_empty s \<longleftrightarrow> os_trees s = {} \<and> os_blobs s = {}"

text \<open>The length of a bitmap is a \<open>u64\<close>, and the sum saturates.\<close>

definition os_len :: "object_seqs \<Rightarrow> u64" where
  "os_len s = sat_add (of_nat (card (os_trees s))) (of_nat (card (os_blobs s)))"

definition os_contains :: "object_seqs \<Rightarrow> object_seq \<Rightarrow> bool" where
  "os_contains s seq = (case seq of TreeSeq n \<Rightarrow> n \<in> os_trees s | BlobSeq n \<Rightarrow> n \<in> os_blobs s | TagSeq _ \<Rightarrow> False)"

definition os_absorb :: "object_seqs \<Rightarrow> object_seqs \<Rightarrow> object_seqs" where
  "os_absorb s t = \<lparr>os_trees = os_trees s \<union> os_trees t, os_blobs = os_blobs s \<union> os_blobs t\<rparr>"

definition os_iter :: "object_seqs \<Rightarrow> object_seq list" where
  "os_iter s = map TreeSeq (sorted_list_of_set (os_trees s)) @ map BlobSeq (sorted_list_of_set (os_blobs s))"

lemma os_contains_iter: "os_contains s seq \<longleftrightarrow> seq \<in> set (os_iter s)"
  by (cases seq) (auto simp: os_contains_def os_iter_def)

lemma os_iter_distinct: "distinct (os_iter s)"
  by (auto simp: os_iter_def distinct_map inj_on_def)

lemma os_contains_absorb [simp]: "os_contains (os_absorb s t) seq \<longleftrightarrow> os_contains s seq \<or> os_contains t seq"
  by (simp add: os_contains_def os_absorb_def split: object_seq.split)

lemma os_is_empty_contains: "os_is_empty s \<longleftrightarrow> (\<forall>seq. \<not> os_contains s seq)"
proof
  assume "\<forall>seq. \<not> os_contains s seq"
  then have "\<not> os_contains s (TreeSeq n) \<and> \<not> os_contains s (BlobSeq n)" for n by blast
  then show "os_is_empty s" by (auto simp: os_contains_def os_is_empty_def)
qed (simp add: os_is_empty_def os_contains_def split: object_seq.split)

lemma os_len_iter:
  assumes "length (os_iter s) < 2 ^ 64"
  shows "unat (os_len s) = length (os_iter s)"
proof -
  have "card (os_trees s) + card (os_blobs s) = length (os_iter s)" by (simp add: os_iter_def)
  with assms show ?thesis
    by (simp add: os_len_def sat_add_def unat_of_nat unat_word_ariths)
qed

lemma os_absorb_laws [simp]:
  "os_absorb (os_absorb a b) c = os_absorb a (os_absorb b c)" "os_absorb a a = a"
  "os_absorb os_empty a = a" "os_absorb a os_empty = a"
  by (simp_all add: os_absorb_def os_empty_def Un_assoc)

lemma os_absorb_comm: "os_absorb a b = os_absorb b a"
  by (simp add: os_absorb_def Un_commute)

section \<open>What the index says of an object\<close>

record object_meta =
  om_kind :: kind
  om_location :: "commit_pack_location option"
  om_object_seq :: "object_seq option"

definition is_stored :: "object_meta \<Rightarrow> bool" where
  "is_stored m \<longleftrightarrow> om_location m \<noteq> None \<or> om_kind m = Tag"

end
