(* ===== verification/Commit_Meta.thy ===== *)
theory Commit_Meta
  imports Core_Objects
begin

text \<open>
  What a push appends to the commit graph and the order it is appended in, \<open>git/core/src/commit_meta.rs\<close>: every commit after
  the parents it has in the batch. The loop over the queue is a partial function, where not returning is \<open>None\<close>, and is
  shown to return; the error keeps its message.
\<close>

section \<open>What a push appends\<close>

record appended_commit =
  ac_root_tree :: oid
  ac_parents :: "oid list"
  ac_entry_len :: u64
  ac_blob_offset :: u64
  ac_committer_date :: int
  ac_segment :: segment_location

section \<open>Parents before children\<close>

text \<open>The batch is the pairs of its map in whatever order the map yields them.\<close>

type_synonym batch = "(oid \<times> oid list) list"

type_synonym degrees = "oid \<rightharpoonup> nat"

definition degree_of :: "degrees \<Rightarrow> oid \<Rightarrow> nat" where
  "degree_of in_degree oid = (case in_degree oid of None \<Rightarrow> 0 | Some deg \<Rightarrow> deg)"

definition deps_of :: "(oid \<rightharpoonup> oid list) \<Rightarrow> oid \<Rightarrow> oid list" where
  "deps_of rev_deps oid = (case rev_deps oid of None \<Rightarrow> [] | Some deps \<Rightarrow> deps)"

definition count_parent :: "batch \<Rightarrow> oid \<Rightarrow> degrees \<times> (oid \<rightharpoonup> oid list) \<Rightarrow> oid \<Rightarrow> degrees \<times> (oid \<rightharpoonup> oid list)" where
  "count_parent new_commits oid acc parent = (case acc of (in_degree, rev_deps) \<Rightarrow>
     if map_of new_commits parent \<noteq> None
     then (in_degree(oid \<mapsto> degree_of in_degree oid + 1),
           rev_deps(parent \<mapsto> deps_of rev_deps parent @ [oid]))
     else (in_degree, rev_deps))"

definition count_parents :: "batch \<Rightarrow> degrees \<times> (oid \<rightharpoonup> oid list)" where
  "count_parents new_commits =
     foldl (\<lambda>acc (oid, parents). foldl (count_parent new_commits oid) acc parents)
       (\<lambda>oid. if oid \<in> fst ` set new_commits then Some 0 else None, Map.empty) new_commits"

definition release :: "degrees \<times> oid list \<Rightarrow> oid \<Rightarrow> degrees \<times> oid list" where
  "release acc dep = (case acc of (in_degree, next_ready) \<Rightarrow>
     let deg = degree_of in_degree dep - 1 in
     (in_degree(dep \<mapsto> deg), if deg = 0 then next_ready @ [dep] else next_ready))"

partial_function (option) topo_loop :: "(oid \<rightharpoonup> oid list) \<Rightarrow> degrees \<Rightarrow> oid list \<Rightarrow> oid list \<Rightarrow> oid list option" where
  "topo_loop rev_deps in_degree queue order =
     (case queue of [] \<Rightarrow> Some order
      | oid # rest \<Rightarrow>
          (case foldl release (in_degree, []) (deps_of rev_deps oid) of (in_degree, next_ready) \<Rightarrow>
             topo_loop rev_deps in_degree (rest @ sort next_ready) (order @ [oid])))"

definition topo_order :: "batch \<Rightarrow> (string, oid list) result option" where
  "topo_order new_commits =
     (case count_parents new_commits of (in_degree, rev_deps) \<Rightarrow>
      let ready = sort (filter (\<lambda>oid. in_degree oid = Some 0) (map fst new_commits)) in
      map_option (\<lambda>order. if length order \<noteq> length new_commits
          then Inl ''commit graph: cycle detected in pushed commits'' else Inr order)
        (topo_loop rev_deps in_degree ready []))"

section \<open>Degrees\<close>

text \<open>The parents a commit has within the batch, and how often one of them is named.\<close>

definition inside :: "batch \<Rightarrow> oid \<Rightarrow> oid list" where
  "inside new_commits oid = filter (\<lambda>p. p \<in> fst ` set new_commits) (case map_of new_commits oid of None \<Rightarrow> [] | Some ps \<Rightarrow> ps)"

lemma map_of_key: "map_of m k \<noteq> None \<longleftrightarrow> k \<in> fst ` set m"
  by (simp add: map_of_eq_None_iff)

lemma count_parent_step:
  "count_parent nc oid (deg, deps) q = (if q \<in> fst ` set nc
     then (deg(oid \<mapsto> degree_of deg oid + 1), deps(q \<mapsto> deps_of deps q @ [oid])) else (deg, deps))"
  using map_of_key [of nc q] by (simp add: count_parent_def)

lemma degree_of_upd: "degree_of (deg(k \<mapsto> d)) c = (if c = k then d else degree_of deg c)"
  by (simp add: degree_of_def)

lemma deps_of_upd: "deps_of (deps(k \<mapsto> ds)) c = (if c = k then ds else deps_of deps c)"
  by (simp add: deps_of_def)

lemma count_parent_fold:
  "foldl (count_parent nc oid) (deg, deps) ps = (deg', deps') \<Longrightarrow> oid \<in> dom deg \<Longrightarrow>
    dom deg' = dom deg \<and>
    (\<forall>c. degree_of deg' c = degree_of deg c + (if c = oid then length (filter (\<lambda>p. p \<in> fst ` set nc) ps) else 0)) \<and>
    (\<forall>p c. count_list (deps_of deps' p) c = count_list (deps_of deps p) c + (if c = oid then count_list (filter (\<lambda>p. p \<in> fst ` set nc) ps) p else 0))"
proof (induction ps arbitrary: deg deps)
  case (Cons q ps)
  show ?case
  proof (cases "q \<in> fst ` set nc")
    case True
    then have "foldl (count_parent nc oid) (deg(oid \<mapsto> degree_of deg oid + 1), deps(q \<mapsto> deps_of deps q @ [oid])) ps = (deg', deps')"
      using Cons.prems(1) by (simp add: count_parent_step)
    moreover have "oid \<in> dom (deg(oid \<mapsto> degree_of deg oid + 1))" by simp
    moreover have "dom (deg(oid \<mapsto> degree_of deg oid + 1)) = dom deg" using Cons.prems(2) by auto
    ultimately have IH: "dom deg' = dom deg"
      "degree_of deg' c = (if c = oid then degree_of deg oid + 1 else degree_of deg c) + (if c = oid then length (filter (\<lambda>p. p \<in> fst ` set nc) ps) else 0)"
      "count_list (deps_of deps' p) c = count_list (if p = q then deps_of deps q @ [oid] else deps_of deps p) c +
        (if c = oid then count_list (filter (\<lambda>p. p \<in> fst ` set nc) ps) p else 0)" for c p
      using Cons.IH [of "deg(oid \<mapsto> degree_of deg oid + 1)" "deps(q \<mapsto> deps_of deps q @ [oid])"] unfolding degree_of_upd deps_of_upd by metis+
    show ?thesis unfolding IH using True by simp
  next
    case False
    then have "foldl (count_parent nc oid) (deg, deps) ps = (deg', deps')" using Cons.prems(1) by (simp add: count_parent_step)
    from Cons.IH [OF this] Cons.prems(2) False show ?thesis by simp
  qed
qed simp

lemma count_parents_fold:
  "foldl (\<lambda>acc (oid, parents). foldl (count_parent nc oid) acc parents) (deg, deps) cs = (deg', deps') \<Longrightarrow> fst ` set cs \<subseteq> dom deg \<Longrightarrow> distinct (map fst cs) \<Longrightarrow>
    dom deg' = dom deg \<and>
    (\<forall>c. degree_of deg' c = degree_of deg c + (case map_of cs c of None \<Rightarrow> 0 | Some ps \<Rightarrow> length (filter (\<lambda>p. p \<in> fst ` set nc) ps))) \<and>
    (\<forall>p c. count_list (deps_of deps' p) c = count_list (deps_of deps p) c +
      (case map_of cs c of None \<Rightarrow> 0 | Some ps \<Rightarrow> count_list (filter (\<lambda>p. p \<in> fst ` set nc) ps) p))"
proof (induction cs arbitrary: deg deps)
  case (Cons one cs)
  obtain oid ps where one: "one = (oid, ps)" by (rule prod.exhaust)
  obtain deg1 deps1 where step: "foldl (count_parent nc oid) (deg, deps) ps = (deg1, deps1)" by (rule prod.exhaust)
  have rest: "foldl (\<lambda>acc (oid, parents). foldl (count_parent nc oid) acc parents) (deg1, deps1) cs = (deg', deps')"
    using Cons.prems(1) by (simp add: one step)
  have "oid \<in> dom deg" using Cons.prems(2) by (simp add: one)
  note first = count_parent_fold [OF step this]
  have "fst ` set cs \<subseteq> dom deg1" using first Cons.prems(2) by auto
  note later = Cons.IH [OF rest this]
  have none: "map_of cs oid = None" using Cons.prems(3) by (simp add: one map_of_eq_None_iff)
  show ?case using first later Cons.prems(3) none by (simp add: one)
qed simp

lemma count_parents_spec:
  assumes "count_parents nc = (deg, deps)" "distinct (map fst nc)"
  shows "dom deg = fst ` set nc" "degree_of deg c = length (inside nc c)" "count_list (deps_of deps p) c = count_list (inside nc c) p"
proof -
  let ?deg = "\<lambda>oid. if oid \<in> fst ` set nc then Some 0 else None"
  have dom: "dom ?deg = fst ` set nc" by (auto simp: dom_def split: if_splits)
  have zero: "degree_of ?deg c = 0" "deps_of Map.empty p = []" for c p by (simp_all add: degree_of_def deps_of_def)
  note spec = count_parents_fold [OF assms(1) [unfolded count_parents_def] _ assms(2), unfolded dom zero]
  show "dom deg = fst ` set nc" using spec by simp
  show "degree_of deg c = length (inside nc c)" using spec by (simp add: inside_def split: option.splits)
  show "count_list (deps_of deps p) c = count_list (inside nc c) p" using spec by (simp add: inside_def split: option.splits)
qed

text \<open>Releasing the children of a commit takes each one's degree down as often as it is named, and the ones that reach
  zero are ready, once each.\<close>

lemma release_fold:
  "foldl release (deg, ready) ds = (deg', ready') \<Longrightarrow> \<forall>c. count_list ds c \<le> degree_of deg c \<Longrightarrow> set ds \<subseteq> dom deg \<Longrightarrow>
    distinct ready \<Longrightarrow> \<forall>c \<in> set ready. degree_of deg c = 0 \<Longrightarrow>
    dom deg' = dom deg \<and> (\<forall>c. degree_of deg' c = degree_of deg c - count_list ds c) \<and> distinct ready' \<and>
    set ready' = set ready \<union> {c \<in> set ds. count_list ds c = degree_of deg c}"
proof (induction ds arbitrary: deg ready)
  case (Cons d ds)
  let ?deg = "deg(d \<mapsto> degree_of deg d - 1)" and ?ready = "if degree_of deg d - 1 = 0 then ready @ [d] else ready"
  have "release (deg, ready) d = (?deg, ?ready)" by (simp add: release_def Let_def)
  then have step: "foldl release (?deg, ?ready) ds = (deg', ready')" using Cons.prems(1) by (simp only: foldl.simps)
  have pos: "count_list ds d + 1 \<le> degree_of deg d" using Cons.prems(2) [rule_format, of d] by simp
  then have new: "d \<notin> set ready" using Cons.prems(5) by auto
  have counts: "count_list ds c \<le> degree_of ?deg c" for c using Cons.prems(2) [rule_format, of c] pos by (auto simp: degree_of_upd)
  have zero: "\<forall>c \<in> set ?ready. degree_of ?deg c = 0" using Cons.prems(5) by (auto simp: degree_of_upd)
  have "distinct ?ready" and "set ds \<subseteq> dom ?deg" using Cons.prems(3,4) new by auto
  have dom: "dom ?deg = insert d (dom deg)" by (simp only: dom_fun_upd option.distinct if_False)
  note IH = Cons.IH [OF step _ \<open>set ds \<subseteq> dom ?deg\<close> \<open>distinct ?ready\<close> zero, unfolded degree_of_upd dom]
  have IH: "dom deg' = insert d (dom deg)" "degree_of deg' c = (if c = d then degree_of deg d - 1 else degree_of deg c) - count_list ds c"
    "distinct ready'" "set ready' = set ?ready \<union> {c \<in> set ds. count_list ds c = (if c = d then degree_of deg d - 1 else degree_of deg c)}" for c
    using IH counts unfolding degree_of_upd by simp_all
  have never: "d \<notin> set ds" if "degree_of deg d - 1 = 0" 
  proof -
    have "count_list ds d = 0" using that pos by linarith
    then show ?thesis by (simp add: count_list_0_iff)
  qed
  have there: "d \<in> set ds" if "Suc (count_list ds d) = degree_of deg d" "\<not> degree_of deg d \<le> Suc 0"
    using that by (cases "d \<in> set ds") auto
  have "set ready' = set ready \<union> {c \<in> set (d # ds). count_list (d # ds) c = degree_of deg c}"
    unfolding IH(4) using never pos there by (cases "degree_of deg d - 1 = 0") auto
  moreover have "degree_of deg' c = degree_of deg c - count_list (d # ds) c" for c unfolding IH(2) by simp
  moreover have "dom deg' = dom deg" unfolding IH(1) using Cons.prems(3) by auto
  ultimately show ?case using IH(3) by blast
qed simp

section \<open>The order\<close>

definition parents_first :: "batch \<Rightarrow> oid list \<Rightarrow> bool" where
  "parents_first nc order \<longleftrightarrow> (\<forall>i < length order. set (inside nc (order ! i)) \<subseteq> set (take i order))"

definition batch_edges :: "batch \<Rightarrow> (oid \<times> oid) set" where
  "batch_edges nc = {(p, c). p \<in> set (inside nc c)}"

definition topo_inv :: "batch \<Rightarrow> degrees \<Rightarrow> oid list \<Rightarrow> oid list \<Rightarrow> bool" where
  "topo_inv nc deg queue order \<longleftrightarrow> dom deg = fst ` set nc \<and> distinct (order @ queue) \<and>
     set (order @ queue) = {c \<in> fst ` set nc. degree_of deg c = 0} \<and>
     (\<forall>c. degree_of deg c = length (filter (\<lambda>p. p \<notin> set order) (inside nc c))) \<and> parents_first nc order"

lemma filter_out_one:
  assumes "o1 \<notin> S"
  shows "length (filter (\<lambda>p. p \<notin> S) xs) = length (filter (\<lambda>p. p \<notin> insert o1 S) xs) + count_list xs o1"
  using assms by (induction xs) auto

lemma inside_key: "p \<in> set (inside nc c) \<Longrightarrow> p \<in> fst ` set nc \<and> c \<in> fst ` set nc"
  using map_of_key [of nc c] by (auto simp: inside_def split: option.splits)

lemma parents_first_snoc: "parents_first nc (order @ [c]) \<longleftrightarrow> parents_first nc order \<and> set (inside nc c) \<subseteq> set order"
  by (auto simp: parents_first_def nth_append less_Suc_eq)

lemma topo_inv_step:
  assumes inv: "topo_inv nc deg (oid # rest) order" and deps: "\<And>p c. count_list (deps_of deps p) c = count_list (inside nc c) p"
    and step: "foldl release (deg, []) (deps_of deps oid) = (deg', ready)"
  shows "topo_inv nc deg' (rest @ sort ready) (order @ [oid])"
proof -
  let ?ds = "deps_of deps oid"
  have i: "dom deg = fst ` set nc" "distinct (order @ oid # rest)" "set (order @ oid # rest) = {c \<in> fst ` set nc. degree_of deg c = 0}"
    "degree_of deg c = length (filter (\<lambda>p. p \<notin> set order) (inside nc c))" "parents_first nc order" for c
    using inv by (simp_all add: topo_inv_def)
  have new: "oid \<notin> set order" using i(2) by simp
  have split: "degree_of deg c = length (filter (\<lambda>p. p \<notin> set (order @ [oid])) (inside nc c)) + count_list ?ds c" for c
    using filter_out_one [OF new, of "inside nc c"] i(4) [of c] deps [of oid c] by simp
  have named: "count_list ?ds c \<noteq> 0 \<longleftrightarrow> c \<in> set ?ds" for c by (simp add: count_list_0_iff)
  have known: "set ?ds \<subseteq> dom deg"
  proof
    fix c assume "c \<in> set ?ds"
    then have "count_list (inside nc c) oid \<noteq> 0" using named [of c] unfolding deps [of oid c] by blast
    then have "oid \<in> set (inside nc c)" by (simp add: count_list_0_iff)
    then show "c \<in> dom deg" using inside_key i(1) by blast
  qed
  have "\<forall>c. count_list ?ds c \<le> degree_of deg c" using split by simp
  from release_fold [OF step this known]
  have rel: "dom deg' = dom deg" "degree_of deg' c = degree_of deg c - count_list ?ds c" "distinct ready"
    "set ready = {c \<in> set ?ds. count_list ?ds c = degree_of deg c}" for c by simp_all
  have deg': "degree_of deg' c = length (filter (\<lambda>p. p \<notin> set (order @ [oid])) (inside nc c))" for c
    using split [of c] rel(2) [of c] by simp
  have fresh: "degree_of deg c \<noteq> 0" if "c \<in> set ready" for c using that named [of c] by (auto simp: rel(4))
  have "set (order @ oid # rest) \<inter> set ready = {}" unfolding i(3) using fresh by blast
  then have "distinct ((order @ [oid]) @ rest @ sort ready)" using i(2) rel(3) by auto
  moreover have "set ((order @ [oid]) @ rest @ sort ready) = {c \<in> fst ` set nc. degree_of deg' c = 0}"
  proof -
    have "degree_of deg' c = 0 \<longleftrightarrow> degree_of deg c = 0 \<or> c \<in> set ready" for c
      using split [of c] deg' [of c] named [of c] by (auto simp: rel(4))
    moreover have "set ready \<subseteq> fst ` set nc" using known by (auto simp: rel(4) i(1))
    ultimately show ?thesis using i(3) by auto
  qed
  moreover have "set (inside nc oid) \<subseteq> set order"
  proof -
    have "degree_of deg oid = 0" using i(3) by auto
    then show ?thesis using i(4) [of oid] by (auto simp: filter_empty_conv)
  qed
  ultimately show ?thesis unfolding topo_inv_def using i(1,5) rel(1) deg' by (simp add: parents_first_snoc)
qed

lemma topo_loop_returns:
  assumes deps: "\<And>p c. count_list (deps_of deps p) c = count_list (inside nc c) p"
  shows "topo_inv nc deg queue order \<Longrightarrow> \<exists>deg' order'. topo_loop deps deg queue order = Some order' \<and> topo_inv nc deg' [] order'"
proof (induction "card (fst ` set nc) - length order" arbitrary: deg queue order rule: less_induct)
  case less
  show ?case
  proof (cases queue)
    case Nil
    then show ?thesis using less.prems by (subst topo_loop.simps) auto
  next
    case (Cons oid rest)
    obtain deg' ready where step: "foldl release (deg, []) (deps_of deps oid) = (deg', ready)" by (rule prod.exhaust)
    note inv = topo_inv_step [OF less.prems [unfolded Cons] deps step]
    have "distinct (order @ [oid])" "set (order @ [oid]) \<subseteq> fst ` set nc" using less.prems by (auto simp: topo_inv_def Cons)
    then have "length (order @ [oid]) \<le> card (fst ` set nc)" by (metis card_mono distinct_card finite_imageI List.finite_set)
    then have "card (fst ` set nc) - length (order @ [oid]) < card (fst ` set nc) - length order" by simp
    from less.hyps [OF this inv] show ?thesis by (subst topo_loop.simps) (simp add: Cons step)
  qed
qed

lemma parents_first_acyclic:
  assumes "parents_first nc order" "set order = fst ` set nc"
  shows "acyclic (batch_edges nc)"
proof -
  have before: "p \<in> set (take i order)" if "(p, order ! i) \<in> (batch_edges nc)\<^sup>+" "i < length order" for p i
    using that
  proof (induction rule: converse_trancl_induct)
    case (base p)
    then show ?case using assms(1) by (auto simp: parents_first_def batch_edges_def)
  next
    case (step p q)
    then obtain k where k: "k < i" "k < length order" "q = order ! k" by (auto simp: in_set_conv_nth)
    then have "p \<in> set (take k order)" using step(1) assms(1) by (auto simp: parents_first_def batch_edges_def)
    then show ?case using k(1) by (meson less_imp_le set_take_subset_set_take subsetD)
  qed
  show ?thesis
  proof (rule acyclicI, rule allI, rule notI)
    fix c assume c: "(c, c) \<in> (batch_edges nc)\<^sup>+"
    then obtain p where "(p, c) \<in> batch_edges nc" by (meson tranclD2)
    then have "c \<in> set order" using inside_key assms(2) by (auto simp: batch_edges_def)
    then obtain xs ys where split: "order = xs @ c # ys" "c \<notin> set xs" by (meson split_list_first)
    then have "c \<in> set (take (length xs) order)" using before [of c "length xs"] c by simp
    with split show False by simp
  qed
qed

lemma acyclic_all_ordered:
  assumes "topo_inv nc deg [] order" "acyclic (batch_edges nc)"
  shows "set order = fst ` set nc"
proof (rule ccontr)
  have eq: "set order = {c \<in> fst ` set nc. degree_of deg c = 0}" "degree_of deg c = length (filter (\<lambda>p. p \<notin> set order) (inside nc c))" for c
    using assms(1) unfolding topo_inv_def append_Nil2 by blast+
  assume "set order \<noteq> fst ` set nc"
  then obtain c where c: "c \<in> fst ` set nc - set order" using eq(1) by blast
  have "batch_edges nc \<subseteq> fst ` set nc \<times> fst ` set nc" using inside_key by (auto simp: batch_edges_def)
  then have "finite (batch_edges nc)" by (rule finite_subset) simp
  then have "wf (batch_edges nc)" using assms(2) by (rule finite_acyclic_wf)
  from wfE_min [OF this c] obtain m where m: "m \<in> fst ` set nc - set order" "\<And>p. (p, m) \<in> batch_edges nc \<Longrightarrow> p \<notin> fst ` set nc - set order" by blast
  have "p \<in> set order" if "p \<in> set (inside nc m)" for p using m(2) [of p] inside_key [OF that] that by (simp add: batch_edges_def)
  then have "degree_of deg m = 0" unfolding eq(2) by (simp add: filter_empty_conv)
  then show False using m(1) eq(1) by blast
qed

text \<open>C40: ordering a batch of commits ends, and gives every commit of the batch once with each commit after the parents it has
  there, whatever order the map of the batch is read in; it is refused exactly when the batch has a cycle.\<close>

theorem topo_order_correct:
  assumes "distinct (map fst new_commits)"
  shows "case topo_order new_commits of
      Some (Inr order) \<Rightarrow> distinct order \<and> set order = fst ` set new_commits \<and> parents_first new_commits order \<and> acyclic (batch_edges new_commits)
    | Some (Inl _) \<Rightarrow> \<not> acyclic (batch_edges new_commits)
    | None \<Rightarrow> False"
proof -
  obtain deg deps where count: "count_parents new_commits = (deg, deps)" by (rule prod.exhaust)
  note spec = count_parents_spec [OF count assms]
  let ?ready = "sort (filter (\<lambda>oid. deg oid = Some 0) (map fst new_commits))"
  have "deg c = Some 0 \<longleftrightarrow> degree_of deg c = 0" if "c \<in> fst ` set new_commits" for c
    using spec(1) that by (auto simp: degree_of_def dom_def split: option.splits)
  then have "set ?ready = {c \<in> fst ` set new_commits. degree_of deg c = 0}" by auto
  then have "topo_inv new_commits deg ?ready []"
    using assms spec(1,2) by (simp add: topo_inv_def parents_first_def)
  from topo_loop_returns [OF spec(3) this] obtain deg' order where loop: "topo_loop deps deg ?ready [] = Some order"
    and inv: "topo_inv new_commits deg' [] order" by blast
  have order: "distinct order" "set order \<subseteq> fst ` set new_commits" "parents_first new_commits order"
    using inv unfolding topo_inv_def append_Nil2 by blast+
  have "length new_commits = card (fst ` set new_commits)" using distinct_card [OF assms] by simp
  then have full: "length order = length new_commits \<longleftrightarrow> set order = fst ` set new_commits"
    using distinct_card [OF order(1)] order(2) by (metis card_subset_eq finite_imageI List.finite_set)
  show ?thesis
    using order full acyclic_all_ordered [OF inv] parents_first_acyclic [OF order(3)]
    by (auto simp: topo_order_def count loop Let_def)
qed

definition example_batch :: batch where
  "example_batch = [([3], [[1], [2], [1]]), ([1], [[9]]), ([2], [[1]])]"

theorem topo_order_correct_witness:
  "case topo_order example_batch of Some (Inr order) \<Rightarrow> set order = {[1], [2], [3]} \<and> parents_first example_batch order | _ \<Rightarrow> False"
proof -
  have "set (inside example_batch c) = (if c = [3] then {[1], [2]} else if c = [2] then {[1]} else {})" for c
    by (auto simp: inside_def example_batch_def)
  then have "batch_edges example_batch \<subseteq> measure (\<lambda>c. unat (hd c))" by (auto simp: batch_edges_def split: if_splits)
  then have "acyclic (batch_edges example_batch)" by (meson wf_acyclic wf_measure wf_subset)
  then show ?thesis using topo_order_correct [of example_batch]
    by (auto simp: example_batch_def insert_commute split: option.splits sum.splits)
qed

end
