(* ===== verification/Lattice_Join.thy ===== *)
theory Lattice_Join
  imports Enroute_Prelude
begin

text \<open>
  The \<open>Join\<close> trait and \<open>compose\<close> of \<open>lattice/core/src/join.rs\<close>. The trait is the locale
  \<open>join_laws\<close>: a join on the well-formed values of a type that is associative, commutative and
  idempotent, which are the laws \<open>laws.rs\<close> asks of every implementation. What the store relies on
  is proved once from them: composing does not depend on the order, on repeats, or on which of the
  values were joined beforehand.
\<close>

fun compose :: "('a \<Rightarrow> 'a \<Rightarrow> 'a) \<Rightarrow> 'a list \<Rightarrow> 'a option" where
  "compose join [] = None"
| "compose join (v # vs) = Some (foldl join v vs)"

lemma compose_eq_None_iff [simp]: "compose join vs = None \<longleftrightarrow> vs = []"
  by (cases vs) auto

lemma compose_append:
  "xs \<noteq> [] \<Longrightarrow> compose join (xs @ ys) = Some (foldl join (the (compose join xs)) ys)"
  by (cases xs) auto

locale join_laws =
  fixes join :: "'a \<Rightarrow> 'a \<Rightarrow> 'a" and valid :: "'a \<Rightarrow> bool"
  assumes join_valid: "valid a \<Longrightarrow> valid b \<Longrightarrow> valid (join a b)"
    and join_assoc: "valid a \<Longrightarrow> valid b \<Longrightarrow> valid c \<Longrightarrow> join (join a b) c = join a (join b c)"
    and join_comm: "valid a \<Longrightarrow> valid b \<Longrightarrow> join a b = join b a"
    and join_idem: "valid a \<Longrightarrow> join a a = a"
begin

lemma foldl_valid: "valid v \<Longrightarrow> \<forall>x \<in> set vs. valid x \<Longrightarrow> valid (foldl join v vs)"
  by (induction vs arbitrary: v) (auto intro: join_valid)

lemma compose_valid: "\<forall>x \<in> set vs. valid x \<Longrightarrow> compose join vs = Some c \<Longrightarrow> valid c"
  by (cases vs) (auto intro: foldl_valid)

lemma foldl_join:
  "valid a \<Longrightarrow> valid v \<Longrightarrow> \<forall>x \<in> set vs. valid x \<Longrightarrow> foldl join (join a v) vs = join a (foldl join v vs)"
  by (induction vs arbitrary: v) (auto simp: join_assoc join_valid)

text \<open>The order of the lattice: \<open>b\<close> already holds everything \<open>a\<close> does.\<close>

abbreviation absorbs :: "'a \<Rightarrow> 'a \<Rightarrow> bool" where
  "absorbs b a \<equiv> join b a = b"

lemma absorbs_trans: "valid a \<Longrightarrow> valid b \<Longrightarrow> valid c \<Longrightarrow> absorbs c b \<Longrightarrow> absorbs b a \<Longrightarrow> absorbs c a"
  by (metis join_assoc)

lemma absorbs_antisym: "valid a \<Longrightarrow> valid b \<Longrightarrow> absorbs b a \<Longrightarrow> absorbs a b \<Longrightarrow> a = b"
  by (metis join_comm)

lemma join_absorbs: "valid a \<Longrightarrow> valid b \<Longrightarrow> absorbs (join a b) a" "valid a \<Longrightarrow> valid b \<Longrightarrow> absorbs (join a b) b"
  by (metis join_assoc join_comm join_idem join_valid)+

lemma join_least: "valid a \<Longrightarrow> valid b \<Longrightarrow> valid c \<Longrightarrow> absorbs c a \<Longrightarrow> absorbs c b \<Longrightarrow> absorbs c (join a b)"
  by (metis join_assoc)

lemma foldl_upper:
  "valid v \<Longrightarrow> \<forall>x \<in> set vs. valid x \<Longrightarrow> x \<in> set (v # vs) \<Longrightarrow> absorbs (foldl join v vs) x"
proof (induction vs arbitrary: v x)
  case Nil
  then show ?case by (simp add: join_idem)
next
  case (Cons u vs)
  have valid: "valid (join v u)" "valid u" "\<forall>x \<in> set vs. valid x" using Cons.prems by (auto intro: join_valid)
  have up: "absorbs (foldl join (join v u) vs) y" if "y \<in> set (join v u # vs)" for y
    using Cons.IH [OF valid(1,3)] that by blast
  have big: "valid (foldl join (join v u) vs)" using valid by (intro foldl_valid) auto
  have top: "absorbs (foldl join (join v u) vs) (join v u)" by (rule up) simp
  have "absorbs (foldl join (join v u) vs) v"
    by (rule absorbs_trans [OF Cons.prems(1) valid(1) big top join_absorbs(1) [OF Cons.prems(1) valid(2)]])
  moreover have "absorbs (foldl join (join v u) vs) u"
    by (rule absorbs_trans [OF valid(2,1) big top join_absorbs(2) [OF Cons.prems(1) valid(2)]])
  ultimately show ?case using up Cons.prems(3) by auto
qed

lemma foldl_least:
  "valid v \<Longrightarrow> \<forall>x \<in> set vs. valid x \<Longrightarrow> valid c \<Longrightarrow> \<forall>x \<in> set (v # vs). absorbs c x \<Longrightarrow> absorbs c (foldl join v vs)"
  by (induction vs arbitrary: v) (auto intro: join_valid join_least)

lemma compose_set_eq:
  assumes "\<forall>x \<in> set xs. valid x" "set xs = set ys"
  shows "compose join xs = compose join ys"
proof (cases xs)
  case Nil
  then show ?thesis using assms by simp
next
  case (Cons x xs')
  then obtain y ys' where ys: "ys = y # ys'" using assms(2) by (cases ys) auto
  have valid: "valid x" "\<forall>x \<in> set xs'. valid x" "valid y" "\<forall>x \<in> set ys'. valid x"
    using assms Cons ys by auto
  have "foldl join x xs' = foldl join y ys'"
  proof (rule absorbs_antisym)
    show "valid (foldl join x xs')" "valid (foldl join y ys')" using valid by (auto intro: foldl_valid)
    then show "absorbs (foldl join y ys') (foldl join x xs')" "absorbs (foldl join x xs') (foldl join y ys')"
      using valid foldl_upper assms(2) unfolding Cons ys by (intro foldl_least; metis)+
  qed
  then show ?thesis by (simp add: Cons ys)
qed

text \<open>Merging some of the values first, as compaction does, changes nothing.\<close>

lemma compose_merge:
  assumes "\<forall>x \<in> set xs. valid x" "\<forall>x \<in> set ys. valid x" "compose join xs = Some m"
  shows "compose join (m # ys) = compose join (xs @ ys)"
  using assms by (cases xs) auto

end

end
