(* ===== verification/Lattice_Key.thy ===== *)
theory Lattice_Key
  imports Enroute_Prelude
begin

text \<open>
  The key space of \<open>lattice/core/src/key.rs\<close>: inclusive ranges of 64-bit keys and \<open>cluster\<close>, which
  covers a set of keys with a bounded number of ranges by cutting at the widest gaps. The newtype
  \<open>Key\<close> is its \<open>u64\<close>.
\<close>

section \<open>Ranges\<close>

type_synonym key = u64

record empty_range =
  er_first :: u64
  er_last :: u64

record key_range =
  kr_first :: key
  kr_last :: key

definition EVERYTHING :: key_range where
  "EVERYTHING = \<lparr>kr_first = 0, kr_last = - 1\<rparr>"

definition key_range_new :: "key \<Rightarrow> key \<Rightarrow> (empty_range, key_range) result" where
  "key_range_new first last' =
     (if last' < first then Inl \<lparr>er_first = first, er_last = last'\<rparr>
      else Inr \<lparr>kr_first = first, kr_last = last'\<rparr>)"

text \<open>The subtraction and the addition are the machine's; \<open>span\<close> of \<open>EVERYTHING\<close> wraps to zero.\<close>

definition span :: "key_range \<Rightarrow> u64" where
  "span r = kr_last r - kr_first r + 1"

definition contains :: "key_range \<Rightarrow> key \<Rightarrow> bool" where
  "contains r k \<longleftrightarrow> kr_first r \<le> k \<and> k \<le> kr_last r"

definition overlaps :: "key_range \<Rightarrow> key_range \<Rightarrow> bool" where
  "overlaps r s \<longleftrightarrow> kr_first r \<le> kr_last s \<and> kr_first s \<le> kr_last r"

definition range_hull :: "key_range \<Rightarrow> key_range \<Rightarrow> key_range" where
  "range_hull r s =
     \<lparr>kr_first = (if kr_first r \<le> kr_first s then kr_first r else kr_first s),
      kr_last = (if kr_last s \<le> kr_last r then kr_last r else kr_last s)\<rparr>"

text \<open>A value built by \<open>key_range_new\<close> is never empty; every range of the program is one.\<close>

definition range_ok :: "key_range \<Rightarrow> bool" where
  "range_ok r \<longleftrightarrow> kr_first r \<le> kr_last r"

named_theorems range_simps "unfolding the range operations"

lemmas [range_simps] = range_ok_def contains_def overlaps_def range_hull_def

lemma key_range_new_ok: "key_range_new a b = Inr r \<Longrightarrow> range_ok r"
  by (auto simp: key_range_new_def range_ok_def split: if_splits)

lemma range_hull_contains:
  "contains r k \<or> contains s k \<Longrightarrow> contains (range_hull r s) k"
  by (auto simp: range_simps)

lemma range_hull_least:
  "range_ok r \<Longrightarrow> range_ok s \<Longrightarrow> (\<And>k. contains r k \<or> contains s k \<Longrightarrow> contains t k) \<Longrightarrow>
     contains (range_hull r s) k \<Longrightarrow> contains t k"
proof -
  assume ok: "range_ok r" "range_ok s" and sub: "\<And>k. contains r k \<or> contains s k \<Longrightarrow> contains t k"
    and k: "contains (range_hull r s) k"
  have "contains t (kr_first r)" "contains t (kr_first s)" "contains t (kr_last r)" "contains t (kr_last s)"
    using ok by (intro sub; simp add: range_simps)+
  with k show ?thesis by (auto simp: range_simps split: if_splits)
qed

lemma range_hull_ok [simp]: "range_ok r \<Longrightarrow> range_ok s \<Longrightarrow> range_ok (range_hull r s)"
  by (auto simp: range_simps)

lemma overlaps_iff_shared:
  "range_ok r \<Longrightarrow> range_ok s \<Longrightarrow> overlaps r s \<longleftrightarrow> (\<exists>k. contains r k \<and> contains s k)"
proof
  assume "range_ok r" "range_ok s" "overlaps r s"
  then have "contains r (max (kr_first r) (kr_first s)) \<and> contains s (max (kr_first r) (kr_first s))"
    by (auto simp: range_simps)
  then show "\<exists>k. contains r k \<and> contains s k" by blast
qed (auto simp: range_simps)

lemma unat_span:
  assumes "range_ok r" "r \<noteq> EVERYTHING"
  shows "unat (span r) = unat (kr_last r) - unat (kr_first r) + 1"
proof -
  have ge: "unat (kr_first r) \<le> unat (kr_last r)"
    using assms(1) by (simp add: range_ok_def word_le_nat_alt)
  have sub: "unat (kr_last r - kr_first r) = unat (kr_last r) - unat (kr_first r)"
    using assms(1) by (simp add: range_ok_def unat_sub)
  have "unat (kr_last r) - unat (kr_first r) + 1 < 2 ^ 64"
  proof (rule ccontr)
    assume "\<not> ?thesis"
    moreover have "unat (kr_last r) < 2 ^ 64" using unat_bound [of "kr_last r"] by simp
    ultimately have "unat (kr_last r) = unat (- 1 :: u64)" "unat (kr_first r) = unat (0 :: u64)"
      by (auto simp: unat_u64_max)
    then have "r = EVERYTHING" by (simp only: word_unat_eq_iff [symmetric]) (simp add: EVERYTHING_def)
    with assms(2) show False ..
  qed
  then show ?thesis using sub by (simp add: span_def unat_word_ariths)
qed

section \<open>Covering keys with few ranges\<close>

definition gaps_of :: "u64 list \<Rightarrow> (u64 \<times> nat) list" where
  "gaps_of s = map (\<lambda>at. (s ! Suc at - s ! at, at))
     (filter (\<lambda>at. 1 < s ! Suc at - s ! at) [0..<length s - 1])"

text \<open>\<open>select_nth_unstable_by(keep, descending)\<close> and \<open>truncate(keep)\<close> leave the \<open>keep\<close> greatest gaps;
  in which order does not matter, the cuts are sorted next.\<close>

definition widest :: "nat \<Rightarrow> (u64 \<times> nat) list \<Rightarrow> (u64 \<times> nat) list" where
  "widest keep gaps = (if keep < length gaps then take keep (rev (sort gaps)) else gaps)"

fun cut_ranges :: "u64 list \<Rightarrow> nat \<Rightarrow> nat list \<Rightarrow> key_range list" where
  "cut_ranges s from [] = []"
| "cut_ranges s from (c # cuts) =
     (case (get_at s from, get_at s c) of
        (Some first, Some last') \<Rightarrow>
          (case key_range_new first last' of Inr r \<Rightarrow> [r] | Inl _ \<Rightarrow> [])
      | _ \<Rightarrow> []) @ cut_ranges s (c + 1) cuts"

definition hull_span :: "u64 list \<Rightarrow> u64" where
  "hull_span s = (if s = [] then 0 else sat_add (sat_sub (last s) (hd s)) 1)"

definition hull_of :: "u64 list \<Rightarrow> key_range list" where
  "hull_of s = (if s = [] then [] else
     case key_range_new (hd s) (last s) of Inr r \<Rightarrow> [r] | Inl _ \<Rightarrow> [])"

definition worth_splitting :: "key_range list \<Rightarrow> u64 list \<Rightarrow> bool" where
  "worth_splitting ranges s \<longleftrightarrow>
     length ranges < 2 \<or> sat_mul (sum_list (map span ranges)) (u64_len ranges) \<le> hull_span s"

definition cluster :: "key list \<Rightarrow> nat \<Rightarrow> key_range list" where
  "cluster keys most =
     (let s = remdups_adj (sort keys) in
      if s = [] then []
      else let gaps = widest (most - 1) (gaps_of s);
               cuts = sort (map snd gaps) @ [length s - 1];
               ranges = cut_ranges s 0 cuts
           in if worth_splitting ranges s then ranges else hull_of s)"

lemma gaps_of_index: "(g, at) \<in> set (gaps_of s) \<Longrightarrow> at < length s - 1"
  by (auto simp: gaps_of_def)

lemma distinct_gaps_of: "distinct (map snd (gaps_of s))"
  by (simp add: gaps_of_def comp_def)

lemma widest_subset: "set (widest keep gaps) \<subseteq> set gaps"
  using set_take_subset [of keep "rev (sort gaps)"] by (simp add: widest_def)

lemma length_widest: "length (widest keep gaps) \<le> keep"
  by (simp add: widest_def)

lemma distinct_widest:
  assumes "distinct (map snd gaps)"
  shows "distinct (map snd (widest keep gaps))"
proof -
  have "distinct gaps" "inj_on snd (set gaps)" using assms by (simp_all add: distinct_map)
  moreover have "distinct (widest keep gaps)" using calculation by (simp add: widest_def)
  ultimately show ?thesis
    using widest_subset [of keep gaps] by (auto simp: distinct_map intro: inj_on_subset)
qed

lemma cut_ranges_Cons:
  assumes "sorted_wrt (<) s" "from \<le> c" "c < length s"
  shows "cut_ranges s from (c # cuts) =
    \<lparr>kr_first = s ! from, kr_last = s ! c\<rparr> # cut_ranges s (c + 1) cuts"
proof -
  have "s ! from \<le> s ! c"
    using assms by (cases "from = c") (auto dest: sorted_wrt_nth_less [of _ s "from" c])
  then show ?thesis using assms by (simp add: get_at_def key_range_new_def)
qed

declare cut_ranges.simps(2) [simp del]

text \<open>Cutting a strictly increasing list at strictly increasing positions: one range per cut, between
  two elements of the list, covering everything up to the last cut, in order and disjoint.\<close>

definition cuts_ok :: "u64 list \<Rightarrow> nat \<Rightarrow> nat list \<Rightarrow> bool" where
  "cuts_ok s from cuts \<longleftrightarrow> sorted_wrt (<) s \<and> sorted_wrt (<) cuts \<and> (\<forall>c \<in> set cuts. from \<le> c \<and> c < length s)"

lemma cuts_ok_Cons:
  "cuts_ok s from (c # cuts) \<Longrightarrow> cuts_ok s (c + 1) cuts \<and> from \<le> c \<and> c < length s \<and>
     cut_ranges s from (c # cuts) = \<lparr>kr_first = s ! from, kr_last = s ! c\<rparr> # cut_ranges s (c + 1) cuts"
  by (auto simp: cuts_ok_def Suc_le_eq cut_ranges_Cons)

lemma length_cut_ranges: "cuts_ok s from cuts \<Longrightarrow> length (cut_ranges s from cuts) = length cuts"
  by (induction cuts arbitrary: "from") (auto dest: cuts_ok_Cons)

lemma cut_ranges_ends:
  "cuts_ok s from cuts \<Longrightarrow> r \<in> set (cut_ranges s from cuts) \<Longrightarrow>
     \<exists>a b. from \<le> a \<and> a \<le> b \<and> b < length s \<and> r = \<lparr>kr_first = s ! a, kr_last = s ! b\<rparr>"
proof (induction cuts arbitrary: "from")
  case Nil
  then show ?case by simp
next
  case (Cons c cuts)
  note step = cuts_ok_Cons [OF Cons.prems(1)]
  show ?case
  proof (cases "r = \<lparr>kr_first = s ! from, kr_last = s ! c\<rparr>")
    case True
    with step show ?thesis by blast
  next
    case False
    with Cons.prems(2) step have "r \<in> set (cut_ranges s (c + 1) cuts)" by simp
    with Cons.IH step obtain a b where "c + 1 \<le> a" "a \<le> b" "b < length s" "r = \<lparr>kr_first = s ! a, kr_last = s ! b\<rparr>"
      by blast
    with step show ?thesis by (intro exI [of _ a] exI [of _ b]) simp
  qed
qed

lemma strict_mono_list: "sorted_wrt (<) (s :: u64 list) \<Longrightarrow> a \<le> b \<Longrightarrow> b < length s \<Longrightarrow> s ! a \<le> s ! b"
  by (cases "a = b") (auto dest: sorted_wrt_nth_less [of _ s a b])

lemma cut_ranges_cover:
  "cuts_ok s from cuts \<Longrightarrow> cuts \<noteq> [] \<Longrightarrow> from \<le> i \<Longrightarrow> i \<le> last cuts \<Longrightarrow>
     \<exists>r \<in> set (cut_ranges s from cuts). contains r (s ! i)"
proof (induction cuts arbitrary: "from")
  case Nil
  then show ?case by simp
next
  case (Cons c cuts)
  note step = cuts_ok_Cons [OF Cons.prems(1)]
  show ?case
  proof (cases "i \<le> c")
    case True
    have "sorted_wrt (<) s" using Cons.prems(1) by (simp add: cuts_ok_def)
    with True Cons.prems(3) step have "contains \<lparr>kr_first = s ! from, kr_last = s ! c\<rparr> (s ! i)"
      by (auto simp: contains_def intro: strict_mono_list)
    with step show ?thesis by simp
  next
    case False
    then have "cuts \<noteq> []" using Cons.prems(4) by auto
    with False Cons.IH [of "c + 1"] Cons.prems(4) step show ?thesis by simp
  qed
qed

lemma cut_ranges_sorted:
  "cuts_ok s from cuts \<Longrightarrow> sorted_wrt (\<lambda>r r'. kr_last r < kr_first r') (cut_ranges s from cuts)"
proof (induction cuts arbitrary: "from")
  case Nil
  then show ?case by simp
next
  case (Cons c cuts)
  note step = cuts_ok_Cons [OF Cons.prems]
  have "s ! c < kr_first r" if "r \<in> set (cut_ranges s (c + 1) cuts)" for r
  proof -
    from cut_ranges_ends that step obtain a b where "c + 1 \<le> a" "a < length s" "kr_first r = s ! a"
      by fastforce
    with Cons.prems show ?thesis by (auto simp: cuts_ok_def intro: sorted_wrt_nth_less)
  qed
  with Cons.IH step show ?case by simp
qed

section \<open>What \<open>cluster\<close> promises\<close>

lemma strict_sorted_remdups_adj: "sorted (xs :: 'a :: linorder list) \<Longrightarrow> sorted_wrt (<) (remdups_adj xs)"
  by (induction xs rule: remdups_adj.induct) (auto simp: less_le)

lemma strict_sorted_dedup: "sorted_wrt (<) (remdups_adj (sort (keys :: 'a :: linorder list)))"
  by (simp add: strict_sorted_remdups_adj)

lemma cluster_cuts_ok:
  assumes "s = remdups_adj (sort keys)" "s \<noteq> []"
  shows "cuts_ok s 0 (sort (map snd (widest keep (gaps_of s))) @ [length s - 1])"
proof -
  let ?w = "map snd (widest keep (gaps_of s))"
  have ss: "sorted_wrt (<) s" using strict_sorted_dedup [of keys] by (simp add: assms(1))
  have bound: "c < length s - 1" if "c \<in> set ?w" for c
    using that widest_subset [of keep "gaps_of s"] gaps_of_index [of _ c s] by auto
  have "distinct (sort ?w)" using distinct_widest [OF distinct_gaps_of] by simp
  then have "sorted_wrt (<) (sort ?w)" by (simp add: strict_sorted_iff)
  with ss bound assms(2) show ?thesis
    unfolding cuts_ok_def sorted_wrt_append by force
qed

text \<open>The contract: the ranges are non-empty and in order, none shares a key with another, each starts
  and ends on a requested key, there are at most \<open>most\<close> of them and every requested key is in one.\<close>

definition covers_with :: "key list \<Rightarrow> nat \<Rightarrow> key_range list \<Rightarrow> bool" where
  "covers_with keys most ranges \<longleftrightarrow>
     (\<forall>k \<in> set keys. \<exists>r \<in> set ranges. contains r k) \<and> length ranges \<le> most \<and>
     sorted_wrt (\<lambda>r r'. kr_last r < kr_first r') ranges \<and>
     (\<forall>r \<in> set ranges. range_ok r \<and> kr_first r \<in> set keys \<and> kr_last r \<in> set keys)"

lemma hull_of_covers:
  assumes "sorted_wrt (<) s" "s \<noteq> []" "1 \<le> most"
  shows "covers_with s most (hull_of s)"
proof -
  have le: "hd s \<le> k \<and> k \<le> last s" if "k \<in> set s" for k
    using that assms(1,2) strict_mono_list [of s 0] strict_mono_list [of s _ "length s - 1"]
    by (fastforce simp: in_set_conv_nth hd_conv_nth last_conv_nth)
  moreover have "hull_of s = [\<lparr>kr_first = hd s, kr_last = last s\<rparr>]"
    using le [of "hd s"] assms(2) by (simp add: hull_of_def key_range_new_def not_less)
  ultimately show ?thesis using assms by (auto simp: covers_with_def range_simps)
qed

lemma cut_ranges_covers:
  assumes "cuts_ok s 0 cuts" "cuts \<noteq> []" "last cuts = length s - 1" "length cuts \<le> most"
  shows "covers_with s most (cut_ranges s 0 cuts)"
proof -
  have ss: "sorted_wrt (<) s" using assms(1) by (simp add: cuts_ok_def)
  have "\<exists>r \<in> set (cut_ranges s 0 cuts). contains r k" if "k \<in> set s" for k
  proof -
    from that obtain i where "i < length s" "k = s ! i" by (auto simp: in_set_conv_nth)
    then show ?thesis using cut_ranges_cover [OF assms(1,2), of i] assms(3) by simp
  qed
  moreover have "range_ok r \<and> kr_first r \<in> set s \<and> kr_last r \<in> set s" if "r \<in> set (cut_ranges s 0 cuts)" for r
    using cut_ranges_ends [OF assms(1) that] strict_mono_list [OF ss] by (auto simp: range_ok_def)
  ultimately show ?thesis
    using cut_ranges_sorted [OF assms(1)] length_cut_ranges [OF assms(1)] assms(4)
    by (simp add: covers_with_def)
qed

lemma cluster_contract:
  assumes "1 \<le> most"
  shows "covers_with keys most (cluster keys most)"
proof -
  define s where "s = remdups_adj (sort keys)"
  define cuts where "cuts = sort (map snd (widest (most - 1) (gaps_of s))) @ [length s - 1]"
  have set_s: "set s = set keys" by (simp add: s_def)
  have ss: "sorted_wrt (<) s" by (simp add: s_def strict_sorted_dedup)
  have "length cuts \<le> most"
    using length_widest [of "most - 1" "gaps_of s"] assms by (simp add: cuts_def)
  then have "covers_with s most (cluster keys most)" if "s \<noteq> []"
    using that cut_ranges_covers [OF cluster_cuts_ok [OF s_def that, of "most - 1"], of most]
      hull_of_covers [OF ss that assms]
    by (simp add: cluster_def Let_def flip: s_def cuts_def) (simp add: cuts_def)
  moreover have "covers_with s most (cluster keys most)" if "s = []"
    using that by (simp add: cluster_def covers_with_def flip: s_def)
  ultimately have "covers_with s most (cluster keys most)" by blast
  then show ?thesis by (simp add: covers_with_def set_s)
qed

text \<open>
  C10: \<open>cluster\<close> meets its contract for every list of keys and every positive bound: it covers every
  key, with at most \<open>most\<close> ranges, in order and pairwise disjoint, each starting and ending on a key.
\<close>

theorem cluster_covers:
  assumes "1 \<le> most"
  shows "covers_with keys most (cluster keys most)"
  using assms by (rule cluster_contract)

theorem cluster_covers_witness:
  "covers_with [1, 9, 2, 40] 2 (cluster [1, 9, 2, 40] 2)"
  by (rule cluster_covers) simp

end
