(* ===== verification/Lattice_Segment.thy ===== *)
theory Lattice_Segment
  imports Lattice_Join Lattice_Key
begin

text \<open>
  The \<open>Segment\<close> trait of \<open>lattice/core/src/segment.rs\<close>. Its operations are a record, so that the store
  can be written over any implementation; what an implementation promises is the locale \<open>segment\<close>, a
  join with an encoding. The laws are the ones \<open>conformance.rs\<close> checks, stated on the lookup \<open>at\<close> that
  readers use: the encoding reads back, a ranged decode answers every key of its range as the whole
  does and invents nothing, a value reports a range that contains every key it answers, and the join
  answers a key with the merge of the two answers.
\<close>

record ('s, 'e) segment_ops =
  so_join :: "'s \<Rightarrow> 's \<Rightarrow> 's"
  so_range :: "'s \<Rightarrow> key_range option"
  so_encode :: "'s \<Rightarrow> bytes"
  so_decode_range :: "bytes \<Rightarrow> key_range \<Rightarrow> ('e, 's) result"

definition so_decode :: "('s, 'e) segment_ops \<Rightarrow> bytes \<Rightarrow> ('e, 's) result" where
  "so_decode ops bytes = so_decode_range ops bytes EVERYTHING"

text \<open>What a reader holding all of \<open>vs\<close> answers for one key.\<close>

definition answer :: "('v option \<Rightarrow> 'v option \<Rightarrow> 'v option) \<Rightarrow> ('s \<Rightarrow> key \<Rightarrow> 'v option) \<Rightarrow> 's list \<Rightarrow> key \<Rightarrow> 'v option" where
  "answer merge at vs k = foldl merge None (map (\<lambda>v. at v k) vs)"

lemma EVERYTHING_contains [simp]: "contains EVERYTHING k" "range_ok EVERYTHING"
  by (simp_all add: contains_def EVERYTHING_def range_ok_def)

lemma EVERYTHING_overlaps [simp]: "overlaps r EVERYTHING"
  by (simp add: overlaps_def EVERYTHING_def)

locale segment = join_laws "so_join ops" valid + answers: join_laws merge "\<lambda>_. True"
  for ops :: "('s, 'e) segment_ops" and valid :: "'s \<Rightarrow> bool" and merge :: "'v option \<Rightarrow> 'v option \<Rightarrow> 'v option" +
  fixes at :: "'s \<Rightarrow> key \<Rightarrow> 'v option"
  assumes round_trip: "valid a \<Longrightarrow> so_decode_range ops (so_encode ops a) EVERYTHING = Inr a"
    and narrowing: "valid a \<Longrightarrow> range_ok r \<Longrightarrow>
      \<exists>b. so_decode_range ops (so_encode ops a) r = Inr b \<and> valid b \<and>
        (\<forall>k. at b k = (if contains r k then at a k else None))"
    and at_range: "valid a \<Longrightarrow> at a k \<noteq> None \<Longrightarrow> \<exists>r. so_range ops a = Some r \<and> contains r k"
    and range_of_ok: "valid a \<Longrightarrow> so_range ops a = Some r \<Longrightarrow> range_ok r"
    and at_join: "valid a \<Longrightarrow> valid b \<Longrightarrow> at (so_join ops a b) k = merge (at a k) (at b k)"
    and merge_None: "merge None x = x"
begin

lemma merge_None_right: "merge x None = x"
  using answers.join_comm [of x None] merge_None by simp

lemma encode_inj: "valid a \<Longrightarrow> valid b \<Longrightarrow> so_encode ops a = so_encode ops b \<Longrightarrow> a = b"
  using round_trip by (metis sum.inject(2))

lemma at_foldl:
  "valid v \<Longrightarrow> \<forall>x \<in> set vs. valid x \<Longrightarrow> at (foldl (so_join ops) v vs) k = foldl merge (at v k) (map (\<lambda>x. at x k) vs)"
  by (induction vs arbitrary: v) (auto simp: at_join join_valid)

lemma at_compose:
  "\<forall>x \<in> set vs. valid x \<Longrightarrow> compose (so_join ops) vs = Some c \<Longrightarrow> at c k = answer merge at vs k"
  by (cases vs) (auto simp: at_foldl merge_None answer_def)

lemma answer_set_eq: "set xs = set ys \<Longrightarrow> answer merge at xs k = answer merge at ys k"
  using answers.compose_set_eq [of "None # map (\<lambda>v. at v k) xs" "None # map (\<lambda>v. at v k) ys"]
  by (simp add: answer_def)

lemma foldl_merge_None: "foldl merge x xs = merge x (foldl merge None xs)"
  using answers.foldl_join [where a = x and v = None and vs = xs] by (simp add: merge_None_right)

lemma answer_append: "answer merge at (xs @ ys) k = merge (answer merge at xs k) (answer merge at ys k)"
  by (simp add: answer_def foldl_merge_None [of "foldl merge None (map (\<lambda>v. at v k) xs)"])

lemma answer_Nil [simp]: "answer merge at [] k = None"
  by (simp add: answer_def)

lemma answer_single [simp]: "answer merge at [v] k = at v k"
  by (simp add: answer_def merge_None)

lemma answer_filter:
  "\<forall>v \<in> set vs. \<not> P v \<longrightarrow> at v k = None \<Longrightarrow> answer merge at (filter P vs) k = answer merge at vs k"
proof -
  have "\<forall>v \<in> set vs. \<not> P v \<longrightarrow> at v k = None \<Longrightarrow>
      foldl merge x (map (\<lambda>v. at v k) (filter P vs)) = foldl merge x (map (\<lambda>v. at v k) vs)" for x
    by (induction vs arbitrary: x) (auto simp: merge_None_right)
  then show "\<forall>v \<in> set vs. \<not> P v \<longrightarrow> at v k = None \<Longrightarrow> answer merge at (filter P vs) k = answer merge at vs k"
    by (simp add: answer_def)
qed

end

end
