(* ===== verification/Lattice_Plan.thy ===== *)
theory Lattice_Plan
  imports Lattice_Key "HOL-Library.Option_ord"
begin

text \<open>
  Compaction planning, \<open>lattice/core/src/plan.rs\<close>: placements of segments, the tiering policy and
  \<open>plan\<close>, which chooses the merges from the placements alone. \<open>Tier\<close> is its \<open>u8\<close>; the \<open>BTreeMap\<close>
  from tiers to indices is the sorted list of the tiers that occur, each with its indices in
  the order they were pushed.
\<close>

section \<open>Placements and policy\<close>

type_synonym tier = u8

definition tier_next :: "tier \<Rightarrow> tier" where
  "tier_next t = sat_add t 1"

datatype residence = Inline | Bucket

record placement =
  pl_range :: key_range
  pl_tier :: tier
  pl_bytes :: u64
  pl_residence :: residence

record policy =
  po_fanout :: nat
  po_max_inputs :: nat
  po_max_input_bytes :: u64
  po_graduation_bytes :: u64
  po_inline_ceiling :: nat

definition residence_for :: "policy \<Rightarrow> u64 \<Rightarrow> residence" where
  "residence_for p bytes = (if po_graduation_bytes p \<le> bytes then Bucket else Inline)"

record merge =
  mg_inputs :: "nat list"
  mg_tier :: tier
  mg_range :: key_range

section \<open>Planning\<close>

definition placement_key :: "placement \<Rightarrow> u64 \<times> u64" where
  "placement_key p = (kr_first (pl_range p), kr_last (pl_range p))"

definition size_at :: "placement list \<Rightarrow> nat \<Rightarrow> u64" where
  "size_at placements i = (case get_at placements i of None \<Rightarrow> 0 | Some p \<Rightarrow> pl_bytes p)"

text \<open>The loop of \<open>runs\<close>: the runs closed so far, the open run and its bytes.\<close>

fun runs_loop ::
    "placement list \<Rightarrow> policy \<Rightarrow> nat list \<Rightarrow> nat list list \<Rightarrow> nat list \<Rightarrow> u64 \<Rightarrow> nat list list" where
  "runs_loop placements policy [] closed run bytes = (if 2 \<le> length run then closed @ [run] else closed)"
| "runs_loop placements policy (i # is) closed run bytes =
     (let sz = size_at placements i;
          full = (max (po_max_inputs policy) 2 \<le> length run \<or>
                  (2 \<le> length run \<and> po_max_input_bytes policy < sat_add bytes sz));
          (closed, run, bytes) = (if full then (closed @ [run], [], 0) else (closed, run, bytes))
      in runs_loop placements policy is closed (run @ [i]) (sat_add bytes sz))"

definition plan_runs :: "nat list \<Rightarrow> placement list \<Rightarrow> policy \<Rightarrow> nat list list" where
  "plan_runs indices placements policy = runs_loop placements policy indices [] [] 0"

fun reduce :: "('a \<Rightarrow> 'a \<Rightarrow> 'a) \<Rightarrow> 'a list \<Rightarrow> 'a option" where
  "reduce f [] = None"
| "reduce f (x # xs) = Some (foldl f x xs)"

definition run_hull :: "nat list \<Rightarrow> placement list \<Rightarrow> key_range option" where
  "run_hull run placements = reduce range_hull (map pl_range (List.map_filter (get_at placements) run))"

definition indices_of :: "placement list \<Rightarrow> tier \<Rightarrow> nat list" where
  "indices_of placements t = filter (\<lambda>i. pl_tier (placements ! i) = t) [0..<length placements]"

definition tiers_of :: "placement list \<Rightarrow> tier list" where
  "tiers_of placements = sorted_list_of_set (set (map pl_tier placements))"

text \<open>The merges one tier contributes.\<close>

definition tier_merges :: "placement list \<Rightarrow> policy \<Rightarrow> bool \<Rightarrow> tier \<Rightarrow> merge list" where
  "tier_merges placements policy pressured t =
     (let indices = sort_key (\<lambda>i. map_option placement_key (get_at placements i)) (indices_of placements t);
          due = (po_fanout policy \<le> length indices \<or> (pressured \<and> 2 \<le> length indices))
      in if \<not> due then []
         else List.map_filter (\<lambda>run. map_option
                (\<lambda>r. \<lparr>mg_inputs = run, mg_tier = tier_next t, mg_range = r\<rparr>) (run_hull run placements))
              (plan_runs indices placements policy))"

fun plan_tiers :: "placement list \<Rightarrow> policy \<Rightarrow> bool \<Rightarrow> tier list \<Rightarrow> merge list" where
  "plan_tiers placements policy pressured [] = []"
| "plan_tiers placements policy pressured (t # ts) =
     (let merges = tier_merges placements policy pressured t
      in merges @ plan_tiers placements policy (pressured \<and> merges = []) ts)"

definition plan :: "placement list \<Rightarrow> policy \<Rightarrow> merge list" where
  "plan placements policy =
     (let inlined = length (filter (\<lambda>p. pl_residence p = Inline) placements)
      in plan_tiers placements policy (po_inline_ceiling policy < inlined) (tiers_of placements))"

section \<open>Runs\<close>

lemma sat_add_nat: "unat (sat_add a b :: u64) = min (unat a + unat b) (2 ^ 64 - 1)"
proof (cases "unat a + unat b < 2 ^ 64")
  case True
  then have "unat (a + b) = unat a + unat b" by (simp add: unat_word_ariths)
  with True show ?thesis by (simp add: sat_add_def)
next
  case False
  then show ?thesis by (simp add: sat_add_def unat_u64_max)
qed

text \<open>What a run promises: at least two indices, and more than two only within both limits of the policy.
  A run of two, the least a merge can take, is formed whatever the limits say: the bound on its length is
  \<open>policy.max_inputs.max(2)\<close>, and the byte limit is asked only of a run that already has two.\<close>

definition run_ok :: "placement list \<Rightarrow> policy \<Rightarrow> nat list \<Rightarrow> bool" where
  "run_ok placements policy run \<longleftrightarrow> 2 \<le> length run \<and>
     (2 < length run \<longrightarrow> length run \<le> po_max_inputs policy \<and>
        min (\<Sum>i \<leftarrow> run. unat (size_at placements i)) (2 ^ 64 - 1) \<le> unat (po_max_input_bytes policy))"

definition open_ok :: "placement list \<Rightarrow> policy \<Rightarrow> nat list \<Rightarrow> u64 \<Rightarrow> bool" where
  "open_ok placements policy run bytes \<longleftrightarrow>
     unat bytes = min (\<Sum>i \<leftarrow> run. unat (size_at placements i)) (2 ^ 64 - 1) \<and>
     length run \<le> max (po_max_inputs policy) 2 \<and>
     (2 < length run \<longrightarrow> unat bytes \<le> unat (po_max_input_bytes policy))"

lemma open_ok_run_ok: "open_ok placements policy run bytes \<Longrightarrow> 2 \<le> length run \<Longrightarrow> run_ok placements policy run"
  by (auto simp: open_ok_def run_ok_def)

lemma open_ok_step:
  assumes "open_ok placements policy run bytes"
    and "\<not> (max (po_max_inputs policy) 2 \<le> length run \<or>
      (2 \<le> length run \<and> po_max_input_bytes policy < sat_add bytes (size_at placements i)))"
  shows "open_ok placements policy (run @ [i]) (sat_add bytes (size_at placements i))"
  using assms by (auto simp: open_ok_def sat_add_nat word_less_nat_alt not_less)

lemma open_ok_fresh: "open_ok placements policy [i] (sat_add 0 (size_at placements i))"
  using unat_bound [of "size_at placements i"] by (simp add: open_ok_def sat_add_nat)

lemma runs_loop_ok:
  "open_ok placements policy run bytes \<Longrightarrow> \<forall>r \<in> set closed. run_ok placements policy r \<Longrightarrow>
     \<forall>r \<in> set (runs_loop placements policy is closed run bytes). run_ok placements policy r"
proof (induction "is" arbitrary: closed run bytes)
  case Nil
  then show ?case by (auto intro: open_ok_run_ok)
next
  case (Cons i "is")
  let ?full = "max (po_max_inputs policy) 2 \<le> length run \<or>
    (2 \<le> length run \<and> po_max_input_bytes policy < sat_add bytes (size_at placements i))"
  show ?case
  proof (cases ?full)
    case True
    then have "2 \<le> length run" by auto
    with Cons.prems have "\<forall>r \<in> set (closed @ [run]). run_ok placements policy r"
      by (auto intro: open_ok_run_ok)
    from Cons.IH [OF open_ok_fresh this] show ?thesis
      by (simp only: runs_loop.simps Let_def if_P [OF True] prod.case append_Nil)
  next
    case False
    from Cons.IH [OF open_ok_step [OF Cons.prems(1) False] Cons.prems(2)] show ?thesis
      by (simp only: runs_loop.simps Let_def if_not_P [OF False] prod.case)
  qed
qed

text \<open>The runs are consecutive pieces of the indices: at most one trailing index is left out.\<close>

lemma runs_loop_concat:
  "\<exists>tail. concat (runs_loop placements policy is closed run bytes) @ tail = concat closed @ run @ is \<and>
     length tail < 2"
proof (induction "is" arbitrary: closed run bytes)
  case Nil
  show ?case by (cases "2 \<le> length run") (auto intro: exI [of _ run])
next
  case (Cons i "is")
  show ?case
    using Cons.IH [of "closed @ [run]" "[i]" "sat_add 0 (size_at placements i)"]
      Cons.IH [of closed "run @ [i]" "sat_add bytes (size_at placements i)"]
    by (simp add: Let_def)
qed

lemma plan_runs_spec:
  "\<forall>r \<in> set (plan_runs indices placements policy). run_ok placements policy r"
  "\<exists>tail. concat (plan_runs indices placements policy) @ tail = indices \<and> length tail < 2"
  using runs_loop_ok [of placements policy "[]" 0 "[]" indices]
    runs_loop_concat [of placements policy indices "[]" "[]" 0]
  by (simp_all add: plan_runs_def open_ok_def)

section \<open>The hull of a run\<close>

lemma foldl_hull_first:
  "kr_first (foldl range_hull r rs) \<in> kr_first ` set (r # rs) \<and>
     (\<forall>x \<in> set (r # rs). kr_first (foldl range_hull r rs) \<le> kr_first x)"
proof (induction rs arbitrary: r)
  case (Cons s rs)
  from Cons.IH [of "range_hull r s"] show ?case by (auto simp: range_hull_def split: if_splits)
qed simp

lemma foldl_hull_last:
  "kr_last (foldl range_hull r rs) \<in> kr_last ` set (r # rs) \<and>
     (\<forall>x \<in> set (r # rs). kr_last x \<le> kr_last (foldl range_hull r rs))"
proof (induction rs arbitrary: r)
  case (Cons s rs)
  from Cons.IH [of "range_hull r s"] show ?case by (auto simp: range_hull_def split: if_splits)
qed simp

lemma map_filter_get_at:
  "\<forall>i \<in> set run. i < length xs \<Longrightarrow> List.map_filter (get_at xs) run = map ((!) xs) run"
  by (induction run) (simp_all add: List.map_filter_simps get_at_def)

lemma run_hull_spec:
  assumes "\<forall>i \<in> set run. i < length placements" "run \<noteq> []"
  shows "\<exists>r. run_hull run placements = Some r \<and>
    (\<exists>i \<in> set run. kr_first r = kr_first (pl_range (placements ! i))) \<and>
    (\<exists>i \<in> set run. kr_last r = kr_last (pl_range (placements ! i))) \<and>
    (\<forall>i \<in> set run. kr_first r \<le> kr_first (pl_range (placements ! i)) \<and> kr_last (pl_range (placements ! i)) \<le> kr_last r)"
proof -
  obtain j js where run: "run = j # js" using assms(2) by (cases run) auto
  let ?rs = "map (\<lambda>i. pl_range (placements ! i)) js"
  have "run_hull run placements = Some (foldl range_hull (pl_range (placements ! j)) ?rs)"
    using assms(1) unfolding run_hull_def map_filter_get_at [OF assms(1)] by (simp add: run comp_def)
  with foldl_hull_first [of "pl_range (placements ! j)" ?rs] foldl_hull_last [of "pl_range (placements ! j)" ?rs]
  show ?thesis by (auto simp: run)
qed

section \<open>What a plan promises\<close>

text \<open>One merge: its inputs are distinct segments, all of the same tier, as many and as large as a run
  may be, its tier is the one above and its range is the least that covers them.\<close>

definition merge_ok :: "placement list \<Rightarrow> policy \<Rightarrow> merge \<Rightarrow> bool" where
  "merge_ok placements policy m \<longleftrightarrow>
     run_ok placements policy (mg_inputs m) \<and> distinct (mg_inputs m) \<and>
     (\<exists>t. mg_tier m = tier_next t \<and> (\<forall>i \<in> set (mg_inputs m). i < length placements \<and> pl_tier (placements ! i) = t)) \<and>
     (\<forall>i \<in> set (mg_inputs m). kr_first (mg_range m) \<le> kr_first (pl_range (placements ! i)) \<and>
        kr_last (pl_range (placements ! i)) \<le> kr_last (mg_range m)) \<and>
     (\<exists>i \<in> set (mg_inputs m). kr_first (mg_range m) = kr_first (pl_range (placements ! i))) \<and>
     (\<exists>i \<in> set (mg_inputs m). kr_last (mg_range m) = kr_last (pl_range (placements ! i)))"

lemma merge_ok_of_run:
  assumes "run_ok placements policy run" "distinct run"
    and "\<forall>i \<in> set run. i < length placements \<and> pl_tier (placements ! i) = t"
  shows "\<exists>r. run_hull run placements = Some r \<and>
    merge_ok placements policy \<lparr>mg_inputs = run, mg_tier = tier_next t, mg_range = r\<rparr>"
proof -
  have "run \<noteq> []" using assms(1) by (auto simp: run_ok_def)
  with assms(3) obtain r where "run_hull run placements = Some r"
    "\<exists>i \<in> set run. kr_first r = kr_first (pl_range (placements ! i))"
    "\<exists>i \<in> set run. kr_last r = kr_last (pl_range (placements ! i))"
    "\<forall>i \<in> set run. kr_first r \<le> kr_first (pl_range (placements ! i)) \<and> kr_last (pl_range (placements ! i)) \<le> kr_last r"
    using run_hull_spec [of run placements] by blast
  with assms show ?thesis by (auto simp: merge_ok_def)
qed

definition sorted_indices :: "placement list \<Rightarrow> tier \<Rightarrow> nat list" where
  "sorted_indices placements t =
     sort_key (\<lambda>i. map_option placement_key (get_at placements i)) (indices_of placements t)"

lemma set_sorted_indices:
  "set (sorted_indices placements t) = {i. i < length placements \<and> pl_tier (placements ! i) = t}"
  by (auto simp: sorted_indices_def indices_of_def)

lemma distinct_sorted_indices: "distinct (sorted_indices placements t)"
  by (simp add: sorted_indices_def indices_of_def)

definition due :: "placement list \<Rightarrow> policy \<Rightarrow> bool \<Rightarrow> tier \<Rightarrow> bool" where
  "due placements policy pressured t \<longleftrightarrow>
     po_fanout policy \<le> length (indices_of placements t) \<or> (pressured \<and> 2 \<le> length (indices_of placements t))"

lemma map_filter_all_Some:
  "\<forall>x \<in> set xs. \<exists>y. f x = Some y \<Longrightarrow> List.map_filter f xs = map (the \<circ> f) xs"
  by (induction xs) auto

lemma tier_runs:
  assumes "run \<in> set (plan_runs (sorted_indices placements t) placements policy)"
  shows "run_ok placements policy run" "distinct run"
    and "\<forall>i \<in> set run. i < length placements \<and> pl_tier (placements ! i) = t"
proof -
  let ?runs = "plan_runs (sorted_indices placements t) placements policy"
  obtain tail where tail: "concat ?runs @ tail = sorted_indices placements t"
    using plan_runs_spec(2) by blast
  show "run_ok placements policy run" using plan_runs_spec(1) assms by blast
  have "distinct (concat ?runs @ tail)" unfolding tail by (rule distinct_sorted_indices)
  then have "distinct (concat ?runs)" by simp
  then show "distinct run" using assms by (simp add: distinct_concat_iff)
  have "set run \<subseteq> set (concat ?runs @ tail)" using assms by auto
  then show "\<forall>i \<in> set run. i < length placements \<and> pl_tier (placements ! i) = t"
    unfolding tail set_sorted_indices by blast
qed

lemma tier_merges_eq:
  "tier_merges placements policy pressured t =
    (if due placements policy pressured t
     then map (\<lambda>run. \<lparr>mg_inputs = run, mg_tier = tier_next t, mg_range = the (run_hull run placements)\<rparr>)
       (plan_runs (sorted_indices placements t) placements policy) else [])"
proof -
  let ?f = "\<lambda>run. map_option (\<lambda>r. \<lparr>mg_inputs = run, mg_tier = tier_next t, mg_range = r\<rparr>) (run_hull run placements)"
  let ?runs = "plan_runs (sorted_indices placements t) placements policy"
  have some: "run_hull run placements \<noteq> None" if "run \<in> set ?runs" for run
    using merge_ok_of_run [OF tier_runs [OF that]] by blast
  then have "List.map_filter ?f ?runs =
      map (\<lambda>run. \<lparr>mg_inputs = run, mg_tier = tier_next t, mg_range = the (run_hull run placements)\<rparr>) ?runs"
    by (subst map_filter_all_Some) (auto simp: option.map_sel)
  moreover have "length (sorted_indices placements t) = length (indices_of placements t)"
    by (simp add: sorted_indices_def)
  ultimately show ?thesis
    unfolding tier_merges_def due_def Let_def sorted_indices_def [symmetric] by auto
qed

lemma tier_merges_ok:
  assumes "m \<in> set (tier_merges placements policy pressured t)"
  shows "merge_ok placements policy m" "mg_tier m = tier_next t"
    "\<forall>i \<in> set (mg_inputs m). pl_tier (placements ! i) = t"
proof -
  from assms obtain run where run: "run \<in> set (plan_runs (sorted_indices placements t) placements policy)"
    and m: "m = \<lparr>mg_inputs = run, mg_tier = tier_next t, mg_range = the (run_hull run placements)\<rparr>"
    by (auto simp: tier_merges_eq split: if_splits)
  show "merge_ok placements policy m" using merge_ok_of_run [OF tier_runs [OF run]] by (auto simp: m)
  show "mg_tier m = tier_next t" "\<forall>i \<in> set (mg_inputs m). pl_tier (placements ! i) = t"
    using tier_runs(3) [OF run] by (auto simp: m)
qed

lemma tier_merges_inputs:
  "due placements policy pressured t \<Longrightarrow>
     \<exists>tail. concat (map mg_inputs (tier_merges placements policy pressured t)) @ tail =
       sorted_indices placements t \<and> length tail < 2"
  using plan_runs_spec(2) [of "sorted_indices placements t" placements policy]
  by (simp add: tier_merges_eq comp_def)

lemma distinct_tier_merges:
  "distinct (concat (map mg_inputs (tier_merges placements policy pressured t)))"
proof (cases "due placements policy pressured t")
  case True
  then show ?thesis
    using tier_merges_inputs [OF True] distinct_sorted_indices [of placements t]
    by (metis distinct_append)
qed (simp add: tier_merges_eq)

lemma plan_tiers_ok:
  "m \<in> set (plan_tiers placements policy pressured ts) \<Longrightarrow>
     merge_ok placements policy m \<and> (\<forall>i \<in> set (mg_inputs m). pl_tier (placements ! i) \<in> set ts)"
  by (induction ts arbitrary: pressured) (auto simp: Let_def dest: tier_merges_ok)

lemma distinct_plan_tiers:
  "distinct ts \<Longrightarrow> distinct (concat (map mg_inputs (plan_tiers placements policy pressured ts)))"
proof (induction ts arbitrary: pressured)
  case (Cons t ts)
  have "set (concat (map mg_inputs (tier_merges placements policy pressured t))) \<inter>
      set (concat (map mg_inputs (plan_tiers placements policy p ts))) = {}" for p
    using Cons.prems tier_merges_ok(3) [of _ placements policy pressured t]
      plan_tiers_ok [of _ placements policy p ts] by fastforce
  with Cons distinct_tier_merges show ?case by (simp add: Let_def)
qed simp

lemma tier_due_merges:
  assumes "due placements policy pressured t" "2 \<le> length (indices_of placements t)"
  shows "tier_merges placements policy pressured t \<noteq> []"
proof
  assume "tier_merges placements policy pressured t = []"
  with tier_merges_inputs [OF assms(1)] have "length (sorted_indices placements t) < 2" by auto
  with assms(2) show False by (simp add: sorted_indices_def)
qed

lemma plan_merges: "list_all (merge_ok placements policy) (plan placements policy) \<and> distinct (concat (map mg_inputs (plan placements policy)))"
  by (auto simp: plan_def Let_def list_all_iff tiers_of_def dest: plan_tiers_ok intro!: distinct_plan_tiers)

lemma length_concat_nonempty: "\<forall>m \<in> set ms. f m \<noteq> [] \<Longrightarrow> length ms \<le> length (concat (map f ms))"
proof (induction ms)
  case (Cons m ms)
  then show ?case by (cases "f m") auto
qed simp

text \<open>A plan has fewer merges than there are segments.\<close>

lemma length_plan: "length (plan placements policy) \<le> length placements"
proof -
  let ?ms = "plan placements policy"
  have ok: "\<forall>m \<in> set ?ms. merge_ok placements policy m" using plan_merges by (simp add: list_all_iff)
  then have "\<forall>m \<in> set ?ms. mg_inputs m \<noteq> []" by (auto simp: merge_ok_def)
  then have "length ?ms \<le> length (concat (map mg_inputs ?ms))" by (rule length_concat_nonempty)
  also have "\<dots> = card (set (concat (map mg_inputs ?ms)))" using plan_merges by (metis distinct_card)
  also have "\<dots> \<le> card {..<length placements}" by (rule card_mono) (use ok in \<open>auto simp: merge_ok_def\<close>)
  finally show ?thesis by simp
qed

text \<open>
  C8: every merge of a plan joins at least two distinct segments, all of the same tier, writes at the
  tier above that one (the top tier stays), and covers exactly the hull of its inputs; a merge of more
  than two segments takes at most \<open>max_inputs\<close> of them and at most \<open>max_input_bytes\<close>; and no segment is
  in two merges of the plan. A merge of two is planned whatever \<open>max_inputs\<close> and \<open>max_input_bytes\<close> say,
  although the fields of \<open>Policy\<close> are documented as the most one merge takes.
\<close>

theorem plan_sound:
  "list_all (merge_ok placements policy) (plan placements policy) \<and>
   distinct (concat (map mg_inputs (plan placements policy)))"
  by (rule plan_merges)

text \<open>Every tier that is due contributes; pressure is passed on until a tier relieves it.\<close>

lemma plan_tiers_due:
  "t \<in> set ts \<Longrightarrow> po_fanout policy \<le> length (indices_of placements t) \<Longrightarrow>
     \<exists>p. set (tier_merges placements policy p t) \<subseteq> set (plan_tiers placements policy pressured ts) \<and>
       due placements policy p t"
  by (induction ts arbitrary: pressured) (fastforce simp: Let_def due_def)+

lemma plan_tiers_pressure:
  "t \<in> set ts \<Longrightarrow> 2 \<le> length (indices_of placements t) \<Longrightarrow> plan_tiers placements policy True ts \<noteq> []"
  using tier_due_merges [of placements policy True t]
  by (induction ts) (auto simp: Let_def due_def)

lemma tiers_of_iff: "t \<in> set (tiers_of placements) \<longleftrightarrow> indices_of placements t \<noteq> []"
  by (force simp: tiers_of_def indices_of_def filter_empty_conv in_set_conv_nth)

text \<open>
  C9: compaction makes progress. A tier that has reached the fanout (and has two segments) is merged,
  leaving at most one of its segments out; and when the inlined segments exceed the ceiling and some
  tier has two segments, the plan is not empty, whatever the fanout.
\<close>

theorem plan_progress:
  "(2 \<le> length (indices_of placements t) \<and> po_fanout policy \<le> length (indices_of placements t) \<longrightarrow>
      length (indices_of placements t) \<le>
        Suc (card {i. i \<in> \<Union> (set ` mg_inputs ` set (plan placements policy)) \<and> pl_tier (placements ! i) = t})) \<and>
   (2 \<le> length (indices_of placements t) \<and>
      po_inline_ceiling policy < length (filter (\<lambda>p. pl_residence p = Inline) placements) \<longrightarrow>
      plan placements policy \<noteq> [])"
proof (intro conjI impI)
  assume t: "2 \<le> length (indices_of placements t) \<and> po_fanout policy \<le> length (indices_of placements t)"
  then have "t \<in> set (tiers_of placements)" by (auto simp: tiers_of_iff)
  with t obtain p where sub: "set (tier_merges placements policy p t) \<subseteq> set (plan placements policy)"
    and d: "due placements policy p t"
    using plan_tiers_due by (fastforce simp: plan_def Let_def)
  define taken where "taken = concat (map mg_inputs (tier_merges placements policy p t))"
  obtain tail where tail: "taken @ tail = sorted_indices placements t" "length tail < 2"
    using tier_merges_inputs [OF d] taken_def by blast
  have "length (indices_of placements t) = length (taken @ tail)"
    unfolding tail by (simp add: sorted_indices_def)
  also have "\<dots> \<le> Suc (card (set taken))"
    using tail(2) distinct_tier_merges [of placements policy p t] by (simp add: distinct_card flip: taken_def)
  also have "card (set taken) \<le>
      card {i. i \<in> \<Union> (set ` mg_inputs ` set (plan placements policy)) \<and> pl_tier (placements ! i) = t}"
    using sub tier_merges_ok(3) by (intro card_mono) (auto simp: taken_def)
  finally show "length (indices_of placements t) \<le>
    Suc (card {i. i \<in> \<Union> (set ` mg_inputs ` set (plan placements policy)) \<and> pl_tier (placements ! i) = t})" by simp
next
  assume "2 \<le> length (indices_of placements t) \<and>
    po_inline_ceiling policy < length (filter (\<lambda>p. pl_residence p = Inline) placements)"
  moreover from this have "t \<in> set (tiers_of placements)" by (auto simp: tiers_of_iff)
  ultimately show "plan placements policy \<noteq> []"
    using plan_tiers_pressure [of t "tiers_of placements" placements policy] by (simp add: plan_def)
qed

text \<open>Two inlined tier-zero segments under a fanout of two.\<close>

definition example_placements :: "placement list" where
  "example_placements =
     [\<lparr>pl_range = \<lparr>kr_first = 1, kr_last = 4\<rparr>, pl_tier = 0, pl_bytes = 10, pl_residence = Inline\<rparr>,
      \<lparr>pl_range = \<lparr>kr_first = 5, kr_last = 9\<rparr>, pl_tier = 0, pl_bytes = 20, pl_residence = Inline\<rparr>]"

definition example_policy :: policy where
  "example_policy = \<lparr>po_fanout = 2, po_max_inputs = 8, po_max_input_bytes = 1000,
     po_graduation_bytes = 500, po_inline_ceiling = 1\<rparr>"

theorem plan_progress_witness:
  "2 \<le> Suc (card {i. i \<in> \<Union> (set ` mg_inputs ` set (plan example_placements example_policy)) \<and>
       pl_tier (example_placements ! i) = 0}) \<and>
   plan example_placements example_policy \<noteq> []"
proof -
  have "indices_of example_placements 0 = [0, 1]"
    by (simp add: indices_of_def example_placements_def upt_rec)
  then show ?thesis
    using plan_progress [of example_placements 0 example_policy]
    by (simp add: example_policy_def) (simp add: example_placements_def)
qed

end
