(* ===== verification/Segment_Store.thy ===== *)
theory Segment_Store
  imports Lattice_Segment Lattice_Plan
begin

text \<open>
  One value held as segments, \<open>lattice/store/src\<close>: the rows a catalog keeps (catalog.rs), the catalog
  in a map (memory.rs), and \<open>Segments\<close> (segments.rs), which reads, writes, compacts and sweeps over a
  catalog and an object store.

  The catalog is a record of operations on its own state, as the trait is; the map catalog is one
  implementation of it. The object store and the ULID library are not part of the sources: they are the
  records \<open>bucket_ops\<close> and \<open>ulid_ops\<close>, and what is relied on of them is stated by \<open>bucket_laws\<close> and
  \<open>ulid_laws\<close>. A path is the list of its parts. \<open>SegmentId::fresh\<close> draws the next of an endless
  supply; every operation threads the catalog, the bucket and the supply, and keeps them when it fails.
  Concurrent fetches of one read do not change the state, so they are made in listing order.
\<close>

section \<open>Rows\<close>

type_synonym segment_id = u128
type_synonym path = "string list"

record scope =
  sc_id :: int
  sc_prefix :: path

datatype body = BInline bytes | BBucket path

definition body_residence :: "body \<Rightarrow> residence" where
  "body_residence b = (case b of BInline _ \<Rightarrow> Inline | BBucket _ \<Rightarrow> Bucket)"

record catalog_entry =
  ce_id :: segment_id
  ce_range :: key_range
  ce_tier :: tier
  ce_bytes :: u64
  ce_residence :: residence

definition entry_placement :: "catalog_entry \<Rightarrow> placement" where
  "entry_placement e = \<lparr>pl_range = ce_range e, pl_tier = ce_tier e, pl_bytes = ce_bytes e, pl_residence = ce_residence e\<rparr>"

record listed =
  li_entry :: catalog_entry
  li_body :: body

record written =
  wr_id :: segment_id
  wr_range :: key_range
  wr_tier :: tier
  wr_body :: body
  wr_bytes :: u64

definition row_entry :: "written \<Rightarrow> catalog_entry" where
  "row_entry row = \<lparr>ce_id = wr_id row, ce_range = wr_range row, ce_tier = wr_tier row, ce_bytes = wr_bytes row,
     ce_residence = body_residence (wr_body row)\<rparr>"

definition row_listed :: "written \<Rightarrow> listed" where
  "row_listed row = \<lparr>li_entry = row_entry row, li_body = wr_body row\<rparr>"

section \<open>Catalogs\<close>

type_synonym catalog_error = string

record 'c catalog_ops =
  co_covering :: "scope \<Rightarrow> key_range \<Rightarrow> 'c \<Rightarrow> (catalog_error, listed list) result"
  co_entries :: "scope \<Rightarrow> 'c \<Rightarrow> (catalog_error, catalog_entry list) result"
  co_bodies :: "scope \<Rightarrow> segment_id list \<Rightarrow> 'c \<Rightarrow> (catalog_error, listed list) result"
  co_insert :: "scope \<Rightarrow> written \<Rightarrow> 'c \<Rightarrow> (catalog_error, unit) result \<times> 'c"
  co_replace :: "scope \<Rightarrow> segment_id list \<Rightarrow> written \<Rightarrow> 'c \<Rightarrow> (catalog_error, unit) result \<times> 'c"
  co_purge :: "int \<Rightarrow> 'c \<Rightarrow> (catalog_error, unit) result \<times> 'c"

text \<open>The map catalog: a scope that was never written has no list at all.\<close>

type_synonym memory_catalog = "int \<Rightarrow> written list option"

definition memory_read :: "memory_catalog \<Rightarrow> int \<Rightarrow> (written \<Rightarrow> 'a option) \<Rightarrow> 'a list" where
  "memory_read m scope pick = (case m scope of None \<Rightarrow> [] | Some rows \<Rightarrow> List.map_filter pick rows)"

definition memory_covering :: "scope \<Rightarrow> key_range \<Rightarrow> memory_catalog \<Rightarrow> (catalog_error, listed list) result" where
  "memory_covering scope r m =
     Inr (memory_read m (sc_id scope) (\<lambda>row. if overlaps (wr_range row) r then Some (row_listed row) else None))"

definition memory_entries :: "scope \<Rightarrow> memory_catalog \<Rightarrow> (catalog_error, catalog_entry list) result" where
  "memory_entries scope m = Inr (memory_read m (sc_id scope) (\<lambda>row. Some (row_entry row)))"

definition memory_bodies :: "scope \<Rightarrow> segment_id list \<Rightarrow> memory_catalog \<Rightarrow> (catalog_error, listed list) result" where
  "memory_bodies scope ids m =
     Inr (memory_read m (sc_id scope) (\<lambda>row. if wr_id row \<in> set ids then Some (row_listed row) else None))"

definition scope_rows :: "memory_catalog \<Rightarrow> int \<Rightarrow> written list" where
  "scope_rows m scope = (case m scope of None \<Rightarrow> [] | Some rows \<Rightarrow> rows)"

definition memory_insert :: "scope \<Rightarrow> written \<Rightarrow> memory_catalog \<Rightarrow> (catalog_error, unit) result \<times> memory_catalog" where
  "memory_insert scope row m = (Inr (), m(sc_id scope := Some (scope_rows m (sc_id scope) @ [row])))"

definition memory_replace ::
    "scope \<Rightarrow> segment_id list \<Rightarrow> written \<Rightarrow> memory_catalog \<Rightarrow> (catalog_error, unit) result \<times> memory_catalog" where
  "memory_replace scope inputs output m =
     (Inr (), m(sc_id scope := Some (filter (\<lambda>row. wr_id row \<notin> set inputs) (scope_rows m (sc_id scope)) @ [output])))"

definition memory_purge :: "int \<Rightarrow> memory_catalog \<Rightarrow> (catalog_error, unit) result \<times> memory_catalog" where
  "memory_purge scope m = (Inr (), m(scope := None))"

definition memory_ops :: "memory_catalog catalog_ops" where
  "memory_ops = \<lparr>co_covering = memory_covering, co_entries = memory_entries, co_bodies = memory_bodies,
     co_insert = memory_insert, co_replace = memory_replace, co_purge = memory_purge\<rparr>"

section \<open>The object store and the names of segments\<close>

record 'b bucket_ops =
  bo_put :: "path \<Rightarrow> bytes \<Rightarrow> 'b \<Rightarrow> (string, unit) result \<times> 'b"
  bo_get :: "path \<Rightarrow> 'b \<Rightarrow> (string, bytes) result"
  bo_delete :: "path \<Rightarrow> 'b \<Rightarrow> (string, unit) result \<times> 'b"
  bo_list :: "path \<Rightarrow> 'b \<Rightarrow> (string, path \<times> u64) result list"

record ulid_ops =
  uo_name :: "segment_id \<Rightarrow> string"
  uo_parse :: "string \<Rightarrow> segment_id option"
  uo_timestamp_ms :: "segment_id \<Rightarrow> u64"

datatype 'e store_error = ECatalog catalog_error | EBucket segment_id string | EListing string | ECorrupt segment_id 'e

record ('s, 'e, 'c, 'b) segments =
  ss_value :: "('s, 'e) segment_ops"
  ss_catalog :: "'c catalog_ops"
  ss_bucket :: "'b bucket_ops"
  ss_ulid :: ulid_ops
  ss_fresh :: "nat \<Rightarrow> segment_id"
  ss_policy :: policy
  ss_clusters :: nat

record ('c, 'b) world =
  w_catalog :: 'c
  w_bucket :: 'b
  w_made :: nat

definition scope_key :: "ulid_ops \<Rightarrow> scope \<Rightarrow> segment_id \<Rightarrow> path" where
  "scope_key u scope id' = sc_prefix scope @ [uo_name u id']"

section \<open>Reading\<close>

definition seg_fetch :: "('s, 'e, 'c, 'b) segments \<Rightarrow> segment_id \<Rightarrow> path \<Rightarrow> ('c, 'b) world \<Rightarrow> ('e store_error, bytes) result" where
  "seg_fetch env id' p w = (case bo_get (ss_bucket env) p (w_bucket w) of
     Inl e \<Rightarrow> Inl (EBucket id' e) | Inr bytes \<Rightarrow> Inr bytes)"

definition decode_one :: "('s, 'e, 'c, 'b) segments \<Rightarrow> key_range \<Rightarrow> ('c, 'b) world \<Rightarrow> listed \<Rightarrow> ('e store_error, 's) result" where
  "decode_one env r w one =
     (let id' = ce_id (li_entry one) in
      rbind (case li_body one of BInline bytes \<Rightarrow> Inr bytes | BBucket p \<Rightarrow> seg_fetch env id' p w) (\<lambda>bytes.
      case so_decode_range (ss_value env) bytes r of Inl e \<Rightarrow> Inl (ECorrupt id' e) | Inr v \<Rightarrow> Inr v))"

definition decode_narrowed ::
    "('s, 'e, 'c, 'b) segments \<Rightarrow> listed list \<Rightarrow> key_range \<Rightarrow> ('c, 'b) world \<Rightarrow> ('e store_error, 's list) result" where
  "decode_narrowed env listed r w = collect_results (map (decode_one env r w) listed)"

definition seg_read ::
    "('s, 'e, 'c, 'b) segments \<Rightarrow> scope \<Rightarrow> key_range \<Rightarrow> ('c, 'b) world \<Rightarrow> ('e store_error, 's option) result" where
  "seg_read env scope r w =
     (case co_covering (ss_catalog env) scope r (w_catalog w) of Inl e \<Rightarrow> Inl (ECatalog e)
      | Inr listed \<Rightarrow> rbind (decode_narrowed env listed r w) (\<lambda>vs. Inr (compose (so_join (ss_value env)) vs)))"

definition seg_read_at ::
    "('s, 'e, 'c, 'b) segments \<Rightarrow> scope \<Rightarrow> key list \<Rightarrow> ('c, 'b) world \<Rightarrow> ('e store_error, 's list) result" where
  "seg_read_at env scope keys w =
     rbind (collect_results (map (\<lambda>r. seg_read env scope r w) (cluster keys (ss_clusters env)))) (\<lambda>parts.
     Inr (List.map_filter id parts))"

section \<open>Writing\<close>

definition seg_put ::
    "('s, 'e, 'c, 'b) segments \<Rightarrow> scope \<Rightarrow> key_range \<Rightarrow> tier \<Rightarrow> 's \<Rightarrow> ('c, 'b) world \<Rightarrow>
       ('e store_error, written) result \<times> ('c, 'b) world" where
  "seg_put env scope r t v w =
     (let id' = ss_fresh env (w_made w);
          w = w\<lparr>w_made := Suc (w_made w)\<rparr>;
          encoded = so_encode (ss_value env) v;
          bytes = u64_len encoded
      in case residence_for (ss_policy env) bytes of
           Inline \<Rightarrow> (Inr \<lparr>wr_id = id', wr_range = r, wr_tier = t, wr_body = BInline encoded, wr_bytes = bytes\<rparr>, w)
         | Bucket \<Rightarrow>
             let p = scope_key (ss_ulid env) scope id' in
             (case bo_put (ss_bucket env) p encoded (w_bucket w) of
                (Inl e, b) \<Rightarrow> (Inl (EBucket id' e), w\<lparr>w_bucket := b\<rparr>)
              | (Inr _, b) \<Rightarrow>
                  (Inr \<lparr>wr_id = id', wr_range = r, wr_tier = t, wr_body = BBucket p, wr_bytes = bytes\<rparr>, w\<lparr>w_bucket := b\<rparr>)))"

definition seg_prepare ::
    "('s, 'e, 'c, 'b) segments \<Rightarrow> scope \<Rightarrow> 's \<Rightarrow> ('c, 'b) world \<Rightarrow> ('e store_error, written option) result \<times> ('c, 'b) world" where
  "seg_prepare env scope v w =
     (case so_range (ss_value env) v of None \<Rightarrow> (Inr None, w)
      | Some r \<Rightarrow> (case seg_put env scope r 0 v w of
          (Inl e, w) \<Rightarrow> (Inl e, w) | (Inr row, w) \<Rightarrow> (Inr (Some row), w)))"

definition seg_write ::
    "('s, 'e, 'c, 'b) segments \<Rightarrow> scope \<Rightarrow> 's \<Rightarrow> ('c, 'b) world \<Rightarrow> ('e store_error, segment_id option) result \<times> ('c, 'b) world" where
  "seg_write env scope v w =
     (case seg_prepare env scope v w of
        (Inl e, w) \<Rightarrow> (Inl e, w)
      | (Inr None, w) \<Rightarrow> (Inr None, w)
      | (Inr (Some row), w) \<Rightarrow>
          (case co_insert (ss_catalog env) scope row (w_catalog w) of
             (Inl e, c) \<Rightarrow> (Inl (ECatalog e), w\<lparr>w_catalog := c\<rparr>)
           | (Inr _, c) \<Rightarrow> (Inr (Some (wr_id row)), w\<lparr>w_catalog := c\<rparr>)))"

section \<open>Compaction\<close>

record report =
  rp_merged :: nat
  rp_graduated :: nat
  rp_written :: u64
  rp_orphaned :: nat

definition report_default :: report where
  "report_default = \<lparr>rp_merged = 0, rp_graduated = 0, rp_written = 0, rp_orphaned = 0\<rparr>"

definition report_plus :: "report \<Rightarrow> report \<Rightarrow> report" where
  "report_plus a b = \<lparr>rp_merged = sat_usize (rp_merged a + rp_merged b),
     rp_graduated = sat_usize (rp_graduated a + rp_graduated b),
     rp_written = sat_add (rp_written a) (rp_written b), rp_orphaned = sat_usize (rp_orphaned a + rp_orphaned b)\<rparr>"

definition bucket_keys :: "listed list \<Rightarrow> path list" where
  "bucket_keys listed = List.map_filter (\<lambda>one. case li_body one of BBucket p \<Rightarrow> Some p | BInline _ \<Rightarrow> None) listed"

fun seg_discard :: "('s, 'e, 'c, 'b) segments \<Rightarrow> path list \<Rightarrow> ('c, 'b) world \<Rightarrow> nat \<times> ('c, 'b) world" where
  "seg_discard env [] w = (0, w)"
| "seg_discard env (p # ps) w =
     (case bo_delete (ss_bucket env) p (w_bucket w) of (res, b) \<Rightarrow>
        (case seg_discard env ps (w\<lparr>w_bucket := b\<rparr>) of (orphaned, w) \<Rightarrow>
           ((case res of Inl _ \<Rightarrow> Suc orphaned | Inr _ \<Rightarrow> orphaned), w)))"

text \<open>One merge of the plan.\<close>

definition compact_merge ::
    "('s, 'e, 'c, 'b) segments \<Rightarrow> scope \<Rightarrow> catalog_entry list \<Rightarrow> merge \<Rightarrow> report \<times> ('c, 'b) world \<Rightarrow>
       ('e store_error, report) result \<times> ('c, 'b) world" where
  "compact_merge env scope entries m st = (case st of (report, w) \<Rightarrow>
     let ids = map ce_id (List.map_filter (get_at entries) (mg_inputs m)) in
     if length ids < 2 then (Inr report, w)
     else (case co_bodies (ss_catalog env) scope ids (w_catalog w) of Inl e \<Rightarrow> (Inl (ECatalog e), w)
     | Inr listed \<Rightarrow>
       (case decode_narrowed env listed EVERYTHING w of Inl e \<Rightarrow> (Inl e, w)
     | Inr vs \<Rightarrow>
       (case compose (so_join (ss_value env)) vs of None \<Rightarrow> (Inr report, w)
     | Some v \<Rightarrow>
        let r = (case so_range (ss_value env) v of None \<Rightarrow> mg_range m | Some r \<Rightarrow> r) in
       (case seg_put env scope r (mg_tier m) v w of (Inl e, w) \<Rightarrow> (Inl e, w)
     | (Inr row, w) \<Rightarrow>
        let report = report\<lparr>rp_written := sat_add (rp_written report) (wr_bytes row),
              rp_graduated := (if body_residence (wr_body row) = Bucket then Suc (rp_graduated report) else rp_graduated report)\<rparr> in
       (case co_replace (ss_catalog env) scope ids row (w_catalog w) of
          (Inl e, c) \<Rightarrow> (Inl (ECatalog e), w\<lparr>w_catalog := c\<rparr>)
        | (Inr _, c) \<Rightarrow>
            (case seg_discard env (bucket_keys listed) (w\<lparr>w_catalog := c\<rparr>) of (orphaned, w) \<Rightarrow>
               (Inr (report\<lparr>rp_merged := rp_merged report + length ids, rp_orphaned := rp_orphaned report + orphaned\<rparr>), w))))))))"

fun compact_merges ::
    "('s, 'e, 'c, 'b) segments \<Rightarrow> scope \<Rightarrow> catalog_entry list \<Rightarrow> merge list \<Rightarrow> report \<times> ('c, 'b) world \<Rightarrow>
       ('e store_error, report) result \<times> ('c, 'b) world" where
  "compact_merges env scope entries [] (report, w) = (Inr report, w)"
| "compact_merges env scope entries (m # ms) (report, w) =
     (case compact_merge env scope entries m (report, w) of
        (Inl e, w) \<Rightarrow> (Inl e, w)
      | (Inr report, w) \<Rightarrow> compact_merges env scope entries ms (report, w))"

definition seg_compact ::
    "('s, 'e, 'c, 'b) segments \<Rightarrow> scope \<Rightarrow> ('c, 'b) world \<Rightarrow> ('e store_error, report) result \<times> ('c, 'b) world" where
  "seg_compact env scope w =
     (case co_entries (ss_catalog env) scope (w_catalog w) of Inl e \<Rightarrow> (Inl (ECatalog e), w)
      | Inr entries \<Rightarrow>
          compact_merges env scope entries (plan (map entry_placement entries) (ss_policy env)) (report_default, w))"

section \<open>Purging and sweeping\<close>

record reclaimed =
  re_objects :: u64
  re_bytes :: u64
  re_orphaned :: nat

definition reclaimed_plus :: "reclaimed \<Rightarrow> reclaimed \<Rightarrow> reclaimed" where
  "reclaimed_plus a b = \<lparr>re_objects = sat_add (re_objects a) (re_objects b), re_bytes = sat_add (re_bytes a) (re_bytes b),
     re_orphaned = sat_usize (re_orphaned a + re_orphaned b)\<rparr>"

fun purge_loop :: "('s, 'e, 'c, 'b) segments \<Rightarrow> scope \<Rightarrow> catalog_entry list \<Rightarrow> reclaimed \<times> ('c, 'b) world \<Rightarrow> reclaimed \<times> ('c, 'b) world" where
  "purge_loop env scope [] st = st"
| "purge_loop env scope (e # es) (re, w) =
     (case bo_delete (ss_bucket env) (scope_key (ss_ulid env) scope (ce_id e)) (w_bucket w) of
        (Inl _, b) \<Rightarrow> purge_loop env scope es (re\<lparr>re_orphaned := Suc (re_orphaned re)\<rparr>, w\<lparr>w_bucket := b\<rparr>)
      | (Inr _, b) \<Rightarrow> purge_loop env scope es
          (re\<lparr>re_objects := re_objects re + 1, re_bytes := sat_add (re_bytes re) (ce_bytes e)\<rparr>, w\<lparr>w_bucket := b\<rparr>))"

definition purge_bucket ::
    "('s, 'e, 'c, 'b) segments \<Rightarrow> scope \<Rightarrow> ('c, 'b) world \<Rightarrow> ('e store_error, reclaimed) result \<times> ('c, 'b) world" where
  "purge_bucket env scope w =
     (case co_entries (ss_catalog env) scope (w_catalog w) of Inl e \<Rightarrow> (Inl (ECatalog e), w)
      | Inr entries \<Rightarrow>
          (case purge_loop env scope (filter (\<lambda>e. ce_residence e = Bucket) entries)
             (\<lparr>re_objects = 0, re_bytes = 0, re_orphaned = 0\<rparr>, w) of (re, w) \<Rightarrow> (Inr re, w)))"

record sweep =
  sw_now_ms :: u64
  sw_grace_secs :: u64
  sw_dry_run :: bool

record swept =
  sp_scanned :: u64
  sp_orphans :: u64
  sp_bytes :: u64

definition swept_plus :: "swept \<Rightarrow> swept \<Rightarrow> swept" where
  "swept_plus a b = \<lparr>sp_scanned = sat_add (sp_scanned a) (sp_scanned b), sp_orphans = sat_add (sp_orphans a) (sp_orphans b),
     sp_bytes = sat_add (sp_bytes a) (sp_bytes b)\<rparr>"

record found =
  fo_id :: segment_id
  fo_path :: path
  fo_bytes :: u64

fun found_objects :: "ulid_ops \<Rightarrow> (string, path \<times> u64) result list \<Rightarrow> ('e store_error, found list) result" where
  "found_objects u [] = Inr []"
| "found_objects u (Inl e # os) = Inl (EListing e)"
| "found_objects u (Inr (p, sz) # os) =
     rbind (found_objects u os) (\<lambda>rest.
     Inr (case (if p = [] then None else uo_parse u (last p)) of
       None \<Rightarrow> rest | Some id' \<Rightarrow> \<lparr>fo_id = id', fo_path = p, fo_bytes = sz\<rparr> # rest))"

definition seg_list :: "('s, 'e, 'c, 'b) segments \<Rightarrow> scope \<Rightarrow> ('c, 'b) world \<Rightarrow> ('e store_error, found list) result" where
  "seg_list env scope w = found_objects (ss_ulid env) (bo_list (ss_bucket env) (sc_prefix scope) (w_bucket w))"

definition orphans_of :: "ulid_ops \<Rightarrow> found list \<Rightarrow> segment_id set \<Rightarrow> sweep \<Rightarrow> found list" where
  "orphans_of u found named sw =
     (let window = sat_mul (sw_grace_secs sw) 1000 in
      filter (\<lambda>one. window < sat_sub (sw_now_ms sw) (uo_timestamp_ms u (fo_id one)))
        (filter (\<lambda>one. fo_id one \<notin> named) found))"

fun sweep_loop :: "('s, 'e, 'c, 'b) segments \<Rightarrow> bool \<Rightarrow> found list \<Rightarrow> swept \<times> ('c, 'b) world \<Rightarrow> swept \<times> ('c, 'b) world" where
  "sweep_loop env dry [] st = st"
| "sweep_loop env dry (o' # os) (sp, w) =
     (let sp' = sp\<lparr>sp_orphans := sp_orphans sp + 1, sp_bytes := sat_add (sp_bytes sp) (fo_bytes o')\<rparr> in
      if dry then sweep_loop env dry os (sp', w)
      else (case bo_delete (ss_bucket env) (fo_path o') (w_bucket w) of
              (Inl _, b) \<Rightarrow> sweep_loop env dry os (sp, w\<lparr>w_bucket := b\<rparr>)
            | (Inr _, b) \<Rightarrow> sweep_loop env dry os (sp', w\<lparr>w_bucket := b\<rparr>)))"

definition sweep_bucket ::
    "('s, 'e, 'c, 'b) segments \<Rightarrow> scope \<Rightarrow> sweep \<Rightarrow> ('c, 'b) world \<Rightarrow> ('e store_error, swept) result \<times> ('c, 'b) world" where
  "sweep_bucket env scope sw w =
     (case seg_list env scope w of Inl e \<Rightarrow> (Inl e, w)
      | Inr found \<Rightarrow>
     (case co_entries (ss_catalog env) scope (w_catalog w) of Inl e \<Rightarrow> (Inl (ECatalog e), w)
      | Inr entries \<Rightarrow>
          (case sweep_loop env (sw_dry_run sw) (orphans_of (ss_ulid env) found (set (map ce_id entries)) sw)
             (\<lparr>sp_scanned = u64_len found, sp_orphans = 0, sp_bytes = 0\<rparr>, w) of (sp, w) \<Rightarrow> (Inr sp, w))))"

section \<open>What the store relies on\<close>

text \<open>The object store: a put that succeeds is what a get returns, neither a put nor a delete, whether it
  succeeds or fails, touches an object of another name, and a listing stays under its prefix.\<close>

definition bucket_laws :: "'b bucket_ops \<Rightarrow> ('b \<Rightarrow> path \<Rightarrow> bytes option) \<Rightarrow> bool" where
  "bucket_laws ops view \<longleftrightarrow>
     (\<forall>p x b res b'. bo_put ops p x b = (res, b') \<longrightarrow>
        (\<forall>q. q \<noteq> p \<longrightarrow> view b' q = view b q) \<and> (res = Inr () \<longrightarrow> view b' p = Some x)) \<and>
     (\<forall>p b x. bo_get ops p b = Inr x \<longrightarrow> view b p = Some x) \<and>
     (\<forall>p b res b'. bo_delete ops p b = (res, b') \<longrightarrow> (\<forall>q. q \<noteq> p \<longrightarrow> view b' q = view b q)) \<and>
     (\<forall>p b q sz. Inr (q, sz) \<in> set (bo_list ops p b) \<longrightarrow> take (length p) q = p)"

lemma bucket_putD:
  assumes "bucket_laws ops view" "bo_put ops p x b = (res, b')"
  shows "q \<noteq> p \<Longrightarrow> view b' q = view b q" "res = Inr () \<Longrightarrow> view b' p = Some x"
  using assms unfolding bucket_laws_def by blast+

lemma bucket_getD: "bucket_laws ops view \<Longrightarrow> bo_get ops p b = Inr x \<Longrightarrow> view b p = Some x"
  unfolding bucket_laws_def by blast

lemma bucket_deleteD: "bucket_laws ops view \<Longrightarrow> bo_delete ops p b = (res, b') \<Longrightarrow> q \<noteq> p \<Longrightarrow> view b' q = view b q"
  unfolding bucket_laws_def by blast

lemma bucket_listD: "bucket_laws ops view \<Longrightarrow> Inr (q, sz) \<in> set (bo_list ops p b) \<Longrightarrow> take (length p) q = p"
  unfolding bucket_laws_def by blast

text \<open>The ULID library: a name parses back to the identity it was printed from.\<close>

definition ulid_laws :: "ulid_ops \<Rightarrow> bool" where
  "ulid_laws u \<longleftrightarrow> (\<forall>id'. uo_parse u (uo_name u id') = Some id')"

lemma ulid_name_inj: "ulid_laws u \<Longrightarrow> uo_name u i = uo_name u j \<Longrightarrow> i = j"
  unfolding ulid_laws_def by (metis option.inject)

text \<open>A catalog answers from its rows. A change that reports success was made; one that reports a failure
  was made whole or not at all.\<close>

locale catalog =
  fixes ops :: "'c catalog_ops" and rows :: "'c \<Rightarrow> int \<Rightarrow> written list"
  assumes covering_rows: "co_covering ops s r c = Inr ls \<Longrightarrow>
      set ls = row_listed ` {row \<in> set (rows c (sc_id s)). overlaps (wr_range row) r}"
    and entries_rows: "co_entries ops s c = Inr es \<Longrightarrow> set es = row_entry ` set (rows c (sc_id s))"
    and bodies_rows: "co_bodies ops s ids c = Inr ls \<Longrightarrow>
      set ls = row_listed ` {row \<in> set (rows c (sc_id s)). wr_id row \<in> set ids}"
    and insert_rows: "co_insert ops s row c = (res, c') \<Longrightarrow>
      (\<forall>i. set (rows c' i) = (if i = sc_id s then insert row (set (rows c i)) else set (rows c i))) \<or>
      res \<noteq> Inr () \<and> rows c' = rows c"
    and replace_rows: "co_replace ops s ids row c = (res, c') \<Longrightarrow>
      (\<forall>i. set (rows c' i) = (if i = sc_id s then insert row {x \<in> set (rows c i). wr_id x \<notin> set ids} else set (rows c i))) \<or>
      res \<noteq> Inr () \<and> rows c' = rows c"
    and purge_rows: "co_purge ops j c = (res, c') \<Longrightarrow>
      (\<forall>i. set (rows c' i) = (if i = j then {} else set (rows c i))) \<or> res \<noteq> Inr () \<and> rows c' = rows c"

lemma set_map_filter: "set (List.map_filter f xs) = {y. \<exists>x \<in> set xs. f x = Some y}"
  by (force simp: List.map_filter_def)

lemma memory_read_rows: "set (memory_read m i pick) = {y. \<exists>row \<in> set (scope_rows m i). pick row = Some y}"
  by (auto simp: memory_read_def scope_rows_def set_map_filter split: option.split)

lemma memory_pick: "{y. \<exists>row \<in> R. (if P row then Some (f row) else None) = Some y} = f ` {row \<in> R. P row}"
  by (auto split: if_splits)

interpretation memory: catalog memory_ops scope_rows
proof
  fix s r c ls ids row c' i j es and res :: "(catalog_error, unit) result"
  show "co_covering memory_ops s r c = Inr ls \<Longrightarrow>
      set ls = row_listed ` {row \<in> set (scope_rows c (sc_id s)). overlaps (wr_range row) r}"
    by (auto simp: memory_ops_def memory_covering_def memory_read_rows memory_pick)
  show "co_entries memory_ops s c = Inr es \<Longrightarrow> set es = row_entry ` set (scope_rows c (sc_id s))"
    by (auto simp: memory_ops_def memory_entries_def memory_read_rows)
  show "co_bodies memory_ops s ids c = Inr ls \<Longrightarrow>
      set ls = row_listed ` {row \<in> set (scope_rows c (sc_id s)). wr_id row \<in> set ids}"
    by (auto simp: memory_ops_def memory_bodies_def memory_read_rows memory_pick)
qed (auto simp: memory_ops_def memory_insert_def memory_replace_def memory_purge_def scope_rows_def)

section \<open>What the rows of a scope hold\<close>

definition row_bytes :: "(path \<Rightarrow> bytes option) \<Rightarrow> written \<Rightarrow> bytes option" where
  "row_bytes stored row = (case wr_body row of BInline bytes \<Rightarrow> Some bytes | BBucket p \<Rightarrow> stored p)"

definition row_value :: "('s, 'e) segment_ops \<Rightarrow> (path \<Rightarrow> bytes option) \<Rightarrow> written \<Rightarrow> 's option" where
  "row_value ops stored row = (case row_bytes stored row of None \<Rightarrow> None
     | Some bytes \<Rightarrow> (case so_decode ops bytes of Inl _ \<Rightarrow> None | Inr v \<Rightarrow> Some v))"

text \<open>A row is sound when its bytes, inline or at the key its name ends, are the encoding of a valid value,
  and its range contains every key the value answers.\<close>

definition row_ok ::
    "('s, 'e) segment_ops \<Rightarrow> ('s \<Rightarrow> bool) \<Rightarrow> ('s \<Rightarrow> key \<Rightarrow> 'v option) \<Rightarrow> ulid_ops \<Rightarrow> (path \<Rightarrow> bytes option) \<Rightarrow> written \<Rightarrow> bool" where
  "row_ok ops valid at u stored row \<longleftrightarrow>
     (\<exists>v. valid v \<and> row_bytes stored row = Some (so_encode ops v) \<and> (\<forall>k. at v k \<noteq> None \<longrightarrow> contains (wr_range row) k)) \<and>
     (\<forall>p. wr_body row = BBucket p \<longrightarrow> (\<exists>pre. p = pre @ [uo_name u (wr_id row)]))"

text \<open>The invariant of a store: every row is sound, under a name already drawn, and no two rows share a
  name.\<close>

definition store_inv ::
    "('s, 'e) segment_ops \<Rightarrow> ('s \<Rightarrow> bool) \<Rightarrow> ('s \<Rightarrow> key \<Rightarrow> 'v option) \<Rightarrow> ulid_ops \<Rightarrow> (nat \<Rightarrow> segment_id) \<Rightarrow>
       (int \<Rightarrow> written list) \<Rightarrow> (path \<Rightarrow> bytes option) \<Rightarrow> nat \<Rightarrow> bool" where
  "store_inv ops valid at u fresh rows stored made \<longleftrightarrow>
     (\<forall>i. \<forall>row \<in> set (rows i). row_ok ops valid at u stored row \<and> (\<exists>n < made. wr_id row = fresh n)) \<and>
     (\<forall>i j. \<forall>row \<in> set (rows i). \<forall>row' \<in> set (rows j). wr_id row = wr_id row' \<longrightarrow> i = j \<and> row = row')"

text \<open>What the rows of a scope answer for a key: the merge of what their values answer.\<close>

definition rows_answer ::
    "('s, 'e) segment_ops \<Rightarrow> ('v option \<Rightarrow> 'v option \<Rightarrow> 'v option) \<Rightarrow> ('s \<Rightarrow> key \<Rightarrow> 'v option) \<Rightarrow>
       (path \<Rightarrow> bytes option) \<Rightarrow> written list \<Rightarrow> key \<Rightarrow> 'v option" where
  "rows_answer ops merge at stored rs k = answer merge at (List.map_filter (row_value ops stored) rs) k"

lemma row_value_cong: "row_bytes stored' row = row_bytes stored row \<Longrightarrow> row_value ops stored' row = row_value ops stored row"
  by (simp add: row_value_def)

lemma row_ok_cong: "row_bytes stored' row = row_bytes stored row \<Longrightarrow> row_ok ops valid at u stored' row = row_ok ops valid at u stored row"
  by (simp add: row_ok_def)

lemma map_filter_cong: "(\<And>x. x \<in> set xs \<Longrightarrow> f x = g x) \<Longrightarrow> List.map_filter f xs = List.map_filter g xs"
  by (simp add: List.map_filter_def cong: filter_cong)

lemma rows_answer_cong:
  "(\<And>row. row \<in> set rs \<Longrightarrow> row_bytes stored' row = row_bytes stored row) \<Longrightarrow>
   rows_answer ops merge at stored' rs k = rows_answer ops merge at stored rs k"
  unfolding rows_answer_def using map_filter_cong [of rs "row_value ops stored'" "row_value ops stored"] row_value_cong by metis

lemma store_invD:
  assumes "store_inv ops valid at u fresh rows stored made" "row \<in> set (rows i)"
  shows "row_ok ops valid at u stored row" "\<exists>n < made. wr_id row = fresh n"
    "row' \<in> set (rows j) \<Longrightarrow> wr_id row = wr_id row' \<Longrightarrow> i = j \<and> row = row'"
  using assms unfolding store_inv_def by blast+

text \<open>A name has 128 bits, so no more than \<open>ID_SPACE\<close> of them can be drawn without a repeat.\<close>

definition ID_SPACE :: nat where
  "ID_SPACE = 2 ^ 128"

text \<open>Objects no row names may come and go.\<close>

lemma store_inv_stored:
  assumes "store_inv ops valid at u fresh rows stored made" "made \<le> made'"
    and "\<And>i row. row \<in> set (rows i) \<Longrightarrow> row_bytes stored' row = row_bytes stored row"
  shows "store_inv ops valid at u fresh rows stored' made'"
proof -
  have "row_ok ops valid at u stored' row \<and> (\<exists>n < made'. wr_id row = fresh n)" if "row \<in> set (rows i)" for i row
    using store_invD(1,2) [OF assms(1) that] row_ok_cong [OF assms(3) [OF that]] assms(2) by (metis order_less_le_trans)
  then show ?thesis using assms(1) unfolding store_inv_def by blast
qed

text \<open>A row under the next name may join the rows of a scope, some of which may leave.\<close>

lemma store_inv_insert:
  assumes inv: "store_inv ops valid at u fresh rows stored made" and inj: "inj_on fresh {..made}"
    and row: "row_ok ops valid at u stored row" "wr_id row = fresh made"
    and sub: "\<And>i. set (rows' i) \<subseteq> (if i = s then insert row (set (rows i)) else set (rows i))"
  shows "store_inv ops valid at u fresh rows' stored (Suc made)"
proof -
  have new: "wr_id x \<noteq> wr_id row" if x: "x \<in> set (rows i)" for x i
  proof -
    obtain n where "n < made" "wr_id x = fresh n" using store_invD(2) [OF inv x] by blast
    then show ?thesis using inj_onD [OF inj, of n made] row(2) by auto
  qed
  have "row_ok ops valid at u stored x \<and> (\<exists>n < Suc made. wr_id x = fresh n)" if "x \<in> set (rows' i)" for i x
    using sub [of i] that row store_invD(1,2) [OF inv, of x i] by (auto split: if_splits intro: less_SucI)
  moreover have "i = j \<and> x = y" if "x \<in> set (rows' i)" "y \<in> set (rows' j)" "wr_id x = wr_id y" for i j x y
  proof -
    have "x \<in> set (rows i) \<or> i = s \<and> x = row" "y \<in> set (rows j) \<or> j = s \<and> y = row"
      using sub [of i] sub [of j] that by (auto split: if_splits)
    then show ?thesis using that(3) new [of x i] new [of y j] store_invD(3) [OF inv, of x i y j] by auto
  qed
  ultimately show ?thesis unfolding store_inv_def by blast
qed

context segment
begin

lemma answer_eq:
  assumes "insert None ((\<lambda>v. at v k) ` set xs) = insert None ((\<lambda>v. at v k) ` set ys)"
  shows "answer merge at xs k = answer merge at ys k"
  using answers.compose_set_eq [of "None # map (\<lambda>v. at v k) xs" "None # map (\<lambda>v. at v k) ys"] assms
  by (simp add: answer_def)

lemma rows_answer_set: "set rs = set rs' \<Longrightarrow> rows_answer ops merge at stored rs k = rows_answer ops merge at stored rs' k"
  unfolding rows_answer_def by (rule answer_set_eq) (simp add: set_map_filter)

lemma rows_answer_append:
  "rows_answer ops merge at stored (rs @ rs') k = merge (rows_answer ops merge at stored rs k) (rows_answer ops merge at stored rs' k)"
  by (simp add: rows_answer_def List.map_filter_def answer_append)

lemma rows_answer_split:
  "rows_answer ops merge at stored rs k =
     merge (rows_answer ops merge at stored (filter (\<lambda>x. \<not> P x) rs) k) (rows_answer ops merge at stored (filter P rs) k)"
  unfolding rows_answer_append [symmetric] by (rule rows_answer_set) auto

lemma rows_answer_insert:
  assumes "set rs' = insert row (set rs)" "row_value ops stored row = Some v"
  shows "rows_answer ops merge at stored rs' k = merge (rows_answer ops merge at stored rs k) (at v k)"
proof -
  have "rows_answer ops merge at stored rs' k = rows_answer ops merge at stored (rs @ [row]) k"
    by (rule rows_answer_set) (simp add: assms(1))
  then show ?thesis
    using assms(2) by (simp add: rows_answer_append) (simp add: rows_answer_def List.map_filter_simps)
qed

end

end
