(* ===== verification/Store_Answers.thy ===== *)
theory Store_Answers
  imports Segment_Store
begin

text \<open>
  What a store of segments promises, proved once for every segment type, catalog and object store. The
  abstract state of a scope is what it \<open>held\<close>: for every key, the merge of what the values of its rows
  answer. A read answers it, a write adds to it, and compaction and sweeping leave it alone, at every
  point they can stop.
\<close>

section \<open>Orphans\<close>

text \<open>An object a sweep may delete: under the prefix, named as a segment is, by a name that no row has and
  that is older than the grace window.\<close>

definition orphan :: "ulid_ops \<Rightarrow> path \<Rightarrow> segment_id set \<Rightarrow> sweep \<Rightarrow> path \<Rightarrow> bool" where
  "orphan u prefix named sw q \<longleftrightarrow> take (length prefix) q = prefix \<and> q \<noteq> [] \<and>
     (case uo_parse u (last q) of None \<Rightarrow> False
      | Some id' \<Rightarrow> id' \<notin> named \<and> sat_mul (sw_grace_secs sw) 1000 < sat_sub (sw_now_ms sw) (uo_timestamp_ms u id'))"

lemma found_objects_spec:
  "found_objects u os = Inr found \<Longrightarrow> f \<in> set found \<Longrightarrow>
     Inr (fo_path f, fo_bytes f) \<in> set os \<and> fo_path f \<noteq> [] \<and> uo_parse u (last (fo_path f)) = Some (fo_id f)"
  by (induction u os arbitrary: found rule: found_objects.induct)
    (auto simp: rbind_eq_Inr_iff split: option.splits if_splits)

lemma orphans_of_orphan:
  assumes "found_objects u os = Inr found" "\<And>q sz. Inr (q, sz) \<in> set os \<Longrightarrow> take (length prefix) q = prefix"
    and "f \<in> set (orphans_of u found named sw)"
  shows "orphan u prefix named sw (fo_path f)"
proof -
  have f: "f \<in> set found" "fo_id f \<notin> named"
    "sat_mul (sw_grace_secs sw) 1000 < sat_sub (sw_now_ms sw) (uo_timestamp_ms u (fo_id f))"
    using assms(3) by (simp_all add: orphans_of_def Let_def)
  then show ?thesis using found_objects_spec [OF assms(1) f(1)] assms(2) [of "fo_path f" "fo_bytes f"] by (simp add: orphan_def)
qed

section \<open>The store over any segment type, catalog and bucket\<close>

locale segment_store = segment "ss_value env" valid merge at + catalog "ss_catalog env" rows
  for env :: "('s, 'e, 'c, 'b) segments" and valid :: "'s \<Rightarrow> bool" and merge :: "'v option \<Rightarrow> 'v option \<Rightarrow> 'v option"
    and at :: "'s \<Rightarrow> key \<Rightarrow> 'v option" and rows :: "'c \<Rightarrow> int \<Rightarrow> written list" +
  fixes view :: "'b \<Rightarrow> path \<Rightarrow> bytes option"
  assumes bucket: "bucket_laws (ss_bucket env) view"
    and ulid: "ulid_laws (ss_ulid env)"
    and fresh: "inj_on (ss_fresh env) {..<ID_SPACE}"
begin

abbreviation ok :: "(path \<Rightarrow> bytes option) \<Rightarrow> written \<Rightarrow> bool" where
  "ok \<equiv> row_ok (ss_value env) valid at (ss_ulid env)"

abbreviation inv :: "('c, 'b) world \<Rightarrow> bool" where
  "inv w \<equiv> store_inv (ss_value env) valid at (ss_ulid env) (ss_fresh env) (rows (w_catalog w)) (view (w_bucket w)) (w_made w)"

abbreviation held :: "('c, 'b) world \<Rightarrow> int \<Rightarrow> key \<Rightarrow> 'v option" where
  "held w i k \<equiv> rows_answer (ss_value env) merge at (view (w_bucket w)) (rows (w_catalog w) i) k"

lemma okE:
  assumes "ok stored row"
  obtains v where "valid v" "row_bytes stored row = Some (so_encode (ss_value env) v)"
    "row_value (ss_value env) stored row = Some v" "\<forall>k. at v k \<noteq> None \<longrightarrow> contains (wr_range row) k"
  using assms round_trip by (auto simp: row_ok_def row_value_def so_decode_def)

lemma ok_path:
  "ok stored row \<Longrightarrow> wr_body row = BBucket p \<Longrightarrow> p \<noteq> [] \<and> uo_parse (ss_ulid env) (last p) = Some (wr_id row)"
  using ulid by (auto simp: row_ok_def ulid_laws_def)

text \<open>Objects that are not named as one of the rows is may be written and deleted.\<close>

lemma other_objects:
  assumes "inv w" "\<And>q. (\<forall>i. \<forall>row \<in> set (rows (w_catalog w) i). q \<noteq> [] \<longrightarrow> uo_parse (ss_ulid env) (last q) = Some (wr_id row) \<longrightarrow>
      stored' q = view (w_bucket w) q)" "row \<in> set (rows (w_catalog w) i)"
  shows "row_bytes stored' row = row_bytes (view (w_bucket w)) row"
  using assms(2,3) ok_path [OF store_invD(1) [OF assms(1,3)]] by (auto simp: row_bytes_def split: body.split)

subsection \<open>Reading\<close>

lemma decode_one_cases:
  assumes "row_bytes (view (w_bucket w)) row = Some x"
  shows "decode_one env r w (row_listed row) =
      (case so_decode_range (ss_value env) x r of Inl e \<Rightarrow> Inl (ECorrupt (wr_id row) e) | Inr v \<Rightarrow> Inr v) \<or>
    (\<exists>p m. decode_one env r w (row_listed row) = Inl (EBucket (wr_id row) m) \<and> bo_get (ss_bucket env) p (w_bucket w) = Inl m \<and>
      view (w_bucket w) p = Some x)"
proof (cases "wr_body row")
  case (BInline bytes)
  then show ?thesis using assms by (simp add: decode_one_def row_listed_def row_entry_def row_bytes_def)
next
  case (BBucket p)
  then have x: "view (w_bucket w) p = Some x" using assms by (simp add: row_bytes_def)
  show ?thesis
  proof (cases "bo_get (ss_bucket env) p (w_bucket w)")
    case (Inl m)
    then have "decode_one env r w (row_listed row) = Inl (EBucket (wr_id row) m)"
      using BBucket by (simp add: decode_one_def row_listed_def row_entry_def seg_fetch_def)
    then show ?thesis using Inl x by blast
  next
    case (Inr y)
    then have "y = x" using bucket_getD [OF bucket Inr] x by simp
    then show ?thesis using Inr BBucket by (simp add: decode_one_def row_listed_def row_entry_def seg_fetch_def)
  qed
qed

lemma decode_one_row:
  assumes "ok (view (w_bucket w)) row" "range_ok r" "decode_one env r w (row_listed row) = Inr b"
  shows "\<exists>v. row_value (ss_value env) (view (w_bucket w)) row = Some v \<and> valid v \<and> valid b \<and>
    (\<forall>k. at b k = (if contains r k then at v k else None))"
proof -
  obtain v where v: "valid v" "row_bytes (view (w_bucket w)) row = Some (so_encode (ss_value env) v)"
    "row_value (ss_value env) (view (w_bucket w)) row = Some v" by (rule okE [OF assms(1)])
  have "so_decode_range (ss_value env) (so_encode (ss_value env) v) r = Inr b"
    using decode_one_cases [OF v(2), of r] assms(3) by (cases "so_decode_range (ss_value env) (so_encode (ss_value env) v) r") auto
  moreover obtain c where "so_decode_range (ss_value env) (so_encode (ss_value env) v) r = Inr c" "valid c"
    "\<forall>k. at c k = (if contains r k then at v k else None)" using narrowing [OF v(1) assms(2)] by blast
  ultimately have "valid b" "\<forall>k. at b k = (if contains r k then at v k else None)" by simp_all
  then show ?thesis using v by blast
qed

lemma decode_one_error:
  assumes "ok (view (w_bucket w)) row" "range_ok r" "decode_one env r w (row_listed row) = Inl e"
  shows "\<exists>p m x. e = EBucket (wr_id row) m \<and> bo_get (ss_bucket env) p (w_bucket w) = Inl m \<and> view (w_bucket w) p = Some x"
proof -
  obtain v where v: "valid v" "row_bytes (view (w_bucket w)) row = Some (so_encode (ss_value env) v)"
    by (rule okE [OF assms(1)])
  obtain b where "so_decode_range (ss_value env) (so_encode (ss_value env) v) r = Inr b"
    using narrowing [OF v(1) assms(2)] by blast
  then show ?thesis using decode_one_cases [OF v(2), of r] assms(3) by auto
qed

text \<open>Decoding some of the rows: each value that comes back answers the keys of the range as its row does.\<close>

lemma decode_rows:
  assumes "set ls = row_listed ` R" "\<forall>row \<in> R. ok (view (w_bucket w)) row" "range_ok r"
    and "decode_narrowed env ls r w = Inr vs"
  shows "\<forall>v \<in> set vs. valid v"
    and "(\<lambda>v. at v k) ` set vs \<subseteq> insert None ((\<lambda>v. at v k) ` {v. \<exists>row \<in> R. row_value (ss_value env) (view (w_bucket w)) row = Some v})"
    and "contains r k \<Longrightarrow> (\<lambda>v. at v k) ` set vs = (\<lambda>v. at v k) ` {v. \<exists>row \<in> R. row_value (ss_value env) (view (w_bucket w)) row = Some v}"
    and "\<not> contains r k \<Longrightarrow> v \<in> set vs \<Longrightarrow> at v k = None"
proof -
  have "map (decode_one env r w) ls = map Inr vs" using assms(4) by (simp add: decode_narrowed_def collect_results_Inr)
  then have vs: "b \<in> set vs \<longleftrightarrow> (\<exists>row \<in> R. decode_one env r w (row_listed row) = Inr b)" for b
    using assms(1) by (metis (no_types, lifting) image_iff list.set_map sum.inject(2))
  have row: "\<exists>b \<in> set vs. decode_one env r w (row_listed row) = Inr b" if "row \<in> R" for row
  proof -
    have "decode_one env r w (row_listed row) \<in> Inr ` set vs"
      using that assms(1) \<open>map (decode_one env r w) ls = map Inr vs\<close> by (metis image_eqI image_set)
    then show ?thesis by auto
  qed
  show "\<forall>v \<in> set vs. valid v"
    using vs decode_one_row assms(2,3) by blast
  show "(\<lambda>v. at v k) ` set vs \<subseteq> insert None ((\<lambda>v. at v k) ` {v. \<exists>row \<in> R. row_value (ss_value env) (view (w_bucket w)) row = Some v})"
  proof (rule image_subsetI)
    fix b assume "b \<in> set vs"
    then obtain row where "row \<in> R" "decode_one env r w (row_listed row) = Inr b" using vs by blast
    then show "at b k \<in> insert None ((\<lambda>v. at v k) ` {v. \<exists>row \<in> R. row_value (ss_value env) (view (w_bucket w)) row = Some v})"
      using decode_one_row [of w row r b] assms(2,3) by (cases "contains r k") (auto simp: image_iff)
  qed
  show "at b k = None" if out: "\<not> contains r k" and b: "b \<in> set vs" for b
  proof -
    obtain row where "row \<in> R" "decode_one env r w (row_listed row) = Inr b" using vs b by blast
    then show ?thesis using decode_one_row [of w row r b] assms(2,3) out by auto
  qed
  assume k: "contains r k"
  show "(\<lambda>v. at v k) ` set vs = (\<lambda>v. at v k) ` {v. \<exists>row \<in> R. row_value (ss_value env) (view (w_bucket w)) row = Some v}" (is "?A = ?B")
  proof
    show "?A \<subseteq> ?B"
    proof (rule image_subsetI)
      fix b assume "b \<in> set vs"
      then obtain row where "row \<in> R" "decode_one env r w (row_listed row) = Inr b" using vs by blast
      then show "at b k \<in> ?B" using decode_one_row [of w row r b] assms(2,3) k by (metis (mono_tags, lifting) image_eqI mem_Collect_eq)
    qed
    show "?B \<subseteq> ?A"
    proof (rule image_subsetI)
      fix v assume "v \<in> {v. \<exists>row \<in> R. row_value (ss_value env) (view (w_bucket w)) row = Some v}"
      then obtain row where r: "row \<in> R" "row_value (ss_value env) (view (w_bucket w)) row = Some v" by blast
      then obtain b where b: "b \<in> set vs" "decode_one env r w (row_listed row) = Inr b" using row by blast
      then have "at b k = at v k" using decode_one_row [of w row r b] assms(2,3) k r by auto
      then show "at v k \<in> ?A" using b(1) by (metis image_eqI)
    qed
  qed
qed

lemma out_of_range:
  assumes "ok stored row" "row_value (ss_value env) stored row = Some v" "contains r k" "\<not> overlaps (wr_range row) r"
  shows "at v k = None"
proof (rule ccontr)
  assume some: "at v k \<noteq> None"
  obtain v' where "valid v'" "row_bytes stored row = Some (so_encode (ss_value env) v')"
    "row_value (ss_value env) stored row = Some v'" "\<forall>k. at v' k \<noteq> None \<longrightarrow> contains (wr_range row) k"
    by (rule okE [OF assms(1)])
  then have "contains (wr_range row) k" using some assms(2) by simp
  then show False using assms(3,4) by (auto simp: contains_def overlaps_def)
qed

text \<open>A read answers every key of its range with the merge of everything the scope holds.\<close>

lemma read_answer:
  assumes "inv w" "range_ok r" "seg_read env scope r w = Inr res" "contains r k"
  shows "(case res of None \<Rightarrow> None | Some v \<Rightarrow> at v k) = held w (sc_id scope) k"
proof -
  let ?R = "{row \<in> set (rows (w_catalog w) (sc_id scope)). overlaps (wr_range row) r}"
  obtain ls vs where ls: "co_covering (ss_catalog env) scope r (w_catalog w) = Inr ls"
    and vs: "decode_narrowed env ls r w = Inr vs" and res: "res = compose (so_join (ss_value env)) vs"
    using assms(3) by (auto simp: seg_read_def rbind_eq_Inr_iff split: sum.splits)
  have okR: "\<forall>row \<in> ?R. ok (view (w_bucket w)) row" using store_invD(1) [OF assms(1)] by blast
  note dec = decode_rows [OF covering_rows [OF ls] okR assms(2) vs]
  have "(case res of None \<Rightarrow> None | Some v \<Rightarrow> at v k) = answer merge at vs k"
    unfolding res using at_compose [OF dec(1)] by (cases "compose (so_join (ss_value env)) vs") auto
  also have "\<dots> = held w (sc_id scope) k"
    unfolding rows_answer_def
  proof (rule answer_eq, unfold dec(3) [OF assms(4)] set_map_filter, rule subset_antisym)
    show "insert None ((\<lambda>v. at v k) ` {v. \<exists>row \<in> ?R. row_value (ss_value env) (view (w_bucket w)) row = Some v})
      \<subseteq> insert None ((\<lambda>v. at v k) ` {v. \<exists>row \<in> set (rows (w_catalog w) (sc_id scope)). row_value (ss_value env) (view (w_bucket w)) row = Some v})"
      by blast
    have "at v k \<in> insert None ((\<lambda>v. at v k) ` {v. \<exists>row \<in> ?R. row_value (ss_value env) (view (w_bucket w)) row = Some v})"
      if "row \<in> set (rows (w_catalog w) (sc_id scope))" "row_value (ss_value env) (view (w_bucket w)) row = Some v" for row v
      using that out_of_range [OF store_invD(1) [OF assms(1) that(1)] that(2) assms(4)]
      by (cases "overlaps (wr_range row) r") blast+
    then show "insert None ((\<lambda>v. at v k) ` {v. \<exists>row \<in> set (rows (w_catalog w) (sc_id scope)). row_value (ss_value env) (view (w_bucket w)) row = Some v})
      \<subseteq> insert None ((\<lambda>v. at v k) ` {v. \<exists>row \<in> ?R. row_value (ss_value env) (view (w_bucket w)) row = Some v})"
      unfolding insert_subset image_subset_iff by blast
  qed
  finally show ?thesis .
qed

text \<open>For any other key a read answers no more than the scope does.\<close>

lemma read_valid:
  assumes "inv w" "range_ok r" "seg_read env scope r w = Inr (Some v)"
  shows "valid v"
proof -
  let ?R = "{row \<in> set (rows (w_catalog w) (sc_id scope)). overlaps (wr_range row) r}"
  obtain ls vs where ls: "co_covering (ss_catalog env) scope r (w_catalog w) = Inr ls"
    and vs: "decode_narrowed env ls r w = Inr vs" and v: "compose (so_join (ss_value env)) vs = Some v"
    using assms(3) by (auto simp: seg_read_def rbind_eq_Inr_iff split: sum.splits)
  have okR: "\<forall>row \<in> ?R. ok (view (w_bucket w)) row" using store_invD(1) [OF assms(1)] by blast
  show ?thesis by (rule compose_valid [OF decode_rows(1) [OF covering_rows [OF ls] okR assms(2) vs] v])
qed

lemma read_outside:
  assumes "inv w" "range_ok r" "seg_read env scope r w = Inr res" "\<not> contains r k"
  shows "(case res of None \<Rightarrow> None | Some v \<Rightarrow> at v k) = None"
proof -
  let ?R = "{row \<in> set (rows (w_catalog w) (sc_id scope)). overlaps (wr_range row) r}"
  obtain ls vs where ls: "co_covering (ss_catalog env) scope r (w_catalog w) = Inr ls"
    and vs: "decode_narrowed env ls r w = Inr vs" and res: "res = compose (so_join (ss_value env)) vs"
    using assms(3) by (auto simp: seg_read_def rbind_eq_Inr_iff split: sum.splits)
  have okR: "\<forall>row \<in> ?R. ok (view (w_bucket w)) row" using store_invD(1) [OF assms(1)] by blast
  note dec = decode_rows [OF covering_rows [OF ls] okR assms(2) vs]
  have "(case res of None \<Rightarrow> None | Some v \<Rightarrow> at v k) = answer merge at vs k"
    unfolding res using at_compose [OF dec(1)] by (cases "compose (so_join (ss_value env)) vs") auto
  also have "\<dots> = answer merge at [] k"
    by (rule answer_eq) (use dec(4) [OF assms(4)] in auto)
  finally show ?thesis by simp
qed

lemma read_below:
  assumes "inv w" "range_ok r" "seg_read env scope r w = Inr res"
  shows "merge (held w (sc_id scope) k) (case res of None \<Rightarrow> None | Some v \<Rightarrow> at v k) = held w (sc_id scope) k"
proof -
  let ?R = "{row \<in> set (rows (w_catalog w) (sc_id scope)). overlaps (wr_range row) r}"
  let ?vs = "List.map_filter (row_value (ss_value env) (view (w_bucket w))) (rows (w_catalog w) (sc_id scope))"
  obtain ls vs where ls: "co_covering (ss_catalog env) scope r (w_catalog w) = Inr ls"
    and vs: "decode_narrowed env ls r w = Inr vs" and res: "res = compose (so_join (ss_value env)) vs"
    using assms(3) by (auto simp: seg_read_def rbind_eq_Inr_iff split: sum.splits)
  have okR: "\<forall>row \<in> ?R. ok (view (w_bucket w)) row" using store_invD(1) [OF assms(1)] by blast
  note dec = decode_rows [OF covering_rows [OF ls] okR assms(2) vs]
  have "(case res of None \<Rightarrow> None | Some v \<Rightarrow> at v k) = answer merge at vs k"
    unfolding res using at_compose [OF dec(1)] by (cases "compose (so_join (ss_value env)) vs") auto
  moreover have "answer merge at (?vs @ vs) k = answer merge at ?vs k"
  proof (rule answer_eq)
    have "(\<lambda>v. at v k) ` set vs \<subseteq> insert None ((\<lambda>v. at v k) ` set ?vs)"
      unfolding set_map_filter by (rule subset_trans [OF dec(2) insert_mono [OF image_mono]]) blast
    then show "insert None ((\<lambda>v. at v k) ` set (?vs @ vs)) = insert None ((\<lambda>v. at v k) ` set ?vs)" by auto
  qed
  ultimately show ?thesis unfolding rows_answer_def answer_append by simp
qed

lemma answer_map_filter_id:
  "answer merge at (List.map_filter id parts) k = foldl merge None (map (\<lambda>res. case res of None \<Rightarrow> None | Some v \<Rightarrow> at v k) parts)"
proof -
  have "foldl merge x (map (\<lambda>v. at v k) (List.map_filter id parts)) =
      foldl merge x (map (\<lambda>res. case res of None \<Rightarrow> None | Some v \<Rightarrow> at v k) parts)" for x
    by (induction parts arbitrary: x) (auto simp: List.map_filter_simps merge_None_right split: option.split)
  then show ?thesis by (simp add: answer_def)
qed

lemma foldl_merge_eq:
  assumes "h \<in> set xs" "\<forall>x \<in> set xs. merge h x = h"
  shows "foldl merge None xs = h"
proof (rule answers.absorbs_antisym)
  show "merge h (foldl merge None xs) = h"
    by (rule answers.foldl_least) (use assms merge_None_right in auto)
  show "merge (foldl merge None xs) h = foldl merge None xs"
    by (rule answers.foldl_upper) (use assms in auto)
qed simp_all

text \<open>A scattered read answers every key it was asked for as the scope does.\<close>

lemma read_at_answer:
  assumes "inv w" "1 \<le> ss_clusters env" "seg_read_at env scope keys w = Inr vs" "k \<in> set keys"
  shows "answer merge at vs k = held w (sc_id scope) k"
proof -
  let ?f = "\<lambda>res. case res of None \<Rightarrow> None | Some v \<Rightarrow> at v k" and ?rs = "cluster keys (ss_clusters env)"
  obtain parts where parts: "map (\<lambda>r. seg_read env scope r w) ?rs = map Inr parts" and vs: "vs = List.map_filter id parts"
    using assms(3) by (auto simp: seg_read_at_def rbind_eq_Inr_iff collect_results_Inr)
  have cover: "covers_with keys (ss_clusters env) ?rs" using assms(2) by (rule cluster_contract)
  then obtain r where r: "r \<in> set ?rs" "contains r k" using assms(4) by (auto simp: covers_with_def)
  have part: "\<exists>r \<in> set ?rs. seg_read env scope r w = Inr p" if "p \<in> set parts" for p
    using that parts by (metis (no_types, lifting) image_iff list.set_map)
  have ok: "range_ok r" if "r \<in> set ?rs" for r using that cover by (simp add: covers_with_def)
  have "Inr ` set parts = (\<lambda>r. seg_read env scope r w) ` set ?rs" by (metis list.set_map parts)
  then obtain p where p: "p \<in> set parts" "seg_read env scope r w = Inr p" using r(1) by (metis image_iff)
  have "?f p = held w (sc_id scope) k" by (rule read_answer [OF assms(1) ok [OF r(1)] p(2) r(2)])
  with p(1) have "held w (sc_id scope) k \<in> set (map ?f parts)" by force
  moreover have "\<forall>x \<in> set (map ?f parts). merge (held w (sc_id scope) k) x = held w (sc_id scope) k"
    using part read_below [OF assms(1) ok] by fastforce
  ultimately show ?thesis unfolding vs answer_map_filter_id by (rule foldl_merge_eq)
qed

text \<open>A read fails only when the catalog does or when the bucket fails on an object that is there: a row
  never names a missing object, and no bytes are ever reported corrupt.\<close>

lemma read_at_part:
  assumes "inv w" "1 \<le> ss_clusters env" "seg_read_at env scope keys w = Inr vs" "v \<in> set vs"
  shows "at v k = None \<or> at v k = held w (sc_id scope) k"
proof -
  let ?rs = "cluster keys (ss_clusters env)"
  have ok: "\<forall>r \<in> set ?rs. range_ok r" using cluster_contract [OF assms(2)] by (simp add: covers_with_def)
  obtain parts where parts: "map (\<lambda>r. seg_read env scope r w) ?rs = map Inr parts" and vs: "vs = List.map_filter id parts"
    using assms(3) by (auto simp: seg_read_at_def rbind_eq_Inr_iff collect_results_Inr)
  have "Some v \<in> set parts" using assms(4) by (auto simp: vs map_filter_def)
  then have "Inr (Some v) \<in> set (map (\<lambda>r. seg_read env scope r w) ?rs)" unfolding parts by simp
  then obtain r where r: "r \<in> set ?rs" "seg_read env scope r w = Inr (Some v)" by auto
  then show ?thesis
    using read_answer [OF assms(1) _ r(2), of k] read_outside [OF assms(1) _ r(2), of k] ok by (cases "contains r k") auto
qed

text \<open>The first part of a scattered read that answers a key answers it with everything the scope holds.\<close>

lemma read_at_first:
  assumes "inv w" "1 \<le> ss_clusters env" "seg_read_at env scope keys w = Inr vs" "k \<in> set keys"
  shows "find_map (\<lambda>v. at v k) vs = held w (sc_id scope) k"
proof (cases "\<exists>v \<in> set vs. at v k \<noteq> None")
  case True
  then obtain v where "v \<in> set vs" "find_map (\<lambda>v. at v k) vs = at v k" "at v k \<noteq> None" by (rule find_map_Some)
  then show ?thesis using read_at_part [OF assms(1-3), of v k] by auto
next
  case False
  then have "answer merge at vs k = answer merge at [] k" by (intro answer_eq) auto
  then show ?thesis using False read_at_answer [OF assms] by (simp add: find_map_None)
qed

lemma rows_valid: "inv w \<Longrightarrow> \<forall>v \<in> set (List.map_filter (row_value (ss_value env) (view (w_bucket w))) (rows (w_catalog w) i)). valid v"
proof
  fix v assume at: "inv w" "v \<in> set (List.map_filter (row_value (ss_value env) (view (w_bucket w))) (rows (w_catalog w) i))"
  then obtain row where row: "row \<in> set (rows (w_catalog w) i)" "row_value (ss_value env) (view (w_bucket w)) row = Some v"
    by (auto simp: set_map_filter)
  obtain u where "valid u" "row_value (ss_value env) (view (w_bucket w)) row = Some u"
    by (rule okE [OF store_invD(1) [OF at(1) row(1)]])
  then show "valid v" using row(2) by simp
qed

lemma read_at_valid:
  assumes "inv w" "1 \<le> ss_clusters env" "seg_read_at env scope keys w = Inr vs"
  shows "\<forall>v \<in> set vs. valid v"
proof
  fix v assume v: "v \<in> set vs"
  let ?rs = "cluster keys (ss_clusters env)"
  have ok: "\<forall>r \<in> set ?rs. range_ok r" using cluster_contract [OF assms(2)] by (simp add: covers_with_def)
  obtain parts where parts: "map (\<lambda>r. seg_read env scope r w) ?rs = map Inr parts" and vs: "vs = List.map_filter id parts"
    using assms(3) by (auto simp: seg_read_at_def rbind_eq_Inr_iff collect_results_Inr)
  have "Some v \<in> set parts" using v by (auto simp: vs map_filter_def)
  then have "Inr (Some v) \<in> set (map (\<lambda>r. seg_read env scope r w) ?rs)" unfolding parts by simp
  then obtain r where "r \<in> set ?rs" "seg_read env scope r w = Inr (Some v)" by auto
  then show "valid v" using read_valid [OF assms(1)] ok by blast
qed

lemma read_at_other:
  assumes "inv w" "1 \<le> ss_clusters env" "seg_read_at env scope keys w = Inr vs"
  shows "answer merge at vs k = None \<or> answer merge at vs k = held w (sc_id scope) k"
proof (cases "\<exists>v \<in> set vs. at v k \<noteq> None")
  case True
  then obtain v where v: "v \<in> set vs" "at v k \<noteq> None" by blast
  then have h: "at v k = held w (sc_id scope) k" using read_at_part [OF assms v(1), of k] by auto
  have "insert None ((\<lambda>v. at v k) ` set vs) = insert None ((\<lambda>v. at v k) ` set [v])"
  proof (rule subset_antisym)
    have "at u k \<in> {None, at v k}" if "u \<in> set vs" for u using read_at_part [OF assms that, of k] h by auto
    then show "insert None ((\<lambda>v. at v k) ` set vs) \<subseteq> insert None ((\<lambda>v. at v k) ` set [v])"
      unfolding insert_subset image_subset_iff by simp
    show "insert None ((\<lambda>v. at v k) ` set [v]) \<subseteq> insert None ((\<lambda>v. at v k) ` set vs)" using v(1) by simp
  qed
  from answer_eq [OF this] show ?thesis using h merge_None by (simp add: answer_def)
next
  case False
  then have "answer merge at vs k = answer merge at [] k" by (intro answer_eq) auto
  then show ?thesis by (simp add: answer_def)
qed

lemma read_error:
  assumes "inv w" "range_ok r" "seg_read env scope r w = Inl e"
  shows "(\<exists>m. e = ECatalog m \<and> co_covering (ss_catalog env) scope r (w_catalog w) = Inl m) \<or>
    (\<exists>i p m x. e = EBucket i m \<and> bo_get (ss_bucket env) p (w_bucket w) = Inl m \<and> view (w_bucket w) p = Some x)"
proof (cases "co_covering (ss_catalog env) scope r (w_catalog w)")
  case (Inl m)
  then show ?thesis using assms(3) by (simp add: seg_read_def)
next
  case (Inr ls)
  have "Inl e \<in> decode_one env r w ` set ls"
    using assms(3) Inr by (auto simp: seg_read_def rbind_def decode_narrowed_def dest!: collect_results_Inl split: sum.splits)
  then obtain row where "row \<in> set (rows (w_catalog w) (sc_id scope))" "decode_one env r w (row_listed row) = Inl e"
    unfolding covering_rows [OF Inr] by force
  then show ?thesis using decode_one_error [OF store_invD(1) [OF assms(1)] assms(2)] by blast
qed

lemma read_at_error:
  assumes "inv w" "1 \<le> ss_clusters env" "seg_read_at env scope keys w = Inl e"
  shows "\<exists>r. range_ok r \<and> seg_read env scope r w = Inl e"
proof -
  have "covers_with keys (ss_clusters env) (cluster keys (ss_clusters env))" using assms(2) by (rule cluster_contract)
  moreover have "Inl e \<in> (\<lambda>r. seg_read env scope r w) ` set (cluster keys (ss_clusters env))"
    using assms(3) by (auto simp: seg_read_at_def rbind_def split: sum.splits dest!: collect_results_Inl)
  ultimately show ?thesis by (auto simp: covers_with_def)
qed

subsection \<open>Writing\<close>

text \<open>Putting a value leaves every row as it was, whatever happens, and gives a sound row for the value
  under the next name.\<close>

lemma next_fresh: "n < ID_SPACE \<Longrightarrow> m < n \<Longrightarrow> ss_fresh env m \<noteq> ss_fresh env n"
  using inj_onD [OF fresh, of m n] by auto

lemma put_spec:
  assumes "inv w" "valid v" "\<forall>k. at v k \<noteq> None \<longrightarrow> contains r k" "seg_put env scope r t v w = (res, w')" "w_made w < ID_SPACE"
  shows "w_catalog w' = w_catalog w" "w_made w' = Suc (w_made w)"
    and "row \<in> set (rows (w_catalog w) i) \<Longrightarrow> row_bytes (view (w_bucket w')) row = row_bytes (view (w_bucket w)) row"
    and "res = Inr new \<Longrightarrow> wr_id new = ss_fresh env (w_made w) \<and> ok (view (w_bucket w')) new \<and>
      row_value (ss_value env) (view (w_bucket w')) new = Some v"
proof -
  let ?id = "ss_fresh env (w_made w)" and ?enc = "so_encode (ss_value env) v"
  let ?p = "scope_key (ss_ulid env) scope ?id"
  obtain b res' where put: "bo_put (ss_bucket env) ?p ?enc (w_bucket w) = (res', b)" by (rule prod.exhaust)
  define inl where "inl \<longleftrightarrow> residence_for (ss_policy env) (u64_len ?enc) = Inline"
  have w': "w' = (if inl then w\<lparr>w_made := Suc (w_made w)\<rparr> else w\<lparr>w_made := Suc (w_made w), w_bucket := b\<rparr>)"
    and new: "res = Inr new \<Longrightarrow> wr_id new = ?id \<and> wr_range new = r \<and>
      (if inl then wr_body new = BInline ?enc else wr_body new = BBucket ?p \<and> res' = Inr ())" for new
    using assms(4) put
    by (auto simp: seg_put_def Let_def inl_def split: residence.splits sum.splits)
  show "w_catalog w' = w_catalog w" "w_made w' = Suc (w_made w)" by (simp_all add: w')
  have path: "wr_body row \<noteq> BBucket ?p" if row: "row \<in> set (rows (w_catalog w) i)" for row i
  proof
    assume "wr_body row = BBucket ?p"
    from ok_path [OF store_invD(1) [OF assms(1) row] this] have "wr_id row = ?id"
      using ulid by (simp add: scope_key_def ulid_laws_def)
    then show False using store_invD(2) [OF assms(1) row] next_fresh [OF assms(5)] by metis
  qed
  show "row_bytes (view (w_bucket w')) row = row_bytes (view (w_bucket w)) row" if "row \<in> set (rows (w_catalog w) i)" for row i
    using path [OF that] bucket_putD(1) [OF bucket put] by (auto simp: w' row_bytes_def split: body.split)
  show "wr_id new = ss_fresh env (w_made w) \<and> ok (view (w_bucket w')) new \<and>
      row_value (ss_value env) (view (w_bucket w')) new = Some v" if res: "res = Inr new"
  proof -
    have "row_bytes (view (w_bucket w')) new = Some ?enc"
      using new [OF res] bucket_putD(2) [OF bucket put] by (auto simp: w' row_bytes_def split: if_splits)
    moreover have "\<exists>pre. p = pre @ [uo_name (ss_ulid env) (wr_id new)]" if "wr_body new = BBucket p" for p
      using new [OF res] that by (auto simp: scope_key_def split: if_splits)
    ultimately show ?thesis
      using new [OF res] assms(2,3) round_trip by (auto simp: row_ok_def row_value_def so_decode_def)
  qed
qed

lemma put_inv:
  assumes "inv w" "valid v" "\<forall>k. at v k \<noteq> None \<longrightarrow> contains r k" "seg_put env scope r t v w = (res, w')" "w_made w < ID_SPACE"
  shows "inv w'" "held w' i k = held w i k"
proof -
  note put = put_spec [OF assms]
  show "inv w'" unfolding put(1,2) by (rule store_inv_stored [OF assms(1)]) (auto simp: put(3))
  show "held w' i k = held w i k" unfolding put(1) by (rule rows_answer_cong) (rule put(3))
qed

text \<open>Recording the row of a value that was put, in place of the rows that are not kept.\<close>

lemma recorded:
  assumes "inv w" "valid v" "\<forall>k. at v k \<noteq> None \<longrightarrow> contains r k" "seg_put env scope r t v w = (Inr new, w')" "w_made w < ID_SPACE"
    and rows: "\<forall>i. set (rows c i) = (if i = sc_id scope then insert new {x \<in> set (rows (w_catalog w) i). keep x} else set (rows (w_catalog w) i))"
  shows "inv (w'\<lparr>w_catalog := c\<rparr>)" "i \<noteq> sc_id scope \<Longrightarrow> held (w'\<lparr>w_catalog := c\<rparr>) i k = held w i k"
    and "held (w'\<lparr>w_catalog := c\<rparr>) (sc_id scope) k =
      merge (rows_answer (ss_value env) merge at (view (w_bucket w)) (filter keep (rows (w_catalog w) (sc_id scope))) k) (at v k)"
proof -
  note put = put_spec [OF assms(1-5)]
  have kept: "store_inv (ss_value env) valid at (ss_ulid env) (ss_fresh env) (rows (w_catalog w)) (view (w_bucket w')) (w_made w)"
    by (rule store_inv_stored [OF assms(1)]) (auto simp: put(3))
  have "store_inv (ss_value env) valid at (ss_ulid env) (ss_fresh env) (rows c) (view (w_bucket w')) (Suc (w_made w))"
    by (rule store_inv_insert [OF kept inj_on_subset [OF fresh], of new _ "sc_id scope"]) (use put(4) rows assms(5) in auto)
  then show "inv (w'\<lparr>w_catalog := c\<rparr>)" by (simp add: put(2))
  show "held (w'\<lparr>w_catalog := c\<rparr>) i k = held w i k" if "i \<noteq> sc_id scope"
  proof -
    have "rows_answer (ss_value env) merge at (view (w_bucket w')) (rows c i) k =
        rows_answer (ss_value env) merge at (view (w_bucket w')) (rows (w_catalog w) i) k"
      by (rule rows_answer_set) (simp add: rows that)
    also have "\<dots> = held w i k" by (rule rows_answer_cong) (rule put(3))
    finally show ?thesis by simp
  qed
  let ?kept = "filter keep (rows (w_catalog w) (sc_id scope))"
  have "rows_answer (ss_value env) merge at (view (w_bucket w')) ?kept k = rows_answer (ss_value env) merge at (view (w_bucket w)) ?kept k"
    by (rule rows_answer_cong) (rule put(3), auto)
  moreover have "rows_answer (ss_value env) merge at (view (w_bucket w')) (rows c (sc_id scope)) k =
      merge (rows_answer (ss_value env) merge at (view (w_bucket w')) ?kept k) (at v k)"
    by (rule rows_answer_insert) (use put(4) [OF refl] rows in auto)
  ultimately show "held (w'\<lparr>w_catalog := c\<rparr>) (sc_id scope) k =
      merge (rows_answer (ss_value env) merge at (view (w_bucket w)) ?kept k) (at v k)" by simp
qed

lemma write_cases:
  assumes "inv w" "valid v" "seg_write env scope v w = (res, w')" "w_made w < ID_SPACE"
  obtains (empty) "so_range (ss_value env) v = None" "w' = w"
    | (failed) r e where "so_range (ss_value env) v = Some r" "seg_put env scope r 0 v w = (Inl e, w')" "res = Inl e"
    | (put) r new w1 res' c where "so_range (ss_value env) v = Some r" "seg_put env scope r 0 v w = (Inr new, w1)"
        "co_insert (ss_catalog env) scope new (w_catalog w) = (res', c)" "w' = w1\<lparr>w_catalog := c\<rparr>"
        "res' \<noteq> Inr () \<longrightarrow> (\<exists>e. res = Inl e)"
proof (cases "so_range (ss_value env) v")
  case None
  then show thesis using assms(3) empty by (simp add: seg_write_def seg_prepare_def)
next
  case (Some r)
  obtain res1 w1 where put: "seg_put env scope r 0 v w = (res1, w1)" by (rule prod.exhaust)
  have in_r: "\<forall>k. at v k \<noteq> None \<longrightarrow> contains r k" using at_range [OF assms(2)] Some by fastforce
  note cat = put_spec(1) [OF assms(1,2) in_r put assms(4)]
  show thesis
  proof (cases res1)
    case (Inl e)
    then show thesis using failed [OF Some] put assms(3) Some by (simp add: seg_write_def seg_prepare_def)
  next
    case (Inr new)
    obtain res2 c where ins: "co_insert (ss_catalog env) scope new (w_catalog w) = (res2, c)" by (rule prod.exhaust)
    have "w' = w1\<lparr>w_catalog := c\<rparr> \<and> (res2 \<noteq> Inr () \<longrightarrow> (\<exists>e. res = Inl e))"
      using assms(3) Some put Inr ins cat by (cases res2) (auto simp: seg_write_def seg_prepare_def)
    then show thesis using that(3) [OF Some put [unfolded Inr] ins] by blast
  qed
qed

text \<open>A write adds the value to what its scope holds, or, when it fails, may have added nothing.\<close>

lemma write_spec:
  assumes "inv w" "valid v" "seg_write env scope v w = (res, w')" "w_made w < ID_SPACE"
  shows "inv w' \<and> (\<forall>i k. i \<noteq> sc_id scope \<longrightarrow> held w' i k = held w i k) \<and>
    ((\<forall>k. held w' (sc_id scope) k = merge (held w (sc_id scope) k) (at v k)) \<or>
     (\<exists>e. res = Inl e) \<and> (\<forall>k. held w' (sc_id scope) k = held w (sc_id scope) k))"
  using assms
proof (cases rule: write_cases)
  case empty
  then have "at v k = None" for k using at_range [OF assms(2)] by fastforce
  then show ?thesis using empty assms(1) by (simp add: merge_None_right)
next
  case (failed r e)
  have in_r: "\<forall>k. at v k \<noteq> None \<longrightarrow> contains r k" using at_range [OF assms(2)] failed by fastforce
  show ?thesis using put_inv [OF assms(1,2) in_r failed(2) assms(4)] failed by blast
next
  case (put r new w1 res' c)
  have in_r: "\<forall>k. at v k \<noteq> None \<longrightarrow> contains r k" using at_range [OF assms(2)] put by fastforce
  from insert_rows [OF put(3)] show ?thesis
  proof
    assume "\<forall>i. set (rows c i) = (if i = sc_id scope then insert new (set (rows (w_catalog w) i)) else set (rows (w_catalog w) i))"
    then have "\<forall>i. set (rows c i) = (if i = sc_id scope then insert new {x \<in> set (rows (w_catalog w) i). True} else set (rows (w_catalog w) i))"
      by simp
    from recorded [OF assms(1,2) in_r put(2) assms(4) this] show ?thesis unfolding put(4) by simp
  next
    assume same: "res' \<noteq> Inr () \<and> rows c = rows (w_catalog w)"
    then show ?thesis
      using put_inv [OF assms(1,2) in_r put(2) assms(4)] put_spec(1) [OF assms(1,2) in_r put(2) assms(4)] put(5) by (simp add: put(4))
  qed
qed

subsection \<open>Compaction\<close>

lemma discard_spec:
  "seg_discard env ps w = (n, w') \<Longrightarrow>
     w_catalog w' = w_catalog w \<and> w_made w' = w_made w \<and> (\<forall>q. q \<notin> set ps \<longrightarrow> view (w_bucket w') q = view (w_bucket w) q)"
proof (induction ps arbitrary: w n)
  case (Cons p ps)
  obtain res b where del: "bo_delete (ss_bucket env) p (w_bucket w) = (res, b)" by (rule prod.exhaust)
  obtain m w1 where rest: "seg_discard env ps (w\<lparr>w_bucket := b\<rparr>) = (m, w1)" by (rule prod.exhaust)
  have "w1 = w'" using Cons.prems del rest by (auto split: sum.splits)
  then have "seg_discard env ps (w\<lparr>w_bucket := b\<rparr>) = (m, w')" using rest by simp
  from Cons.IH [OF this] show ?case using bucket_deleteD [OF bucket del] by auto
qed simp

text \<open>Deleting objects no row names.\<close>

lemma unnamed_inv:
  assumes "inv w" "w_catalog w' = w_catalog w" "w_made w' = w_made w"
    and "\<forall>q. q \<notin> D \<longrightarrow> view (w_bucket w') q = view (w_bucket w) q"
    and "\<And>i row. row \<in> set (rows (w_catalog w) i) \<Longrightarrow> wr_body row \<notin> BBucket ` D"
  shows "inv w'" "held w' i k = held w i k"
proof -
  have same: "row_bytes (view (w_bucket w')) row = row_bytes (view (w_bucket w)) row" if "row \<in> set (rows (w_catalog w) i)" for row i
    using assms(4) assms(5) [OF that] by (auto simp: row_bytes_def split: body.split)
  show "inv w'" unfolding assms(2,3) by (rule store_inv_stored [OF assms(1)]) (auto simp: same)
  show "held w' i k = held w i k" unfolding assms(2) by (rule rows_answer_cong) (rule same)
qed

lemma bucket_keys_set: "set (bucket_keys ls) = {p. \<exists>one \<in> set ls. li_body one = BBucket p}"
proof -
  have "(case li_body one of BInline _ \<Rightarrow> None | BBucket p \<Rightarrow> Some p) = Some p \<longleftrightarrow> li_body one = BBucket p" for one :: listed and p
    by (cases "li_body one") auto
  then show ?thesis by (simp add: bucket_keys_def set_map_filter)
qed

text \<open>Two rows of different names are at different keys.\<close>

lemma paths_apart:
  "ok stored row \<Longrightarrow> ok stored' row' \<Longrightarrow> wr_body row = BBucket p \<Longrightarrow> wr_body row' = BBucket p \<Longrightarrow> wr_id row = wr_id row'"
  using ok_path by (metis option.inject)

text \<open>One merge whose inputs were read and whose result was put: recording the result in place of the
  inputs changes no answer.\<close>

lemma merge_value:
  assumes "inv w" "co_bodies (ss_catalog env) scope ids (w_catalog w) = Inr ls" "decode_narrowed env ls EVERYTHING w = Inr vs"
    and "compose (so_join (ss_value env)) vs = Some v"
  shows "valid v" and "at v k =
      rows_answer (ss_value env) merge at (view (w_bucket w)) (filter (\<lambda>x. wr_id x \<in> set ids) (rows (w_catalog w) (sc_id scope))) k"
proof -
  have okR: "\<forall>row \<in> {row \<in> set (rows (w_catalog w) (sc_id scope)). wr_id row \<in> set ids}. ok (view (w_bucket w)) row"
    using store_invD(1) [OF assms(1)] by blast
  note dec = decode_rows [OF bodies_rows [OF assms(2)] okR _ assms(3)]
  show "valid v" by (rule compose_valid [OF dec(1) assms(4)]) simp
  have "at v k = answer merge at vs k" by (rule at_compose [OF dec(1) assms(4)]) simp
  also have "\<dots> = rows_answer (ss_value env) merge at (view (w_bucket w)) (filter (\<lambda>x. wr_id x \<in> set ids) (rows (w_catalog w) (sc_id scope))) k"
    unfolding rows_answer_def by (rule answer_eq) (use dec(3) [of k] in \<open>simp add: set_map_filter\<close>)
  finally show "at v k = \<dots>" .
qed

lemma merge_replaced:
  assumes "inv w" "co_bodies (ss_catalog env) scope ids (w_catalog w) = Inr ls" "decode_narrowed env ls EVERYTHING w = Inr vs"
    and "compose (so_join (ss_value env)) vs = Some v" "\<forall>k. at v k \<noteq> None \<longrightarrow> contains r k"
    and "seg_put env scope r t v w = (Inr new, w1)" "w_made w < ID_SPACE"
    and rows: "\<forall>i. set (rows c i) = (if i = sc_id scope then insert new {x \<in> set (rows (w_catalog w) i). wr_id x \<notin> set ids} else set (rows (w_catalog w) i))"
  shows "inv (w1\<lparr>w_catalog := c\<rparr>)" "held (w1\<lparr>w_catalog := c\<rparr>) i k = held w i k"
    and "row \<in> set (rows c i) \<Longrightarrow> wr_body row \<notin> BBucket ` set (bucket_keys ls)"
proof -
  note v = merge_value [OF assms(1-4)]
  note rec = recorded [OF assms(1) v(1) assms(5,6,7) rows] and put = put_spec [OF assms(1) v(1) assms(5,6,7)]
  show "inv (w1\<lparr>w_catalog := c\<rparr>)" by (rule rec(1))
  show "held (w1\<lparr>w_catalog := c\<rparr>) i k = held w i k"
    using rec(2,3) v(2) rows_answer_split [of "view (w_bucket w)" "rows (w_catalog w) (sc_id scope)" k "\<lambda>x. wr_id x \<in> set ids"]
    by (cases "i = sc_id scope") simp_all
  show "wr_body row \<notin> BBucket ` set (bucket_keys ls)" if row: "row \<in> set (rows c i)" for row i
  proof
    assume "wr_body row \<in> BBucket ` set (bucket_keys ls)"
    then obtain p old where p: "wr_body row = BBucket p" and
      old: "old \<in> set (rows (w_catalog w) (sc_id scope))" "wr_id old \<in> set ids" "wr_body old = BBucket p"
      by (auto simp: bucket_keys_set bodies_rows [OF assms(2)] row_listed_def)
    have "ok (view (w_bucket w1)) row" using store_invD(1) [OF rec(1), of row i] row by simp
    from paths_apart [OF this store_invD(1) [OF assms(1) old(1)] p old(3)] have id: "wr_id row = wr_id old" .
    obtain m where "m < w_made w" "wr_id old = ss_fresh env m" using store_invD(2) [OF assms(1) old(1)] by blast
    then have "row \<noteq> new" using id put(4) [OF refl] next_fresh [OF assms(7), of m] by auto
    then have "row \<in> set (rows (w_catalog w) i)" "i = sc_id scope \<longrightarrow> wr_id row \<notin> set ids" using row rows by (auto split: if_splits)
    then show False using store_invD(3) [OF assms(1), of row i old] id old(1,2) by auto
  qed
qed

lemma compact_merge_cases:
  assumes "compact_merge env scope entries m (report, w) = (res, w')"
  obtains (idle) "w' = w"
    | (put) ids ls vs v res1 w1 where "co_bodies (ss_catalog env) scope ids (w_catalog w) = Inr ls" "decode_narrowed env ls EVERYTHING w = Inr vs"
      "compose (so_join (ss_value env)) vs = Some v"
      "seg_put env scope (case so_range (ss_value env) v of None \<Rightarrow> mg_range m | Some r \<Rightarrow> r) (mg_tier m) v w = (res1, w1)"
      "w' = (case res1 of Inl _ \<Rightarrow> w1 | Inr new \<Rightarrow> (case co_replace (ss_catalog env) scope ids new (w_catalog w1) of
         (Inl _, c) \<Rightarrow> w1\<lparr>w_catalog := c\<rparr> | (Inr _, c) \<Rightarrow> snd (seg_discard env (bucket_keys ls) (w1\<lparr>w_catalog := c\<rparr>))))"
proof -
  let ?ids = "map ce_id (List.map_filter (get_at entries) (mg_inputs m))"
  consider "w' = w"
    | ls vs v where "\<not> length ?ids < 2" "co_bodies (ss_catalog env) scope ?ids (w_catalog w) = Inr ls" "decode_narrowed env ls EVERYTHING w = Inr vs"
      "compose (so_join (ss_value env)) vs = Some v"
    using assms by (auto simp: compact_merge_def Let_def split: if_splits sum.splits option.splits)
  then show thesis
  proof cases
    case (2 ls vs v)
    obtain res1 w1 where put: "seg_put env scope (case so_range (ss_value env) v of None \<Rightarrow> mg_range m | Some r \<Rightarrow> r) (mg_tier m) v w = (res1, w1)"
      by (rule prod.exhaust)
    show thesis
      by (rule that(2) [OF 2(2-4) put])
        (use assms 2 put in \<open>auto simp: compact_merge_def Let_def split: sum.splits prod.splits\<close>)
  qed (rule idle)
qed

lemma put_made: "seg_put env scope r t v w = (res, w') \<Longrightarrow> w_made w' = Suc (w_made w)"
  by (auto simp: seg_put_def Let_def split: residence.splits prod.splits sum.splits)

lemma compact_merge_made:
  assumes "seg_put env scope r t v w = (res1, w1)"
    and "w' = (case res1 of Inl _ \<Rightarrow> w1 | Inr new \<Rightarrow> (case co_replace (ss_catalog env) scope ids new (w_catalog w1) of
         (Inl _, c) \<Rightarrow> w1\<lparr>w_catalog := c\<rparr> | (Inr _, c) \<Rightarrow> snd (seg_discard env (bucket_keys ls) (w1\<lparr>w_catalog := c\<rparr>))))"
  shows "w_made w' = Suc (w_made w)"
  using put_made [OF assms(1)] assms(2) discard_spec
  by (auto split: sum.splits prod.splits) (metis prod.collapse discard_spec world.select_convs(3) world.surjective world.update_convs(1))

lemma compact_merge_spec:
  assumes "inv w" "compact_merge env scope entries m (report, w) = (res, w')" "w_made w' \<le> ID_SPACE"
  shows "inv w' \<and> held w' i k = held w i k"
  using assms(2)
proof (cases rule: compact_merge_cases)
  case (put ids ls vs v res1 w1)
  let ?r = "case so_range (ss_value env) v of None \<Rightarrow> mg_range m | Some r \<Rightarrow> r"
  have valid: "valid v" by (rule merge_value(1) [OF assms(1) put(1-3)])
  have in_r: "\<forall>k. at v k \<noteq> None \<longrightarrow> contains ?r k" using at_range [OF valid] by fastforce
  have few: "w_made w < ID_SPACE" using compact_merge_made [OF put(4,5)] assms(3) by simp
  note same = put_inv [OF assms(1) valid in_r put(4) few] and cat = put_spec(1) [OF assms(1) valid in_r put(4) few]
  show ?thesis
  proof (cases res1)
    case (Inl e)
    then show ?thesis using put(5) same by simp
  next
    case (Inr new)
    obtain res2 c where rep: "co_replace (ss_catalog env) scope ids new (w_catalog w) = (res2, c)" by (rule prod.exhaust)
    obtain n w2 where del: "seg_discard env (bucket_keys ls) (w1\<lparr>w_catalog := c\<rparr>) = (n, w2)" by (rule prod.exhaust)
    have w': "w' = (case res2 of Inl e \<Rightarrow> w1\<lparr>w_catalog := c\<rparr> | Inr _ \<Rightarrow> w2)"
      using put(5) Inr rep del cat by (cases res2) auto
    from replace_rows [OF rep] show ?thesis
    proof
      assume rows: "\<forall>i. set (rows c i) = (if i = sc_id scope then insert new {x \<in> set (rows (w_catalog w) i). wr_id x \<notin> set ids} else set (rows (w_catalog w) i))"
      note merged = merge_replaced [OF assms(1) put(1-3) in_r put(4) [unfolded Inr] few rows]
      have "inv w2 \<and> held w2 i k = held (w1\<lparr>w_catalog := c\<rparr>) i k"
        using unnamed_inv [OF merged(1), of w2 "set (bucket_keys ls)"] discard_spec [OF del] merged(3) by simp
      then show ?thesis using merged w' by (cases res2) simp_all
    next
      assume "res2 \<noteq> Inr () \<and> rows c = rows (w_catalog w)"
      then show ?thesis using same cat w' by (cases res2) simp_all
    qed
  qed
qed (use assms(1) in simp)

lemma compact_merges_made:
  "compact_merges env scope entries ms (report, w) = (res, w') \<Longrightarrow> w_made w \<le> w_made w' \<and> w_made w' \<le> w_made w + length ms"
proof (induction ms arbitrary: report w)
  case (Cons m ms)
  obtain res1 w1 where one: "compact_merge env scope entries m (report, w) = (res1, w1)" by (rule prod.exhaust)
  have "w_made w \<le> w_made w1 \<and> w_made w1 \<le> Suc (w_made w)"
    using one by (cases rule: compact_merge_cases) (auto dest: compact_merge_made)
  moreover have "w_made w1 \<le> w_made w' \<and> w_made w' \<le> w_made w1 + length ms"
    using Cons.prems one Cons.IH [of _ w1] by (cases res1) auto
  ultimately show ?case by simp
qed auto

lemma compact_merges_spec:
  "inv w \<Longrightarrow> compact_merges env scope entries ms (report, w) = (res, w') \<Longrightarrow> w_made w' \<le> ID_SPACE \<Longrightarrow>
     inv w' \<and> held w' i k = held w i k"
proof (induction ms arbitrary: report w)
  case (Cons m ms)
  obtain res1 w1 where one: "compact_merge env scope entries m (report, w) = (res1, w1)" by (rule prod.exhaust)
  show ?case
  proof (cases res1)
    case (Inl e)
    then show ?thesis using Cons.prems one compact_merge_spec [OF Cons.prems(1) one] by simp
  next
    case (Inr report')
    then have rest: "compact_merges env scope entries ms (report', w1) = (res, w')" using Cons.prems(2) one by simp
    then have "w_made w1 \<le> ID_SPACE" using compact_merges_made [OF rest] Cons.prems(3) by simp
    then show ?thesis using Cons.IH [OF _ rest Cons.prems(3)] compact_merge_spec [OF Cons.prems(1) one] by simp
  qed
qed auto

text \<open>A pass that ran whole, or stopped part way on any failure, changes no answer.\<close>

lemma compact_spec:
  assumes "inv w" "seg_compact env scope w = (res, w')"
    and "\<forall>es. co_entries (ss_catalog env) scope (w_catalog w) = Inr es \<longrightarrow> w_made w + length es \<le> ID_SPACE"
  shows "inv w' \<and> held w' i k = held w i k"
proof (cases "co_entries (ss_catalog env) scope (w_catalog w)")
  case (Inl e)
  then show ?thesis using assms(1,2) by (simp add: seg_compact_def)
next
  case (Inr es)
  then have run: "compact_merges env scope es (plan (map entry_placement es) (ss_policy env)) (report_default, w) = (res, w')"
    using assms(2) by (simp add: seg_compact_def)
  have "w_made w' \<le> ID_SPACE"
    using compact_merges_made [OF run] length_plan [of "map entry_placement es" "ss_policy env"] assms(3) Inr by fastforce
  then show ?thesis by (rule compact_merges_spec [OF assms(1) run])
qed

subsection \<open>Sweeping\<close>

lemma sweep_loop_spec:
  "sweep_loop env dry os (sp, w) = (sp', w') \<Longrightarrow>
     w_catalog w' = w_catalog w \<and> w_made w' = w_made w \<and> (dry \<longrightarrow> w' = w) \<and>
     (\<forall>q. q \<notin> fo_path ` set os \<longrightarrow> view (w_bucket w') q = view (w_bucket w) q)"
proof (induction os arbitrary: sp w)
  case (Cons f os)
  obtain res b where del: "bo_delete (ss_bucket env) (fo_path f) (w_bucket w) = (res, b)" by (rule prod.exhaust)
  have "\<exists>sp1. sweep_loop env dry os (sp1, if dry then w else w\<lparr>w_bucket := b\<rparr>) = (sp', w')"
    using Cons.prems del by (cases dry; cases res) (auto simp: Let_def)
  with Cons.IH show ?case using bucket_deleteD [OF bucket del] by (cases dry) fastforce+
qed simp

text \<open>A sweep deletes only objects under its scope's prefix that are named as a segment is, that no row
  of the scope names and that are older than the grace window; a dry run deletes nothing.\<close>

lemma sweep_deletes:
  assumes "sweep_bucket env scope sw w = (res, w')"
  shows "w_catalog w' = w_catalog w \<and> w_made w' = w_made w \<and> (sw_dry_run sw \<longrightarrow> w' = w) \<and>
    (view (w_bucket w') q \<noteq> view (w_bucket w) q \<longrightarrow>
       orphan (ss_ulid env) (sc_prefix scope) (wr_id ` set (rows (w_catalog w) (sc_id scope))) sw q)"
proof -
  consider "w' = w" | found entries sp where "seg_list env scope w = Inr found" "co_entries (ss_catalog env) scope (w_catalog w) = Inr entries"
      "sweep_loop env (sw_dry_run sw) (orphans_of (ss_ulid env) found (set (map ce_id entries)) sw)
         (\<lparr>sp_scanned = u64_len found, sp_orphans = 0, sp_bytes = 0\<rparr>, w) = (sp, w')"
    using assms by (auto simp: sweep_bucket_def split: sum.splits prod.splits)
  then show ?thesis
  proof cases
    case (2 found entries sp)
    have named: "set (map ce_id entries) = wr_id ` set (rows (w_catalog w) (sc_id scope))"
      by (simp add: entries_rows [OF 2(2)] image_image row_entry_def)
    note loop = sweep_loop_spec [OF 2(3)]
    have "orphan (ss_ulid env) (sc_prefix scope) (wr_id ` set (rows (w_catalog w) (sc_id scope))) sw (fo_path f)"
      if "f \<in> set (orphans_of (ss_ulid env) found (set (map ce_id entries)) sw)" for f
      using orphans_of_orphan [OF 2(1) [unfolded seg_list_def] bucket_listD [OF bucket] that] unfolding named by simp
    then show ?thesis using loop by (metis (no_types, lifting) imageE)
  qed simp
qed

lemma sweep_spec:
  assumes "inv w" "sweep_bucket env scope sw w = (res, w')"
    and apart: "\<forall>i p. \<forall>row \<in> set (rows (w_catalog w) i). i \<noteq> sc_id scope \<longrightarrow> wr_body row = BBucket p \<longrightarrow>
      take (length (sc_prefix scope)) p \<noteq> sc_prefix scope"
  shows "inv w' \<and> held w' i k = held w i k"
proof -
  let ?D = "Collect (orphan (ss_ulid env) (sc_prefix scope) (wr_id ` set (rows (w_catalog w) (sc_id scope))) sw)"
  note del = sweep_deletes [OF assms(2)]
  have "wr_body row \<notin> BBucket ` ?D" if row: "row \<in> set (rows (w_catalog w) i)" for row i
  proof
    assume "wr_body row \<in> BBucket ` ?D"
    then obtain q where q: "wr_body row = BBucket q" "q \<in> ?D" by blast
    with apart row have "i = sc_id scope" by (auto simp: orphan_def)
    then show False using ok_path [OF store_invD(1) [OF assms(1) row] q(1)] q(2) row by (auto simp: orphan_def)
  qed
  moreover have "w_catalog w' = w_catalog w" "w_made w' = w_made w" "\<forall>q. q \<notin> ?D \<longrightarrow> view (w_bucket w') q = view (w_bucket w) q"
    using del by blast+
  ultimately show ?thesis using unnamed_inv [OF assms(1), of w' ?D] by blast
qed

end

end
