(* ===== verification/Strided.thy ===== *)
theory Strided
  imports Lattice_Key Lattice_Join "HOL-Library.Option_ord"
begin

text \<open>
  The slot-per-seq array of \<open>git/graph-store/src/strided.rs\<close> that both commit tiers are built on:
  lookup by arithmetic, trimming, laying a map of nodes out, and the join. A seq is an \<open>i64\<close>, modelled
  as an integer with the saturation of the source written out; a \<open>BTreeMap<i64, N>\<close> is an association
  list in strictly increasing key order. The order on slots is the one the source derives: a hole is
  below every node.
\<close>

section \<open>The array\<close>

record 'n strided =
  st_first :: int
  st_slots :: "'n option list"

definition st_default :: "'n strided" where
  "st_default = \<lparr>st_first = 0, st_slots = []\<rparr>"

definition seq_offset :: "int \<Rightarrow> int \<Rightarrow> nat" where
  "seq_offset first seq = (let d = sat_i64 (seq - first) in if d < 0 then usize_max else nat d)"

definition span_of :: "int \<Rightarrow> int \<Rightarrow> nat" where
  "span_of first last' = nat (sat_i64 (sat_i64 (last' - first) + 1))"

definition holes :: "nat \<Rightarrow> 'n option list" where
  "holes n = replicate n None"

definition st_get :: "'n strided \<Rightarrow> int \<Rightarrow> 'n option" where
  "st_get s seq =
     (if seq < st_first s then None
      else case get_at (st_slots s) (seq_offset (st_first s) seq) of None \<Rightarrow> None | Some slot \<Rightarrow> slot)"

text \<open>\<open>position\<close> and \<open>rposition\<close> of \<open>Option::is_some\<close>.\<close>

definition position_some :: "'n option list \<Rightarrow> nat option" where
  "position_some slots =
     (let n = length (takeWhile (\<lambda>x. x = None) slots) in if n < length slots then Some n else None)"

definition rposition_some :: "'n option list \<Rightarrow> nat option" where
  "rposition_some slots = map_option (\<lambda>n. length slots - 1 - n) (position_some (rev slots))"

definition st_last :: "'n strided \<Rightarrow> int option" where
  "st_last s = (case rposition_some (st_slots s) of None \<Rightarrow> None
     | Some at \<Rightarrow> if int at \<le> i64_max then Some (sat_i64 (st_first s + int at)) else None)"

definition st_is_empty :: "'n strided \<Rightarrow> bool" where
  "st_is_empty s \<longleftrightarrow> st_last s = None"

definition st_iter :: "'n strided \<Rightarrow> (int \<times> 'n) list" where
  "st_iter s = List.map_filter
     (\<lambda>(at, slot). if int at \<le> i64_max
        then map_option (\<lambda>node. (sat_i64 (st_first s + int at), node)) slot else None)
     (enumerate 0 (st_slots s))"

text \<open>\<open>u64::try_from(i64)\<close>.\<close>

definition try_u64 :: "int \<Rightarrow> u64 option" where
  "try_u64 x = (if 0 \<le> x \<and> x < 2 ^ 64 then Some (of_int x) else None)"

definition st_range :: "'n strided \<Rightarrow> key_range option" where
  "st_range s = (case st_last s of None \<Rightarrow> None
     | Some last' \<Rightarrow> (case (try_u64 (st_first s), try_u64 last') of
         (Some first, Some last') \<Rightarrow>
           (case key_range_new first last' of Inr r \<Rightarrow> Some r | Inl _ \<Rightarrow> None)
       | _ \<Rightarrow> None))"

definition st_trimmed :: "int \<Rightarrow> 'n option list \<Rightarrow> 'n strided" where
  "st_trimmed first slots = (case position_some slots of None \<Rightarrow> st_default
     | Some lowest \<Rightarrow>
         let highest = (case rposition_some slots of None \<Rightarrow> lowest | Some h \<Rightarrow> h) in
         \<lparr>st_first = sat_i64 (first + (if int lowest \<le> i64_max then int lowest else 0)),
          st_slots = drop lowest (take (highest + 1) slots)\<rparr>)"

definition lay_slot :: "int \<Rightarrow> 'n option list \<Rightarrow> int \<times> 'n \<Rightarrow> 'n option list" where
  "lay_slot first slots e =
     (let at = seq_offset first (fst e) in if at < length slots then slots[at := Some (snd e)] else slots)"

definition laid_out :: "(int \<times> 'n) list \<Rightarrow> 'n strided" where
  "laid_out nodes =
     (if nodes = [] then st_default
      else let first = fst (hd nodes); last' = fst (last nodes)
           in st_trimmed first (foldl (lay_slot first) (holes (span_of first last')) nodes))"

text \<open>One iteration of \<open>absorb\<close>: the node at index \<open>at\<close> of the source.\<close>

definition absorb_slot ::
    "int \<Rightarrow> int \<Rightarrow> 'n::linorder option list \<Rightarrow> nat \<times> 'n option \<Rightarrow> 'n option list" where
  "absorb_slot first from slots e = (case e of
     (at, None) \<Rightarrow> slots
   | (at, Some node) \<Rightarrow>
       if int at \<le> i64_max then
         (let i = seq_offset first (sat_i64 (from + int at)) in
          if i < length slots \<and> (case slots ! i of None \<Rightarrow> True | Some held \<Rightarrow> held < node)
          then slots[i := Some node] else slots)
       else slots)"

definition absorb :: "'n::linorder strided \<Rightarrow> int \<Rightarrow> 'n option list \<Rightarrow> 'n option list" where
  "absorb source first slots =
     foldl (absorb_slot first (st_first source)) slots (enumerate 0 (st_slots source))"

definition joined :: "'n::linorder strided \<Rightarrow> 'n strided \<Rightarrow> 'n strided" where
  "joined self other =
     (if st_is_empty other then self
      else if st_is_empty self then other
      else case (st_last self, st_last other) of
        (Some mine, Some theirs) \<Rightarrow>
          let first = min (st_first self) (st_first other);
              slots = holes (span_of first (max mine theirs))
          in st_trimmed first (absorb other first (absorb self first slots))
      | _ \<Rightarrow> self)"

section \<open>Well-formed arrays\<close>

text \<open>Both ends occupied, the empty array in its one form, and every seq a non-negative \<open>i64\<close>.\<close>

definition st_ok :: "'n strided \<Rightarrow> bool" where
  "st_ok s \<longleftrightarrow>
     (if st_slots s = [] then st_first s = 0
      else hd (st_slots s) \<noteq> None \<and> last (st_slots s) \<noteq> None \<and> 0 \<le> st_first s \<and>
        st_first s + int (length (st_slots s)) \<le> i64_max)"

text \<open>The slots as a function of the seq, without the array.\<close>

definition slot_at :: "int \<Rightarrow> 'n option list \<Rightarrow> int \<Rightarrow> 'n option" where
  "slot_at first slots seq =
     (if first \<le> seq \<and> seq < first + int (length slots) then slots ! nat (seq - first) else None)"

lemma st_default_ok [simp]: "st_ok st_default"
  by (simp add: st_ok_def st_default_def)

lemma seq_offset_in:
  "0 \<le> first \<Longrightarrow> first \<le> seq \<Longrightarrow> seq \<le> i64_max \<Longrightarrow> seq_offset first seq = nat (seq - first)"
  by (simp add: seq_offset_def i64_min_def i64_max_def)

lemma st_get_slot_at:
  assumes "0 \<le> st_first s" "st_first s + int (length (st_slots s)) \<le> i64_max"
  shows "st_get s seq = slot_at (st_first s) (st_slots s) seq"
proof (cases "seq < st_first s")
  case True
  then show ?thesis by (simp add: st_get_def slot_at_def)
next
  case False
  have "seq_offset (st_first s) seq < length (st_slots s) \<longleftrightarrow> seq < st_first s + int (length (st_slots s))"
    using False assms by (auto simp: seq_offset_def Let_def sat_i64_def i64_min_def i64_max_def)
  moreover have "seq_offset (st_first s) seq = nat (seq - st_first s)"
    if "seq < st_first s + int (length (st_slots s))"
    using that False assms by (intro seq_offset_in) auto
  ultimately show ?thesis using False by (auto simp: st_get_def slot_at_def get_at_def)
qed

lemma st_get_ok: "st_ok s \<Longrightarrow> st_get s seq = slot_at (st_first s) (st_slots s) seq"
  by (cases "st_slots s = []")
    (auto simp: st_ok_def st_get_slot_at, simp add: st_get_def slot_at_def get_at_def)

lemma position_some_Some:
  "position_some slots = Some n \<longleftrightarrow> n < length slots \<and> slots ! n \<noteq> None \<and> (\<forall>i < n. slots ! i = None)"
proof -
  let ?k = "length (takeWhile (\<lambda>x. x = None) slots)"
  have before: "slots ! i = None" if "i < ?k" for i
    using that nth_mem [OF that] set_takeWhileD takeWhile_nth by metis
  have here: "slots ! ?k \<noteq> None" if "?k < length slots"
    using nth_length_takeWhile [OF that] by simp
  show ?thesis
  proof
    assume "position_some slots = Some n"
    then have "n = ?k" "?k < length slots" by (auto simp: position_some_def Let_def split: if_splits)
    with before here show "n < length slots \<and> slots ! n \<noteq> None \<and> (\<forall>i < n. slots ! i = None)" by auto
  next
    assume n: "n < length slots \<and> slots ! n \<noteq> None \<and> (\<forall>i < n. slots ! i = None)"
    have "?k \<le> n" using before n by (meson not_le)
    moreover have "n \<le> ?k" using here n by (meson le_less_linear order.strict_trans)
    ultimately show "position_some slots = Some n" using n by (simp add: position_some_def Let_def)
  qed
qed

lemma takeWhile_stops: "length (takeWhile P xs) < length xs \<longleftrightarrow> (\<exists>x \<in> set xs. \<not> P x)"
  by (induction xs) auto

lemma position_some_None: "position_some slots = None \<longleftrightarrow> set slots \<subseteq> {None}"
  by (auto simp: position_some_def Let_def takeWhile_stops)

lemma rposition_some_Some:
  "rposition_some slots = Some n \<longleftrightarrow>
     n < length slots \<and> slots ! n \<noteq> None \<and> (\<forall>i. n < i \<and> i < length slots \<longrightarrow> slots ! i = None)"
    (is "_ \<longleftrightarrow> ?R")
proof
  assume "rposition_some slots = Some n"
  then obtain m where m: "position_some (rev slots) = Some m" "n = length slots - 1 - m"
    by (auto simp: rposition_some_def)
  have "slots ! i = None" if "n < i" "i < length slots" for i
  proof -
    have "length slots - 1 - i < m" using that m by (auto simp: position_some_Some)
    with m that show ?thesis by (fastforce simp: position_some_Some rev_nth)
  qed
  with m show ?R by (auto simp: position_some_Some rev_nth)
next
  assume R: ?R
  have "rev slots ! i = None" if "i < length slots - 1 - n" for i
  proof -
    have "n < length slots - Suc i \<and> length slots - Suc i < length slots" using that by linarith
    with R that show ?thesis by (simp add: rev_nth)
  qed
  with R have "position_some (rev slots) = Some (length slots - 1 - n)"
    by (auto simp: position_some_Some rev_nth)
  with R show "rposition_some slots = Some n" by (simp add: rposition_some_def)
qed

lemma rposition_some_None: "rposition_some slots = None \<longleftrightarrow> set slots \<subseteq> {None}"
  by (simp add: rposition_some_def position_some_None)

lemma rposition_last: "slots \<noteq> [] \<Longrightarrow> last slots \<noteq> None \<Longrightarrow> rposition_some slots = Some (length slots - 1)"
  by (auto simp: rposition_some_Some last_conv_nth)

lemma st_last_ok:
  assumes "st_ok s"
  shows "st_last s = (if st_slots s = [] then None else Some (st_first s + int (length (st_slots s)) - 1))"
proof (cases "st_slots s = []")
  case True
  then show ?thesis by (simp add: st_last_def rposition_some_def position_some_def)
next
  case False
  then have "1 \<le> length (st_slots s)" by (simp add: Suc_le_eq)
  with False assms show ?thesis
    by (auto simp: st_ok_def st_last_def rposition_last i64_min_def i64_max_def of_nat_diff sat_i64_def)
qed

lemma st_is_empty_ok [simp]: "st_ok s \<Longrightarrow> st_is_empty s \<longleftrightarrow> st_slots s = []"
  by (simp add: st_is_empty_def st_last_ok)

section \<open>Trimming\<close>

lemma st_trimmed_spec:
  assumes "0 \<le> first" "first + int (length slots) \<le> i64_max"
  shows "st_ok (st_trimmed first slots)" "st_get (st_trimmed first slots) seq = slot_at first slots seq"
proof -
  have "st_ok (st_trimmed first slots) \<and>
    slot_at (st_first (st_trimmed first slots)) (st_slots (st_trimmed first slots)) seq = slot_at first slots seq"
  proof (cases "position_some slots")
    case None
    then have "\<And>i. i < length slots \<Longrightarrow> slots ! i = None"
      using nth_mem by (fastforce simp: position_some_None)
    with None show ?thesis by (auto simp: st_trimmed_def slot_at_def st_default_def st_ok_def)
  next
    case (Some lo)
    then obtain hi where hi: "rposition_some slots = Some hi"
      by (metis option.distinct(1) option.exhaust position_some_None rposition_some_None)
    note l = Some [unfolded position_some_Some] and h = hi [unfolded rposition_some_Some]
    have lh: "lo \<le> hi" using l h by (meson not_le)
    define body where "body = drop lo (take (hi + 1) slots)"
    have len: "length body = hi + 1 - lo" using h by (simp add: body_def)
    have nth: "body ! i = slots ! (lo + i)" if "i < length body" for i
      using that h len by (simp add: body_def)
    have st: "st_trimmed first slots = \<lparr>st_first = first + int lo, st_slots = body\<rparr>"
      using Some hi l h lh assms by (auto simp: st_trimmed_def Let_def body_def i64_min_def i64_max_def sat_i64_def)
    have ne: "body \<noteq> []" using len lh by auto
    then have "hd body \<noteq> None" "last body \<noteq> None"
      using l h len lh by (simp_all add: hd_conv_nth last_conv_nth nth)
    moreover have "slot_at (first + int lo) body seq = slot_at first slots seq"
    proof (cases "first + int lo \<le> seq \<and> seq \<le> first + int hi")
      case True
      then have "nat (seq - (first + int lo)) < length body" using len by linarith
      moreover have "lo + nat (seq - (first + int lo)) = nat (seq - first)" using True by linarith
      ultimately show ?thesis using True l h lh len nth by (auto simp: slot_at_def)
    next
      case False
      moreover have "slots ! nat (seq - first) = None" if "first \<le> seq" "seq < first + int (length slots)"
        using False that l h by (cases "seq < first + int lo") (auto simp: nat_less_iff)
      ultimately show ?thesis using len lh by (auto simp: slot_at_def)
    qed
    ultimately show ?thesis using st ne len h lh assms by (auto simp: st_ok_def)
  qed
  then show "st_ok (st_trimmed first slots)" "st_get (st_trimmed first slots) seq = slot_at first slots seq"
    by (simp_all add: st_get_ok)
qed

section \<open>A well-formed array is its lookup function\<close>

lemma slot_at_ends:
  assumes "slots \<noteq> []" "hd slots \<noteq> None" "last slots \<noteq> None"
  shows "slot_at first slots first \<noteq> None"
    and "slot_at first slots (first + int (length slots) - 1) \<noteq> None"
    and "slot_at first slots seq \<noteq> None \<Longrightarrow> first \<le> seq \<and> seq \<le> first + int (length slots) - 1"
proof -
  have "1 \<le> length slots" using assms(1) by (simp add: Suc_le_eq)
  moreover from this have "nat (int (length slots) - 1) = length slots - 1" by linarith
  ultimately show "slot_at first slots first \<noteq> None"
    "slot_at first slots (first + int (length slots) - 1) \<noteq> None"
    using assms by (auto simp: slot_at_def hd_conv_nth last_conv_nth)
  show "slot_at first slots seq \<noteq> None \<Longrightarrow> first \<le> seq \<and> seq \<le> first + int (length slots) - 1"
    by (auto simp: slot_at_def split: if_splits)
qed

lemma st_ok_nonempty_get:
  assumes "st_ok s" "st_slots s \<noteq> []"
  shows "st_get s (st_first s) \<noteq> None" "st_get s (st_first s + int (length (st_slots s)) - 1) \<noteq> None"
    and "st_get s seq \<noteq> None \<Longrightarrow> st_first s \<le> seq \<and> seq \<le> st_first s + int (length (st_slots s)) - 1"
  using assms slot_at_ends [of "st_slots s" "st_first s"] by (auto simp: st_get_ok) (auto simp: st_ok_def)

lemma st_get_empty: "st_slots s = [] \<Longrightarrow> st_get s seq = None"
  by (simp add: st_get_def get_at_def)

lemma strided_ext:
  assumes "st_ok a" "st_ok b" "\<And>seq. st_get a seq = st_get b seq"
  shows "a = (b :: 'n strided)"
proof (cases "st_slots a = [] \<or> st_slots b = []")
  case True
  then have "st_slots a = [] \<and> st_slots b = []"
    using st_ok_nonempty_get(1) [OF assms(1)] st_ok_nonempty_get(1) [OF assms(2)] assms(3)
    by (metis st_get_empty)
  with assms(1,2) show ?thesis by (simp add: st_ok_def)
next
  case False
  note na = st_ok_nonempty_get [OF assms(1)] and nb = st_ok_nonempty_get [OF assms(2)]
  have first: "st_first a = st_first b"
    using False na nb assms(3) by (metis order_antisym)
  have "st_first a + int (length (st_slots a)) - 1 = st_first b + int (length (st_slots b)) - 1"
    using False na nb assms(3) by (metis order_antisym)
  with first have len: "length (st_slots a) = length (st_slots b)" by simp
  have "st_slots a ! i = st_slots b ! i" if "i < length (st_slots a)" for i
    using assms(3) [of "st_first a + int i"] that first len
    by (simp add: st_get_ok assms(1,2) slot_at_def)
  with len have "st_slots a = st_slots b" by (simp add: list_eq_iff_nth_eq)
  with first show ?thesis by simp
qed

section \<open>Joining\<close>

lemma slot_at_Nil [simp]: "slot_at first [] seq = None"
  by (auto simp: slot_at_def)

lemma max_option_simps [simp]:
  "max None x = (x :: 'n::linorder option)" "max x None = x" "max (Some a) (Some b) = Some (max a b)"
  by (auto simp: max_def less_eq_option_def split: option.splits)

lemma length_absorb_slot [simp]: "length (absorb_slot first from slots e) = length slots"
  by (auto simp: absorb_slot_def Let_def split: prod.split option.split)

lemma absorb_slot_nth:
  assumes "0 \<le> first" "first \<le> from" "from + int at < first + int (length slots)"
    "first + int (length slots) \<le> i64_max" "i < length slots"
  shows "absorb_slot first from slots (at, x) ! i =
    (if first + int i = from + int at then max (slots ! i) x else slots ! i)"
proof (cases x)
  case None
  then show ?thesis by (simp add: absorb_slot_def)
next
  case (Some node)
  let ?k = "nat (from + int at - first)"
  have k: "seq_offset first (sat_i64 (from + int at)) = ?k"
    using assms by (simp add: seq_offset_def sat_i64_def i64_min_def i64_max_def)
  have k': "?k < length slots" "int at \<le> i64_max" using assms by auto
  have "first + int i = from + int at \<longleftrightarrow> i = ?k" using assms by auto
  with k k' Some assms(5) show ?thesis
    by (cases "slots ! ?k") (auto simp: absorb_slot_def Let_def max_def)
qed

lemma foldl_absorb_nth:
  assumes "0 \<le> first" "first \<le> from" "first + int (length slots) \<le> i64_max"
    "from + int (n + length xs) \<le> first + int (length slots)" "i < length slots"
  shows "foldl (absorb_slot first from) slots (enumerate n xs) ! i =
    max (slots ! i) (slot_at (from + int n) xs (first + int i))"
  using assms
proof (induction xs arbitrary: n slots)
  case Nil
  then show ?case by simp
next
  case (Cons x xs)
  let ?s = "absorb_slot first from slots (n, x)"
  have "foldl (absorb_slot first from) ?s (enumerate (Suc n) xs) ! i =
      max (?s ! i) (slot_at (from + int (Suc n)) xs (first + int i))"
    using Cons.prems by (intro Cons.IH) auto
  moreover have "?s ! i = (if first + int i = from + int n then max (slots ! i) x else slots ! i)"
    using Cons.prems by (intro absorb_slot_nth) auto
  moreover have "slot_at (from + int n) (x # xs) (first + int i) =
      (if first + int i = from + int n then x else slot_at (from + int (Suc n)) xs (first + int i))"
  proof -
    have "nat (first + int i - (from + int n)) = Suc (nat (first + int i - (from + int (Suc n))))"
      if "from + int n < first + int i" using that by linarith
    then show ?thesis by (auto simp: slot_at_def)
  qed
  ultimately show ?case by (auto simp: slot_at_def)
qed

lemma length_absorb [simp]: "length (absorb src first slots) = length slots"
proof -
  have "length (foldl (absorb_slot first from) slots es) = length slots" for "from" es
    by (induction es arbitrary: slots) auto
  then show ?thesis by (simp add: absorb_def)
qed

lemma slot_at_absorb:
  assumes "st_ok src" "0 \<le> first" "first \<le> st_first src" "first + int (length slots) \<le> i64_max"
    "st_first src + int (length (st_slots src)) \<le> first + int (length slots)"
  shows "slot_at first (absorb src first slots) seq = max (slot_at first slots seq) (st_get src seq)"
proof (cases "first \<le> seq \<and> seq < first + int (length slots)")
  case True
  then have "absorb src first slots ! nat (seq - first) =
      max (slots ! nat (seq - first)) (slot_at (st_first src + int 0) (st_slots src) (first + int (nat (seq - first))))"
    unfolding absorb_def using assms by (intro foldl_absorb_nth) auto
  with True assms(1) show ?thesis by (simp add: slot_at_def [of first] st_get_ok)
next
  case False
  then have "st_get src seq = None" using assms by (auto simp: st_get_ok slot_at_def)
  with False show ?thesis by (auto simp: slot_at_def)
qed

lemma joined_spec:
  assumes "st_ok a" "st_ok b"
  shows "st_ok (joined a b)" "st_get (joined a b) seq = max (st_get a seq) (st_get b seq)"
proof -
  have "st_ok (joined a b) \<and> st_get (joined a b) seq = max (st_get a seq) (st_get b seq)"
  proof (cases "st_slots a = [] \<or> st_slots b = []")
    case True
    then show ?thesis using assms by (auto simp: joined_def st_get_empty)
  next
    case False
    define first where "first = min (st_first a) (st_first b)"
    define top where "top = max (st_first a + int (length (st_slots a)) - 1) (st_first b + int (length (st_slots b)) - 1)"
    have bounds: "0 \<le> first" "first \<le> top" "top < i64_max"
      using assms False by (auto simp: first_def top_def st_ok_def Suc_le_eq neq_Nil_conv)
    then have span: "int (span_of first top) = top - first + 1"
      by (simp add: span_of_def sat_i64_def i64_min_def i64_max_def)
    define h :: "'a option list" where "h = holes (span_of first top)"
    have h: "length h = span_of first top" "slot_at first h seq = None"
      by (auto simp: h_def holes_def slot_at_def)
    have fits: "first \<le> st_first a" "first \<le> st_first b"
        "st_first a + int (length (st_slots a)) \<le> first + int (length h)"
        "st_first b + int (length (st_slots b)) \<le> first + int (length h)"
        "first + int (length h) \<le> i64_max"
      using bounds span by (auto simp: h first_def top_def)
    have "joined a b = st_trimmed first (absorb b first (absorb a first h))"
      using False assms by (simp add: joined_def st_last_ok Let_def first_def top_def h_def)
    moreover have "slot_at first (absorb b first (absorb a first h)) seq = max (st_get a seq) (st_get b seq)"
      using fits bounds assms by (simp add: slot_at_absorb h)
    ultimately show ?thesis using st_trimmed_spec [OF bounds(1), of "absorb b first (absorb a first h)"] fits
      by simp
  qed
  then show "st_ok (joined a b)" "st_get (joined a b) seq = max (st_get a seq) (st_get b seq)" by simp_all
qed

interpretation strided_join: join_laws "joined :: 'n::linorder strided \<Rightarrow> 'n strided \<Rightarrow> 'n strided" st_ok
proof
  fix a b c :: "'n strided"
  show "st_ok a \<Longrightarrow> st_ok b \<Longrightarrow> st_ok (joined a b)" by (rule joined_spec)
  show "st_ok a \<Longrightarrow> st_ok b \<Longrightarrow> st_ok c \<Longrightarrow> joined (joined a b) c = joined a (joined b c)"
    by (rule strided_ext) (simp_all add: joined_spec max.assoc)
  show "st_ok a \<Longrightarrow> st_ok b \<Longrightarrow> joined a b = joined b a"
    by (rule strided_ext) (simp_all add: joined_spec max.commute)
  show "st_ok a \<Longrightarrow> joined a a = a"
    by (rule strided_ext) (simp_all add: joined_spec)
qed

section \<open>Laying a map out\<close>

definition nodes_ok :: "(int \<times> 'n) list \<Rightarrow> bool" where
  "nodes_ok nodes \<longleftrightarrow> sorted_wrt (<) (map fst nodes) \<and> (\<forall>k \<in> fst ` set nodes. 0 \<le> k \<and> k < i64_max)"

lemma length_lay [simp]: "length (foldl (lay_slot first) slots nodes) = length slots"
  by (induction nodes arbitrary: slots) (simp_all add: lay_slot_def Let_def)

lemma foldl_lay_nth:
  assumes "0 \<le> first" "\<forall>k \<in> fst ` set nodes. first \<le> k \<and> k < first + int (length slots)"
    "first + int (length slots) \<le> i64_max" "i < length slots" "distinct (map fst nodes)"
  shows "foldl (lay_slot first) slots nodes ! i =
    (case map_of nodes (first + int i) of None \<Rightarrow> slots ! i | Some n \<Rightarrow> Some n)"
  using assms
proof (induction nodes arbitrary: slots)
  case Nil
  then show ?case by simp
next
  case (Cons e nodes)
  obtain k n where e: "e = (k, n)" by (cases e)
  have k: "seq_offset first k = nat (k - first)" "nat (k - first) < length slots"
    using Cons.prems e by (auto intro!: seq_offset_in)
  have "map_of nodes k = None" using Cons.prems(5) by (simp add: e map_of_eq_None_iff)
  moreover have "k = first + int i \<longleftrightarrow> i = nat (k - first)" using Cons.prems(2) e by auto
  ultimately show ?case using Cons.IH [of "lay_slot first slots e"] Cons.prems k
    by (auto simp: lay_slot_def e split: option.split)
qed

lemma laid_out_spec:
  assumes "nodes_ok nodes"
  shows "st_ok (laid_out nodes)" "st_get (laid_out nodes) seq = map_of nodes seq"
proof -
  have "st_ok (laid_out nodes) \<and> st_get (laid_out nodes) seq = map_of nodes seq"
  proof (cases "nodes = []")
    case True
    then show ?thesis by (simp add: laid_out_def st_default_def st_get_empty st_ok_def)
  next
    case False
    define first where "first = fst (hd nodes)"
    define top where "top = fst (last nodes)"
    have srt: "sorted (map fst nodes)" "distinct (map fst nodes)"
      using assms by (auto simp: nodes_ok_def strict_sorted_iff)
    have range: "first \<le> k \<and> k \<le> top \<and> 0 \<le> k \<and> k < i64_max" if "k \<in> fst ` set nodes" for k
    proof -
      from that obtain i where i: "i < length nodes" "k = map fst nodes ! i" by (auto simp: in_set_conv_nth)
      have "map fst nodes ! 0 \<le> k" "k \<le> map fst nodes ! (length nodes - 1)"
        unfolding i(2) using srt(1) i(1) by (intro sorted_nth_mono; simp)+
      then show ?thesis
        using False assms that by (auto simp: first_def top_def hd_conv_nth last_conv_nth nodes_ok_def)
    qed
    have b: "0 \<le> first" "first \<le> top" "top < i64_max"
      using range [of first] range [of top] False by (auto simp: first_def top_def)
    define h :: "'a option list" where "h = holes (span_of first top)"
    have h: "int (length h) = top - first + 1" "\<And>i. i < length h \<Longrightarrow> h ! i = None"
      using b by (auto simp: h_def holes_def span_of_def sat_i64_def i64_min_def i64_max_def)
    let ?s = "foldl (lay_slot first) h nodes"
    have eq: "laid_out nodes = st_trimmed first ?s"
      using False by (simp add: laid_out_def Let_def first_def top_def h_def)
    have "slot_at first ?s seq = map_of nodes seq"
    proof (cases "first \<le> seq \<and> seq \<le> top")
      case True
      then have "?s ! nat (seq - first) = (case map_of nodes (first + int (nat (seq - first))) of
          None \<Rightarrow> h ! nat (seq - first) | Some n \<Rightarrow> Some n)"
        using b h range srt(2) by (intro foldl_lay_nth) auto
      with True h show ?thesis by (auto simp: slot_at_def split: option.splits)
    next
      case out: False
      then have "seq \<notin> fst ` set nodes" using range by blast
      then have "map_of nodes seq = None" by (simp add: map_of_eq_None_iff)
      then show ?thesis using out h by (auto simp: slot_at_def)
    qed
    then show ?thesis using st_trimmed_spec [of first ?s] b h unfolding eq by simp
  qed
  then show "st_ok (laid_out nodes)" "st_get (laid_out nodes) seq = map_of nodes seq" by simp_all
qed

section \<open>The range of an array\<close>

lemma try_u64_nonneg: "0 \<le> x \<Longrightarrow> x \<le> i64_max \<Longrightarrow> try_u64 x = Some (of_int x)"
  by (simp add: try_u64_def i64_max_def)

lemma of_int_le_key: "0 \<le> x \<Longrightarrow> x \<le> y \<Longrightarrow> y \<le> i64_max \<Longrightarrow> (of_int x :: u64) \<le> of_int y"
  by (simp add: word_of_int_less_eq_iff take_bit_int_eq_self i64_max_def)

lemma st_range_ok:
  assumes "st_ok s"
  shows "st_range s = (if st_slots s = [] then None
    else Some \<lparr>kr_first = of_int (st_first s), kr_last = of_int (st_first s + int (length (st_slots s)) - 1)\<rparr>)"
proof (cases "st_slots s = []")
  case True
  then show ?thesis by (simp add: st_range_def st_last_ok assms)
next
  case False
  then have "0 < length (st_slots s)" by simp
  then have b: "0 \<le> st_first s" "st_first s \<le> st_first s + int (length (st_slots s)) - 1"
      "st_first s + int (length (st_slots s)) - 1 \<le> i64_max"
    using assms False by (auto simp: st_ok_def)
  have "\<not> (of_int (st_first s + int (length (st_slots s)) - 1) :: u64) < of_int (st_first s)"
    using of_int_le_key [OF b] by (simp add: not_less)
  moreover have "try_u64 (st_first s) = Some (of_int (st_first s))"
      "try_u64 (st_first s + int (length (st_slots s)) - 1) =
        Some (of_int (st_first s + int (length (st_slots s)) - 1))"
    using b by (intro try_u64_nonneg; linarith)+
  ultimately show ?thesis using False assms
    by (simp add: st_range_def st_last_ok key_range_new_def del: of_int_add of_int_diff)
qed

lemma st_get_in_range:
  assumes "st_ok s" "st_get s seq \<noteq> None"
  shows "\<exists>r. st_range s = Some r \<and> contains r (of_int seq)"
proof -
  have ne: "st_slots s \<noteq> []" using assms(2) by (auto simp: st_get_empty)
  note b = st_ok_nonempty_get(3) [OF assms(1) ne assms(2)]
  have "0 \<le> st_first s" "st_first s + int (length (st_slots s)) - 1 \<le> i64_max"
    using assms(1) ne by (auto simp: st_ok_def)
  with b have "(of_int (st_first s) :: u64) \<le> of_int seq"
      "(of_int seq :: u64) \<le> of_int (st_first s + int (length (st_slots s)) - 1)"
    by (auto intro!: of_int_le_key simp del: of_int_add of_int_diff)
  then show ?thesis using ne by (simp add: st_range_ok assms(1) contains_def)
qed

end
