(* ===== verification/Lattice_Frame.thy ===== *)
theory Lattice_Frame
  imports Lattice_Key
begin

text \<open>
  The bytes of a segment: the twenty-four byte header of \<open>lattice/core/src/frame.rs\<close> with the window
  of records a range selects, and the length-prefixed blobs of \<open>lattice/core/src/tail.rs\<close>. The
  roaring bitmap library is a parameter: \<open>ser\<close> is its \<open>serialize_into\<close> and \<open>de\<close> its
  \<open>deserialize_from\<close>, and a \<open>RoaringTreemap\<close> is the set of its members.
\<close>

section \<open>The header\<close>

definition HEADER :: nat where
  "HEADER = 24"

definition VERSION :: u8 where
  "VERSION = 1"

record layout =
  lo_magic :: bytes
  lo_record :: nat
  lo_unit :: nat

record frame_header =
  fh_first :: key
  fh_records :: nat
  fh_tail :: nat

datatype frame = Short nat | Magic bytes bytes | Version u8 | Truncated nat nat | Unnameable u64

definition sat_u32 :: "nat \<Rightarrow> u32" where
  "sat_u32 n = (case try_u32 n of Some w \<Rightarrow> w | None \<Rightarrow> - 1)"

definition field64 :: "bytes \<Rightarrow> nat \<Rightarrow> u64" where
  "field64 bytes at = (case slice bytes at (at + 8) of None \<Rightarrow> 0 | Some chunk \<Rightarrow> from_le64 chunk)"

definition field32 :: "bytes \<Rightarrow> nat \<Rightarrow> u32" where
  "field32 bytes at = (case slice bytes at (at + 4) of None \<Rightarrow> 0 | Some chunk \<Rightarrow> from_le32 chunk)"

definition counted :: "bytes \<Rightarrow> nat \<Rightarrow> nat" where
  "counted bytes at = unat (field32 bytes at)"

definition write_header :: "frame_header \<Rightarrow> layout \<Rightarrow> bytes \<Rightarrow> bytes" where
  "write_header h lo out =
     out @ lo_magic lo @ [VERSION] @ [0, 0, 0] @ to_le64 (fh_first h) @
     to_le32 (sat_u32 (fh_records h)) @ to_le32 (sat_u32 (fh_tail h))"

definition read_header :: "bytes \<Rightarrow> layout \<Rightarrow> (frame, frame_header) result" where
  "read_header bytes lo =
     (case slice_upto bytes HEADER of None \<Rightarrow> Inl (Short (length bytes))
      | Some head \<Rightarrow>
        let found = take 4 head in
        if found \<noteq> lo_magic lo then Inl (Magic found (lo_magic lo))
        else let version = (case get_at head 4 of None \<Rightarrow> 0 | Some v \<Rightarrow> v) in
        if version \<noteq> VERSION then Inl (Version version)
        else let first = field64 head 8 in
        if 2 ^ 63 \<le> unat first then Inl (Unnameable first)
        else let records = counted head 16; tail = counted head 20;
                 expected = sat_usize (sat_usize (HEADER + sat_usize (records * lo_record lo)) +
                   sat_usize (tail * lo_unit lo)) in
        if expected \<noteq> length bytes then Inl (Truncated expected (length bytes))
        else Inr \<lparr>fh_first = first, fh_records = records, fh_tail = tail\<rparr>)"

definition slice_of :: "frame_header \<Rightarrow> key_range \<Rightarrow> (nat \<times> nat) option" where
  "slice_of h r =
     (if 2 ^ 64 \<le> fh_records h then None
      else if fh_records h = 0 then None
      else case checked_add (fh_first h) (of_nat (fh_records h) - 1) of None \<Rightarrow> None
      | Some last' \<Rightarrow>
          if kr_last r < fh_first h \<or> last' < kr_first r then None
          else let from = unat (max (kr_first r) (fh_first h) - fh_first h);
                   upto = unat (min (kr_last r) last' - fh_first h) + 1
               in Some (min from (fh_records h), min upto (fh_records h)))"

section \<open>The tail\<close>

definition TAIL_NONE :: u32 where
  "TAIL_NONE = - 1"

definition stow :: "bytes \<Rightarrow> bytes \<Rightarrow> u32 \<times> bytes" where
  "stow blob tail =
     (if blob = [] then (TAIL_NONE, tail)
      else (case try_u32 (length tail) of Some at \<Rightarrow> at | None \<Rightarrow> TAIL_NONE,
            tail @ to_le32 (case try_u32 (length blob) of Some n \<Rightarrow> n | None \<Rightarrow> 0) @ blob))"

definition tail_length :: "u32 \<Rightarrow> bytes \<Rightarrow> u32 option" where
  "tail_length at tail =
     (case slice_from tail (unat at) of None \<Rightarrow> None
      | Some rest \<Rightarrow> if 4 \<le> length rest then Some (from_le32 (take 4 rest)) else None)"

definition fetch :: "u32 \<Rightarrow> bytes \<Rightarrow> bytes option" where
  "fetch at tail =
     (if at = TAIL_NONE then Some []
      else case tail_length at tail of None \<Rightarrow> None
      | Some len \<Rightarrow> let body = unat at + 4 in
          if usize_max < body + unat len then None else slice tail body (body + unat len))"

definition encode_bitmap :: "('k set \<Rightarrow> bytes option) \<Rightarrow> 'k set \<Rightarrow> bytes option" where
  "encode_bitmap ser bitmap = (if bitmap = {} then Some [] else ser bitmap)"

definition decode_bitmap :: "(bytes \<Rightarrow> 'k set option) \<Rightarrow> bytes \<Rightarrow> 'k set option" where
  "decode_bitmap de bytes = (if bytes = [] then Some {} else de bytes)"

definition stow_bitmap :: "('k set \<Rightarrow> bytes option) \<Rightarrow> 'k set \<Rightarrow> bytes \<Rightarrow> (u32 \<times> bytes) option" where
  "stow_bitmap ser bitmap tail = map_option (\<lambda>blob. stow blob tail) (encode_bitmap ser bitmap)"

text \<open>What the bitmap library documents: what it serializes, which is never empty, reads back.\<close>

definition bitmap_codec :: "('k set \<Rightarrow> bytes option) \<Rightarrow> (bytes \<Rightarrow> 'k set option) \<Rightarrow> bool" where
  "bitmap_codec ser de \<longleftrightarrow> (\<forall>b bytes. ser b = Some bytes \<longrightarrow> bytes \<noteq> [] \<and> de bytes = Some b)"

section \<open>Reading back a header\<close>

lemma sat_u32_nat: "n < 2 ^ 32 \<Longrightarrow> unat (sat_u32 n) = n"
  by (simp add: sat_u32_def try_u32_def unat_of_nat)

definition header_ok :: "frame_header \<Rightarrow> layout \<Rightarrow> bool" where
  "header_ok h lo \<longleftrightarrow> length (lo_magic lo) = 4 \<and> unat (fh_first h) < 2 ^ 63 \<and>
     fh_records h < 2 ^ 32 \<and> fh_tail h < 2 ^ 32"

definition body_length :: "frame_header \<Rightarrow> layout \<Rightarrow> nat" where
  "body_length h lo = fh_records h * lo_record lo + fh_tail h * lo_unit lo"

lemma length_write_header [simp]: "header_ok h lo \<Longrightarrow> length (write_header h lo out) = length out + HEADER"
  by (simp add: write_header_def header_ok_def HEADER_def)

lemma write_header_append: "write_header h lo out = out @ write_header h lo []"
  by (simp add: write_header_def)

lemma slice_pick: "length xs = a \<Longrightarrow> length ys = n \<Longrightarrow> slice (xs @ ys @ zs) a (a + n) = Some ys"
  by (simp add: slice_def)

definition header_image :: "frame_header \<Rightarrow> layout \<Rightarrow> bytes \<Rightarrow> bytes" where
  "header_image h lo reserved = lo_magic lo @ [VERSION] @ reserved @ to_le64 (fh_first h) @
     to_le32 (of_nat (fh_records h)) @ to_le32 (of_nat (fh_tail h))"

lemma write_header_image: "header_ok h lo \<Longrightarrow> write_header h lo out = out @ header_image h lo [0, 0, 0]"
  by (simp add: write_header_def header_image_def header_ok_def sat_u32_def try_u32_def)

lemma header_fields:
  assumes "header_ok h lo" "length reserved = 3" "head = header_image h lo reserved"
  shows "take 4 head = lo_magic lo" "get_at head 4 = Some VERSION" "field64 head 8 = fh_first h"
    "counted head 16 = fh_records h" "counted head 20 = fh_tail h" "length head = HEADER"
proof -
  let ?m = "lo_magic lo" and ?f = "to_le64 (fh_first h)" and ?v = "[VERSION] @ reserved"
  let ?r = "to_le32 (of_nat (fh_records h))" and ?t = "to_le32 (of_nat (fh_tail h))"
  have m: "length ?m = 4" using assms(1) by (simp add: header_ok_def)
  have head: "head = ?m @ ?v @ ?f @ ?r @ ?t"
    by (simp add: assms(3) header_image_def)
  show "take 4 head = ?m" "length head = HEADER" using m assms(2) by (simp_all add: head HEADER_def)
  show "get_at head 4 = Some VERSION" using m by (simp add: head get_at_def nth_append)
  show "field64 head 8 = fh_first h"
    using slice_pick [of "?m @ ?v" 8 ?f 8 "?r @ ?t"] m assms(2) by (simp add: head field64_def)
  show "counted head 16 = fh_records h"
    using slice_pick [of "?m @ ?v @ ?f" 16 ?r 4 ?t] m assms(1,2)
    by (simp add: head counted_def field32_def header_ok_def unat_of_nat)
  show "counted head 20 = fh_tail h"
    using slice_pick [of "?m @ ?v @ ?f @ ?r" 20 ?t 4 "[]"] m assms(1,2)
    by (simp add: head counted_def field32_def header_ok_def unat_of_nat)
qed

lemma read_header_image:
  assumes "header_ok h lo" "length reserved = 3" "length body = body_length h lo"
    "HEADER + length body \<le> usize_max"
  shows "read_header (header_image h lo reserved @ body) lo = Inr h"
proof -
  note f = header_fields [OF assms(1,2) refl]
  have "slice_upto (header_image h lo reserved @ body) HEADER = Some (header_image h lo reserved)"
    using f(6) by (simp add: slice_upto_def)
  moreover have "sat_usize (sat_usize (HEADER + sat_usize (fh_records h * lo_record lo)) +
      sat_usize (fh_tail h * lo_unit lo)) = HEADER + length body"
    using assms(3,4) by (simp add: body_length_def sat_usize_def)
  ultimately show ?thesis using assms(1) f
    by (simp add: read_header_def Let_def header_ok_def)
qed

lemma read_header_write:
  assumes "header_ok h lo" "length body = body_length h lo" "HEADER + length body \<le> usize_max"
  shows "read_header (write_header h lo [] @ body) lo = Inr h"
  using read_header_image [OF assms(1) _ assms(2,3), of "[0, 0, 0]"] assms(1)
  by (simp add: write_header_image)

lemma header_bytes:
  assumes "length head = HEADER"
  shows "head = take 4 head @ [head ! 4] @ take 3 (drop 5 head) @
    to_le64 (field64 head 8) @ to_le32 (field32 head 16) @ to_le32 (field32 head 20)"
proof -
  have f: "to_le64 (field64 head 8) = take 8 (drop 8 head)"
    "to_le32 (field32 head 16) = take 4 (drop 16 head)" "to_le32 (field32 head 20) = take 4 (drop 20 head)"
    using assms by (simp_all add: field64_def field32_def slice_def HEADER_def to_from_le32 to_from_le64)
  have "head = take 4 head @ take 1 (drop 4 head) @ take 3 (drop 5 head) @ take 8 (drop 8 head) @
      take 4 (drop 16 head) @ take 4 (drop 20 head)"
    using assms take_add [of 4 20 head] take_add [of 1 19 "drop 4 head"] take_add [of 3 16 "drop 5 head"]
      take_add [of 8 8 "drop 8 head"] take_add [of 4 4 "drop 16 head"]
    by (simp add: HEADER_def)
  moreover have "take 1 (drop 4 head) = [head ! 4]"
    using assms take_Suc_conv_app_nth [of 0 "drop 4 head"] by (simp add: HEADER_def)
  ultimately show ?thesis unfolding f by simp
qed

text \<open>
  A header is read exactly from the bytes that are it: the magic, the version, three ignored
  bytes, the first key and the two counts little-endian, followed by a body of exactly the length the
  counts say; any other bytes are refused.
\<close>

lemma read_header_exact:
  assumes "header_ok h lo" "length bytes < usize_max"
  shows "read_header bytes lo = Inr h \<longleftrightarrow>
    length bytes = HEADER + body_length h lo \<and>
    (\<exists>reserved. length reserved = 3 \<and> take HEADER bytes = header_image h lo reserved)"
    (is "_ \<longleftrightarrow> ?R")
proof
  assume r: "read_header bytes lo = Inr h"
  define head where "head = take HEADER bytes"
  have ok: "HEADER \<le> length bytes" "take 4 head = lo_magic lo" "head ! 4 = VERSION"
      "fh_first h = field64 head 8" "fh_records h = unat (field32 head 16)" "fh_tail h = unat (field32 head 20)"
      "sat_usize (sat_usize (HEADER + sat_usize (fh_records h * lo_record lo)) + sat_usize (fh_tail h * lo_unit lo)) =
        length bytes"
    using r by (auto simp: read_header_def slice_upto_def get_at_def counted_def Let_def head_def HEADER_def
        split: if_splits)
  have "length head = HEADER" using ok(1) by (simp add: head_def)
  from header_bytes [OF this] ok have "take HEADER bytes = header_image h lo (take 3 (drop 5 head))"
    by (simp add: header_image_def head_def [symmetric])
  moreover have "length (take 3 (drop 5 head)) = 3" using ok(1) by (simp add: head_def HEADER_def)
  moreover have "length bytes = HEADER + body_length h lo"
    using ok(7) assms(2) by (auto simp: sat_usize_def body_length_def min_def split: if_splits)
  ultimately show ?R by blast
next
  assume ?R
  then obtain reserved where "length bytes = HEADER + body_length h lo" "length reserved = 3"
    "take HEADER bytes = header_image h lo reserved" by blast
  with read_header_image [of h lo reserved "drop HEADER bytes"] assms show "read_header bytes lo = Inr h"
    by (metis add_diff_cancel_left' append_take_drop_id le_add1 length_drop ordered_cancel_comm_monoid_diff_class.add_diff_inverse less_imp_le_nat)
qed

section \<open>The window of a range\<close>

lemma unat_key_at:
  "header_ok h lo \<Longrightarrow> i < fh_records h \<Longrightarrow> unat (fh_first h + of_nat i) = unat (fh_first h) + i"
  by (simp add: header_ok_def unat_word_ariths unat_of_nat)

lemma slice_of_spec:
  assumes "header_ok h lo" "range_ok r"
  shows "case slice_of h r of
      Some (from, till) \<Rightarrow> from < till \<and> till \<le> fh_records h \<and>
        (\<forall>i < fh_records h. from \<le> i \<and> i < till \<longleftrightarrow> contains r (fh_first h + of_nat i))
    | None \<Rightarrow> \<forall>i < fh_records h. \<not> contains r (fh_first h + of_nat i)"
proof (cases "fh_records h = 0")
  case True
  then show ?thesis by (simp add: slice_of_def)
next
  case False
  let ?F = "unat (fh_first h)" and ?n = "fh_records h"
  have b: "?F < 2 ^ 63" "0 < ?n" "?n < 2 ^ 32" using assms(1) False by (simp_all add: header_ok_def)
  have n1: "unat (of_nat ?n - 1 :: u64) = ?n - 1"
    using b by (simp add: unat_sub unat_of_nat word_le_nat_alt)
  define l where "l = fh_first h + (of_nat ?n - 1)"
  have l: "unat l = ?F + ?n - 1" using b n1 by (simp add: l_def unat_word_ariths)
  have ca: "checked_add (fh_first h) (of_nat ?n - 1) = Some l"
    using b n1 by (simp add: checked_add_def l_def)
  have ge: "fh_first h \<le> max (kr_first r) (fh_first h)" by simp
  have rr: "unat (kr_first r) \<le> unat (kr_last r)" using assms(2) by (simp add: range_ok_def word_le_nat_alt)
  have mx: "unat (max x y) = max (unat x) (unat y)" "unat (min x y) = min (unat x) (unat y)" for x y :: u64
    by (auto simp: max_def min_def word_le_nat_alt)
  have key: "contains r (fh_first h + of_nat i) \<longleftrightarrow> unat (kr_first r) \<le> ?F + i \<and> ?F + i \<le> unat (kr_last r)"
    if "i < ?n" for i
    using unat_key_at [OF assms(1) that] by (simp add: contains_def word_le_nat_alt)
  show ?thesis
  proof (cases "kr_last r < fh_first h \<or> l < kr_first r")
    case True
    then have "slice_of h r = None" using b ca by (simp add: slice_of_def)
    moreover have "unat (kr_last r) < ?F \<or> ?F + ?n - 1 < unat (kr_first r)"
      using True by (simp add: word_less_nat_alt l)
    ultimately show ?thesis using key by auto
  next
    case False
    then have nn: "?F \<le> unat (kr_last r)" "unat (kr_first r) \<le> ?F + ?n - 1"
      by (simp_all add: word_less_nat_alt l not_less)
    have "fh_first h \<le> min (kr_last r) l"
      using nn b by (simp add: word_le_nat_alt mx l)
    then have sub: "unat (max (kr_first r) (fh_first h) - fh_first h) = max (unat (kr_first r)) ?F - ?F"
        "unat (min (kr_last r) l - fh_first h) = min (unat (kr_last r)) (?F + ?n - 1) - ?F"
      using ge by (simp_all add: unat_sub mx l)
    moreover have "max (unat (kr_first r)) ?F - ?F \<le> ?n" "min (unat (kr_last r)) (?F + ?n - 1) - ?F + 1 \<le> ?n"
      using nn b by linarith+
    ultimately have "slice_of h r = Some (max (unat (kr_first r)) ?F - ?F, min (unat (kr_last r)) (?F + ?n - 1) - ?F + 1)"
      using False b ca by (simp add: slice_of_def Let_def min_absorb1)
    with key nn rr b show ?thesis by auto
  qed
qed

section \<open>Blobs in the tail\<close>

lemma fetch_append:
  assumes "fetch at tail = Some blob"
  shows "fetch at (tail @ later) = Some blob"
  using assms
  by (auto simp: fetch_def tail_length_def slice_from_def slice_def Let_def split: if_splits)

lemma fetch_stow:
  assumes "length tail < 2 ^ 32 - 1" "length blob < 2 ^ 32" "stow blob tail = (at, tail')"
  shows "fetch at (tail' @ later) = Some blob"
proof (cases "blob = []")
  case True
  with assms(3) show ?thesis by (auto simp: stow_def fetch_def)
next
  case False
  have at: "at = of_nat (length tail)" and t: "tail' = tail @ to_le32 (of_nat (length blob)) @ blob"
    using False assms by (auto simp: stow_def try_u32_def)
  have u: "unat at = length tail" using assms(1) by (simp add: at unat_of_nat)
  have "at \<noteq> TAIL_NONE"
  proof
    assume "at = TAIL_NONE"
    then have "unat at = 2 ^ 32 - 1" by (simp add: TAIL_NONE_def unsigned_minus_1_eq_mask mask_eq_exp_minus_1)
    with u assms(1) show False by simp
  qed
  then show ?thesis using u assms(1,2)
    by (simp add: fetch_def tail_length_def slice_from_def t slice_def usize_max_def unat_of_nat Let_def)
qed

text \<open>
  A blob stowed in a tail is fetched back whole from where it was put, whatever is appended later,
  and stowing leaves what the tail held in place, as long as the tail is below the offset reserved for
  no blob and the blob's length fits its prefix.
\<close>

lemma stow_fetch:
  assumes "length tail < 2 ^ 32 - 1" "length blob < 2 ^ 32"
  shows "fetch (fst (stow blob tail)) (snd (stow blob tail) @ later) = Some blob \<and>
    (\<forall>at old. fetch at tail = Some old \<longrightarrow> fetch at (snd (stow blob tail)) = Some old)"
proof -
  have "\<exists>rest. snd (stow blob tail) = tail @ rest" by (simp add: stow_def)
  then show ?thesis
    using fetch_stow [OF assms, of "fst (stow blob tail)" "snd (stow blob tail)" later] fetch_append
    by (auto simp del: split_paired_All)
qed

end
