(* ===== verification/Strided_Codec.thy ===== *)
theory Strided_Codec
  imports Strided Lattice_Frame
begin

text \<open>
  What the two commit tiers share of their codecs, \<open>git/graph-store/src/format.rs\<close> and the slicing of
  \<open>lattice/core/src/frame.rs\<close> over a strided array: the first seq of a frame, the records at a fixed
  stride, the capacity an out-of-line tail has to stay within, and the window a ranged decode keeps.
\<close>

section \<open>The frame of a tier\<close>

datatype malformed = MFrame frame | StrayExtra u32 | Bitmap

definition first_seq :: "key \<Rightarrow> (frame, int) result" where
  "first_seq first = (if unat first < 2 ^ 63 then Inr (uint first) else Inl (Unnameable first))"

lemma first_seq_of_int:
  assumes "0 \<le> x" "x < 2 ^ 32"
  shows "first_seq (of_int x) = Inr x"
proof -
  have "unat (of_int x :: u64) = nat x" "uint (of_int x :: u64) = x"
    using assms by (simp_all add: unsigned_of_int nat_take_bit_eq take_bit_int_eq_self)
  moreover have "nat x < 2 ^ 63" using assms by (simp add: nat_less_iff)
  ultimately show ?thesis by (simp add: first_seq_def)
qed

section \<open>Records at a fixed stride\<close>

lemma slice_stride:
  "\<forall>x \<in> set xs. length (f x) = k \<Longrightarrow> i < length xs \<Longrightarrow>
     slice (concat (map f xs) @ rest) (i * k) (i * k + k) = Some (f (xs ! i))"
proof (induction xs arbitrary: i)
  case Nil
  then show ?case by simp
next
  case (Cons x xs)
  show ?case
  proof (cases i)
    case 0
    then show ?thesis using Cons.prems by (simp add: slice_def)
  next
    case (Suc j)
    then have "slice (concat (map f xs) @ rest) (j * k) (j * k + k) = Some (f (xs ! j))"
      using Cons by simp
    then show ?thesis using Cons.prems Suc by (auto simp: slice_def split: if_splits)
  qed
qed

lemma length_concat_stride: "\<forall>x \<in> set xs. length (f x) = k \<Longrightarrow> length (concat (map f xs)) = length xs * k"
  by (induction xs) auto

section \<open>Arrays a tail has room for\<close>

text \<open>
  An offset into the tail is 32 bits, so what the commits of a repository keep out of line has to fit
  it whichever segments are joined: \<open>cap seq\<close> bounds what the commit at \<open>seq\<close> takes of the tail in any
  segment, and the whole seq space has to stay below \<open>2 ^ 32\<close>.
\<close>

definition MAX_SEQ :: nat where
  "MAX_SEQ = 2 ^ 32 - 1"

definition capacity :: "(nat \<Rightarrow> nat) \<Rightarrow> bool" where
  "capacity cap \<longleftrightarrow> (\<Sum>seq < MAX_SEQ. cap seq) < 2 ^ 32"

definition within_by :: "('n \<Rightarrow> bool) \<Rightarrow> ('n \<Rightarrow> nat) \<Rightarrow> (nat \<Rightarrow> nat) \<Rightarrow> 'n strided \<Rightarrow> bool" where
  "within_by good weight cap s \<longleftrightarrow> st_ok s \<and>
     (\<forall>seq n. st_get s seq = Some n \<longrightarrow> 0 \<le> seq \<and> seq < int MAX_SEQ \<and> good n \<and> weight n \<le> cap (nat seq))"

definition slot_weight :: "('n \<Rightarrow> nat) \<Rightarrow> 'n option \<Rightarrow> nat" where
  "slot_weight weight slot = (case slot of None \<Rightarrow> 0 | Some n \<Rightarrow> weight n)"

lemma slot_weight_simps [simp]: "slot_weight weight None = 0" "slot_weight weight (Some n) = weight n"
  by (simp_all add: slot_weight_def)

lemma withinD:
  "within_by good weight cap s \<Longrightarrow> st_get s seq = Some n \<Longrightarrow>
     0 \<le> seq \<and> seq < int MAX_SEQ \<and> good n \<and> weight n \<le> cap (nat seq)"
  by (simp add: within_by_def)

lemma within_ok: "within_by good weight cap s \<Longrightarrow> st_ok s"
  by (simp add: within_by_def)

lemma within_bounds:
  assumes "within_by good weight cap s" "st_slots s \<noteq> []"
  shows "0 \<le> st_first s" "st_first s + int (length (st_slots s)) \<le> int MAX_SEQ"
  using assms st_ok_nonempty_get(1,2) [of s] by (fastforce simp: within_by_def)+

lemma within_size:
  assumes "within_by good weight cap s"
  shows "0 \<le> st_first s" "st_first s < 2 ^ 32" "length (st_slots s) < 2 ^ 32"
  using assms within_bounds [OF assms]
  by (cases "st_slots s = []"; auto simp: within_by_def st_ok_def MAX_SEQ_def)+

lemma within_slots:
  assumes "within_by good weight cap s" "i < length (st_slots s)"
  shows "st_get s (st_first s + int i) = st_slots s ! i"
    "slot_weight weight (st_slots s ! i) \<le> cap (nat (st_first s) + i)"
proof -
  have ne: "st_slots s \<noteq> []" using assms(2) by auto
  have get: "st_get s (st_first s + int i) = st_slots s ! i"
    using assms by (simp add: within_by_def st_get_ok slot_at_def)
  show "st_get s (st_first s + int i) = st_slots s ! i" by (fact get)
  have at: "nat (st_first s + int i) = nat (st_first s) + i"
    using within_bounds(1) [OF assms(1) ne] by (simp add: nat_add_distrib)
  show "slot_weight weight (st_slots s ! i) \<le> cap (nat (st_first s) + i)"
  proof (cases "st_slots s ! i")
    case None
    then show ?thesis by simp
  next
    case (Some n)
    with get have "st_get s (st_first s + int i) = Some n" by simp
    then have "weight n \<le> cap (nat (st_first s + int i))"
      using assms(1) unfolding within_by_def by blast
    then show ?thesis by (simp add: at Some)
  qed
qed

lemma within_good:
  assumes "within_by good weight cap s" "Some n \<in> set (st_slots s)"
  shows "good n"
proof -
  from assms(2) obtain i where "i < length (st_slots s)" "st_slots s ! i = Some n" by (auto simp: in_set_conv_nth)
  with within_slots(1) [OF assms(1)] assms(1) show ?thesis by (fastforce simp: within_by_def)
qed

lemma within_weight:
  assumes "capacity cap" "within_by good weight cap s"
  shows "sum_list (map (slot_weight weight) (st_slots s)) < 2 ^ 32"
proof (cases "st_slots s = []")
  case True
  then show ?thesis by simp
next
  case False
  let ?n = "length (st_slots s)" and ?f = "nat (st_first s)"
  have "sum_list (map (slot_weight weight) (st_slots s)) = (\<Sum>i < ?n. slot_weight weight (st_slots s ! i))"
    by (simp add: sum_list_sum_nth atLeast0LessThan)
  also have "\<dots> \<le> (\<Sum>i < ?n. cap (?f + i))"
    using within_slots(2) [OF assms(2)] by (intro sum_mono) simp
  also have "\<dots> = sum cap ((\<lambda>i. ?f + i) ` {..< ?n})"
    by (simp add: sum.reindex)
  also have "\<dots> \<le> (\<Sum>seq < MAX_SEQ. cap seq)"
    using within_bounds [OF assms(2) False] by (intro sum_mono2) auto
  finally show ?thesis using assms(1) by (simp add: capacity_def)
qed

lemma within_default: "within_by good weight cap st_default"
  by (simp add: within_by_def st_default_def st_get_empty st_ok_def)

lemma within_joined:
  assumes "within_by good weight cap a" "within_by good weight cap b"
  shows "within_by good weight cap (joined a b)"
proof -
  have ok: "st_ok a" "st_ok b" using assms by (simp_all add: within_by_def)
  have "st_get (joined a b) seq = st_get a seq \<or> st_get (joined a b) seq = st_get b seq" for seq
    using joined_spec(2) [OF ok] by (simp add: max_def)
  then have "st_get a seq = Some n \<or> st_get b seq = Some n" if "st_get (joined a b) seq = Some n" for seq n
    using that by metis
  then show ?thesis
    unfolding within_by_def using joined_spec(1) [OF ok] withinD [OF assms(1)] withinD [OF assms(2)] by blast
qed

lemma within_restrict:
  "within_by good weight cap s \<Longrightarrow> st_ok s' \<Longrightarrow> (\<And>seq. st_get s' seq = None \<or> st_get s' seq = st_get s seq) \<Longrightarrow>
     within_by good weight cap s'"
  unfolding within_by_def by (metis (no_types) option.distinct(1))

section \<open>The window a range keeps\<close>

lemma slot_at_window:
  assumes "till \<le> length slots" "from \<le> till"
  shows "slot_at (first + int from) (map ((!) slots) [from..<till]) seq =
    (if first + int from \<le> seq \<and> seq < first + int till then slot_at first slots seq else None)"
proof -
  have "from + nat (seq - (first + int from)) = nat (seq - first)" if "first + int from \<le> seq"
    using that by linarith
  then show ?thesis using assms by (auto simp: slot_at_def)
qed

lemma window_None:
  assumes "st_ok s" "header_ok h lo" "range_ok r" "fh_first h = of_int (st_first s)"
    "fh_records h = length (st_slots s)" "slice_of h r = None" "contains r (of_int seq)"
  shows "st_get s seq = None"
proof (rule ccontr)
  assume "st_get s seq \<noteq> None"
  then have "nat (seq - st_first s) < length (st_slots s)" "seq = st_first s + int (nat (seq - st_first s))"
    by (auto simp: st_get_ok assms(1) slot_at_def split: if_splits)
  with slice_of_spec [OF assms(2,3)] assms(4-7) show False
    by (metis (no_types, lifting) of_int_add of_int_of_nat_eq option.simps(4))
qed

lemma window_Some:
  assumes "st_ok s" "header_ok h lo" "range_ok r" "fh_first h = of_int (st_first s)"
    "fh_records h = length (st_slots s)" "slice_of h r = Some (f, t)"
  defines "w \<equiv> st_trimmed (st_first s + int f) (map ((!) (st_slots s)) [f..<t])"
  shows "f < t" "t \<le> length (st_slots s)" "st_ok w"
    "st_get w seq = (if contains r (of_int seq) then st_get s seq else None)"
proof -
  have win: "f < t" "t \<le> length (st_slots s)"
      "\<And>i. i < length (st_slots s) \<Longrightarrow> f \<le> i \<and> i < t \<longleftrightarrow> contains r (of_int (st_first s + int i))"
    using slice_of_spec [OF assms(2,3)] assms(4-6) by auto
  show "f < t" "t \<le> length (st_slots s)" by (fact win)+
  have ne: "st_slots s \<noteq> []" using win by auto
  have b: "0 \<le> st_first s + int f" "st_first s + int f + int (length (map ((!) (st_slots s)) [f..<t])) \<le> i64_max"
    using assms(1) ne win by (auto simp: st_ok_def of_nat_diff)
  note tr = st_trimmed_spec [OF b, folded w_def]
  show "st_ok w" by (rule tr)
  have get: "st_get s seq = slot_at (st_first s) (st_slots s) seq" by (rule st_get_ok [OF assms(1)])
  have "st_get w seq = (if st_first s + int f \<le> seq \<and> seq < st_first s + int t then st_get s seq else None)"
    unfolding tr(2) get using win by (intro slot_at_window) auto
  also have "\<dots> = (if contains r (of_int seq) then st_get s seq else None)"
  proof (cases "st_get s seq = None")
    case False
    then have "nat (seq - st_first s) < length (st_slots s)" "seq = st_first s + int (nat (seq - st_first s))"
      by (auto simp: get slot_at_def split: if_splits)
    then obtain i where "i < length (st_slots s)" "seq = st_first s + int i" by blast
    with win(3) [of i] show ?thesis by auto
  qed auto
  finally show "st_get w seq = (if contains r (of_int seq) then st_get s seq else None)" .
qed

end
