(* ===== verification/Commit_Index.thy ===== *)
theory Commit_Index
  imports Strided_Codec Lattice_Segment
begin

text \<open>
  The commit graph index, \<open>git/graph-store/src/index.rs\<close> with the records of \<open>format.rs\<close> and the
  generation numbers of \<open>generation.rs\<close>: a builder of commits by seq, the fixed-stride array with its
  out-of-line parents, the join, and the encoding with its ranged decode.
\<close>

section \<open>Records\<close>

definition RECORD :: nat where
  "RECORD = 20"

definition NONE :: u32 where
  "NONE = - 1"

definition GRAPH :: layout where
  "GRAPH = \<lparr>lo_magic = [67, 73, 88, 48], lo_record = RECORD, lo_unit = 4\<rparr>"

record commit_record =
  cr_parent1 :: u32
  cr_parent2 :: u32
  cr_root_tree :: u32
  cr_generation :: u32
  cr_extra :: u32

definition ABSENT :: commit_record where
  "ABSENT = \<lparr>cr_parent1 = NONE, cr_parent2 = NONE, cr_root_tree = NONE, cr_generation = 0, cr_extra = NONE\<rparr>"

definition present :: "commit_record \<Rightarrow> bool" where
  "present r \<longleftrightarrow> cr_root_tree r \<noteq> NONE"

definition record_write :: "commit_record \<Rightarrow> bytes \<Rightarrow> bytes" where
  "record_write r out = out @ concat (map to_le32
     [cr_parent1 r, cr_parent2 r, cr_root_tree r, cr_generation r, cr_extra r])"

definition record_read :: "bytes \<Rightarrow> commit_record" where
  "record_read bytes = \<lparr>cr_parent1 = field32 bytes 0, cr_parent2 = field32 bytes 4,
     cr_root_tree = field32 bytes 8, cr_generation = field32 bytes 12, cr_extra = field32 bytes 16\<rparr>"

section \<open>Nodes\<close>

datatype node = Node (nd_generation: u32) (nd_root_tree: u32) (nd_parent1: u32) (nd_parent2: u32)
  (nd_extra: "u32 list")

text \<open>The derived order is lexicographic in the order of the fields.\<close>

definition node_key :: "node \<Rightarrow> u32 \<times> u32 \<times> u32 \<times> u32 \<times> u32 list" where
  "node_key n = (nd_generation n, nd_root_tree n, nd_parent1 n, nd_parent2 n, nd_extra n)"

lemma node_key_inject: "node_key a = node_key b \<longleftrightarrow> a = b"
  by (cases a; cases b) (simp add: node_key_def)

instantiation node :: linorder
begin

definition less_eq_node :: "node \<Rightarrow> node \<Rightarrow> bool" where
  "less_eq_node a b \<longleftrightarrow> node_key a \<le> node_key b"

definition less_node :: "node \<Rightarrow> node \<Rightarrow> bool" where
  "less_node a b \<longleftrightarrow> node_key a < node_key b"

instance
  by standard (auto simp: less_eq_node_def less_node_def node_key_inject [symmetric] less_le)

end

section \<open>Building\<close>

datatype too_large = TooLargeCommit int | TooLargeObject u64

datatype unwritable = TooLarge too_large | UnknownParent int int

record new_commit =
  nc_parents :: "int list"
  nc_root_tree :: u64
  nc_generation :: u32

record dated_commit =
  dc_parents :: "int list"
  dc_root_tree :: u64
  dc_committer_date :: int

record builder =
  bl_commits :: "(int \<times> node) list"
  bl_known :: "(int \<times> u32) list"

definition builder_new :: builder where
  "builder_new = \<lparr>bl_commits = [], bl_known = []\<rparr>"

definition commit_slot :: "int \<Rightarrow> (too_large, u32) result" where
  "commit_slot seq =
     (if 0 \<le> seq \<and> seq < 2 ^ 32 \<and> of_int seq \<noteq> NONE then Inr (of_int seq) else Inl (TooLargeCommit seq))"

definition commit_seq :: "int \<Rightarrow> (too_large, int) result" where
  "commit_seq seq = rbind (commit_slot seq) (\<lambda>_. Inr seq)"

definition optional_slot :: "int option \<Rightarrow> (too_large, u32) result" where
  "optional_slot seq = (case seq of None \<Rightarrow> Inr NONE | Some s \<Rightarrow> commit_slot s)"

definition object_slot :: "u64 \<Rightarrow> (too_large, u32) result" where
  "object_slot seq =
     (if unat seq < 2 ^ 32 \<and> ucast seq \<noteq> NONE then Inr (ucast seq) else Inl (TooLargeObject seq))"

definition builder_insert :: "builder \<Rightarrow> int \<Rightarrow> new_commit \<Rightarrow> (too_large, builder) result" where
  "builder_insert b seq commit =
     (let parents = nc_parents commit in
      rbind (object_slot (nc_root_tree commit)) (\<lambda>root_tree.
      rbind (optional_slot (get_at parents 0)) (\<lambda>parent1.
      rbind (optional_slot (get_at parents 1)) (\<lambda>parent2.
      rbind (collect_results (map commit_slot (drop 2 parents))) (\<lambda>extra.
      rbind (commit_seq seq) (\<lambda>seq.
      Inr (b\<lparr>bl_commits := btree_insert seq
        (Node (nc_generation commit) root_tree parent1 parent2 extra) (bl_commits b)\<rparr>)))))))"

definition builder_know :: "builder \<Rightarrow> int \<Rightarrow> u32 \<Rightarrow> builder" where
  "builder_know b seq generation = b\<lparr>bl_known := btree_insert seq generation (bl_known b)\<rparr>"

definition generation_of :: "builder \<Rightarrow> int \<Rightarrow> u32 option" where
  "generation_of b seq = (case map_of (bl_commits b) seq of Some n \<Rightarrow> Some (nd_generation n)
     | None \<Rightarrow> map_of (bl_known b) seq)"

definition corrected_date :: "int \<Rightarrow> u32 list \<Rightarrow> u32" where
  "corrected_date committer_date parents =
     (let own = (let d = max committer_date 0 in if d < 2 ^ 32 then of_int d else - 1);
          floor' = (if parents = [] then 0 else sat_add (Max (set parents)) 1)
      in max (max own floor') 1)"

fun parent_generations :: "builder \<Rightarrow> int \<Rightarrow> int list \<Rightarrow> (unwritable, u32 list) result" where
  "parent_generations b child [] = Inr []"
| "parent_generations b child (p # ps) =
     rbind (ok_or (generation_of b p) (UnknownParent child p)) (\<lambda>g.
     rbind (parent_generations b child ps) (\<lambda>gs. Inr (g # gs)))"

definition insert_dated :: "builder \<Rightarrow> int \<Rightarrow> dated_commit \<Rightarrow> (unwritable, builder \<times> u32) result" where
  "insert_dated b seq commit =
     rbind (parent_generations b seq (dc_parents commit)) (\<lambda>parents.
     let generation = corrected_date (dc_committer_date commit) parents in
     case builder_insert b seq \<lparr>nc_parents = dc_parents commit, nc_root_tree = dc_root_tree commit,
         nc_generation = generation\<rparr> of
       Inl e \<Rightarrow> Inl (TooLarge e)
     | Inr b' \<Rightarrow> Inr (b', generation))"

section \<open>The index\<close>

record commit_index =
  ci_first :: int
  ci_records :: "commit_record list"
  ci_tail :: "u32 list"

definition ci_default :: commit_index where
  "ci_default = \<lparr>ci_first = 0, ci_records = [], ci_tail = []\<rparr>"

definition extra_span :: "commit_record \<Rightarrow> u32 list \<Rightarrow> u32 list option" where
  "extra_span r tail =
     (if cr_extra r = NONE then Some []
      else let at = unat (cr_extra r) in
      case get_at tail at of None \<Rightarrow> None
      | Some count \<Rightarrow> slice tail (at + 1) (at + 1 + unat count))"

definition extra_of :: "commit_record \<Rightarrow> u32 list \<Rightarrow> u32 list" where
  "extra_of r tail = (case extra_span r tail of None \<Rightarrow> [] | Some e \<Rightarrow> e)"

fun assemble_slots :: "node option list \<Rightarrow> commit_record list \<times> u32 list \<Rightarrow> commit_record list \<times> u32 list" where
  "assemble_slots [] acc = acc"
| "assemble_slots (None # slots) (records, tail) = assemble_slots slots (records @ [ABSENT], tail)"
| "assemble_slots (Some n # slots) (records, tail) =
     (let (extra, tail') =
        (if nd_extra n = [] then (NONE, tail)
         else (case try_u32 (length tail) of Some at \<Rightarrow> at | None \<Rightarrow> NONE,
               tail @ (case try_u32 (length (nd_extra n)) of Some c \<Rightarrow> c | None \<Rightarrow> 0) # nd_extra n))
      in assemble_slots slots
        (records @ [\<lparr>cr_parent1 = nd_parent1 n, cr_parent2 = nd_parent2 n, cr_root_tree = nd_root_tree n,
           cr_generation = nd_generation n, cr_extra = extra\<rparr>], tail'))"

definition assemble :: "node strided \<Rightarrow> commit_index" where
  "assemble nodes = (let (records, tail) = assemble_slots (st_slots nodes) ([], []) in
     \<lparr>ci_first = st_first nodes, ci_records = records, ci_tail = tail\<rparr>)"

definition builder_build :: "builder \<Rightarrow> commit_index" where
  "builder_build b = assemble (laid_out (bl_commits b))"

definition record_node :: "u32 list \<Rightarrow> commit_record \<Rightarrow> node option" where
  "record_node tail r =
     (if present r then Some (Node (cr_generation r) (cr_root_tree r) (cr_parent1 r) (cr_parent2 r) (extra_of r tail))
      else None)"

definition ci_nodes :: "commit_index \<Rightarrow> node strided" where
  "ci_nodes c = st_trimmed (ci_first c) (map (record_node (ci_tail c)) (ci_records c))"

definition ci_last :: "commit_index \<Rightarrow> int option" where
  "ci_last c = (case rposition_some (map (\<lambda>r. if present r then Some r else None) (ci_records c)) of
     None \<Rightarrow> None | Some at \<Rightarrow> if int at \<le> i64_max then Some (ci_first c + int at) else None)"

definition ci_is_empty :: "commit_index \<Rightarrow> bool" where
  "ci_is_empty c \<longleftrightarrow> ci_last c = None"

definition ci_range :: "commit_index \<Rightarrow> key_range option" where
  "ci_range c = (case ci_last c of None \<Rightarrow> None
     | Some last' \<Rightarrow> (case (try_u64 (ci_first c), try_u64 last') of
         (Some first, Some last') \<Rightarrow>
           (case key_range_new first last' of Inr r \<Rightarrow> Some r | Inl _ \<Rightarrow> None)
       | _ \<Rightarrow> None))"

type_synonym entry = "commit_record \<times> u32 list"

definition ci_get :: "commit_index \<Rightarrow> int \<Rightarrow> entry option" where
  "ci_get c seq =
     (if seq < ci_first c then None
      else case get_at (ci_records c) (seq_offset (ci_first c) seq) of None \<Rightarrow> None
      | Some r \<Rightarrow> if present r then Some (r, ci_tail c) else None)"

definition entry_root_tree :: "entry \<Rightarrow> u64" where
  "entry_root_tree e = ucast (cr_root_tree (fst e))"

definition entry_generation :: "entry \<Rightarrow> u32" where
  "entry_generation e = cr_generation (fst e)"

definition entry_parents :: "entry \<Rightarrow> int list" where
  "entry_parents e =
     map uint (takeWhile (\<lambda>p. p \<noteq> NONE) [cr_parent1 (fst e), cr_parent2 (fst e)] @ extra_of (fst e) (snd e))"

definition ci_join :: "commit_index \<Rightarrow> commit_index \<Rightarrow> commit_index" where
  "ci_join self other =
     (if ci_is_empty other then self
      else if ci_is_empty self then other
      else assemble (joined (ci_nodes self) (ci_nodes other)))"

section \<open>Encoding\<close>

definition ci_encode :: "commit_index \<Rightarrow> bytes" where
  "ci_encode c =
     write_header \<lparr>fh_first = (case try_u64 (ci_first c) of Some f \<Rightarrow> f | None \<Rightarrow> 0),
       fh_records = length (ci_records c), fh_tail = length (ci_tail c)\<rparr> GRAPH [] @
     concat (map (\<lambda>r. record_write r []) (ci_records c)) @ concat (map to_le32 (ci_tail c))"

definition read_records :: "bytes \<Rightarrow> frame_header \<Rightarrow> nat \<Rightarrow> nat \<Rightarrow> (malformed, commit_record list) result" where
  "read_records bytes h from till =
     collect_results (map (\<lambda>at. let at = sat_usize (at * RECORD) in
       case slice (drop HEADER bytes) at (at + RECORD) of
         None \<Rightarrow> Inl (MFrame (Truncated (HEADER + fh_records h * RECORD) (length bytes)))
       | Some chunk \<Rightarrow> Inr (record_read chunk)) [from..<till])"

definition read_tail :: "bytes \<Rightarrow> frame_header \<Rightarrow> u32 list" where
  "read_tail bytes h =
     (let tail_at = sat_usize (fh_records h * RECORD) in
      map (\<lambda>at. let at = sat_usize (tail_at + sat_usize (at * 4)) in
        case slice (drop HEADER bytes) at (at + 4) of None \<Rightarrow> 0 | Some chunk \<Rightarrow> from_le32 chunk)
      [0..<fh_tail h])"

definition stray_extra :: "u32 list \<Rightarrow> commit_record \<Rightarrow> bool" where
  "stray_extra tail r \<longleftrightarrow> cr_extra r \<noteq> NONE \<and> extra_span r tail = None"

definition ci_decode_range :: "bytes \<Rightarrow> key_range \<Rightarrow> (malformed, commit_index) result" where
  "ci_decode_range bytes r =
     (case read_header bytes GRAPH of Inl e \<Rightarrow> Inl (MFrame e)
      | Inr header \<Rightarrow>
     (case first_seq (fh_first header) of Inl e \<Rightarrow> Inl (MFrame e)
      | Inr first \<Rightarrow>
     (case slice_of header r of None \<Rightarrow> Inr ci_default
      | Some (from, till) \<Rightarrow>
          rbind (read_records bytes header from till) (\<lambda>records.
          let read = \<lparr>ci_first = sat_i64 (first + (if int from \<le> i64_max then int from else 0)),
                ci_records = records, ci_tail = read_tail bytes header\<rparr> in
          case find (stray_extra (ci_tail read)) records of
            Some rec \<Rightarrow> Inl (StrayExtra (cr_extra rec))
          | None \<Rightarrow> Inr (assemble (ci_nodes read))))))"

section \<open>Laying nodes out and reading them back\<close>

definition node_words :: "node option \<Rightarrow> nat" where
  "node_words slot = (case slot of None \<Rightarrow> 0 | Some n \<Rightarrow> if nd_extra n = [] then 0 else Suc (length (nd_extra n)))"

definition slot_words :: "node option list \<Rightarrow> nat" where
  "slot_words slots = sum_list (map node_words slots)"

lemma unat_NONE: "unat NONE = 2 ^ 32 - 1"
  by (simp add: NONE_def unsigned_minus_1_eq_mask mask_eq_exp_minus_1)

lemma of_nat_not_NONE: "n < 2 ^ 32 - 1 \<Longrightarrow> (of_nat n :: u32) \<noteq> NONE"
proof
  assume n: "n < 2 ^ 32 - 1" and "(of_nat n :: u32) = NONE"
  then have "unat (of_nat n :: u32) = 2 ^ 32 - 1" by (simp add: unat_NONE)
  with n show False by (simp add: unat_of_nat)
qed

lemma extra_span_stowed:
  assumes "length tail + Suc (length extra) < 2 ^ 32" "extra \<noteq> []" "cr_extra r = of_nat (length tail)"
  shows "extra_span r (tail @ (of_nat (length extra) # extra) @ u) = Some extra"
proof -
  have l: "length tail < 2 ^ 32 - 1" "length extra < 2 ^ 32"
    using assms(1,2) by (auto simp: Suc_le_eq neq_Nil_conv)
  then have "unat (of_nat (length tail) :: u32) = length tail" "unat (of_nat (length extra) :: u32) = length extra"
    by (simp_all add: unat_of_nat)
  then show ?thesis using l of_nat_not_NONE [OF l(1)] assms(3)
    by (simp add: extra_span_def Let_def get_at_def slice_def nth_append)
qed

lemma assemble_slots_spec:
  assumes "length tail + slot_words slots < 2 ^ 32" "\<forall>n. Some n \<in> set slots \<longrightarrow> nd_root_tree n \<noteq> NONE"
  shows "\<exists>rs' t'. assemble_slots slots (rs, tail) = (rs @ rs', tail @ t') \<and> length t' = slot_words slots \<and>
    (\<forall>u. map (record_node (tail @ t' @ u)) rs' = slots \<and> (\<forall>r \<in> set rs'. extra_span r (tail @ t' @ u) \<noteq> None))"
  using assms
proof (induction slots arbitrary: rs tail)
  case Nil
  show ?case by (simp add: slot_words_def)
next
  case (Cons slot slots)
  show ?case
  proof (cases slot)
    case None
    have ab: "record_node t ABSENT = None" "extra_span ABSENT t = Some []" for t
      by (simp_all add: record_node_def ABSENT_def present_def extra_span_def)
    obtain rs' t' where "assemble_slots slots (rs @ [ABSENT], tail) = ((rs @ [ABSENT]) @ rs', tail @ t')"
      "length t' = slot_words slots"
      "\<forall>u. map (record_node (tail @ t' @ u)) rs' = slots \<and> (\<forall>r \<in> set rs'. extra_span r (tail @ t' @ u) \<noteq> None)"
      using Cons.IH [of tail "rs @ [ABSENT]"] Cons.prems None by (auto simp: slot_words_def node_words_def)
    then show ?thesis using None ab
      by (intro exI [of _ "ABSENT # rs'"] exI [of _ t']) (simp add: slot_words_def node_words_def)
  next
    case (Some n)
    define w where "w = (if nd_extra n = [] then [] else of_nat (length (nd_extra n)) # nd_extra n)"
    define e where "e = (if nd_extra n = [] then NONE else of_nat (length tail))"
    define r where "r = \<lparr>cr_parent1 = nd_parent1 n, cr_parent2 = nd_parent2 n, cr_root_tree = nd_root_tree n,
           cr_generation = nd_generation n, cr_extra = e\<rparr>"
    have lw: "length w = node_words slot" by (simp add: w_def Some node_words_def)
    have small: "length tail + length w + slot_words slots < 2 ^ 32"
      using Cons.prems(1) lw by (simp add: slot_words_def)
    have step: "assemble_slots (slot # slots) (rs, tail) = assemble_slots slots (rs @ [r], tail @ w)"
      using small by (auto simp: Some w_def e_def r_def try_u32_def)
    have span: "extra_span r ((tail @ w) @ u) = Some (nd_extra n)" for u
    proof (cases "nd_extra n = []")
      case True
      then show ?thesis by (simp add: r_def e_def extra_span_def)
    next
      case False
      then show ?thesis using extra_span_stowed [of tail "nd_extra n" r u] small
        by (simp add: r_def e_def w_def)
    qed
    then have node: "record_node ((tail @ w) @ u) r = slot" for u
      using Cons.prems(2) Some span [of u]
      by (cases n) (simp add: record_node_def present_def extra_of_def r_def)
    obtain rs' t' where ih: "assemble_slots slots (rs @ [r], tail @ w) = ((rs @ [r]) @ rs', (tail @ w) @ t')"
      "length t' = slot_words slots"
      "\<forall>u. map (record_node ((tail @ w) @ t' @ u)) rs' = slots \<and> (\<forall>r \<in> set rs'. extra_span r ((tail @ w) @ t' @ u) \<noteq> None)"
      using Cons.IH [of "tail @ w" "rs @ [r]"] Cons.prems small by auto
    show ?thesis
      using ih step span node lw
      by (intro exI [of _ "r # rs'"] exI [of _ "w @ t'"]) (simp add: slot_words_def)
  qed
qed

text \<open>The nodes an index can hold: a root tree, and parents packed from the front.\<close>

definition node_ok :: "node \<Rightarrow> bool" where
  "node_ok n \<longleftrightarrow> nd_root_tree n \<noteq> NONE \<and> (nd_parent2 n = NONE \<longrightarrow> nd_extra n = []) \<and>
     (nd_parent1 n = NONE \<longrightarrow> nd_parent2 n = NONE \<and> nd_extra n = []) \<and> NONE \<notin> set (nd_extra n)"

definition strided_fits :: "node strided \<Rightarrow> bool" where
  "strided_fits s \<longleftrightarrow> st_ok s \<and> slot_words (st_slots s) < 2 ^ 32 \<and>
     (\<forall>n. Some n \<in> set (st_slots s) \<longrightarrow> nd_root_tree n \<noteq> NONE)"

lemma assemble_spec:
  assumes "strided_fits s"
  shows "ci_first (assemble s) = st_first s"
    and "map (record_node (ci_tail (assemble s))) (ci_records (assemble s)) = st_slots s"
    and "length (ci_tail (assemble s)) = slot_words (st_slots s)"
    and "\<forall>r \<in> set (ci_records (assemble s)). extra_span r (ci_tail (assemble s)) \<noteq> None"
proof -
  obtain rs t where "assemble_slots (st_slots s) ([], []) = (rs, t)" "length t = slot_words (st_slots s)"
    "map (record_node t) rs = st_slots s" "\<forall>r \<in> set rs. extra_span r t \<noteq> None"
    using assemble_slots_spec [of "[]" "st_slots s" "[]"] assms unfolding strided_fits_def
    by (metis append_Nil append_Nil2 length_0_conv list.size(3) add_0)
  then show "ci_first (assemble s) = st_first s"
    "map (record_node (ci_tail (assemble s))) (ci_records (assemble s)) = st_slots s"
    "length (ci_tail (assemble s)) = slot_words (st_slots s)"
    "\<forall>r \<in> set (ci_records (assemble s)). extra_span r (ci_tail (assemble s)) \<noteq> None"
    by (simp_all add: assemble_def)
qed

lemma st_trimmed_ok: "st_ok s \<Longrightarrow> st_trimmed (st_first s) (st_slots s) = s"
proof -
  assume ok: "st_ok s"
  have b: "0 \<le> st_first s" "st_first s + int (length (st_slots s)) \<le> i64_max"
    using ok by (auto simp: st_ok_def i64_max_def split: if_splits)
  show ?thesis
    by (rule strided_ext) (simp_all add: st_trimmed_spec [OF b] ok st_get_ok)
qed

lemma ci_nodes_assemble: "strided_fits s \<Longrightarrow> ci_nodes (assemble s) = s"
  by (simp add: ci_nodes_def assemble_spec st_trimmed_ok) (simp add: strided_fits_def st_trimmed_ok)

text \<open>What readers see of an entry is the node it was laid out from.\<close>

definition entry_node :: "entry \<Rightarrow> node" where
  "entry_node e = Node (cr_generation (fst e)) (cr_root_tree (fst e)) (cr_parent1 (fst e)) (cr_parent2 (fst e))
     (extra_of (fst e) (snd e))"

definition node_parents :: "node \<Rightarrow> int list" where
  "node_parents n = map uint (takeWhile (\<lambda>p. p \<noteq> NONE) [nd_parent1 n, nd_parent2 n] @ nd_extra n)"

lemma entry_of_node:
  "entry_parents e = node_parents (entry_node e)" "entry_generation e = nd_generation (entry_node e)"
  "entry_root_tree e = ucast (nd_root_tree (entry_node e))"
  by (simp_all add: entry_parents_def node_parents_def entry_node_def entry_generation_def entry_root_tree_def)

lemma ci_get_slot_at:
  assumes "0 \<le> ci_first c" "ci_first c + int (length (ci_records c)) \<le> i64_max"
  shows "map_option entry_node (ci_get c seq) = slot_at (ci_first c) (map (record_node (ci_tail c)) (ci_records c)) seq"
proof -
  define s where "s = \<lparr>st_first = ci_first c, st_slots = map (record_node (ci_tail c)) (ci_records c)\<rparr>"
  have "map_option entry_node (ci_get c seq) = st_get s seq"
    by (auto simp: ci_get_def st_get_def s_def get_at_def record_node_def entry_node_def)
  moreover have "st_get s seq = slot_at (st_first s) (st_slots s) seq"
    using assms by (intro st_get_slot_at) (simp_all add: s_def)
  ultimately show ?thesis by (simp add: s_def)
qed

lemma ci_get_assemble:
  assumes "strided_fits s"
  shows "map_option entry_node (ci_get (assemble s) seq) = st_get s seq"
proof -
  have ok: "st_ok s" using assms by (simp add: strided_fits_def)
  have len: "length (ci_records (assemble s)) = length (st_slots s)"
    using arg_cong [OF assemble_spec(2) [OF assms], of length] by simp
  have "0 \<le> ci_first (assemble s)" "ci_first (assemble s) + int (length (ci_records (assemble s))) \<le> i64_max"
    using ok by (auto simp: assemble_spec [OF assms] len st_ok_def i64_max_def split: if_splits)
  from ci_get_slot_at [OF this] show ?thesis by (simp add: assemble_spec [OF assms] st_get_ok ok)
qed

lemma ci_last_assemble: "strided_fits s \<Longrightarrow> ci_last (assemble s) = st_last s"
proof -
  assume fits: "strided_fits s"
  have ok: "st_ok s" using fits by (simp add: strided_fits_def)
  have pos: "rposition_some (map (\<lambda>r. if present r then Some r else None) rs) = rposition_some (map (record_node t) rs)" for rs t
    unfolding rposition_some_def position_some_def Let_def rev_map takeWhile_map
    by (simp add: comp_def record_node_def if_distrib [of "\<lambda>x. x = None"] cong: if_cong)
  have "rposition_some (map (\<lambda>r. if present r then Some r else None) (ci_records (assemble s))) = rposition_some (st_slots s)"
    unfolding pos [of _ "ci_tail (assemble s)"] assemble_spec(2) [OF fits] ..
  then have "ci_last (assemble s) = (case rposition_some (st_slots s) of None \<Rightarrow> None
      | Some at \<Rightarrow> if int at \<le> i64_max then Some (st_first s + int at) else None)"
    unfolding ci_last_def assemble_spec(1) [OF fits] by simp
  also have "\<dots> = st_last s"
  proof (cases "st_slots s = []")
    case True
    then show ?thesis using ok by (simp add: st_last_ok rposition_some_def position_some_def)
  next
    case False
    then show ?thesis using ok
      by (auto simp: st_last_ok st_ok_def rposition_last i64_max_def of_nat_diff Suc_le_eq)
  qed
  finally show ?thesis .
qed

lemma ci_range_assemble: "strided_fits s \<Longrightarrow> ci_range (assemble s) = st_range s"
  unfolding ci_range_def st_range_def by (simp only: ci_last_assemble assemble_spec(1))

lemma ci_is_empty_assemble: "strided_fits s \<Longrightarrow> ci_is_empty (assemble s) \<longleftrightarrow> st_slots s = []"
  by (simp add: ci_is_empty_def ci_last_assemble st_last_ok strided_fits_def)

section \<open>Capacity\<close>

text \<open>The arrays the tail has room for, by the tail words each node takes.\<close>

abbreviation within :: "(nat \<Rightarrow> nat) \<Rightarrow> node strided \<Rightarrow> bool" where
  "within \<equiv> within_by node_ok (\<lambda>n. node_words (Some n))"

definition ci_ok :: "(nat \<Rightarrow> nat) \<Rightarrow> commit_index \<Rightarrow> bool" where
  "ci_ok cap c \<longleftrightarrow> within cap (ci_nodes c) \<and> c = assemble (ci_nodes c)"

lemma slot_weight_words: "slot_weight (\<lambda>n. node_words (Some n)) = node_words"
  by (auto simp: fun_eq_iff slot_weight_def node_words_def split: option.split)

lemma within_fits:
  assumes "capacity cap" "within cap s"
  shows "strided_fits s"
  using within_weight [OF assms] within_good [OF assms(2)] within_ok [OF assms(2)]
  by (auto simp: strided_fits_def slot_words_def slot_weight_words node_ok_def)

lemma ci_ok_assemble: "capacity cap \<Longrightarrow> within cap s \<Longrightarrow> ci_ok cap (assemble s) \<and> ci_nodes (assemble s) = s"
  using within_fits [of cap s] by (simp add: ci_ok_def ci_nodes_assemble)

lemma ci_ok_eq: "ci_ok cap c \<longleftrightarrow> within cap (ci_nodes c) \<and> c = assemble (ci_nodes c)"
  by (fact ci_ok_def)

lemma ci_ok_fits: "capacity cap \<Longrightarrow> ci_ok cap c \<Longrightarrow> strided_fits (ci_nodes c) \<and> assemble (ci_nodes c) = c"
  using within_fits [of cap "ci_nodes c"] by (simp add: ci_ok_def)

lemma ci_ok_ext: "ci_ok cap a \<Longrightarrow> ci_ok cap b \<Longrightarrow> ci_nodes a = ci_nodes b \<Longrightarrow> a = b"
  by (metis ci_ok_def)

lemma ci_join_spec:
  assumes "capacity cap" "ci_ok cap a" "ci_ok cap b"
  shows "ci_ok cap (ci_join a b)" "ci_nodes (ci_join a b) = joined (ci_nodes a) (ci_nodes b)"
proof -
  note fa = ci_ok_fits [OF assms(1,2)] and fb = ci_ok_fits [OF assms(1,3)]
  have empty: "ci_is_empty a \<longleftrightarrow> st_is_empty (ci_nodes a)" "ci_is_empty b \<longleftrightarrow> st_is_empty (ci_nodes b)"
    using ci_is_empty_assemble [of "ci_nodes a"] ci_is_empty_assemble [of "ci_nodes b"] fa fb
    by (simp_all add: strided_fits_def)
  have w: "within cap (joined (ci_nodes a) (ci_nodes b))"
    using assms by (intro within_joined) (simp_all add: ci_ok_def)
  have "ci_ok cap (ci_join a b) \<and> ci_nodes (ci_join a b) = joined (ci_nodes a) (ci_nodes b)"
    using assms empty ci_ok_assemble [OF assms(1) w] by (auto simp: ci_join_def joined_def)
  then show "ci_ok cap (ci_join a b)" "ci_nodes (ci_join a b) = joined (ci_nodes a) (ci_nodes b)" by simp_all
qed

section \<open>The encoding reads back\<close>

lemma field32_stride: "i < length ws \<Longrightarrow> field32 (concat (map to_le32 ws) @ rest) (i * 4) = ws ! i"
  using slice_stride [of ws to_le32 4 i rest] by (simp add: field32_def)

lemma length_record_write [simp]: "length (record_write r []) = RECORD"
  by (simp add: record_write_def RECORD_def)

lemma record_read_write: "record_read (record_write r []) = r"
proof -
  define ws where "ws = [cr_parent1 r, cr_parent2 r, cr_root_tree r, cr_generation r, cr_extra r]"
  have "record_write r [] = concat (map to_le32 ws) @ []" by (simp add: record_write_def ws_def)
  then have f: "field32 (record_write r []) (i * 4) = ws ! i" if "i < 5" for i
    using that field32_stride [of i ws "[]"] by (simp add: ws_def)
  show ?thesis
    using f [of 0] f [of 1] f [of 2] f [of 3] f [of 4] by (simp add: record_read_def ws_def)
qed

definition ci_header :: "commit_index \<Rightarrow> frame_header" where
  "ci_header c = \<lparr>fh_first = of_int (ci_first c), fh_records = length (ci_records c), fh_tail = length (ci_tail c)\<rparr>"

definition ci_sized :: "commit_index \<Rightarrow> bool" where
  "ci_sized c \<longleftrightarrow> 0 \<le> ci_first c \<and> ci_first c < 2 ^ 32 \<and> length (ci_records c) < 2 ^ 32 \<and> length (ci_tail c) < 2 ^ 32"

lemma ci_header_ok: "ci_sized c \<Longrightarrow> header_ok (ci_header c) GRAPH"
proof -
  assume c: "ci_sized c"
  have "unat (of_int (ci_first c) :: u64) = nat (ci_first c)"
    using c by (simp add: ci_sized_def unsigned_of_int nat_take_bit_eq take_bit_int_eq_self)
  moreover have "nat (ci_first c) < 2 ^ 63" using c by (simp add: ci_sized_def nat_less_iff)
  ultimately show ?thesis using c by (simp add: header_ok_def ci_header_def GRAPH_def ci_sized_def)
qed

lemma ci_encode_parts:
  assumes "ci_sized c"
  shows "ci_encode c = write_header (ci_header c) GRAPH [] @
    concat (map (\<lambda>r. record_write r []) (ci_records c)) @ concat (map to_le32 (ci_tail c))"
  using assms by (simp add: ci_encode_def ci_header_def ci_sized_def try_u64_def)

lemma ci_body_length:
  "length (concat (map (\<lambda>r. record_write r []) rs) @ concat (map to_le32 tail)) = length rs * RECORD + length tail * 4"
  by (simp add: length_concat_stride [where k = RECORD] length_concat_stride [where k = 4])

lemma read_header_ci_encode:
  assumes "ci_sized c"
  shows "read_header (ci_encode c) GRAPH = Inr (ci_header c)"
proof -
  have "length (concat (map (\<lambda>r. record_write r []) (ci_records c)) @ concat (map to_le32 (ci_tail c))) =
      body_length (ci_header c) GRAPH"
    unfolding ci_body_length by (simp add: body_length_def ci_header_def GRAPH_def)
  moreover have "HEADER + body_length (ci_header c) GRAPH \<le> usize_max"
    using assms by (simp add: body_length_def ci_header_def GRAPH_def ci_sized_def HEADER_def RECORD_def usize_max_def)
  ultimately show ?thesis
    unfolding ci_encode_parts [OF assms] using ci_header_ok [OF assms] by (intro read_header_write) simp_all
qed

lemma drop_header_ci_encode:
  "ci_sized c \<Longrightarrow> drop HEADER (ci_encode c) =
     concat (map (\<lambda>r. record_write r []) (ci_records c)) @ concat (map to_le32 (ci_tail c))"
  using ci_header_ok [of c] by (simp add: ci_encode_parts)

lemma read_records_ci_encode:
  assumes "ci_sized c" "till \<le> length (ci_records c)"
  shows "read_records (ci_encode c) (ci_header c) from till = Inr (map ((!) (ci_records c)) [from..<till])"
proof -
  have "(let at = sat_usize (at * RECORD) in
       case slice (drop HEADER (ci_encode c)) at (at + RECORD) of
         None \<Rightarrow> Inl (MFrame (Truncated (HEADER + fh_records (ci_header c) * RECORD) (length (ci_encode c))))
       | Some chunk \<Rightarrow> Inr (record_read chunk)) = Inr (ci_records c ! at)" if "at \<in> set [from..<till]" for at
  proof -
    have "at < length (ci_records c)" using that assms(2) by simp
    moreover from this have "sat_usize (at * RECORD) = at * RECORD"
      using assms(1) by (simp add: ci_sized_def RECORD_def usize_max_def)
    ultimately show ?thesis
      using slice_stride [of "ci_records c" "\<lambda>r. record_write r []" RECORD at]
      by (simp add: drop_header_ci_encode assms(1) record_read_write)
  qed
  then show ?thesis
    unfolding read_records_def by (subst map_cong [OF refl, where g = "\<lambda>at. Inr (ci_records c ! at)"]) simp_all
qed

lemma read_tail_ci_encode:
  assumes "ci_sized c"
  shows "read_tail (ci_encode c) (ci_header c) = ci_tail c"
proof -
  let ?rs = "concat (map (\<lambda>r. record_write r []) (ci_records c))"
  have len: "length ?rs = length (ci_records c) * RECORD" by (simp add: length_concat_stride [where k = RECORD])
  have "(case slice (?rs @ concat (map to_le32 (ci_tail c))) (length ?rs + at * 4) (length ?rs + at * 4 + 4) of
      None \<Rightarrow> 0 | Some chunk \<Rightarrow> from_le32 chunk) = ci_tail c ! at" if "at < length (ci_tail c)" for at
    using slice_stride [of "ci_tail c" to_le32 4 at "[]"] that
    by (auto simp: slice_def split: if_splits)
  moreover have "sat_usize (sat_usize (length (ci_records c) * RECORD) + sat_usize (at * 4)) = length ?rs + at * 4"
    if "at < length (ci_tail c)" for at
    using that assms unfolding len by (simp add: ci_sized_def RECORD_def usize_max_def sat_usize_def)
  ultimately have "map (\<lambda>at. let at = sat_usize (sat_usize (length (ci_records c) * RECORD) + sat_usize (at * 4)) in
      case slice (?rs @ concat (map to_le32 (ci_tail c))) at (at + 4) of None \<Rightarrow> 0 | Some chunk \<Rightarrow> from_le32 chunk)
    [0..<length (ci_tail c)] = map ((!) (ci_tail c)) [0..<length (ci_tail c)]"
    by (intro map_cong) (simp_all add: Let_def)
  then show ?thesis
    by (simp add: read_tail_def drop_header_ci_encode assms ci_header_def map_nth)
qed

lemma ci_ok_parts:
  assumes "capacity cap" "ci_ok cap c"
  shows "ci_sized c" "ci_first c = st_first (ci_nodes c)"
    "map (record_node (ci_tail c)) (ci_records c) = st_slots (ci_nodes c)"
    "\<forall>r \<in> set (ci_records c). extra_span r (ci_tail c) \<noteq> None"
proof -
  note f = ci_ok_fits [OF assms]
  then have s: "strided_fits (ci_nodes c)" and a: "assemble (ci_nodes c) = c" by simp_all
  note spec = assemble_spec [OF s, unfolded a]
  show "ci_first c = st_first (ci_nodes c)"
    "map (record_node (ci_tail c)) (ci_records c) = st_slots (ci_nodes c)"
    "\<forall>r \<in> set (ci_records c). extra_span r (ci_tail c) \<noteq> None" by (fact spec)+
  have len: "length (ci_records c) = length (st_slots (ci_nodes c))" using arg_cong [OF spec(2), of length] by simp
  have w: "within cap (ci_nodes c)" using assms(2) by (simp add: ci_ok_def)
  show "ci_sized c"
  proof (cases "st_slots (ci_nodes c) = []")
    case True
    with s spec len show ?thesis by (simp add: ci_sized_def strided_fits_def st_ok_def slot_words_def)
  next
    case False
    with within_bounds [OF w False] s spec len show ?thesis
      by (auto simp: ci_sized_def strided_fits_def MAX_SEQ_def)
  qed
qed

lemma ci_decode_encode:
  assumes "capacity cap" "ci_ok cap c" "range_ok r"
  shows "\<exists>b. ci_decode_range (ci_encode c) r = Inr b \<and> ci_ok cap b \<and>
    (\<forall>seq. st_get (ci_nodes b) seq = (if contains r (of_int seq) then st_get (ci_nodes c) seq else None))"
proof -
  note p = ci_ok_parts [OF assms(1,2)]
  define s where "s = ci_nodes c"
  have w: "within cap s" using assms(2) by (simp add: ci_ok_def s_def)
  have len: "length (ci_records c) = length (st_slots s)" using arg_cong [OF p(3), of length] by (simp add: s_def)
  note sz = within_size [OF w]
  have head: "read_header (ci_encode c) GRAPH = Inr (ci_header c)" by (rule read_header_ci_encode [OF p(1)])
  have first: "first_seq (fh_first (ci_header c)) = Inr (st_first s)"
    using sz by (simp add: ci_header_def p(2) first_seq_of_int flip: s_def)
  have h: "fh_first (ci_header c) = of_int (st_first s)" "fh_records (ci_header c) = length (st_slots s)"
    by (simp_all add: ci_header_def p(2) s_def len [unfolded s_def])
  note window = within_ok [OF w] ci_header_ok [OF p(1)] assms(3) h
  show ?thesis
  proof (cases "slice_of (ci_header c) r")
    case None
    then have "ci_decode_range (ci_encode c) r = Inr ci_default"
      by (simp add: ci_decode_range_def head first)
    moreover have "ci_default = assemble st_default" by (simp add: ci_default_def assemble_def st_default_def)
    moreover have "st_get s seq = None" if "contains r (of_int seq)" for seq
      by (rule window_None [OF window None that])
    ultimately show ?thesis
      using ci_ok_assemble [OF assms(1) within_default]
      by (intro exI [of _ ci_default]) (auto simp: st_default_def st_get_empty simp flip: s_def)
  next
    case (Some ft)
    then obtain f t where ft: "slice_of (ci_header c) r = Some (f, t)" by (cases ft) auto
    define s' where "s' = st_trimmed (st_first s + int f) (map ((!) (st_slots s)) [f..<t])"
    note win = window_Some [OF window ft, folded s'_def]
    define rs where "rs = map ((!) (ci_records c)) [f..<t]"
    have "record_node (ci_tail c) (ci_records c ! i) = st_slots s ! i" if "i < length (st_slots s)" for i
      using that p(3) len by (metis nth_map s_def)
    then have slots: "map (record_node (ci_tail c)) rs = map ((!) (st_slots s)) [f..<t]"
      using win(2) by (auto simp: rs_def)
    have stray: "find (stray_extra (ci_tail c)) rs = None"
      using p(4) win(2) len by (auto simp: find_None_iff rs_def stray_extra_def)
    have "within cap s'" using w win(3) by (rule within_restrict) (simp add: win(4))
    note okb = ci_ok_assemble [OF assms(1) this]
    have "ci_decode_range (ci_encode c) r = Inr (assemble s')"
      using ft win(1,2) sz stray slots
      by (simp add: ci_decode_range_def head first read_records_ci_encode [OF p(1)] read_tail_ci_encode [OF p(1)]
          len ci_nodes_def s'_def sat_i64_def i64_min_def i64_max_def flip: rs_def)
    with okb win(4) show ?thesis by (simp flip: s_def)
  qed
qed

section \<open>The index as a segment\<close>

definition ci_at :: "commit_index \<Rightarrow> key \<Rightarrow> node option" where
  "ci_at c k = map_option entry_node (ci_get c (uint k))"

lemma ci_at_nodes: "capacity cap \<Longrightarrow> ci_ok cap c \<Longrightarrow> ci_at c k = st_get (ci_nodes c) (uint k)"
  using ci_ok_fits [of cap c] ci_get_assemble [of "ci_nodes c" "uint k"] by (simp add: ci_at_def)

lemma ci_nodes_ok: "ci_ok cap c \<Longrightarrow> st_ok (ci_nodes c)"
  by (simp add: ci_ok_def within_by_def)

lemma ci_range_nodes: "capacity cap \<Longrightarrow> ci_ok cap c \<Longrightarrow> ci_range c = st_range (ci_nodes c)"
  using ci_ok_fits [of cap c] ci_range_assemble [of "ci_nodes c"] by simp

definition commit_ops :: "(commit_index, malformed) segment_ops" where
  "commit_ops = \<lparr>so_join = ci_join, so_range = ci_range, so_encode = ci_encode, so_decode_range = ci_decode_range\<rparr>"

lemma commit_ops_simps [simp]:
  "so_join commit_ops = ci_join" "so_range commit_ops = ci_range" "so_encode commit_ops = ci_encode"
  "so_decode_range commit_ops = ci_decode_range"
  by (simp_all add: commit_ops_def)

lemma segment_commits:
  assumes enough: "capacity cap"
  shows "segment commit_ops (ci_ok cap) max ci_at"
proof (unfold_locales; (unfold commit_ops_simps)?)
  fix a b c :: commit_index and r :: key_range and k :: key and x y z :: "node option"
  note js = ci_join_spec [OF enough] and ok = ci_nodes_ok [of cap] and at = ci_at_nodes [OF enough]
  show "ci_ok cap a \<Longrightarrow> ci_ok cap b \<Longrightarrow> ci_ok cap (ci_join a b)" by (rule js)
  show "ci_ok cap a \<Longrightarrow> ci_ok cap b \<Longrightarrow> ci_ok cap c \<Longrightarrow> ci_join (ci_join a b) c = ci_join a (ci_join b c)"
    by (rule ci_ok_ext [of cap]) (simp_all add: js ok strided_join.join_assoc)
  show "ci_ok cap a \<Longrightarrow> ci_ok cap b \<Longrightarrow> ci_join a b = ci_join b a"
    by (rule ci_ok_ext [of cap]) (simp_all add: js ok strided_join.join_comm)
  show "ci_ok cap a \<Longrightarrow> ci_join a a = a"
    by (rule ci_ok_ext [of cap]) (simp_all add: js ok strided_join.join_idem)
  show "ci_decode_range (ci_encode a) EVERYTHING = Inr a" if "ci_ok cap a"
  proof -
    from ci_decode_encode [OF enough that, of EVERYTHING] obtain b where
      b: "ci_decode_range (ci_encode a) EVERYTHING = Inr b" "ci_ok cap b"
        "\<And>seq. st_get (ci_nodes b) seq = st_get (ci_nodes a) seq" by auto
    then have "ci_nodes b = ci_nodes a" using that by (intro strided_ext) (simp_all add: ok)
    with b that show ?thesis using ci_ok_ext by metis
  qed
  show "\<exists>b. ci_decode_range (ci_encode a) r = Inr b \<and> ci_ok cap b \<and>
        (\<forall>k. ci_at b k = (if contains r k then ci_at a k else None))"
    if "ci_ok cap a" "range_ok r"
    using ci_decode_encode [OF enough that] that(1) by (auto simp: at)
  show "\<exists>r. ci_range a = Some r \<and> contains r k" if "ci_ok cap a" "ci_at a k \<noteq> None"
    using st_get_in_range [of "ci_nodes a" "uint k"] that ok at ci_range_nodes [OF enough that(1)] by auto
  show "range_ok r" if "ci_ok cap a" "ci_range a = Some r"
    using that by (auto simp: ci_range_def split: option.splits sum.splits dest: key_range_new_ok)
  show "ci_at (ci_join a b) k = max (ci_at a k) (ci_at b k)" if "ci_ok cap a" "ci_ok cap b"
    using that by (simp add: at js joined_spec ok)
  show "max None x = x" "max x x = x" by simp_all
  show "max (max x y) z = max x (max y z)" by (rule max.assoc)
  show "max x y = max y x" by (rule max.commute)
qed simp_all

locale commit_capacity =
  fixes cap :: "nat \<Rightarrow> nat"
  assumes enough: "capacity cap"

sublocale commit_capacity \<subseteq> commits: segment commit_ops "ci_ok cap" max ci_at
  by (rule segment_commits) (rule enough)

lemma capacity_octopus: "capacity (\<lambda>seq. if seq < 2 ^ 24 then 64 else 0)"
proof -
  have "(\<Sum>seq < MAX_SEQ. if seq < 2 ^ 24 then 64 else 0) = (\<Sum>seq < (2 :: nat) ^ 24. 64 :: nat)"
    by (rule sum.mono_neutral_cong_right) (auto simp: MAX_SEQ_def)
  then show ?thesis by (simp add: capacity_def)
qed

text \<open>A repository whose first \<open>2 ^ 24\<close> commits take up to 64 tail words each is within capacity.\<close>

interpretation octopus: commit_capacity "\<lambda>seq. if seq < 2 ^ 24 then 64 else 0"
  by unfold_locales (rule capacity_octopus)

section \<open>Properties of the index\<close>

text \<open>
  C1: joining commit indexes is associative, commutative and idempotent and stays within the index's
  invariant; the join answers every seq with the greater of the two nodes; and composing any list of
  indexes depends only on which indexes are in it, not on their order or on repeats.
\<close>

theorem commit_index_join:
  assumes "capacity cap" "ci_ok cap a" "ci_ok cap b" "ci_ok cap c"
  shows "ci_ok cap (ci_join a b) \<and> ci_join (ci_join a b) c = ci_join a (ci_join b c) \<and>
    ci_join a b = ci_join b a \<and> ci_join a a = a \<and> ci_at (ci_join a b) k = max (ci_at a k) (ci_at b k) \<and>
    (\<forall>xs ys. (\<forall>x \<in> set xs. ci_ok cap x) \<longrightarrow> set xs = set ys \<longrightarrow> compose ci_join xs = compose ci_join ys)"
proof (intro conjI allI impI)
  note seg = segment_commits [OF assms(1)]
  note laws = segment.axioms(1) [OF seg, unfolded commit_ops_simps]
  show "ci_ok cap (ci_join a b)" by (rule join_laws.join_valid [OF laws assms(2,3)])
  show "ci_join (ci_join a b) c = ci_join a (ci_join b c)" by (rule join_laws.join_assoc [OF laws assms(2-4)])
  show "ci_join a b = ci_join b a" by (rule join_laws.join_comm [OF laws assms(2,3)])
  show "ci_join a a = a" by (rule join_laws.join_idem [OF laws assms(2)])
  show "ci_at (ci_join a b) k = max (ci_at a k) (ci_at b k)" by (rule segment.at_join [OF seg assms(2,3), unfolded commit_ops_simps])
  show "\<forall>x \<in> set xs. ci_ok cap x \<Longrightarrow> set xs = set ys \<Longrightarrow> compose ci_join xs = compose ci_join ys" for xs ys
    by (rule join_laws.compose_set_eq [OF laws])
qed

definition example_slots :: "node strided" where
  "example_slots = \<lparr>st_first = 5, st_slots = [Some (Node 3 1 2 4 [0]), None, Some (Node 9 2 5 NONE [])]\<rparr>"

definition example_index :: commit_index where
  "example_index = assemble example_slots"

definition example_cap :: "nat \<Rightarrow> nat" where
  "example_cap seq = (if seq < 2 ^ 24 then 64 else 0)"

lemma example_slots_get:
  assumes "st_get example_slots seq = Some n"
  shows "(seq = 5 \<and> n = Node 3 1 2 4 [0]) \<or> (seq = 7 \<and> n = Node 9 2 5 NONE [])"
proof -
  have "st_ok example_slots" by (simp add: st_ok_def example_slots_def i64_max_def)
  then have s: "slot_at 5 [Some (Node 3 1 2 4 [0]), None, Some (Node 9 2 5 NONE [])] seq = Some n"
    using assms st_get_ok [of example_slots seq] by (simp add: example_slots_def)
  then have "seq = 5 \<or> seq = 6 \<or> seq = 7" by (auto simp: slot_at_def split: if_splits)
  with s show ?thesis by (auto simp: slot_at_def)
qed

lemma example_slots_within: "within example_cap example_slots"
proof -
  have "st_ok example_slots" by (simp add: st_ok_def example_slots_def i64_max_def)
  with example_slots_get show ?thesis
    by (fastforce simp: within_by_def node_ok_def node_words_def example_cap_def MAX_SEQ_def NONE_def)
qed

lemma example_index_ok: "capacity example_cap" "ci_ok example_cap example_index"
proof -
  show cap: "capacity example_cap"
    using capacity_octopus by (simp add: example_cap_def [abs_def])
  show "ci_ok example_cap example_index"
    using ci_ok_assemble [OF cap example_slots_within] by (simp add: example_index_def)
qed

theorem commit_index_join_witness:
  "ci_at (ci_join example_index example_index) 5 = max (ci_at example_index 5) (ci_at example_index 5)"
  by (rule commit_index_join [OF example_index_ok example_index_ok(2) example_index_ok(2), THEN conjunct2,
      THEN conjunct2, THEN conjunct2, THEN conjunct2, THEN conjunct1])

text \<open>
  C2: an index survives its encoding: decoding everything gives the value back, and decoding a range
  gives an index within the invariant that answers every key of the range as the whole does and
  answers no key differently.
\<close>

theorem commit_index_codec:
  assumes "capacity cap" "ci_ok cap c" "range_ok r"
  shows "ci_decode_range (ci_encode c) EVERYTHING = Inr c \<and>
    (\<exists>b. ci_decode_range (ci_encode c) r = Inr b \<and> ci_ok cap b \<and>
      (\<forall>k. ci_at b k = (if contains r k then ci_at c k else None)))"
proof -
  note seg = segment_commits [OF assms(1)]
  obtain b where b: "ci_decode_range (ci_encode c) r = Inr b" "ci_ok cap b"
    "\<forall>seq. st_get (ci_nodes b) seq = (if contains r (of_int seq) then st_get (ci_nodes c) seq else None)"
    using ci_decode_encode [OF assms] by blast
  then show ?thesis
    using segment.round_trip [OF seg assms(2)] assms
    by (auto simp: ci_at_nodes [OF assms(1)])
qed

theorem commit_index_codec_witness:
  "ci_decode_range (ci_encode example_index) EVERYTHING = Inr example_index"
  using commit_index_codec [OF example_index_ok, of EVERYTHING] by simp

section \<open>What a builder builds\<close>

definition builder_ok :: "(nat \<Rightarrow> nat) \<Rightarrow> builder \<Rightarrow> bool" where
  "builder_ok cap b \<longleftrightarrow> sorted_wrt (<) (map fst (bl_commits b)) \<and>
     (\<forall>(seq, n) \<in> set (bl_commits b). 0 \<le> seq \<and> seq < int MAX_SEQ \<and> node_ok n \<and> node_words (Some n) \<le> cap (nat seq))"

lemma builder_ok_nodes: "builder_ok cap b \<Longrightarrow> nodes_ok (bl_commits b)"
  by (fastforce simp: builder_ok_def nodes_ok_def MAX_SEQ_def i64_max_def)

lemma builder_ok_within: "builder_ok cap b \<Longrightarrow> within cap (laid_out (bl_commits b))"
  using laid_out_spec [OF builder_ok_nodes [of cap b]]
  by (fastforce simp: within_by_def builder_ok_def dest: map_of_SomeD)

lemma builder_build_get:
  assumes "capacity cap" "builder_ok cap b"
  shows "ci_ok cap (builder_build b)" "map_option entry_node (ci_get (builder_build b) seq) = map_of (bl_commits b) seq"
  using ci_ok_assemble [OF assms(1) builder_ok_within [OF assms(2)]]
    ci_get_assemble [OF within_fits [OF assms(1) builder_ok_within [OF assms(2)]]]
    laid_out_spec(2) [OF builder_ok_nodes [OF assms(2)]]
  by (simp_all add: builder_build_def)

lemma commit_slot_Inr:
  assumes "commit_slot seq = Inr w"
  shows "0 \<le> seq" "seq < int MAX_SEQ" "uint w = seq" "w \<noteq> NONE"
proof -
  have w: "0 \<le> seq" "seq < 2 ^ 32" "w = of_int seq" "w \<noteq> NONE"
    using assms by (auto simp: commit_slot_def split: if_splits)
  then have u: "uint w = seq" by (simp add: unsigned_of_int take_bit_int_eq_self)
  have "seq \<noteq> 2 ^ 32 - 1"
  proof
    assume "seq = 2 ^ 32 - 1"
    with u have "unat w = unat NONE" unfolding unat_NONE by (simp flip: nat_uint_eq)
    with w(4) show False by (simp add: word_unat_eq_iff)
  qed
  with w u show "0 \<le> seq" "seq < int MAX_SEQ" "uint w = seq" "w \<noteq> NONE" by (simp_all add: MAX_SEQ_def)
qed

lemma collect_slots:
  "collect_results (map commit_slot ps) = Inr ws \<Longrightarrow> map uint ws = ps \<and> NONE \<notin> set ws"
  by (induction ps arbitrary: ws) (fastforce simp: result_simps dest: commit_slot_Inr)+

lemma insert_node_parents:
  assumes "optional_slot (get_at ps 0) = Inr p1" "optional_slot (get_at ps 1) = Inr p2"
    "collect_results (map commit_slot (drop 2 ps)) = Inr extra" "root \<noteq> NONE"
  shows "node_parents (Node g root p1 p2 extra) = ps" "node_ok (Node g root p1 p2 extra)"
    "length extra = length ps - 2"
proof -
  note ex = collect_slots [OF assms(3)]
  show "length extra = length ps - 2" using arg_cong [OF conjunct1 [OF ex], of length] by simp
  consider "ps = []" | a where "ps = [a]" | a b rest where "ps = a # b # rest" by (metis list.exhaust)
  then have "node_parents (Node g root p1 p2 extra) = ps \<and> node_ok (Node g root p1 p2 extra)"
    by cases (use assms ex in \<open>auto simp: optional_slot_def get_at_def node_parents_def node_ok_def
        dest: commit_slot_Inr(3,4)\<close>)
  then show "node_parents (Node g root p1 p2 extra) = ps" "node_ok (Node g root p1 p2 extra)" by simp_all
qed

lemma object_slot_Inr: "object_slot seq = Inr w \<Longrightarrow> ucast w = seq \<and> w \<noteq> NONE"
proof -
  assume "object_slot seq = Inr w"
  then have w: "unat seq < 2 ^ 32" "w = ucast seq" "w \<noteq> NONE" by (auto simp: object_slot_def split: if_splits)
  have "unat (ucast w :: u64) = unat seq"
    using w(1) by (simp add: w(2) unsigned_ucast_eq unsigned_take_bit_eq take_bit_nat_eq_self)
  then show ?thesis using w(3) by (simp add: word_unat_eq_iff)
qed

lemma builder_insert_node:
  assumes "builder_insert b seq commit = Inr b'"
  obtains n where "b' = b\<lparr>bl_commits := btree_insert seq n (bl_commits b)\<rparr>" "node_ok n" "node_parents n = nc_parents commit"
    "ucast (nd_root_tree n) = nc_root_tree commit" "nd_generation n = nc_generation commit"
    "length (nd_extra n) = length (nc_parents commit) - 2" "0 \<le> seq" "seq < int MAX_SEQ"
proof -
  obtain root p1 p2 extra where
    r: "object_slot (nc_root_tree commit) = Inr root" and
    p: "optional_slot (get_at (nc_parents commit) 0) = Inr p1" "optional_slot (get_at (nc_parents commit) 1) = Inr p2"
      "collect_results (map commit_slot (drop 2 (nc_parents commit))) = Inr extra" and
    s: "\<exists>w. commit_slot seq = Inr w" and
    b': "b' = b\<lparr>bl_commits := btree_insert seq (Node (nc_generation commit) root p1 p2 extra) (bl_commits b)\<rparr>"
    using assms by (auto simp: builder_insert_def Let_def result_simps commit_seq_def)
  from that [OF b'] show thesis
    using insert_node_parents [OF p, of root] object_slot_Inr [OF r] s commit_slot_Inr(1,2) [of seq] by auto
qed

lemma few_parents: "length (nd_extra n) = k - 2 \<Longrightarrow> k \<le> 2 \<or> k - 1 \<le> c \<Longrightarrow> node_words (Some n) \<le> c"
  by (cases "nd_extra n") (auto simp: node_words_def)

lemma builder_ok_insert:
  assumes "builder_ok cap b" "node_ok n" "node_words (Some n) \<le> cap (nat seq)" "0 \<le> seq" "seq < int MAX_SEQ"
  shows "builder_ok cap (b\<lparr>bl_commits := btree_insert seq n (bl_commits b)\<rparr>)"
  using assms set_btree_insert [of seq n "bl_commits b"] by (auto simp: builder_ok_def btree_insert_sorted)

text \<open>
  C3: inserting a commit and building gives an index within its invariant that answers the commit's
  seq with exactly the parents in order, root tree and generation that were inserted, and every other
  seq as before. The insert is refused only for a seq that does not fit the slots.
\<close>

theorem builder_insert_get:
  assumes "capacity cap" "builder_ok cap b" "builder_insert b seq commit = Inr b'"
    "length (nc_parents commit) \<le> 2 \<or> length (nc_parents commit) - 1 \<le> cap (nat seq)"
  shows "builder_ok cap b' \<and> ci_ok cap (builder_build b') \<and>
    (\<exists>e. ci_get (builder_build b') seq = Some e \<and> entry_parents e = nc_parents commit \<and>
       entry_root_tree e = nc_root_tree commit \<and> entry_generation e = nc_generation commit) \<and>
    (\<forall>other. other \<noteq> seq \<longrightarrow> map_option entry_node (ci_get (builder_build b') other) =
       map_option entry_node (ci_get (builder_build b) other))"
proof -
  obtain n where b': "b' = b\<lparr>bl_commits := btree_insert seq n (bl_commits b)\<rparr>"
    and n: "node_ok n" "node_parents n = nc_parents commit" "ucast (nd_root_tree n) = nc_root_tree commit"
      "nd_generation n = nc_generation commit" "length (nd_extra n) = length (nc_parents commit) - 2"
    and seq: "0 \<le> seq" "seq < int MAX_SEQ"
    by (rule builder_insert_node [OF assms(3)])
  have ok': "builder_ok cap b'"
    unfolding b' by (rule builder_ok_insert [OF assms(2) n(1) few_parents [OF n(5) assms(4)] seq])
  have get: "map_option entry_node (ci_get (builder_build b') other) =
      (if other = seq then Some n else map_of (bl_commits b) other)" for other
    using builder_build_get(2) [OF assms(1) ok'] by (simp add: b')
  obtain e where e: "ci_get (builder_build b') seq = Some e" "entry_node e = n" using get [of seq] by auto
  then have "entry_parents e = nc_parents commit \<and> entry_root_tree e = nc_root_tree commit \<and>
      entry_generation e = nc_generation commit"
    using n by (simp add: entry_of_node)
  then show ?thesis
    using e ok' builder_build_get(1) [OF assms(1) ok'] get builder_build_get(2) [OF assms(1,2)] by auto
qed

definition example_commit :: new_commit where
  "example_commit = \<lparr>nc_parents = [3, 1], nc_root_tree = 9, nc_generation = 12\<rparr>"

theorem builder_insert_get_witness:
  "\<exists>e. ci_get (builder_build (builder_new\<lparr>bl_commits := [(4, Node 12 9 3 1 [])]\<rparr>)) 4 = Some e \<and>
     entry_parents e = [3, 1] \<and> entry_root_tree e = 9 \<and> entry_generation e = 12"
proof -
  have "builder_ok example_cap builder_new" by (simp add: builder_ok_def builder_new_def)
  moreover have "builder_insert builder_new 4 example_commit = Inr (builder_new\<lparr>bl_commits := [(4, Node 12 9 3 1 [])]\<rparr>)"
    by (simp add: builder_insert_def example_commit_def object_slot_def optional_slot_def commit_slot_def
        commit_seq_def get_at_def builder_new_def NONE_def)
  ultimately show ?thesis
    using builder_insert_get [OF example_index_ok(1), of builder_new 4 example_commit]
    by (simp add: example_commit_def)
qed

section \<open>Generations\<close>

lemma sat_add_one: "unat (sat_add a (1 :: u32)) = min (unat a + 1) (2 ^ 32 - 1)"
proof (cases "unat a + 1 < 2 ^ 32")
  case True
  then have "unat (a + 1) = unat a + 1" by (simp add: unat_word_ariths)
  with True show ?thesis by (simp add: sat_add_def)
next
  case False
  then show ?thesis using unat_bound [of a] by (simp add: sat_add_def unsigned_minus_1_eq_mask mask_eq_exp_minus_1)
qed

lemma unat_max: "unat (max a b) = max (unat a) (unat (b :: u32))"
  by (simp add: max_def word_le_nat_alt)

lemma corrected_date_parents:
  assumes "p \<in> set parents"
  shows "min (unat p + 1) (2 ^ 32 - 1) \<le> unat (corrected_date d parents)"
proof -
  have "p \<le> Max (set parents)" using assms by simp
  then have "unat p \<le> unat (Max (set parents))" by (simp add: word_le_nat_alt)
  moreover have "unat (sat_add (Max (set parents)) 1) \<le> unat (corrected_date d parents)"
    using assms by (auto simp: corrected_date_def Let_def unat_max)
  ultimately show ?thesis by (simp add: sat_add_one)
qed

lemma corrected_date_own:
  "0 < corrected_date d parents" "0 \<le> d \<Longrightarrow> d < 2 ^ 32 \<Longrightarrow> d \<le> uint (corrected_date d parents)"
proof -
  have "1 \<le> corrected_date d parents" by (simp add: corrected_date_def Let_def)
  then show "0 < corrected_date d parents" by (simp add: word_less_nat_alt word_le_nat_alt)
  assume d: "0 \<le> d" "d < 2 ^ 32"
  then have "of_int d \<le> corrected_date d parents"
    by (simp add: corrected_date_def Let_def le_max_iff_disj)
  moreover have "uint (of_int d :: u32) = d" using d by (simp add: unsigned_of_int take_bit_int_eq_self)
  ultimately show "d \<le> uint (corrected_date d parents)" by (simp add: word_le_def)
qed

lemma parent_generations_Inr:
  "parent_generations b child ps = Inr gs \<Longrightarrow> list_all2 (\<lambda>p g. generation_of b p = Some g) ps gs"
  by (induction ps arbitrary: gs) (auto simp: result_simps)

lemma builder_insert_generation:
  "sorted_wrt (<) (map fst (bl_commits b)) \<Longrightarrow> builder_insert b seq commit = Inr b' \<Longrightarrow>
     generation_of b' seq = Some (nc_generation commit)"
  by (auto simp: builder_insert_def Let_def result_simps commit_seq_def generation_of_def map_of_btree_insert)

lemma below_ceiling:
  assumes "min (unat pg + 1) (2 ^ 32 - 1) \<le> unat (g :: u32)"
  shows "if pg = - 1 then g = - 1 else pg < g"
proof -
  have m: "unat (- 1 :: u32) = 2 ^ 32 - 1" by (simp add: unsigned_minus_1_eq_mask mask_eq_exp_minus_1)
  have "unat pg < 2 ^ 32" "unat g < 2 ^ 32" using unat_bound [of pg] unat_bound [of g] by simp_all
  with assms m show ?thesis by (auto simp: word_less_nat_alt word_unat_eq_iff)
qed

text \<open>
  C4: a dated insert ranks the commit above every parent, by one at least until the 32-bit ceiling is
  reached, at no less than its own date and never at zero; and it records that generation for the
  commit, so a later child sees it.
\<close>

theorem insert_dated_generation:
  assumes "sorted_wrt (<) (map fst (bl_commits b))" "insert_dated b seq commit = Inr (b', g)"
  shows "0 < g \<and> generation_of b' seq = Some g \<and>
    (\<forall>p \<in> set (dc_parents commit). \<exists>pg. generation_of b p = Some pg \<and>
       (if pg = - 1 then g = - 1 else pg < g)) \<and>
    (0 \<le> dc_committer_date commit \<and> dc_committer_date commit < 2 ^ 32 \<longrightarrow> dc_committer_date commit \<le> uint g)"
proof -
  obtain gs where gs: "parent_generations b seq (dc_parents commit) = Inr gs"
    using assms(2) by (cases "parent_generations b seq (dc_parents commit)") (auto simp: insert_dated_def)
  let ?c = "\<lparr>nc_parents = dc_parents commit, nc_root_tree = dc_root_tree commit,
    nc_generation = corrected_date (dc_committer_date commit) gs\<rparr>"
  have "g = corrected_date (dc_committer_date commit) gs \<and> builder_insert b seq ?c = Inr b'"
    using assms(2) gs by (cases "builder_insert b seq ?c") (auto simp: insert_dated_def)
  then have g: "g = corrected_date (dc_committer_date commit) gs" and
    ins: "builder_insert b seq \<lparr>nc_parents = dc_parents commit, nc_root_tree = dc_root_tree commit,
      nc_generation = g\<rparr> = Inr b'" by auto
  have "\<exists>pg. generation_of b p = Some pg \<and> (if pg = - 1 then g = - 1 else pg < g)"
    if p: "p \<in> set (dc_parents commit)" for p
  proof -
    from list_all2_in_set [OF parent_generations_Inr [OF gs] p] obtain pg
      where "pg \<in> set gs" "generation_of b p = Some pg" by auto
    then show ?thesis using below_ceiling [OF corrected_date_parents, of pg gs] g by auto
  qed
  then show ?thesis
    using corrected_date_own [of "dc_committer_date commit" gs] builder_insert_generation [OF assms(1) ins]
    by (auto simp flip: g)
qed

theorem insert_dated_generation_witness:
  "\<exists>pg. generation_of (builder_know builder_new 3 7) 3 = Some pg \<and> (if pg = - 1 then 100 = (- 1 :: u32) else pg < 100)"
proof -
  let ?c = "\<lparr>dc_parents = [3], dc_root_tree = 9, dc_committer_date = 100\<rparr>"
  have "insert_dated (builder_know builder_new 3 7) 4 ?c =
      Inr ((builder_know builder_new 3 7)\<lparr>bl_commits := [(4, Node 100 9 3 NONE [])]\<rparr>, 100)"
    by (simp add: insert_dated_def builder_know_def builder_new_def generation_of_def corrected_date_def sat_add_def
        builder_insert_def object_slot_def optional_slot_def commit_slot_def commit_seq_def get_at_def NONE_def)
  from insert_dated_generation [OF _ this] show ?thesis by (simp add: builder_know_def builder_new_def)
qed

end
