(* ===== verification/Graph_Store.thy ===== *)
theory Graph_Store
  imports Store_Answers Commit_Index
begin

text \<open>
  The commit graph of a repository as segments, \<open>git/graph-store/src/store.rs\<close>: where its segments
  live and how a band of it is read. The store of segments of \<open>Segment_Store\<close> is instantiated with the
  commit index of \<open>Commit_Index\<close> and the catalog in a map, and what it promises of the commit graph is
  stated over those definitions: reads answer what was written, and compaction and sweeping change no
  answer, for any object store and ULID library that keep the laws \<open>bucket_laws\<close> and \<open>ulid_laws\<close>.
\<close>

section \<open>Scopes\<close>

text \<open>The decimal display of an integer.\<close>

fun show_nat :: "nat \<Rightarrow> string" where
  "show_nat n = (if n < 10 then [char_of (48 + n)] else show_nat (n div 10) @ [char_of (48 + n mod 10)])"

declare show_nat.simps [simp del]

definition show_int :: "int \<Rightarrow> string" where
  "show_int i = (if i < 0 then CHR ''-'' # show_nat (nat (- i)) else show_nat (nat i))"

definition tier_scope :: "int \<Rightarrow> string \<Rightarrow> scope" where
  "tier_scope repo tier = \<lparr>sc_id = repo, sc_prefix = [''commits'', show_int repo, tier]\<rparr>"

definition graph_scope :: "int \<Rightarrow> scope" where
  "graph_scope repo = tier_scope repo ''graph''"

definition pack_scope :: "int \<Rightarrow> scope" where
  "pack_scope repo = tier_scope repo ''packs''"

section \<open>Reading a band\<close>

definition band_span :: "int \<Rightarrow> int \<Rightarrow> key_range option" where
  "band_span floor ceil =
     (case key_range_new (of_int (max floor 0)) (of_int (max ceil 0)) of Inl _ \<Rightarrow> None | Inr r \<Rightarrow> Some r)"

definition graph_index ::
    "(commit_index, malformed, 'c, 'b) segments \<Rightarrow> int \<Rightarrow> ('c, 'b) world \<Rightarrow> int \<Rightarrow> int \<Rightarrow> (malformed store_error, commit_index) result" where
  "graph_index env repo w floor ceil =
     (case band_span floor ceil of None \<Rightarrow> Inr ci_default
      | Some r \<Rightarrow> rbind (seg_read env (graph_scope repo) r w) (\<lambda>c. Inr (case c of None \<Rightarrow> ci_default | Some c \<Rightarrow> c)))"

section \<open>The segments of commit indexes\<close>

text \<open>A store of commit indexes over the catalog in a map, with any object store and ULID library.\<close>

locale commit_store = commit_capacity cap for cap :: "nat \<Rightarrow> nat" +
  fixes env :: "(commit_index, malformed, memory_catalog, 'b) segments" and view :: "'b \<Rightarrow> path \<Rightarrow> bytes option"
  assumes value_ops: "ss_value env = commit_ops"
    and catalog_ops: "ss_catalog env = memory_ops"
    and store_bucket: "bucket_laws (ss_bucket env) view"
    and store_ulid: "ulid_laws (ss_ulid env)"
    and store_fresh: "inj_on (ss_fresh env) {..<ID_SPACE}"

sublocale commit_store \<subseteq> store: segment_store env "ci_ok cap" max ci_at scope_rows view
  using commits.segment_axioms memory.catalog_axioms store_bucket store_ulid store_fresh
  by (auto simp: segment_store_def segment_store_axioms_def value_ops catalog_ops)

definition commits_ok ::
    "(nat \<Rightarrow> nat) \<Rightarrow> (commit_index, malformed, memory_catalog, 'b) segments \<Rightarrow> ('b \<Rightarrow> path \<Rightarrow> bytes option) \<Rightarrow> (memory_catalog, 'b) world \<Rightarrow> bool" where
  "commits_ok cap env view w \<longleftrightarrow>
     store_inv (ss_value env) (ci_ok cap) ci_at (ss_ulid env) (ss_fresh env) (scope_rows (w_catalog w)) (view (w_bucket w)) (w_made w)"

definition commit_at ::
    "(commit_index, malformed, memory_catalog, 'b) segments \<Rightarrow> ('b \<Rightarrow> path \<Rightarrow> bytes option) \<Rightarrow> (memory_catalog, 'b) world \<Rightarrow> int \<Rightarrow> key \<Rightarrow> node option" where
  "commit_at env view w repo k = rows_answer (ss_value env) max ci_at (view (w_bucket w)) (scope_rows (w_catalog w) repo) k"

text \<open>The invariant and the contents of a store at the top level, by the laws written out.\<close>

lemma commit_storeI:
  assumes "capacity cap" "ss_value env = commit_ops" "ss_catalog env = memory_ops" "bucket_laws (ss_bucket env) view"
    "ulid_laws (ss_ulid env)" "inj_on (ss_fresh env) {..<ID_SPACE}"
  shows "segment_store env (ci_ok cap) max ci_at scope_rows view"
  using segment_commits [OF assms(1)] memory.catalog_axioms assms(2-)
  by (auto simp: segment_store_def segment_store_axioms_def)

lemma read_memory_catalog: "ss_catalog env = memory_ops \<Longrightarrow> co_covering (ss_catalog env) scope r c \<noteq> Inl m"
  by (simp add: memory_ops_def memory_covering_def)

text \<open>
  C15: reading a range of the commit graph gives, for every key of the range, the greatest node any
  segment of the repository holds for it. A read can fail only because the object store failed on an
  object that is there: a row never names a missing object, and stored bytes are never reported corrupt.
\<close>

theorem commit_read_answers:
  assumes laws: "capacity cap" "ss_value env = commit_ops" "ss_catalog env = memory_ops"
      "bucket_laws (ss_bucket env) view" "ulid_laws (ss_ulid env)" "inj_on (ss_fresh env) {..<ID_SPACE}"
    and "commits_ok cap env view w" "range_ok r"
  shows "case seg_read env scope r w of
      Inr res \<Rightarrow> \<forall>k. contains r k \<longrightarrow> (case res of None \<Rightarrow> None | Some c \<Rightarrow> ci_at c k) = commit_at env view w (sc_id scope) k
    | Inl e \<Rightarrow> \<exists>i p m x. e = EBucket i m \<and> bo_get (ss_bucket env) p (w_bucket w) = Inl m \<and> view (w_bucket w) p = Some x"
proof -
  note store = commit_storeI [OF laws]
  show ?thesis
    using segment_store.read_answer [OF store assms(7) [unfolded commits_ok_def] assms(8)]
      segment_store.read_error [OF store assms(7) [unfolded commits_ok_def] assms(8)] read_memory_catalog [OF laws(3)]
    by (auto simp: commit_at_def split: sum.split)
qed

text \<open>
  C16: a scattered read answers each of the keys it was asked for with the greatest node any segment
  holds for it, however the keys were clustered into ranges, and fails only as a read does.
\<close>

theorem commit_read_at_answers:
  assumes laws: "capacity cap" "ss_value env = commit_ops" "ss_catalog env = memory_ops"
      "bucket_laws (ss_bucket env) view" "ulid_laws (ss_ulid env)" "inj_on (ss_fresh env) {..<ID_SPACE}"
    and "commits_ok cap env view w" "1 \<le> ss_clusters env"
  shows "case seg_read_at env scope keys w of
      Inr cs \<Rightarrow> \<forall>k \<in> set keys. foldl max None (map (\<lambda>c. ci_at c k) cs) = commit_at env view w (sc_id scope) k
    | Inl e \<Rightarrow> \<exists>i p m x. e = EBucket i m \<and> bo_get (ss_bucket env) p (w_bucket w) = Inl m \<and> view (w_bucket w) p = Some x"
proof -
  note store = commit_storeI [OF laws] and inv = assms(7) [unfolded commits_ok_def]
  show ?thesis
  proof (cases "seg_read_at env scope keys w")
    case (Inl e)
    obtain r where "range_ok r" "seg_read env scope r w = Inl e"
      using segment_store.read_at_error [OF store inv assms(8) Inl] by blast
    then show ?thesis using segment_store.read_error [OF store inv] read_memory_catalog [OF laws(3)] Inl by fastforce
  next
    case (Inr cs)
    then show ?thesis using segment_store.read_at_answer [OF store inv assms(8) Inr] by (simp add: commit_at_def answer_def)
  qed
qed

text \<open>
  C14: a write keeps the store's invariant, leaves every other repository alone, and makes its own
  repository answer each key with the greater of what it answered and what the value holds; a write that
  fails has done that or nothing.
\<close>

theorem commit_write_adds:
  assumes laws: "capacity cap" "ss_value env = commit_ops" "ss_catalog env = memory_ops"
      "bucket_laws (ss_bucket env) view" "ulid_laws (ss_ulid env)" "inj_on (ss_fresh env) {..<ID_SPACE}"
    and "commits_ok cap env view w" "ci_ok cap c" "w_made w < ID_SPACE" "seg_write env scope c w = (res, w')"
  shows "commits_ok cap env view w' \<and>
    (\<forall>i k. i \<noteq> sc_id scope \<longrightarrow> commit_at env view w' i k = commit_at env view w i k) \<and>
    ((\<forall>k. commit_at env view w' (sc_id scope) k = max (commit_at env view w (sc_id scope) k) (ci_at c k)) \<or>
     (\<exists>e. res = Inl e) \<and> (\<forall>k. commit_at env view w' (sc_id scope) k = commit_at env view w (sc_id scope) k))"
  using segment_store.write_spec [OF commit_storeI [OF laws] assms(7) [unfolded commits_ok_def] assms(8,10,9)]
  by (simp add: commits_ok_def commit_at_def)

lemma memory_entries_length:
  "co_entries memory_ops scope c = Inr es \<longleftrightarrow> es = map row_entry (scope_rows c (sc_id scope))"
  by (auto simp: memory_ops_def memory_entries_def memory_read_def scope_rows_def List.map_filter_def comp_def split: option.split)

text \<open>
  C13: a compaction pass, whether it ran whole or stopped part way on any failure of the catalog, the
  object store or a decode, keeps the invariant and changes no answer of any repository.
\<close>

theorem commit_compact_keeps:
  assumes laws: "capacity cap" "ss_value env = commit_ops" "ss_catalog env = memory_ops"
      "bucket_laws (ss_bucket env) view" "ulid_laws (ss_ulid env)" "inj_on (ss_fresh env) {..<ID_SPACE}"
    and "commits_ok cap env view w" "seg_compact env scope w = (res, w')"
    and "w_made w + length (scope_rows (w_catalog w) (sc_id scope)) \<le> ID_SPACE"
  shows "commits_ok cap env view w' \<and> commit_at env view w' i k = commit_at env view w i k"
  using segment_store.compact_spec [OF commit_storeI [OF laws] assms(7) [unfolded commits_ok_def] assms(8)] assms(9)
  by (simp add: commits_ok_def commit_at_def laws(3) memory_entries_length)

text \<open>
  C17: a sweep deletes only objects under its prefix that are named as a segment is, that no row of the
  repository names and that are older than the grace window, and none on a dry run; so, as long as no
  other repository keeps objects under the prefix, it keeps the invariant and changes no answer.
\<close>

theorem commit_sweep_safe:
  assumes laws: "capacity cap" "ss_value env = commit_ops" "ss_catalog env = memory_ops"
      "bucket_laws (ss_bucket env) view" "ulid_laws (ss_ulid env)" "inj_on (ss_fresh env) {..<ID_SPACE}"
    and "commits_ok cap env view w" "sweep_bucket env scope sw w = (res, w')"
    and "\<forall>i p. \<forall>row \<in> set (scope_rows (w_catalog w) i). i \<noteq> sc_id scope \<longrightarrow> wr_body row = BBucket p \<longrightarrow>
      take (length (sc_prefix scope)) p \<noteq> sc_prefix scope"
  shows "commits_ok cap env view w' \<and> commit_at env view w' i k = commit_at env view w i k \<and>
    (sw_dry_run sw \<longrightarrow> w' = w) \<and>
    (view (w_bucket w') q \<noteq> view (w_bucket w) q \<longrightarrow>
      orphan (ss_ulid env) (sc_prefix scope) (wr_id ` set (scope_rows (w_catalog w) (sc_id scope))) sw q)"
proof -
  note spec = segment_store.sweep_spec [OF commit_storeI [OF laws]]
  from spec [OF assms(7) [unfolded commits_ok_def] assms(8)] assms(9)
    segment_store.sweep_deletes [OF commit_storeI [OF laws] assms(8)]
  show ?thesis by (simp add: commits_ok_def commit_at_def)
qed

section \<open>An example store\<close>

text \<open>An object store kept as a list of objects, and ULIDs printed bit by bit.\<close>

type_synonym list_bucket = "(path \<times> bytes) list"

definition list_bucket_ops :: "list_bucket bucket_ops" where
  "list_bucket_ops = \<lparr>
     bo_put = (\<lambda>p x b. (Inr (), (p, x) # filter (\<lambda>(q, _). q \<noteq> p) b)),
     bo_get = (\<lambda>p b. ok_or (map_of b p) ''not found''),
     bo_delete = (\<lambda>p b. (Inr (), filter (\<lambda>(q, _). q \<noteq> p) b)),
     bo_list = (\<lambda>p b. map (\<lambda>(q, x). Inr (q, u64_len x)) (filter (\<lambda>(q, _). take (length p) q = p) b))\<rparr>"

lemma map_of_filter_other: "q \<noteq> p \<Longrightarrow> map_of (filter (\<lambda>(q, _). q \<noteq> p) b) q = map_of b q"
  by (induction b) auto

lemma list_bucket_laws: "bucket_laws list_bucket_ops map_of"
  by (auto simp: bucket_laws_def list_bucket_ops_def map_of_filter_other ok_or_eq_Inr_iff)

definition bit_ulid_ops :: ulid_ops where
  "bit_ulid_ops = \<lparr>
     uo_name = (\<lambda>i. map (\<lambda>n. if bit i n then CHR ''1'' else CHR ''0'') [0..<128]),
     uo_parse = (\<lambda>s. Some (horner_sum of_bool 2 (map (\<lambda>c. c = CHR ''1'') s))),
     uo_timestamp_ms = (\<lambda>i. ucast (drop_bit 80 i))\<rparr>"

lemma bit_ulid_laws: "ulid_laws bit_ulid_ops"
proof -
  have "horner_sum of_bool 2 (map (bit i) [0..<128]) = (i :: u128)" for i
    using horner_sum_bit_eq_take_bit [of i 128] take_bit_length_eq [of i] by simp
  then show ?thesis by (simp add: ulid_laws_def bit_ulid_ops_def comp_def)
qed

definition example_env :: "(commit_index, malformed, memory_catalog, list_bucket) segments" where
  "example_env = \<lparr>ss_value = commit_ops, ss_catalog = memory_ops, ss_bucket = list_bucket_ops, ss_ulid = bit_ulid_ops,
     ss_fresh = of_nat, ss_policy = example_policy\<lparr>po_graduation_bytes := 0\<rparr>, ss_clusters = 8\<rparr>"

lemma example_env_laws:
  "capacity example_cap" "ss_value example_env = commit_ops" "ss_catalog example_env = memory_ops"
  "bucket_laws (ss_bucket example_env) map_of" "ulid_laws (ss_ulid example_env)" "inj_on (ss_fresh example_env) {..<ID_SPACE}"
  using example_index_ok(1) list_bucket_laws bit_ulid_laws
  by (simp_all add: example_env_def inj_on_def ID_SPACE_def word_of_nat_eq_iff take_bit_nat_eq_self)

definition empty_world :: "(memory_catalog, list_bucket) world" where
  "empty_world = \<lparr>w_catalog = (\<lambda>_. None), w_bucket = [], w_made = 0\<rparr>"

text \<open>The example index written twice to repository 7.\<close>

definition written_world :: "(memory_catalog, list_bucket) world" where
  "written_world = snd (seg_write example_env (graph_scope 7) example_index (snd (seg_write example_env (graph_scope 7) example_index empty_world)))"

lemma empty_world_ok: "commits_ok example_cap example_env map_of empty_world"
  by (simp add: commits_ok_def store_inv_def empty_world_def scope_rows_def)

lemma seg_write_made: "w_made (snd (seg_write env scope v w)) \<le> Suc (w_made w)"
  by (auto simp: seg_write_def seg_prepare_def seg_put_def Let_def split: option.split prod.split sum.split residence.split)

lemma written_once_ok:
  assumes "commits_ok example_cap example_env map_of w" "w_made w < ID_SPACE"
  shows "commits_ok example_cap example_env map_of (snd (seg_write example_env scope example_index w))"
  using segment_store.write_spec [OF commit_storeI [OF example_env_laws] assms(1) [unfolded commits_ok_def] example_index_ok(2)
      prod.collapse [symmetric] assms(2), of scope]
  by (simp add: commits_ok_def)

lemma written_world_ok: "commits_ok example_cap example_env map_of written_world" "w_made written_world \<le> 2"
proof -
  have few: "w_made (snd (seg_write example_env (graph_scope 7) example_index empty_world)) \<le> 1"
    using seg_write_made [of example_env "graph_scope 7" example_index empty_world] by (simp add: empty_world_def)
  then show "commits_ok example_cap example_env map_of written_world"
    unfolding written_world_def
    by (intro written_once_ok) (simp_all add: empty_world_ok ID_SPACE_def, simp add: empty_world_def)
  show "w_made written_world \<le> 2"
    unfolding written_world_def by (rule order_trans [OF seg_write_made]) (use few in simp)
qed

theorem commit_read_answers_witness:
  "case seg_read example_env (graph_scope 7) \<lparr>kr_first = 4, kr_last = 6\<rparr> written_world of
      Inr res \<Rightarrow> \<forall>k. contains \<lparr>kr_first = 4, kr_last = 6\<rparr> k \<longrightarrow>
        (case res of None \<Rightarrow> None | Some c \<Rightarrow> ci_at c k) = commit_at example_env map_of written_world (sc_id (graph_scope 7)) k
    | Inl e \<Rightarrow> \<exists>i p m x. e = EBucket i m \<and> bo_get (ss_bucket example_env) p (w_bucket written_world) = Inl m \<and>
        map_of (w_bucket written_world) p = Some x"
  by (rule commit_read_answers [OF example_env_laws written_world_ok(1)]) (simp add: range_ok_def)

theorem commit_read_at_answers_witness:
  "case seg_read_at example_env (graph_scope 7) [5, 900] written_world of
      Inr cs \<Rightarrow> \<forall>k \<in> set [5, 900]. foldl max None (map (\<lambda>c. ci_at c k) cs) =
        commit_at example_env map_of written_world (sc_id (graph_scope 7)) k
    | Inl e \<Rightarrow> \<exists>i p m x. e = EBucket i m \<and> bo_get (ss_bucket example_env) p (w_bucket written_world) = Inl m \<and>
        map_of (w_bucket written_world) p = Some x"
  by (rule commit_read_at_answers [OF example_env_laws written_world_ok(1)]) (simp add: example_env_def)

theorem commit_write_adds_witness:
  "commits_ok example_cap example_env map_of (snd (seg_write example_env (graph_scope 7) example_index written_world))"
  by (rule conjunct1 [OF commit_write_adds [OF example_env_laws written_world_ok(1) example_index_ok(2) _ prod.collapse [symmetric]]])
    (use written_world_ok(2) in \<open>simp add: ID_SPACE_def\<close>)

lemma memory_write_rows:
  assumes "ss_catalog env = memory_ops"
  shows "\<exists>rs. length rs \<le> 1 \<and> (\<forall>i. scope_rows (w_catalog (snd (seg_write env scope v w))) i =
     scope_rows (w_catalog w) i @ (if i = sc_id scope then rs else []))"
proof -
  obtain res w1 where prep: "seg_prepare env scope v w = (res, w1)" by (rule prod.exhaust)
  have cat: "w_catalog w1 = w_catalog w"
    using prep by (auto simp: seg_prepare_def seg_put_def Let_def split: option.splits prod.splits sum.splits residence.splits)
  show ?thesis
  proof (cases res)
    case (Inr row)
    then show ?thesis
      using prep cat assms
      by (cases row) (auto simp: seg_write_def memory_ops_def memory_insert_def scope_rows_def intro!: exI [of _ "[]"] exI [of _ "[the row]"])
  qed (use prep cat in \<open>auto simp: seg_write_def intro: exI [of _ "[]"]\<close>)
qed

lemma written_rows: "length (scope_rows (w_catalog written_world) 7) \<le> 2" "i \<noteq> 7 \<Longrightarrow> scope_rows (w_catalog written_world) i = []"
proof -
  let ?w1 = "snd (seg_write example_env (graph_scope 7) example_index empty_world)"
  have sc: "sc_id (graph_scope 7) = 7" by (simp add: graph_scope_def tier_scope_def)
  obtain rs where rs: "length rs \<le> 1" "\<And>i. scope_rows (w_catalog ?w1) i = (if i = 7 then rs else [])"
    using memory_write_rows [OF example_env_laws(3), of "graph_scope 7" example_index empty_world]
    by (auto simp: sc empty_world_def scope_rows_def)
  obtain rs' where "length rs' \<le> 1" "\<And>i. scope_rows (w_catalog written_world) i = scope_rows (w_catalog ?w1) i @ (if i = 7 then rs' else [])"
    using memory_write_rows [OF example_env_laws(3), of "graph_scope 7" example_index ?w1] by (auto simp: sc written_world_def)
  with rs show "length (scope_rows (w_catalog written_world) 7) \<le> 2" "i \<noteq> 7 \<Longrightarrow> scope_rows (w_catalog written_world) i = []" by simp_all
qed

theorem commit_compact_keeps_witness:
  "commits_ok example_cap example_env map_of (snd (seg_compact example_env (graph_scope 7) written_world))"
  by (rule conjunct1 [OF commit_compact_keeps [OF example_env_laws written_world_ok(1) prod.collapse [symmetric]]])
    (use written_world_ok(2) written_rows in \<open>simp add: ID_SPACE_def graph_scope_def tier_scope_def\<close>)

theorem commit_sweep_safe_witness:
  "commits_ok example_cap example_env map_of
     (snd (sweep_bucket example_env (graph_scope 7) \<lparr>sw_now_ms = 5000000, sw_grace_secs = 3600, sw_dry_run = False\<rparr> written_world))"
  by (rule conjunct1 [OF commit_sweep_safe [OF example_env_laws written_world_ok(1) prod.collapse [symmetric]]])
    (simp add: written_rows graph_scope_def tier_scope_def)

end
