(* ===== verification/Pack_Index.thy ===== *)
theory Pack_Index
  imports Commit_Index Core_Objects
begin

text \<open>
  Tier two of the commit graph, \<open>git/graph-store/src/packs.rs\<close>: what a fetch needs about each commit's
  pack, over the same strided array as tier one. The bitmaps are kept serialized, so the codec of the
  bitmap library is a parameter only where a pack is recorded or its bitmaps are read.
\<close>

section \<open>Packs and nodes\<close>

definition PACK_RECORD :: nat where
  "PACK_RECORD = 60"

definition PACKS :: layout where
  "PACKS = \<lparr>lo_magic = [67, 73, 88, 50], lo_record = PACK_RECORD, lo_unit = 1\<rparr>"

definition PRESENT :: u32 where
  "PRESENT = 1"

record pack =
  pk_entry_len :: u64
  pk_blob_offset :: u64
  pk_segment :: segment_location
  pk_trees :: "u64 set"
  pk_blobs :: "u64 set"

datatype pack_node = PackNode (pn_entry_len: u64) (pn_blob_offset: u64) (pn_segment_id: u128)
  (pn_base_offset: u64) (pn_image_len: u64) (pn_trees: bytes) (pn_blobs: bytes)

definition pack_node_key ::
    "pack_node \<Rightarrow> u128 \<times> (u64 \<times> u64 \<times> u64 \<times> u64) \<times> bytes \<times> bytes" where
  "pack_node_key n = (pn_segment_id n, (pn_entry_len n, pn_blob_offset n, pn_base_offset n, pn_image_len n),
     pn_trees n, pn_blobs n)"

lemma pack_node_key_inject: "pack_node_key a = pack_node_key b \<longleftrightarrow> a = b"
  by (cases a; cases b) (auto simp: pack_node_key_def)

instantiation pack_node :: linorder
begin

definition less_eq_pack_node :: "pack_node \<Rightarrow> pack_node \<Rightarrow> bool" where
  "less_eq_pack_node a b \<longleftrightarrow> pack_node_key a \<le> pack_node_key b"

definition less_pack_node :: "pack_node \<Rightarrow> pack_node \<Rightarrow> bool" where
  "less_pack_node a b \<longleftrightarrow> pack_node_key a < pack_node_key b"

instance
  by standard (auto simp: less_eq_pack_node_def less_pack_node_def pack_node_key_inject [symmetric] less_le)

end

type_synonym pack_index = "pack_node strided"

section \<open>Building and reading\<close>

definition serialize :: "(u64 set \<Rightarrow> bytes option) \<Rightarrow> u64 set \<Rightarrow> (malformed, bytes) result" where
  "serialize ser bitmap = ok_or (encode_bitmap ser bitmap) Bitmap"

definition pack_bitmap :: "(bytes \<Rightarrow> u64 set option) \<Rightarrow> bytes \<Rightarrow> (malformed, u64 set) result" where
  "pack_bitmap de bytes = ok_or (decode_bitmap de bytes) Bitmap"

type_synonym pack_builder = "(int \<times> pack_node) list"

definition pack_insert ::
    "(u64 set \<Rightarrow> bytes option) \<Rightarrow> pack_builder \<Rightarrow> int \<Rightarrow> pack \<Rightarrow> (malformed, pack_builder) result" where
  "pack_insert ser packs seq pack =
     rbind (serialize ser (pk_trees pack)) (\<lambda>trees.
     rbind (serialize ser (pk_blobs pack)) (\<lambda>blobs.
     Inr (btree_insert seq (PackNode (pk_entry_len pack) (pk_blob_offset pack) (sl_id (pk_segment pack))
       (sl_base_offset (pk_segment pack)) (sl_image_len (pk_segment pack)) trees blobs) packs)))"

definition pack_build :: "pack_builder \<Rightarrow> pack_index" where
  "pack_build packs = laid_out packs"

definition pi_get :: "pack_index \<Rightarrow> int \<Rightarrow> pack_node option" where
  "pi_get p seq = st_get p seq"

definition pi_entries :: "pack_index \<Rightarrow> (int \<times> pack_node) list" where
  "pi_entries p = st_iter p"

definition pe_segment :: "pack_node \<Rightarrow> segment_location" where
  "pe_segment n = \<lparr>sl_id = pn_segment_id n, sl_base_offset = pn_base_offset n, sl_image_len = pn_image_len n\<rparr>"

definition pe_trees :: "(bytes \<Rightarrow> u64 set option) \<Rightarrow> pack_node \<Rightarrow> (malformed, u64 set) result" where
  "pe_trees de n = pack_bitmap de (pn_trees n)"

definition pe_blobs :: "(bytes \<Rightarrow> u64 set option) \<Rightarrow> pack_node \<Rightarrow> (malformed, u64 set) result" where
  "pe_blobs de n = pack_bitmap de (pn_blobs n)"

definition pi_join :: "pack_index \<Rightarrow> pack_index \<Rightarrow> pack_index" where
  "pi_join a b = joined a b"

section \<open>Encoding\<close>

text \<open>One iteration of the loop over the slots: the records and the heap so far.\<close>

definition encode_slot :: "bytes \<times> bytes \<Rightarrow> pack_node option \<Rightarrow> bytes \<times> bytes" where
  "encode_slot acc slot = (case acc of (records, heap) \<Rightarrow> (case slot of
     None \<Rightarrow> (records @ replicate PACK_RECORD 0, heap)
   | Some node \<Rightarrow>
       (case stow (pn_trees node) heap of (trees, heap) \<Rightarrow>
       (case stow (pn_blobs node) heap of (blobs, heap) \<Rightarrow>
         (records @ to_le64 (pn_entry_len node) @ to_le64 (pn_blob_offset node) @ to_le128 (pn_segment_id node) @
          to_le64 (pn_base_offset node) @ to_le64 (pn_image_len node) @ to_le32 trees @ to_le32 blobs @
          to_le32 PRESENT, heap)))))"

definition pi_encode :: "pack_index \<Rightarrow> bytes" where
  "pi_encode p = (case foldl encode_slot ([], []) (st_slots p) of (records, heap) \<Rightarrow>
     write_header \<lparr>fh_first = (case try_u64 (st_first p) of Some f \<Rightarrow> f | None \<Rightarrow> 0),
       fh_records = length (st_slots p), fh_tail = length heap\<rparr> PACKS [] @ records @ heap)"

definition field128 :: "bytes \<Rightarrow> nat \<Rightarrow> u128" where
  "field128 bytes at = (case slice bytes at (at + 16) of None \<Rightarrow> 0 | Some chunk \<Rightarrow> from_le128 chunk)"

definition fetch_bitmap :: "u32 \<Rightarrow> bytes \<Rightarrow> (malformed, bytes) result" where
  "fetch_bitmap at heap = ok_or (fetch at heap) (StrayExtra at)"

definition read_pack :: "bytes \<Rightarrow> bytes \<Rightarrow> (malformed, pack_node option) result" where
  "read_pack bytes heap =
     (if field32 bytes 56 AND PRESENT = 0 then Inr None
      else rbind (fetch_bitmap (field32 bytes 48) heap) (\<lambda>trees.
           rbind (fetch_bitmap (field32 bytes 52) heap) (\<lambda>blobs.
           Inr (Some (PackNode (field64 bytes 0) (field64 bytes 8) (field128 bytes 16) (field64 bytes 32)
             (field64 bytes 40) trees blobs)))))"

definition pi_decode_range :: "bytes \<Rightarrow> key_range \<Rightarrow> (malformed, pack_index) result" where
  "pi_decode_range bytes r =
     (case read_header bytes PACKS of Inl e \<Rightarrow> Inl (MFrame e)
      | Inr header \<Rightarrow>
          let body = drop HEADER bytes;
              heap = drop (sat_usize (fh_records header * PACK_RECORD)) body in
     (case first_seq (fh_first header) of Inl e \<Rightarrow> Inl (MFrame e)
      | Inr first \<Rightarrow>
     (case slice_of header r of None \<Rightarrow> Inr st_default
      | Some (from, till) \<Rightarrow>
          rbind (collect_results (map (\<lambda>at. let at = sat_usize (at * PACK_RECORD) in
            case slice body at (at + PACK_RECORD) of
              None \<Rightarrow> Inl (MFrame (Truncated (HEADER + fh_records header * PACK_RECORD) (length bytes)))
            | Some chunk \<Rightarrow> read_pack chunk heap) [from..<till])) (\<lambda>records.
          Inr (st_trimmed (sat_i64 (first + (if int from \<le> i64_max then int from else 0))) records)))))"

definition pack_ops :: "(pack_index, malformed) segment_ops" where
  "pack_ops = \<lparr>so_join = pi_join, so_range = st_range, so_encode = pi_encode, so_decode_range = pi_decode_range\<rparr>"

lemma pack_ops_simps [simp]:
  "so_join pack_ops = pi_join" "so_range pack_ops = st_range" "so_encode pack_ops = pi_encode"
  "so_decode_range pack_ops = pi_decode_range"
  by (simp_all add: pack_ops_def)

section \<open>A record reads back\<close>

definition stow_len :: "bytes \<Rightarrow> nat" where
  "stow_len blob = (if blob = [] then 0 else 4 + length blob)"

definition heap_weight :: "pack_node \<Rightarrow> nat" where
  "heap_weight n = stow_len (pn_trees n) + stow_len (pn_blobs n)"

lemma stow_grows: "stow blob tail = (at, tail') \<Longrightarrow> length tail' = length tail + stow_len blob \<and> (\<exists>w. tail' = tail @ w)"
  by (auto simp: stow_def stow_len_def split: if_splits)

lemma fetch_stowed:
  assumes "stow blob tail = (at, tail')" "length tail' < 2 ^ 32"
  shows "fetch at (tail' @ later) = Some blob"
proof (cases "blob = []")
  case True
  with assms(1) show ?thesis by (auto simp: stow_def fetch_def)
next
  case False
  with assms stow_grows [OF assms(1)] show ?thesis by (intro fetch_stow) (auto simp: stow_len_def)
qed

lemma read_pack_absent: "read_pack (replicate PACK_RECORD 0) heap = Inr None"
proof -
  have "field32 (replicate PACK_RECORD 0) 56 = 0"
    by (simp add: field32_def slice_def PACK_RECORD_def from_le32_def eval_nat_numeral)
  then show ?thesis by (simp add: read_pack_def)
qed

lemma read_pack_present:
  assumes "fetch t heap = Some (pn_trees n)" "fetch b heap = Some (pn_blobs n)"
  shows "read_pack (to_le64 (pn_entry_len n) @ to_le64 (pn_blob_offset n) @ to_le128 (pn_segment_id n) @
      to_le64 (pn_base_offset n) @ to_le64 (pn_image_len n) @ to_le32 t @ to_le32 b @ to_le32 PRESENT) heap = Inr (Some n)"
    (is "read_pack ?r heap = _")
proof -
  have f: "field32 ?r 48 = t" "field32 ?r 52 = b" "field32 ?r 56 = PRESENT" "field64 ?r 0 = pn_entry_len n"
      "field64 ?r 8 = pn_blob_offset n" "field128 ?r 16 = pn_segment_id n" "field64 ?r 32 = pn_base_offset n"
      "field64 ?r 40 = pn_image_len n"
    by (simp_all add: field32_def field64_def field128_def slice_def)
  show ?thesis unfolding read_pack_def f using assms by (simp add: fetch_bitmap_def PRESENT_def)
qed

lemma encode_slots_spec:
  assumes "foldl encode_slot (records, heap) slots = (records', heap')"
    "length heap + sum_list (map (slot_weight heap_weight) slots) < 2 ^ 32"
  shows "\<exists>rs w. records' = records @ concat rs \<and> heap' = heap @ w \<and>
    length heap' = length heap + sum_list (map (slot_weight heap_weight) slots) \<and>
    list_all2 (\<lambda>r slot. length r = PACK_RECORD \<and> (\<forall>later. read_pack r (heap' @ later) = Inr slot)) rs slots"
  using assms
proof (induction slots arbitrary: records heap)
  case Nil
  then show ?case by (intro exI [of _ "[]"]) simp
next
  case (Cons slot slots)
  show ?case
  proof (cases slot)
    case None
    with Cons.IH [of "records @ replicate PACK_RECORD 0" heap] Cons.prems obtain rs w where
      "records' = (records @ replicate PACK_RECORD 0) @ concat rs" "heap' = heap @ w"
      "length heap' = length heap + sum_list (map (slot_weight heap_weight) slots)"
      "list_all2 (\<lambda>r slot. length r = PACK_RECORD \<and> (\<forall>later. read_pack r (heap' @ later) = Inr slot)) rs slots"
      by (auto simp: encode_slot_def)
    with None show ?thesis
      by (intro exI [of _ "replicate PACK_RECORD 0 # rs"] exI [of _ w]) (simp add: read_pack_absent)
  next
    case (Some n)
    obtain t h1 b h2 where s1: "stow (pn_trees n) heap = (t, h1)" and s2: "stow (pn_blobs n) h1 = (b, h2)"
      by (metis surj_pair)
    define r where "r = to_le64 (pn_entry_len n) @ to_le64 (pn_blob_offset n) @ to_le128 (pn_segment_id n) @
      to_le64 (pn_base_offset n) @ to_le64 (pn_image_len n) @ to_le32 t @ to_le32 b @ to_le32 PRESENT"
    have step: "encode_slot (records, heap) slot = (records @ r, h2)"
      by (simp add: encode_slot_def Some s1 s2 r_def)
    have grown: "length h2 = length heap + heap_weight n"
      using stow_grows [OF s1] stow_grows [OF s2] by (simp add: heap_weight_def)
    obtain rs w where ih: "records' = (records @ r) @ concat rs" "heap' = h2 @ w"
      "length heap' = length h2 + sum_list (map (slot_weight heap_weight) slots)"
      "list_all2 (\<lambda>r slot. length r = PACK_RECORD \<and> (\<forall>later. read_pack r (heap' @ later) = Inr slot)) rs slots"
      using Cons.IH [of "records @ r" h2] Cons.prems step grown Some by auto
    obtain w1 w2 where ws: "h1 = heap @ w1" "h2 = h1 @ w2" using stow_grows [OF s1] stow_grows [OF s2] by blast
    have small: "length h1 < 2 ^ 32" "length h2 < 2 ^ 32" using Cons.prems(2) grown ws Some by auto
    have "fetch t (heap' @ later) = Some (pn_trees n)" "fetch b (heap' @ later) = Some (pn_blobs n)" for later
      using fetch_stowed [OF s1 small(1), of "w2 @ w @ later"] fetch_stowed [OF s2 small(2), of "w @ later"] ws ih(2)
      by simp_all
    then have "read_pack r (heap' @ later) = Inr slot" for later
      unfolding r_def Some by (intro read_pack_present)
    moreover have "length r = PACK_RECORD" by (simp add: r_def PACK_RECORD_def)
    ultimately show ?thesis using ih ws grown Some
      by (intro exI [of _ "r # rs"] exI [of _ "w1 @ w2 @ w"]) simp
  qed
qed

section \<open>The encoding reads back\<close>

abbreviation pi_ok :: "(nat \<Rightarrow> nat) \<Rightarrow> pack_index \<Rightarrow> bool" where
  "pi_ok \<equiv> within_by (\<lambda>_. True) heap_weight"

lemma pi_encode_parts:
  assumes "capacity cap" "pi_ok cap p"
  obtains h rs heap where "pi_encode p = write_header h PACKS [] @ concat rs @ heap" "header_ok h PACKS"
    "fh_first h = of_int (st_first p)" "fh_records h = length (st_slots p)" "fh_tail h = length heap"
    "list_all2 (\<lambda>r slot. length r = PACK_RECORD \<and> read_pack r heap = Inr slot) rs (st_slots p)"
proof -
  obtain records heap where run: "foldl encode_slot ([], []) (st_slots p) = (records, heap)" by force
  note fits = within_weight [OF assms] and sz = within_size [OF assms(2)]
  obtain rs where rs: "records = concat rs" "length heap = sum_list (map (slot_weight heap_weight) (st_slots p))"
    "list_all2 (\<lambda>r slot. length r = PACK_RECORD \<and> (\<forall>later. read_pack r (heap @ later) = Inr slot)) rs (st_slots p)"
    using encode_slots_spec [OF run] fits by auto
  define h where "h = \<lparr>fh_first = of_int (st_first p), fh_records = length (st_slots p), fh_tail = length heap\<rparr>"
  have "try_u64 (st_first p) = Some (of_int (st_first p))" using sz by (intro try_u64_nonneg) (auto simp: i64_max_def)
  then have enc: "pi_encode p = write_header h PACKS [] @ concat rs @ heap"
    by (simp add: pi_encode_def run h_def rs(1))
  have hok: "header_ok h PACKS"
  proof -
    have "unat (of_int (st_first p) :: u64) < 2 ^ 63"
      using sz(1,2) by (simp add: unsigned_of_int nat_take_bit_eq take_bit_int_eq_self nat_less_iff)
    then show ?thesis using sz(3) fits rs(2) by (simp add: header_ok_def PACKS_def h_def)
  qed
  have reads: "list_all2 (\<lambda>r slot. length r = PACK_RECORD \<and> read_pack r heap = Inr slot) rs (st_slots p)"
    using rs(3) by (rule list_all2_mono) (metis append_Nil2)
  have "fh_first h = of_int (st_first p)" "fh_records h = length (st_slots p)" "fh_tail h = length heap"
    by (simp_all add: h_def)
  from that [OF enc hok this reads] show thesis .
qed

lemma read_packs:
  assumes "list_all2 (\<lambda>r slot. length r = PACK_RECORD \<and> read_pack r heap = Inr slot) rs slots"
    "t \<le> length slots" "length slots < 2 ^ 32"
  shows "collect_results (map (\<lambda>at. let at = sat_usize (at * PACK_RECORD) in
      case slice (concat rs @ heap) at (at + PACK_RECORD) of
        None \<Rightarrow> Inl e | Some chunk \<Rightarrow> read_pack chunk heap) [f..<t]) = Inr (map ((!) slots) [f..<t])"
proof -
  have len: "length rs = length slots" using assms(1) by (rule list_all2_lengthD)
  have all: "\<forall>r \<in> set rs. length (id r) = PACK_RECORD"
    using list_all2_in_set [OF assms(1)] by auto
  have "(let at = sat_usize (at * PACK_RECORD) in
      case slice (concat rs @ heap) at (at + PACK_RECORD) of
        None \<Rightarrow> Inl e | Some chunk \<Rightarrow> read_pack chunk heap) = Inr (slots ! at)" if "at < t" for at
  proof -
    have "sat_usize (at * PACK_RECORD) = at * PACK_RECORD"
      using that assms(2,3) by (intro sat_usize_id) (simp add: usize_max_def PACK_RECORD_def)
    moreover have "slice (concat rs @ heap) (at * PACK_RECORD) (at * PACK_RECORD + PACK_RECORD) = Some (rs ! at)"
      using slice_stride [OF all, of at heap] that assms(2) len by simp
    moreover have "read_pack (rs ! at) heap = Inr (slots ! at)"
      using list_all2_nthD2 [OF assms(1)] that assms(2) by simp
    ultimately show ?thesis by simp
  qed
  then have "map (\<lambda>at. let at = sat_usize (at * PACK_RECORD) in
      case slice (concat rs @ heap) at (at + PACK_RECORD) of
        None \<Rightarrow> Inl e | Some chunk \<Rightarrow> read_pack chunk heap) [f..<t] = map Inr (map ((!) slots) [f..<t])"
    by (simp add: list_eq_iff_nth_eq)
  then show ?thesis by (simp only: collect_results_Inr)
qed

lemma pi_decode_encode:
  assumes "capacity cap" "pi_ok cap p" "range_ok r"
  shows "\<exists>b. pi_decode_range (pi_encode p) r = Inr b \<and> pi_ok cap b \<and>
    (\<forall>seq. st_get b seq = (if contains r (of_int seq) then st_get p seq else None))"
proof -
  obtain h rs heap where enc: "pi_encode p = write_header h PACKS [] @ concat rs @ heap" and hok: "header_ok h PACKS"
    and h: "fh_first h = of_int (st_first p)" "fh_records h = length (st_slots p)" "fh_tail h = length heap"
    and rs: "list_all2 (\<lambda>r slot. length r = PACK_RECORD \<and> read_pack r heap = Inr slot) rs (st_slots p)"
    using pi_encode_parts [OF assms(1,2)] by blast
  note sz = within_size [OF assms(2)]
  have len: "length (concat rs) = length (st_slots p) * PACK_RECORD"
    using length_concat_stride [of rs id PACK_RECORD] list_all2_in_set [OF rs] list_all2_lengthD [OF rs] by auto
  have head: "read_header (pi_encode p) PACKS = Inr h" unfolding enc
    using sz hok by (intro read_header_write)
      (auto simp: body_length_def PACKS_def len h HEADER_def usize_max_def header_ok_def PACK_RECORD_def)
  have body: "drop HEADER (pi_encode p) = concat rs @ heap" unfolding enc using hok by simp
  have heap: "drop (sat_usize (fh_records h * PACK_RECORD)) (concat rs @ heap) = heap"
  proof -
    have "sat_usize (fh_records h * PACK_RECORD) = length (concat rs)"
      using sz(3) unfolding len h by (intro sat_usize_id) (simp add: PACK_RECORD_def usize_max_def)
    then show ?thesis by simp
  qed
  have first: "first_seq (fh_first h) = Inr (st_first p)" using sz by (simp add: h first_seq_of_int)
  note window = within_ok [OF assms(2)] hok assms(3) h(1,2)
  show ?thesis
  proof (cases "slice_of h r")
    case None
    then have "pi_decode_range (pi_encode p) r = Inr st_default"
      by (simp add: pi_decode_range_def head first)
    moreover have "st_get p seq = None" if "contains r (of_int seq)" for seq
      by (rule window_None [OF window None that])
    ultimately show ?thesis using within_default by (auto simp: st_default_def st_get_empty)
  next
    case (Some ft)
    then obtain f t where ft: "slice_of h r = Some (f, t)" by (cases ft) auto
    define w where "w = st_trimmed (st_first p + int f) (map ((!) (st_slots p)) [f..<t])"
    note win = window_Some [OF window ft, folded w_def]
    have "sat_i64 (st_first p + (if int f \<le> i64_max then int f else 0)) = st_first p + int f"
      using sz win(1,2) by (simp add: sat_i64_def i64_min_def i64_max_def)
    then have "pi_decode_range (pi_encode p) r = Inr w"
      unfolding pi_decode_range_def Let_def head first ft sum.case option.case prod.case body heap
        read_packs [OF rs win(2) sz(3), unfolded Let_def] by (simp add: w_def)
    moreover have "pi_ok cap w" using assms(2) win(3) by (rule within_restrict) (simp add: win(4))
    ultimately show ?thesis using win(4) by blast
  qed
qed

section \<open>The pack index as a segment\<close>

definition pi_at :: "pack_index \<Rightarrow> key \<Rightarrow> pack_node option" where
  "pi_at p k = pi_get p (uint k)"

lemma segment_packs:
  assumes enough: "capacity cap"
  shows "segment pack_ops (pi_ok cap) max pi_at"
proof (unfold_locales; (unfold pack_ops_simps pi_join_def)?)
  fix a b c :: pack_index and r :: key_range and k :: key and x y z :: "pack_node option"
  note ok = within_ok [of "\<lambda>_. True" heap_weight cap]
  show "pi_ok cap a \<Longrightarrow> pi_ok cap b \<Longrightarrow> pi_ok cap (joined a b)" by (rule within_joined)
  show "pi_ok cap a \<Longrightarrow> pi_ok cap b \<Longrightarrow> pi_ok cap c \<Longrightarrow> joined (joined a b) c = joined a (joined b c)"
    by (intro strided_join.join_assoc ok)
  show "pi_ok cap a \<Longrightarrow> pi_ok cap b \<Longrightarrow> joined a b = joined b a"
    by (intro strided_join.join_comm ok)
  show "pi_ok cap a \<Longrightarrow> joined a a = a"
    by (intro strided_join.join_idem ok)
  show "pi_decode_range (pi_encode a) EVERYTHING = Inr a" if "pi_ok cap a"
  proof -
    from pi_decode_encode [OF enough that, of EVERYTHING] obtain b where
      b: "pi_decode_range (pi_encode a) EVERYTHING = Inr b" "pi_ok cap b" "\<And>seq. st_get b seq = st_get a seq" by auto
    then have "b = a" using that by (intro strided_ext ok)
    with b show ?thesis by simp
  qed
  show "\<exists>b. pi_decode_range (pi_encode a) r = Inr b \<and> pi_ok cap b \<and>
        (\<forall>k. pi_at b k = (if contains r k then pi_at a k else None))"
    if "pi_ok cap a" "range_ok r"
    using pi_decode_encode [OF enough that] by (auto simp: pi_at_def pi_get_def)
  show "\<exists>r. st_range a = Some r \<and> contains r k" if "pi_ok cap a" "pi_at a k \<noteq> None"
    using st_get_in_range [OF ok [OF that(1)], of "uint k"] that(2) by (auto simp: pi_at_def pi_get_def)
  show "range_ok r" if "pi_ok cap a" "st_range a = Some r"
    using that(2) by (auto simp: st_range_def split: option.splits sum.splits dest: key_range_new_ok)
  show "pi_at (joined a b) k = max (pi_at a k) (pi_at b k)" if "pi_ok cap a" "pi_ok cap b"
    using joined_spec(2) [OF ok ok] that by (simp add: pi_at_def pi_get_def)
  show "max None x = x" "max x x = x" by simp_all
  show "max (max x y) z = max x (max y z)" by (rule max.assoc)
  show "max x y = max y x" by (rule max.commute)
qed simp_all

sublocale commit_capacity \<subseteq> packs: segment pack_ops "pi_ok cap" max pi_at
  by (rule segment_packs) (rule enough)

section \<open>Properties of the pack index\<close>

text \<open>
  C18: a pack index survives its encoding: decoding everything gives it back, and decoding a range gives
  an index within the invariant that answers the range's keys as the whole does and no others.
\<close>

theorem pack_index_codec:
  assumes "capacity cap" "pi_ok cap p" "range_ok r"
  shows "pi_decode_range (pi_encode p) EVERYTHING = Inr p \<and>
    (\<exists>b. pi_decode_range (pi_encode p) r = Inr b \<and> pi_ok cap b \<and>
      (\<forall>k. pi_at b k = (if contains r k then pi_at p k else None)))"
proof -
  obtain b where b: "pi_decode_range (pi_encode p) r = Inr b" "pi_ok cap b"
    "\<forall>seq. st_get b seq = (if contains r (of_int seq) then st_get p seq else None)"
    using pi_decode_encode [OF assms] by blast
  then show ?thesis
    using segment.round_trip [OF segment_packs [OF assms(1)] assms(2)]
    by (auto simp: pi_at_def pi_get_def)
qed

definition example_packs :: pack_index where
  "example_packs = pack_build [(5, PackNode 10 20 3 0 90 [1, 2] []), (7, PackNode 11 21 4 90 80 [] [3])]"

lemma example_packs_ok: "pi_ok example_cap example_packs"
proof -
  have "nodes_ok [(5, PackNode 10 20 3 0 90 [1, 2] []), (7, PackNode 11 21 4 90 80 [] [3])]"
    by (simp add: nodes_ok_def i64_max_def)
  note spec = laid_out_spec [OF this]
  show ?thesis unfolding within_by_def example_packs_def pack_build_def spec(2)
    using spec(1) by (auto simp: heap_weight_def stow_len_def example_cap_def MAX_SEQ_def split: if_splits)
qed

theorem pack_index_codec_witness:
  "pi_decode_range (pi_encode example_packs) EVERYTHING = Inr example_packs"
  using pack_index_codec [OF example_index_ok(1) example_packs_ok, of EVERYTHING] by simp

text \<open>
  C19: joining pack indexes is a union that keeps the newest image: a seq is answered exactly when one
  of the two answers it, the answer is one of theirs, and no image either holds of that commit is in a
  greater segment.
\<close>

theorem pack_join_newest:
  assumes "st_ok a" "st_ok b"
  shows "case pi_get (pi_join a b) seq of
      None \<Rightarrow> pi_get a seq = None \<and> pi_get b seq = None
    | Some n \<Rightarrow> Some n \<in> {pi_get a seq, pi_get b seq} \<and>
        (\<forall>m. Some m \<in> {pi_get a seq, pi_get b seq} \<longrightarrow> pn_segment_id m \<le> pn_segment_id n)"
proof -
  have "pn_segment_id m \<le> pn_segment_id n" if "m \<le> n" for m n :: pack_node
    using that by (auto simp: less_eq_pack_node_def pack_node_key_def)
  then show ?thesis
    unfolding pi_get_def pi_join_def joined_spec(2) [OF assms]
    by (auto split: option.split simp: max_def)
qed

theorem pack_join_newest_witness:
  "pi_get (pi_join example_packs (pack_build [(5, PackNode 10 20 9 0 90 [1, 2] [])])) 5 \<noteq> None"
proof -
  have n: "nodes_ok [(5, PackNode 10 20 9 0 90 [1, 2] [])]" by (simp add: nodes_ok_def i64_max_def)
  have "pi_get (pack_build [(5, PackNode 10 20 9 0 90 [1, 2] [])]) 5 \<noteq> None"
    by (simp add: pi_get_def pack_build_def laid_out_spec [OF n])
  then show ?thesis
    using pack_join_newest [OF within_ok [OF example_packs_ok] laid_out_spec(1) [OF n], of 5]
    by (auto simp: pack_build_def split: option.splits)
qed

lemma serialize_Inr:
  assumes "bitmap_codec ser de" "serialize ser b = Inr bytes"
  shows "pack_bitmap de bytes = Inr b"
  using assms
  by (auto simp: serialize_def pack_bitmap_def encode_bitmap_def decode_bitmap_def bitmap_codec_def result_simps
      split: if_splits)

text \<open>
  Inserting a pack fails only on a bitmap that does not serialize; otherwise the built index answers
  its seq with exactly the pack's facts, bitmaps included, and every other seq as it did before.
\<close>

lemma pack_insert_get:
  assumes "bitmap_codec ser de" "nodes_ok packs" "0 \<le> seq" "seq < i64_max"
  shows "case pack_insert ser packs seq pack of
      Inl e \<Rightarrow> e = Bitmap \<and> (encode_bitmap ser (pk_trees pack) = None \<or> encode_bitmap ser (pk_blobs pack) = None)
    | Inr packs' \<Rightarrow> nodes_ok packs' \<and>
        (\<forall>s. s \<noteq> seq \<longrightarrow> pi_get (pack_build packs') s = pi_get (pack_build packs) s) \<and>
        (\<exists>n. pi_get (pack_build packs') seq = Some n \<and> pn_entry_len n = pk_entry_len pack \<and>
          pn_blob_offset n = pk_blob_offset pack \<and> pe_segment n = pk_segment pack \<and>
          pe_trees de n = Inr (pk_trees pack) \<and> pe_blobs de n = Inr (pk_blobs pack))"
proof (cases "pack_insert ser packs seq pack")
  case (Inl e)
  then show ?thesis
    by (auto simp: pack_insert_def rbind_def serialize_def ok_or_def split: sum.splits option.splits)
next
  case (Inr packs')
  then obtain trees blobs where sb: "serialize ser (pk_trees pack) = Inr trees" "serialize ser (pk_blobs pack) = Inr blobs"
    and p: "packs' = btree_insert seq (PackNode (pk_entry_len pack) (pk_blob_offset pack) (sl_id (pk_segment pack))
       (sl_base_offset (pk_segment pack)) (sl_image_len (pk_segment pack)) trees blobs) packs"
    by (auto simp: pack_insert_def result_simps)
  have ok: "nodes_ok packs'"
    using assms(2-4) unfolding p nodes_ok_def set_btree_insert_keys by (auto intro: btree_insert_sorted)
  show ?thesis
    unfolding Inr sum.case pi_get_def pack_build_def laid_out_spec(2) [OF ok] laid_out_spec(2) [OF assms(2)]
    using ok serialize_Inr [OF assms(1) sb(1)] serialize_Inr [OF assms(1) sb(2)]
    by (simp add: p pe_segment_def pe_trees_def pe_blobs_def)
qed

definition example_ser :: "u64 set \<Rightarrow> bytes option" where
  "example_ser b = (if b = {7} then Some [9] else None)"

definition example_de :: "bytes \<Rightarrow> u64 set option" where
  "example_de bytes = (if bytes = [9] then Some {7} else None)"

definition example_pack :: pack where
  "example_pack = \<lparr>pk_entry_len = 1, pk_blob_offset = 2,
     pk_segment = \<lparr>sl_id = 4, sl_base_offset = 5, sl_image_len = 6\<rparr>, pk_trees = {7}, pk_blobs = {}\<rparr>"

end
