(* ===== verification/Band_Walk.thy ===== *)
theory Band_Walk
  imports Commit_Index
begin

text \<open>
  One band of a commit walk in seq space, \<open>git/graph-store/src/bands.rs\<close>: the ancestors of some seeds
  down to a floor, the paint of wants and haves, and the least depths. A \<open>HashSet\<close> is a set and a
  \<open>BTreeMap\<close> an association list in key order; a stack has its top in front. The loops are total
  functions: a walk meets every seq once, and a relaxation lowers a depth it can only lower so far.

  Each walk is then shown to be what it computes: the ancestors and the paint are reachability along
  parent edges, cut at the floor and at the blocked seqs, and the depths are least depths; and a walk
  fails only on a seq it reached that the index does not hold.
\<close>

section \<open>One band of a walk\<close>

definition FLAG_WANT :: u8 where
  "FLAG_WANT = 1"

definition FLAG_HAVE :: u8 where
  "FLAG_HAVE = 2"

record not_covered =
  nv_seq :: int
  nv_floor :: int

definition must_get :: "commit_index \<Rightarrow> int \<Rightarrow> int \<Rightarrow> (not_covered, entry) result" where
  "must_get c seq floor = ok_or (ci_get c seq) \<lparr>nv_seq = seq, nv_floor = floor\<rparr>"

lemma entry_parents_bound: "set (entry_parents e) \<subseteq> {0..<2 ^ 32}"
  using uint_bounded [where 'a = 32] by (auto simp: entry_parents_def dest!: set_takeWhileD)

text \<open>The seqs a walk may still meet for the first time: what is on its stack and what a parent can be.\<close>

definition unmet :: "int list \<Rightarrow> int set \<Rightarrow> nat" where
  "unmet stack seen = card ((set stack \<union> {0..<2 ^ 32}) - seen)"

lemma unmet_push: "seq \<notin> seen \<Longrightarrow> set ps \<subseteq> {0..<2 ^ 32} \<Longrightarrow> unmet (ps @ stack) (insert seq seen) < unmet (seq # stack) seen"
  unfolding unmet_def by (intro psubset_card_mono) auto

lemma unmet_pop: "seen \<subseteq> seen' \<Longrightarrow> unmet stack seen' \<le> unmet (seq # stack) seen"
  unfolding unmet_def by (intro card_mono) auto

function expand_ancestors_loop ::
    "commit_index \<Rightarrow> int \<Rightarrow> int list \<Rightarrow> int set \<Rightarrow> int set \<times> int set \<Rightarrow> (not_covered, int set \<times> int set) result" where
  "expand_ancestors_loop c floor [] seen (visited, below) = Inr (visited, below)"
| "expand_ancestors_loop c floor (seq # stack) seen (visited, below) =
     (if seq \<in> seen then expand_ancestors_loop c floor stack seen (visited, below)
      else if seq < floor then expand_ancestors_loop c floor stack (insert seq seen) (visited, insert seq below)
      else rbind (must_get c seq floor) (\<lambda>e.
        expand_ancestors_loop c floor (rev (entry_parents e) @ stack) (insert seq seen) (insert seq visited, below)))"
  by pat_completeness auto

termination
proof (relation "measures [\<lambda>(c, floor, stack, seen, out). unmet stack seen, \<lambda>(c, floor, stack, seen, out). length stack]")
  fix c floor seq stack and seen visited below :: "int set" and e
  assume "seq \<notin> seen"
  then have "unmet (rev (entry_parents e) @ stack) (insert seq seen) < unmet (seq # stack) seen"
    by (rule unmet_push) (simp only: set_rev entry_parents_bound)
  then show "((c, floor, rev (entry_parents e) @ stack, insert seq seen, insert seq visited, below), c, floor, seq # stack, seen, visited, below) \<in>
    measures [\<lambda>(c, floor, stack, seen, out). unmet stack seen, \<lambda>(c, floor, stack, seen, out). length stack]"
    by simp
qed (auto simp: less_le unmet_pop subset_insertI)

definition expand_ancestors :: "commit_index \<Rightarrow> int list \<Rightarrow> int \<Rightarrow> (not_covered, int set \<times> int set) result" where
  "expand_ancestors c seeds floor = expand_ancestors_loop c floor (rev seeds) {} ({}, {})"

section \<open>Paint\<close>

record paint_band =
  pb_finalized :: "int list"
  pb_below :: "(int \<times> u8) list"

record paint =
  pt_seeds :: "int list"
  pt_flags :: "u8 list"
  pt_floor :: int
  pt_want_block :: "int set"
  pt_have_block :: "int set"
  pt_have_seeds :: "int set"

definition paint_blocks :: "paint \<Rightarrow> u8 \<Rightarrow> int set option" where
  "paint_blocks paint colour =
     (if colour = FLAG_WANT then Some (pt_want_block paint)
      else if colour = FLAG_HAVE then Some (pt_have_block paint) else None)"

definition colours :: "u8 list \<Rightarrow> u8 list" where
  "colours flags = remdups_adj (sort flags)"

definition seeds_flagged :: "int list \<Rightarrow> u8 list \<Rightarrow> u8 \<Rightarrow> int set" where
  "seeds_flagged seeds flags flag = set (map fst (filter (\<lambda>(_, held). held = flag) (zip seeds flags)))"

text \<open>The \<open>|=\<close> of a flag on the entry of a \<open>BTreeMap\<close>.\<close>

definition flag_entry :: "int \<Rightarrow> u8 \<Rightarrow> (int \<times> u8) list \<Rightarrow> (int \<times> u8) list" where
  "flag_entry seq flags m = btree_insert seq ((case map_of m seq of None \<Rightarrow> 0 | Some held \<Rightarrow> held) OR flags) m"

definition push_parents :: "commit_index \<Rightarrow> int \<Rightarrow> u8 \<Rightarrow> paint \<Rightarrow> int list \<Rightarrow> (not_covered, int list) result" where
  "push_parents c seq colour paint stack =
     rbind (must_get c seq (pt_floor paint)) (\<lambda>e.
     Inr (rev (filter (\<lambda>parent. \<not> (colour = FLAG_WANT \<and> parent \<in> pt_have_seeds paint)) (entry_parents e)) @ stack))"

lemma push_parents_bound:
  "push_parents c seq colour paint stack = Inr stack' \<Longrightarrow> \<exists>ps. stack' = ps @ stack \<and> set ps \<subseteq> {0..<2 ^ 32}"
  using entry_parents_bound by (fastforce simp: push_parents_def rbind_eq_Inr_iff)

function paint_colour_loop ::
    "commit_index \<Rightarrow> u8 \<Rightarrow> paint \<Rightarrow> int list \<Rightarrow> int set \<Rightarrow> (int \<times> u8) list \<Rightarrow> (not_covered, (int \<times> u8) list) result" where
  "paint_colour_loop c colour paint [] seen painted = Inr painted"
| "paint_colour_loop c colour paint (seq # stack) seen painted =
     (if seq \<in> seen then paint_colour_loop c colour paint stack seen painted
      else if seq < pt_floor paint \<or> (case paint_blocks paint colour of None \<Rightarrow> False | Some blocked \<Rightarrow> seq \<in> blocked)
      then paint_colour_loop c colour paint stack (insert seq seen) (flag_entry seq colour painted)
      else rbind (push_parents c seq colour paint stack) (\<lambda>stack'.
        paint_colour_loop c colour paint stack' (insert seq seen) (flag_entry seq colour painted)))"
  by pat_completeness auto

termination
proof (relation "measures [\<lambda>(c, colour, paint, stack, seen, out). unmet stack seen, \<lambda>(c, colour, paint, stack, seen, out). length stack]")
  fix c colour paint seq stack and seen :: "int set" and painted stack'
  assume "seq \<notin> seen" "push_parents c seq colour paint stack = Inr stack'"
  with push_parents_bound unmet_push show "((c, colour, paint, stack', insert seq seen, flag_entry seq colour painted), c, colour, paint, seq # stack, seen, painted)
    \<in> measures [\<lambda>(c, colour, paint, stack, seen, out). unmet stack seen, \<lambda>(c, colour, paint, stack, seen, out). length stack]"
    by fastforce
qed (auto simp: less_le unmet_pop subset_insertI)

definition paint_colour :: "commit_index \<Rightarrow> u8 \<Rightarrow> paint \<Rightarrow> (int \<times> u8) list \<Rightarrow> (not_covered, (int \<times> u8) list) result" where
  "paint_colour c colour paint painted =
     paint_colour_loop c colour paint (sorted_list_of_set (seeds_flagged (pt_seeds paint) (pt_flags paint) colour)) {} painted"

fun paint_colours :: "commit_index \<Rightarrow> paint \<Rightarrow> u8 list \<Rightarrow> (int \<times> u8) list \<Rightarrow> (not_covered, (int \<times> u8) list) result" where
  "paint_colours c paint [] painted = Inr painted"
| "paint_colours c paint (colour # cs) painted = rbind (paint_colour c colour paint painted) (paint_colours c paint cs)"

definition expand_paint ::
    "commit_index \<Rightarrow> int list \<Rightarrow> u8 list \<Rightarrow> int \<Rightarrow> int list \<Rightarrow> int list \<Rightarrow> (not_covered, paint_band) result" where
  "expand_paint c seeds flags floor want_block have_block =
     (let paint = \<lparr>pt_seeds = seeds, pt_flags = flags, pt_floor = floor, pt_want_block = set want_block,
        pt_have_block = set have_block, pt_have_seeds = seeds_flagged seeds flags FLAG_HAVE\<rparr> in
      rbind (paint_colours c paint (colours flags) []) (\<lambda>painted.
      Inr \<lparr>pb_finalized = map fst (filter (\<lambda>(seq, flags). floor \<le> seq \<and> flags = FLAG_WANT) painted),
           pb_below = filter (\<lambda>(seq, _). seq < floor) painted\<rparr>))"

section \<open>Depth\<close>

record reached =
  rc_seq :: int
  rc_depth :: int
  rc_root_tree_seq :: u64

record depth_band =
  db_reached :: "reached list"
  db_below :: "(int \<times> int) list"

text \<open>What is left of a relaxation: for every seq that can be met, how far its depth can still fall.\<close>

definition least_depth :: "(int \<times> int) list \<Rightarrow> int" where
  "least_depth stack = Min (insert i64_max (snd ` set stack))"

definition held_depth :: "int \<Rightarrow> (int \<times> int) list \<Rightarrow> int \<Rightarrow> int" where
  "held_depth limit best s = min limit (case map_of best s of None \<Rightarrow> limit | Some held \<Rightarrow> held)"

definition depth_left :: "int \<Rightarrow> (int \<times> int) list \<Rightarrow> (int \<times> int) list \<Rightarrow> int \<Rightarrow> nat" where
  "depth_left limit stack best s = nat (held_depth limit best s - least_depth stack)"

definition relax_left :: "int \<Rightarrow> (int \<times> int) list \<Rightarrow> (int \<times> int) list \<Rightarrow> nat" where
  "relax_left limit stack best = (\<Sum>s \<in> fst ` set stack \<union> {0..<2 ^ 32}. depth_left limit stack best s)"

abbreviation shorter :: "int \<Rightarrow> int \<Rightarrow> (int \<times> int) list \<Rightarrow> bool" where
  "shorter seq d best \<equiv> (case map_of best seq of None \<Rightarrow> True | Some held \<Rightarrow> d < held)"

lemma held_depth_insert: "shorter seq d best \<Longrightarrow> held_depth limit (btree_insert seq d best) s \<le> held_depth limit best s"
  by (auto simp: held_depth_def split: option.splits)

lemma depth_left_mono:
  assumes "least_depth stack \<le> least_depth stack'" "best' = best \<or> best' = btree_insert seq d best \<and> shorter seq d best"
  shows "depth_left limit stack' best' s \<le> depth_left limit stack best s"
proof -
  have "held_depth limit best' s \<le> held_depth limit best s" using assms(2) held_depth_insert by auto
  then show ?thesis unfolding depth_left_def using assms(1) by (intro nat_mono) linarith
qed

lemma Min_tail: "least_depth ((seq, d) # stack) \<le> least_depth stack"
  unfolding least_depth_def by (rule Min_antimono) auto

lemma relax_left_pop:
  assumes "best' = best \<or> best' = btree_insert seq d best \<and> shorter seq d best"
  shows "relax_left limit stack best' \<le> relax_left limit ((seq, d) # stack) best"
proof -
  have "relax_left limit stack best' \<le> (\<Sum>s \<in> fst ` set stack \<union> {0..<2 ^ 32}. depth_left limit ((seq, d) # stack) best s)"
    unfolding relax_left_def by (intro sum_mono depth_left_mono [OF Min_tail assms])
  also have "\<dots> \<le> relax_left limit ((seq, d) # stack) best"
    unfolding relax_left_def by (intro sum_mono2) auto
  finally show ?thesis .
qed

lemma relax_left_push:
  assumes held: "shorter seq d best" and "d < limit"
    and ps: "set ps \<subseteq> {0..<2 ^ 32}"
  shows "relax_left limit (map (\<lambda>p. (p, sat_i64 (d + 1))) ps @ stack) (btree_insert seq d best) < relax_left limit ((seq, d) # stack) best"
proof -
  let ?new = "map (\<lambda>p. (p, sat_i64 (d + 1))) ps @ stack" and ?best = "btree_insert seq d best"
  let ?T = "fst ` set ((seq, d) # stack) \<union> {0..<2 ^ 32}"
  have "least_depth ((seq, d) # stack) \<le> x" if "x \<in> insert i64_max (snd ` set ?new)" for x
  proof (cases "x = sat_i64 (d + 1)")
    case True
    have "least_depth ((seq, d) # stack) \<le> i64_max" "least_depth ((seq, d) # stack) \<le> d"
      unfolding least_depth_def by (rule Min_le; simp)+
    then show ?thesis using True by (simp add: sat_i64_def)
  next
    case False
    then show ?thesis using that unfolding least_depth_def by (intro Min_le) auto
  qed
  then have lower: "least_depth ((seq, d) # stack) \<le> least_depth ?new"
    unfolding least_depth_def by (intro Min.boundedI) auto
  have mono: "depth_left limit ?new ?best s \<le> depth_left limit ((seq, d) # stack) best s" for s
    by (rule depth_left_mono [OF lower]) (use held in auto)
  have "depth_left limit ?new ?best seq < depth_left limit ((seq, d) # stack) best seq"
  proof -
    have "least_depth ((seq, d) # stack) \<le> d" unfolding least_depth_def by (rule Min_le) auto
    moreover have "held_depth limit ?best seq = d" "d < held_depth limit best seq"
      using held assms(2) by (auto simp: held_depth_def split: option.splits)
    ultimately show ?thesis using lower unfolding depth_left_def by simp
  qed
  then have "(\<Sum>s \<in> ?T. depth_left limit ?new ?best s) < relax_left limit ((seq, d) # stack) best"
    unfolding relax_left_def using mono by (intro sum_strict_mono_ex1) auto
  moreover have "relax_left limit ?new ?best \<le> (\<Sum>s \<in> ?T. depth_left limit ?new ?best s)"
    unfolding relax_left_def using ps by (intro sum_mono2) auto
  ultimately show ?thesis by simp
qed

function expand_depth_loop ::
    "commit_index \<Rightarrow> int \<Rightarrow> int \<Rightarrow> (int \<times> int) list \<Rightarrow> (int \<times> int) list \<Rightarrow> (not_covered, (int \<times> int) list) result" where
  "expand_depth_loop c floor limit [] best = Inr best"
| "expand_depth_loop c floor limit ((seq, depth) # stack) best =
     (if (case map_of best seq of None \<Rightarrow> False | Some held \<Rightarrow> held \<le> depth) then expand_depth_loop c floor limit stack best
      else if seq < floor \<or> limit \<le> depth then expand_depth_loop c floor limit stack (btree_insert seq depth best)
      else rbind (must_get c seq floor) (\<lambda>e.
        expand_depth_loop c floor limit (map (\<lambda>p. (p, sat_i64 (depth + 1))) (rev (entry_parents e)) @ stack)
          (btree_insert seq depth best)))"
  by pat_completeness auto

termination
proof (relation "measures [\<lambda>(c, floor, limit, stack, best). relax_left limit stack best, \<lambda>(c, floor, limit, stack, best). length stack]")
  fix c floor limit seq depth and stack best :: "(int \<times> int) list" and e
  assume a: "\<not> (case map_of best seq of None \<Rightarrow> False | Some held \<Rightarrow> held \<le> depth)" "\<not> (seq < floor \<or> limit \<le> depth)"
  have "relax_left limit (map (\<lambda>p. (p, sat_i64 (depth + 1))) (rev (entry_parents e)) @ stack) (btree_insert seq depth best) <
      relax_left limit ((seq, depth) # stack) best"
    by (rule relax_left_push) (use a in \<open>simp_all add: not_le entry_parents_bound [simplified] split: option.splits\<close>)
  then show "((c, floor, limit, map (\<lambda>p. (p, sat_i64 (depth + 1))) (rev (entry_parents e)) @ stack, btree_insert seq depth best),
      c, floor, limit, (seq, depth) # stack, best)
    \<in> measures [\<lambda>(c, floor, limit, stack, best). relax_left limit stack best, \<lambda>(c, floor, limit, stack, best). length stack]"
    by simp
qed (auto simp: less_le relax_left_pop not_le split: option.splits)

definition expand_depth ::
    "commit_index \<Rightarrow> int list \<Rightarrow> int list \<Rightarrow> int \<Rightarrow> int \<Rightarrow> (not_covered, depth_band) result" where
  "expand_depth c seeds depths floor limit =
     rbind (expand_depth_loop c floor limit (rev (zip seeds depths)) []) (\<lambda>best.
     rbind (collect_results (map (\<lambda>(seq, depth). rbind (must_get c seq floor) (\<lambda>e.
        Inr \<lparr>rc_seq = seq, rc_depth = depth, rc_root_tree_seq = entry_root_tree e\<rparr>)) (filter (\<lambda>(seq, _). floor \<le> seq) best))) (\<lambda>reached.
     Inr \<lparr>db_reached = reached, db_below = filter (\<lambda>(seq, _). seq < floor) best\<rparr>))"

section \<open>Worklists and reachability\<close>

lemma closed_rtrancl: "E `` S \<subseteq> S \<Longrightarrow> E\<^sup>* `` S = S"
  by (rule Image_closed_trancl)

text \<open>A worklist: everything met leads to something met or still on the stack. Expanding the top of the
  stack keeps that, and keeps what is reachable.\<close>

lemma worklist_push:
  assumes "E `` seen \<subseteq> seen \<union> insert s S" "E `` {s} = P"
  shows "E `` insert s seen \<subseteq> insert s seen \<union> (P \<union> S)"
    and "E\<^sup>* `` (insert s seen \<union> (P \<union> S)) = E\<^sup>* `` (seen \<union> insert s S)"
proof -
  show "E `` insert s seen \<subseteq> insert s seen \<union> (P \<union> S)" using assms by blast
  have "P \<subseteq> E\<^sup>* `` {s}" using assms(2) by blast
  then have "E\<^sup>* `` P \<subseteq> E\<^sup>* `` {s}" by (auto intro: rtrancl_trans)
  then show "E\<^sup>* `` (insert s seen \<union> (P \<union> S)) = E\<^sup>* `` (seen \<union> insert s S)" by auto
qed

lemma worklist_pop: "s \<in> seen \<Longrightarrow> E `` seen \<subseteq> seen \<union> insert s S \<Longrightarrow> E `` seen \<subseteq> seen \<union> S" "s \<in> seen \<Longrightarrow> seen \<union> insert s S = seen \<union> S"
  by auto

definition band_edges :: "commit_index \<Rightarrow> int \<Rightarrow> (int \<times> int) set" where
  "band_edges c floor = {(s, p). floor \<le> s \<and> (case ci_get c s of None \<Rightarrow> False | Some e \<Rightarrow> p \<in> set (entry_parents e))}"

lemma band_edges_image:
  "s < floor \<Longrightarrow> band_edges c floor `` {s} = {}"
  "floor \<le> s \<Longrightarrow> ci_get c s = Some e \<Longrightarrow> band_edges c floor `` {s} = set (entry_parents e)"
  by (auto simp: band_edges_def)

lemma expand_ancestors_loop_ok:
  assumes "expand_ancestors_loop c floor stack seen out = Inr (v, b)"
    and "band_edges c floor `` seen \<subseteq> seen \<union> set stack" "out = ({s \<in> seen. floor \<le> s}, {s \<in> seen. s < floor})"
  shows "v = {s \<in> (band_edges c floor)\<^sup>* `` (seen \<union> set stack). floor \<le> s} \<and>
    b = {s \<in> (band_edges c floor)\<^sup>* `` (seen \<union> set stack). s < floor}"
  using assms
proof (induction c floor stack seen out rule: expand_ancestors_loop.induct)
  case (1 c floor seen visited below)
  then have "v = {s \<in> seen. floor \<le> s}" "b = {s \<in> seen. s < floor}" by auto
  moreover have "(band_edges c floor)\<^sup>* `` seen = seen" using 1(2) by (intro closed_rtrancl) simp
  ultimately show ?case by simp
next
  case (2 c floor seq stack seen visited below)
  note ih = 2(1-3) and run = 2(4) and inv = 2(5) [unfolded list.set(2)] and out = 2(6)
  consider (seen) "seq \<in> seen" | (below) "seq \<notin> seen" "seq < floor" | (expand) "seq \<notin> seen" "floor \<le> seq" by linarith
  then show ?case
  proof cases
    case seen
    then show ?thesis using ih(1) run inv out by (simp add: insert_absorb)
  next
    case below
    note push = worklist_push [OF inv band_edges_image(1) [OF below(2)]]
    have "expand_ancestors_loop c floor stack (insert seq seen) (visited, insert seq below) = Inr (v, b)" using run below by simp
    moreover have "(visited, insert seq below) = ({s \<in> insert seq seen. floor \<le> s}, {s \<in> insert seq seen. s < floor})"
      using out below by auto
    moreover have "band_edges c floor `` insert seq seen \<subseteq> insert seq seen \<union> set stack" using push(1) by simp
    ultimately have "v = {s \<in> (band_edges c floor)\<^sup>* `` (insert seq seen \<union> set stack). floor \<le> s} \<and>
        b = {s \<in> (band_edges c floor)\<^sup>* `` (insert seq seen \<union> set stack). s < floor}"
      using ih(2) [OF below] by blast
    then show ?thesis using push(2) by simp
  next
    case expand
    obtain e where e: "ci_get c seq = Some e" using run expand by (auto simp: must_get_def rbind_eq_Inr_iff ok_or_eq_Inr_iff)
    note push = worklist_push [OF inv band_edges_image(2) [OF expand(2) e]]
    have get: "must_get c seq floor = Inr e" using e by (simp add: must_get_def)
    have "v = {s \<in> (band_edges c floor)\<^sup>* `` (insert seq seen \<union> set (rev (entry_parents e) @ stack)). floor \<le> s} \<and>
        b = {s \<in> (band_edges c floor)\<^sup>* `` (insert seq seen \<union> set (rev (entry_parents e) @ stack)). s < floor}"
      by (rule ih(3) [OF expand(1) _ get]) (use run expand get push(1) out in auto)
    then show ?thesis using push(2) by simp
  qed
qed

lemma expand_ancestors_loop_error:
  assumes "expand_ancestors_loop c floor stack seen out = Inl e"
  shows "nv_seq e \<in> (band_edges c floor)\<^sup>* `` set stack \<and> floor \<le> nv_seq e \<and> ci_get c (nv_seq e) = None"
  using assms
proof (induction c floor stack seen out rule: expand_ancestors_loop.induct)
  case (2 c floor seq stack seen visited below)
  note ih = 2(1-3) and run = 2(4)
  consider (seen) "seq \<in> seen" | (below) "seq \<notin> seen" "seq < floor" | (expand) "seq \<notin> seen" "floor \<le> seq" by linarith
  then show ?case
  proof cases
    case expand
    show ?thesis
    proof (cases "ci_get c seq")
      case None
      then show ?thesis using run expand by (auto simp: must_get_def)
    next
      case (Some e')
      then have "nv_seq e \<in> (band_edges c floor)\<^sup>* `` set (rev (entry_parents e') @ stack) \<and> floor \<le> nv_seq e \<and> ci_get c (nv_seq e) = None"
        using run expand by (intro ih(3) [OF expand(1)]) (auto simp: must_get_def)
      moreover have "(band_edges c floor)\<^sup>* `` set (entry_parents e') \<subseteq> (band_edges c floor)\<^sup>* `` {seq}"
        using band_edges_image(2) [OF expand(2) Some] by (auto intro: converse_rtrancl_into_rtrancl)
      ultimately show ?thesis by auto
    qed
  qed (use ih run in auto)
qed simp

lemma expand_ancestors_ok:
  assumes "expand_ancestors c seeds floor = Inr (v, b)"
  shows "v = {s \<in> (band_edges c floor)\<^sup>* `` set seeds. floor \<le> s}" "b = {s \<in> (band_edges c floor)\<^sup>* `` set seeds. s < floor}"
  using expand_ancestors_loop_ok [OF assms [unfolded expand_ancestors_def]] by simp_all

lemma expand_ancestors_error:
  "expand_ancestors c seeds floor = Inl e \<Longrightarrow>
     nv_seq e \<in> (band_edges c floor)\<^sup>* `` set seeds \<and> floor \<le> nv_seq e \<and> ci_get c (nv_seq e) = None"
  using expand_ancestors_loop_error [of c floor "rev seeds" "{}" "({}, {})" e] by (simp add: expand_ancestors_def)

section \<open>Paint\<close>

definition colour_edges :: "commit_index \<Rightarrow> u8 \<Rightarrow> paint \<Rightarrow> (int \<times> int) set" where
  "colour_edges c colour paint = {(s, p) \<in> band_edges c (pt_floor paint).
     \<not> (case paint_blocks paint colour of None \<Rightarrow> False | Some blocked \<Rightarrow> s \<in> blocked) \<and>
     \<not> (colour = FLAG_WANT \<and> p \<in> pt_have_seeds paint)}"

definition flag_of :: "(int \<times> u8) list \<Rightarrow> int \<Rightarrow> u8" where
  "flag_of m s = (case map_of m s of None \<Rightarrow> 0 | Some f \<Rightarrow> f)"

lemma flag_of_flag_entry: "flag_of (flag_entry seq colour m) s = (if s = seq then flag_of m s OR colour else flag_of m s)"
  by (simp add: flag_of_def flag_entry_def)

lemma flag_entry_sorted [simp]: "sorted_wrt (<) (map fst m) \<Longrightarrow> sorted_wrt (<) (map fst (flag_entry seq colour m))"
  by (simp add: flag_entry_def btree_insert_sorted)

lemma flag_entry_dom: "fst ` set (flag_entry seq colour m) = insert seq (fst ` set m)"
  by (simp add: flag_entry_def)

lemma paint_colour_loop_ok:
  assumes "paint_colour_loop c colour paint stack seen painted = Inr painted'"
    and "colour_edges c colour paint `` seen \<subseteq> seen \<union> set stack"
  shows "(\<forall>s. flag_of painted' s = (if s \<in> (colour_edges c colour paint)\<^sup>* `` (seen \<union> set stack) - seen then flag_of painted s OR colour else flag_of painted s)) \<and>
    fst ` set painted' = fst ` set painted \<union> ((colour_edges c colour paint)\<^sup>* `` (seen \<union> set stack) - seen) \<and>
    (sorted_wrt (<) (map fst painted) \<longrightarrow> sorted_wrt (<) (map fst painted'))"
  using assms
proof (induction c colour paint stack seen painted rule: paint_colour_loop.induct)
  case (1 c colour paint seen painted)
  moreover have "(colour_edges c colour paint)\<^sup>* `` seen = seen" using 1(2) by (intro closed_rtrancl) simp
  ultimately show ?case by simp
next
  case (2 c colour paint seq stack seen painted)
  note ih = 2(1-3) and run = 2(4) and inv = 2(5) [unfolded list.set(2)]
  let ?E = "colour_edges c colour paint"
  define stop where "stop \<longleftrightarrow> seq < pt_floor paint \<or> (case paint_blocks paint colour of None \<Rightarrow> False | Some blocked \<Rightarrow> seq \<in> blocked)"
  consider (seen) "seq \<in> seen" | (stop) "seq \<notin> seen" stop | (expand) "seq \<notin> seen" "\<not> stop" by blast
  then show ?case
  proof cases
    case seen
    then show ?thesis using ih(1) run inv by (simp add: insert_absorb)
  next
    case stop
    have "?E `` {seq} = {}" using stop(2) band_edges_image(1) [of seq "pt_floor paint" c] by (auto simp: colour_edges_def stop_def)
    note push = worklist_push [OF inv this]
    have "seq \<in> ?E\<^sup>* `` (seen \<union> insert seq (set stack))" by blast
    then show ?thesis
      using ih(2) [OF stop(1) stop(2) [unfolded stop_def]] run stop push
      by (auto simp: stop_def flag_of_flag_entry flag_entry_dom)
  next
    case expand
    obtain stack' where push': "push_parents c seq colour paint stack = Inr stack'"
      using run expand by (auto simp: stop_def rbind_eq_Inr_iff)
    obtain e where e: "ci_get c seq = Some e"
      and stack': "stack' = rev (filter (\<lambda>parent. \<not> (colour = FLAG_WANT \<and> parent \<in> pt_have_seeds paint)) (entry_parents e)) @ stack"
      using push' by (auto simp: push_parents_def must_get_def rbind_eq_Inr_iff ok_or_eq_Inr_iff)
    have "?E `` {seq} = {p \<in> set (entry_parents e). \<not> (colour = FLAG_WANT \<and> p \<in> pt_have_seeds paint)}"
      using expand e by (auto simp: colour_edges_def band_edges_def stop_def)
    note push = worklist_push [OF inv this]
    have "seq \<in> ?E\<^sup>* `` (seen \<union> insert seq (set stack))" by blast
    then show ?thesis
      using ih(3) [OF expand(1) expand(2) [unfolded stop_def] push'] run expand push push'
      by (auto simp: stop_def flag_of_flag_entry flag_entry_dom stack')
  qed
qed

definition coloured :: "commit_index \<Rightarrow> paint \<Rightarrow> u8 \<Rightarrow> int set" where
  "coloured c paint colour = (colour_edges c colour paint)\<^sup>* `` seeds_flagged (pt_seeds paint) (pt_flags paint) colour"

lemma paint_colour_ok:
  assumes "paint_colour c colour paint painted = Inr painted'"
  shows "flag_of painted' s = (if s \<in> coloured c paint colour then flag_of painted s OR colour else flag_of painted s)"
    and "fst ` set painted' = fst ` set painted \<union> coloured c paint colour"
    and "sorted_wrt (<) (map fst painted) \<Longrightarrow> sorted_wrt (<) (map fst painted')"
proof -
  have "set (sorted_list_of_set (seeds_flagged (pt_seeds paint) (pt_flags paint) colour)) = seeds_flagged (pt_seeds paint) (pt_flags paint) colour"
    by (simp add: seeds_flagged_def)
  note ok = paint_colour_loop_ok [OF assms [unfolded paint_colour_def], unfolded this, simplified, folded coloured_def]
  from ok show "flag_of painted' s = (if s \<in> coloured c paint colour then flag_of painted s OR colour else flag_of painted s)"
    "fst ` set painted' = fst ` set painted \<union> coloured c paint colour"
    "sorted_wrt (<) (map fst painted) \<Longrightarrow> sorted_wrt (<) (map fst painted')" by simp_all
qed

lemma paint_colours_ok:
  "paint_colours c paint cs painted = Inr painted' \<Longrightarrow>
     flag_of painted' s = fold (\<lambda>colour f. if s \<in> coloured c paint colour then f OR colour else f) cs (flag_of painted s) \<and>
     fst ` set painted' = fst ` set painted \<union> (\<Union>colour \<in> set cs. coloured c paint colour) \<and>
     (sorted_wrt (<) (map fst painted) \<longrightarrow> sorted_wrt (<) (map fst painted'))"
proof (induction cs arbitrary: painted)
  case (Cons colour cs)
  obtain mid where mid: "paint_colour c colour paint painted = Inr mid" "paint_colours c paint cs mid = Inr painted'"
    using Cons.prems by (auto simp: rbind_eq_Inr_iff)
  show ?case using Cons.IH [OF mid(2)] paint_colour_ok [OF mid(1)] by auto
qed simp

lemma coloured_unused: "colour \<notin> set flags \<Longrightarrow> pt_flags paint = flags \<Longrightarrow> coloured c paint colour = {}"
  by (auto simp: coloured_def seeds_flagged_def dest: set_zip_rightD)

lemma flags_distinct [simp]: "FLAG_WANT \<noteq> FLAG_HAVE" "FLAG_HAVE \<noteq> FLAG_WANT" "FLAG_WANT < FLAG_HAVE" "FLAG_WANT \<noteq> 0" "FLAG_HAVE \<noteq> 0"
  "0 OR FLAG_WANT = FLAG_WANT" "FLAG_WANT OR FLAG_HAVE \<noteq> FLAG_WANT" "FLAG_WANT \<noteq> FLAG_WANT OR FLAG_HAVE" "FLAG_WANT OR FLAG_HAVE \<noteq> FLAG_HAVE" "0 OR FLAG_HAVE = FLAG_HAVE"
  "FLAG_WANT AND FLAG_HAVE = 0" "FLAG_HAVE AND FLAG_HAVE \<noteq> 0" "(FLAG_WANT OR FLAG_HAVE) AND FLAG_HAVE \<noteq> 0"
  by (simp_all add: FLAG_WANT_def FLAG_HAVE_def)

definition mark :: "bool \<Rightarrow> bool \<Rightarrow> u8" where
  "mark want have' = (if want then FLAG_WANT else 0) OR (if have' then FLAG_HAVE else 0)"

lemma colours_two:
  assumes "set flags \<subseteq> {FLAG_WANT, FLAG_HAVE}"
  shows "colours flags = filter (\<lambda>colour. colour \<in> set flags) [FLAG_WANT, FLAG_HAVE]"
proof (rule sorted_distinct_set_unique)
  show "sorted (colours flags)" "distinct (colours flags)"
    using strict_sorted_dedup [of flags] by (simp_all add: colours_def strict_sorted_iff)
  show "set (colours flags) = set (filter (\<lambda>colour. colour \<in> set flags) [FLAG_WANT, FLAG_HAVE])"
    using assms by (auto simp: colours_def simp del: filter.simps)
qed (auto simp: less_imp_le)

lemma expand_paint_ok:
  assumes "expand_paint c seeds flags floor wb hb = Inr band" "set flags \<subseteq> {FLAG_WANT, FLAG_HAVE}"
    and "paint = \<lparr>pt_seeds = seeds, pt_flags = flags, pt_floor = floor, pt_want_block = set wb, pt_have_block = set hb,
        pt_have_seeds = seeds_flagged seeds flags FLAG_HAVE\<rparr>"
    and "W = coloured c paint FLAG_WANT" "H = coloured c paint FLAG_HAVE"
  shows "set (pb_finalized band) = {s \<in> W - H. floor \<le> s}" "sorted_wrt (<) (pb_finalized band)"
    and "fst ` set (pb_below band) = {s \<in> W \<union> H. s < floor}" "sorted_wrt (<) (map fst (pb_below band))"
    and "s < floor \<Longrightarrow> flag_of (pb_below band) s = mark (s \<in> W) (s \<in> H)"
proof -
  obtain painted where painted: "paint_colours c paint (colours flags) [] = Inr painted"
    and band: "band = \<lparr>pb_finalized = map fst (filter (\<lambda>(seq, flags). floor \<le> seq \<and> flags = FLAG_WANT) painted),
           pb_below = filter (\<lambda>(seq, _). seq < floor) painted\<rparr>"
    using assms(1,3) by (auto simp: expand_paint_def Let_def rbind_eq_Inr_iff)
  note ok = paint_colours_ok [OF painted]
  have flags: "pt_flags paint = flags" using assms(3) by simp
  have unused: "FLAG_WANT \<notin> set flags \<Longrightarrow> W = {}" "FLAG_HAVE \<notin> set flags \<Longrightarrow> H = {}"
    using coloured_unused [OF _ flags] assms(4,5) by blast+
  have flag: "flag_of painted s = mark (s \<in> W) (s \<in> H)" for s
    using ok [of s] unused by (auto simp: colours_two [OF assms(2)] mark_def flag_of_def simp flip: assms(4,5))
  have keys: "fst ` set painted = W \<union> H"
    using ok unused by (auto simp: colours_two [OF assms(2)] simp flip: assms(4,5))
  have srt: "sorted_wrt (<) (map fst painted)" using ok by simp
  then have dist: "distinct (map fst painted)" by (simp add: strict_sorted_iff)
  have look: "map_of painted s = (if s \<in> W \<union> H then Some (mark (s \<in> W) (s \<in> H)) else None)" for s
    using flag [of s] keys map_of_eq_None_iff [of painted s] by (cases "map_of painted s") (auto simp: flag_of_def)
  have mem: "(s, f) \<in> set painted \<longleftrightarrow> s \<in> W \<union> H \<and> f = mark (s \<in> W) (s \<in> H)" for s f
    using map_of_eq_Some_iff [OF dist, of s f, unfolded look [of s]] by (auto split: if_splits)
  show "set (pb_finalized band) = {s \<in> W - H. floor \<le> s}"
    by (auto simp: band mem image_iff mark_def split: if_splits)
  show "fst ` set (pb_below band) = {s \<in> W \<union> H. s < floor}" by (auto simp: band mem image_iff)
  show "sorted_wrt (<) (pb_finalized band)" "sorted_wrt (<) (map fst (pb_below band))"
    using srt by (auto simp: band sorted_wrt_map sorted_wrt_filter)
  show "flag_of (pb_below band) s = mark (s \<in> W) (s \<in> H)" if "s < floor"
  proof -
    have "map_of (filter (\<lambda>(seq, _). seq < floor) painted) s = map_of painted s" using that by (induction painted) auto
    then show ?thesis using flag [of s] by (simp add: band flag_of_def)
  qed
qed

lemma paint_colour_loop_error:
  assumes "paint_colour_loop c colour paint stack seen painted = Inl e"
  shows "nv_seq e \<in> (colour_edges c colour paint)\<^sup>* `` set stack \<and> pt_floor paint \<le> nv_seq e \<and> ci_get c (nv_seq e) = None"
  using assms
proof (induction c colour paint stack seen painted rule: paint_colour_loop.induct)
  case (2 c colour paint seq stack seen painted)
  note ih = 2(1-3) and run = 2(4)
  let ?E = "colour_edges c colour paint"
  define stop where "stop \<longleftrightarrow> seq < pt_floor paint \<or> (case paint_blocks paint colour of None \<Rightarrow> False | Some blocked \<Rightarrow> seq \<in> blocked)"
  consider (seen) "seq \<in> seen" | (stop) "seq \<notin> seen" stop | (expand) "seq \<notin> seen" "\<not> stop" by blast
  then show ?case
  proof cases
    case expand
    show ?thesis
    proof (cases "push_parents c seq colour paint stack")
      case (Inl e')
      then show ?thesis using run expand by (auto simp: stop_def push_parents_def must_get_def rbind_def ok_or_def split: option.splits)
    next
      case (Inr stack')
      obtain e' where e': "ci_get c seq = Some e'"
        and stack': "set stack' = {p \<in> set (entry_parents e'). \<not> (colour = FLAG_WANT \<and> p \<in> pt_have_seeds paint)} \<union> set stack"
        using Inr by (auto simp: push_parents_def must_get_def rbind_eq_Inr_iff ok_or_eq_Inr_iff)
      have "?E `` {seq} = {p \<in> set (entry_parents e'). \<not> (colour = FLAG_WANT \<and> p \<in> pt_have_seeds paint)}"
        using expand e' by (auto simp: colour_edges_def band_edges_def stop_def)
      then have "?E\<^sup>* `` set stack' \<subseteq> ?E\<^sup>* `` set (seq # stack)"
        unfolding stack' by (auto intro: converse_rtrancl_into_rtrancl)
      moreover have "nv_seq e \<in> ?E\<^sup>* `` set stack' \<and> pt_floor paint \<le> nv_seq e \<and> ci_get c (nv_seq e) = None"
        using run expand Inr by (intro ih(3) [OF expand(1) expand(2) [unfolded stop_def] Inr]) (simp add: stop_def)
      ultimately show ?thesis by blast
    qed
  next
    case stop
    then show ?thesis using ih(2) [OF stop(1) stop(2) [unfolded stop_def]] run by (auto simp: stop_def)
  qed (use ih run in auto)
qed simp

lemma paint_colours_error:
  "paint_colours c paint cs painted = Inl e \<Longrightarrow>
     \<exists>colour \<in> set cs. nv_seq e \<in> coloured c paint colour \<and> pt_floor paint \<le> nv_seq e \<and> ci_get c (nv_seq e) = None"
proof (induction cs arbitrary: painted)
  case (Cons colour cs)
  show ?case
  proof (cases "paint_colour c colour paint painted")
    case (Inl e')
    then have "e' = e" using Cons.prems by simp
    then show ?thesis
      using paint_colour_loop_error [OF Inl [unfolded paint_colour_def]] by (simp add: coloured_def seeds_flagged_def)
  qed (use Cons in auto)
qed simp

lemma expand_paint_error:
  assumes "expand_paint c seeds flags floor wb hb = Inl e" "set flags \<subseteq> {FLAG_WANT, FLAG_HAVE}"
    and "paint = \<lparr>pt_seeds = seeds, pt_flags = flags, pt_floor = floor, pt_want_block = set wb, pt_have_block = set hb,
        pt_have_seeds = seeds_flagged seeds flags FLAG_HAVE\<rparr>"
  shows "nv_seq e \<in> coloured c paint FLAG_WANT \<union> coloured c paint FLAG_HAVE \<and> floor \<le> nv_seq e \<and> ci_get c (nv_seq e) = None"
proof -
  have "paint_colours c paint (colours flags) [] = Inl e"
    using assms(1,3) by (auto simp: expand_paint_def Let_def rbind_def split: sum.splits)
  from paint_colours_error [OF this] show ?thesis
    using assms(2,3) by (auto simp: colours_two [OF assms(2)] split: if_splits)
qed

section \<open>Depth\<close>

text \<open>The depths a relaxation can give a seq: a seed's own, and one more than a parent edge's child.\<close>

inductive at_depth :: "commit_index \<Rightarrow> int \<Rightarrow> int \<Rightarrow> (int \<times> int) set \<Rightarrow> int \<Rightarrow> int \<Rightarrow> bool" for c floor limit seeds where
  seed: "(s, d) \<in> seeds \<Longrightarrow> at_depth c floor limit seeds s d"
| step: "at_depth c floor limit seeds s d \<Longrightarrow> d < limit \<Longrightarrow> (s, p) \<in> band_edges c floor \<Longrightarrow> at_depth c floor limit seeds p (sat_i64 (d + 1))"

definition covered :: "(int \<times> int) list \<Rightarrow> (int \<times> int) list \<Rightarrow> int \<Rightarrow> int \<Rightarrow> bool" where
  "covered stack best s d \<longleftrightarrow> (\<exists>h \<le> d. map_of best s = Some h \<or> (s, h) \<in> set stack)"

definition relaxed :: "commit_index \<Rightarrow> int \<Rightarrow> int \<Rightarrow> (int \<times> int) set \<Rightarrow> (int \<times> int) list \<Rightarrow> (int \<times> int) list \<Rightarrow> bool" where
  "relaxed c floor limit seeds stack best \<longleftrightarrow>
     (\<forall>(s, d) \<in> seeds. covered stack best s d) \<and>
     (\<forall>s d p. map_of best s = Some d \<longrightarrow> d < limit \<longrightarrow> (s, p) \<in> band_edges c floor \<longrightarrow> covered stack best p (sat_i64 (d + 1))) \<and>
     (\<forall>s d. map_of best s = Some d \<or> (s, d) \<in> set stack \<longrightarrow> at_depth c floor limit seeds s d)"

lemma covered_pop: "covered ((seq, d) # stack) best s x \<Longrightarrow> map_of best seq = Some h \<Longrightarrow> h \<le> d \<Longrightarrow> covered stack best s x"
  unfolding covered_def by (metis order_trans prod.inject set_ConsD)

lemma covered_insert:
  "covered ((seq, d) # stack) best s x \<Longrightarrow> shorter seq d best \<Longrightarrow> set stack \<subseteq> set stack' \<Longrightarrow> covered stack' (btree_insert seq d best) s x"
proof -
  assume "covered ((seq, d) # stack) best s x" and less: "shorter seq d best" and sub: "set stack \<subseteq> set stack'"
  then obtain h where h: "h \<le> x" "map_of best s = Some h \<or> (s, h) = (seq, d) \<or> (s, h) \<in> set stack" by (auto simp: covered_def)
  show ?thesis
  proof (cases "s = seq \<and> (s, h) \<notin> set stack")
    case True
    then have "d \<le> x" using h less by auto
    then show ?thesis using True by (auto simp: covered_def)
  next
    case False
    then show ?thesis using h sub unfolding covered_def by (intro exI [of _ h]) auto
  qed
qed

lemma relaxedI:
  assumes "\<And>s d. (s, d) \<in> seeds \<Longrightarrow> covered stack best s d"
    and "\<And>s d p. map_of best s = Some d \<Longrightarrow> d < limit \<Longrightarrow> (s, p) \<in> band_edges c floor \<Longrightarrow> covered stack best p (sat_i64 (d + 1))"
    and "\<And>s d. map_of best s = Some d \<or> (s, d) \<in> set stack \<Longrightarrow> at_depth c floor limit seeds s d"
  shows "relaxed c floor limit seeds stack best"
  unfolding relaxed_def using assms by blast

lemma relaxedD:
  assumes "relaxed c floor limit seeds stack best"
  shows "(s, d) \<in> seeds \<Longrightarrow> covered stack best s d"
    and "map_of best s = Some d \<Longrightarrow> d < limit \<Longrightarrow> (s, p) \<in> band_edges c floor \<Longrightarrow> covered stack best p (sat_i64 (d + 1))"
    and "map_of best s = Some d \<or> (s, d) \<in> set stack \<Longrightarrow> at_depth c floor limit seeds s d"
  using assms unfolding relaxed_def by blast+

lemma relaxed_pop:
  assumes "relaxed c floor limit seeds ((seq, d) # stack) best" "map_of best seq = Some h" "h \<le> d"
  shows "relaxed c floor limit seeds stack best"
proof (rule relaxedI)
  note D = relaxedD [OF assms(1)] and pop = covered_pop [OF _ assms(2,3)]
  show "covered stack best s x" if "(s, x) \<in> seeds" for s x by (rule pop [OF D(1) [OF that]])
  show "covered stack best p (sat_i64 (x + 1))" if "map_of best s = Some x" "x < limit" "(s, p) \<in> band_edges c floor" for s x p
    by (rule pop [OF D(2) [OF that]])
  show "at_depth c floor limit seeds s x" if "map_of best s = Some x \<or> (s, x) \<in> set stack" for s x
    by (rule D(3)) (use that in auto)
qed

lemma relaxed_insert:
  assumes "relaxed c floor limit seeds ((seq, d) # stack) best" "shorter seq d best"
    and "\<And>p. d < limit \<Longrightarrow> (seq, p) \<in> band_edges c floor \<Longrightarrow> (p, sat_i64 (d + 1)) \<in> set stack'"
    and "set stack \<subseteq> set stack'" "\<And>p x. (p, x) \<in> set stack' \<Longrightarrow> (p, x) \<in> set stack \<or> x = sat_i64 (d + 1) \<and> d < limit \<and> (seq, p) \<in> band_edges c floor"
  shows "relaxed c floor limit seeds stack' (btree_insert seq d best)"
proof -
  note cov = covered_insert [OF _ assms(2,4)] and D = relaxedD [OF assms(1)]
  have at: "at_depth c floor limit seeds seq d" by (rule D(3)) simp
  show ?thesis
  proof (rule relaxedI)
    show "covered stack' (btree_insert seq d best) s x" if "(s, x) \<in> seeds" for s x by (rule cov [OF D(1) [OF that]])
    show "covered stack' (btree_insert seq d best) p (sat_i64 (x + 1))"
      if "map_of (btree_insert seq d best) s = Some x" "x < limit" "(s, p) \<in> band_edges c floor" for s x p
    proof (cases "s = seq")
      case True
      then show ?thesis using that assms(3) unfolding covered_def by fastforce
    next
      case False
      then show ?thesis using that by (intro cov [OF D(2)]) auto
    qed
    show "at_depth c floor limit seeds s x" if new: "map_of (btree_insert seq d best) s = Some x \<or> (s, x) \<in> set stack'" for s x
    proof (cases "(s, x) \<in> set stack'")
      case True
      then show ?thesis using assms(5) [OF True] D(3) [of s x] at_depth.step [OF at] by auto
    next
      case False
      then show ?thesis using new D(3) [of s x] at by (auto split: if_splits)
    qed
  qed
qed

lemma expand_depth_loop_ok:
  assumes "expand_depth_loop c floor limit stack best = Inr best'" "relaxed c floor limit seeds stack best"
  shows "relaxed c floor limit seeds [] best' \<and> (sorted_wrt (<) (map fst best) \<longrightarrow> sorted_wrt (<) (map fst best'))"
  using assms
proof (induction c floor limit stack best rule: expand_depth_loop.induct)
  case (2 c floor limit seq depth stack best)
  note ih = 2(1-3) and run = 2(4) and inv = 2(5)
  consider (held) h where "map_of best seq = Some h" "h \<le> depth"
    | (stop) "shorter seq depth best" "seq < floor \<or> limit \<le> depth" | (expand) "shorter seq depth best" "\<not> (seq < floor \<or> limit \<le> depth)"
    by (cases "map_of best seq") force+
  then show ?case
  proof cases
    case held
    then show ?thesis using ih(1) run relaxed_pop [OF inv held] by simp
  next
    case stop
    have no: "\<not> (case map_of best seq of None \<Rightarrow> False | Some held \<Rightarrow> held \<le> depth)" using stop(1) by (auto split: option.splits)
    have "relaxed c floor limit seeds stack (btree_insert seq depth best)"
      by (rule relaxed_insert [OF inv stop(1)]) (use stop(2) in \<open>auto simp: band_edges_def\<close>)
    moreover have "expand_depth_loop c floor limit stack (btree_insert seq depth best) = Inr best'" using run no stop(2) by simp
    ultimately show ?thesis using ih(2) [OF no stop(2)] by (simp add: btree_insert_sorted)
  next
    case expand
    have no: "\<not> (case map_of best seq of None \<Rightarrow> False | Some held \<Rightarrow> held \<le> depth)" using expand(1) by (auto split: option.splits)
    obtain e where e: "must_get c seq floor = Inr e" using run no expand(2) by (auto simp: rbind_eq_Inr_iff)
    then have get: "ci_get c seq = Some e" by (simp add: must_get_def ok_or_eq_Inr_iff)
    let ?stack = "map (\<lambda>p. (p, sat_i64 (depth + 1))) (rev (entry_parents e)) @ stack"
    have "relaxed c floor limit seeds ?stack (btree_insert seq depth best)"
      by (rule relaxed_insert [OF inv expand(1)]) (use expand(2) get in \<open>auto simp: band_edges_def\<close>)
    moreover have "expand_depth_loop c floor limit ?stack (btree_insert seq depth best) = Inr best'" using run no expand(2) e by simp
    ultimately show ?thesis using ih(3) [OF no expand(2) e] by (simp add: btree_insert_sorted)
  qed
qed simp

lemma expand_depth_loop_error:
  assumes "expand_depth_loop c floor limit stack best = Inl e" "relaxed c floor limit seeds stack best"
  shows "(\<exists>d. at_depth c floor limit seeds (nv_seq e) d) \<and> floor \<le> nv_seq e \<and> ci_get c (nv_seq e) = None"
  using assms
proof (induction c floor limit stack best rule: expand_depth_loop.induct)
  case (2 c floor limit seq depth stack best)
  note ih = 2(1-3) and run = 2(4) and inv = 2(5)
  consider (held) h where "map_of best seq = Some h" "h \<le> depth"
    | (stop) "shorter seq depth best" "seq < floor \<or> limit \<le> depth" | (expand) "shorter seq depth best" "\<not> (seq < floor \<or> limit \<le> depth)"
    by (cases "map_of best seq") force+
  then show ?case
  proof cases
    case held
    then show ?thesis using ih(1) run relaxed_pop [OF inv held] by simp
  next
    case stop
    have no: "\<not> (case map_of best seq of None \<Rightarrow> False | Some held \<Rightarrow> held \<le> depth)" using stop(1) by (auto split: option.splits)
    have "relaxed c floor limit seeds stack (btree_insert seq depth best)"
      by (rule relaxed_insert [OF inv stop(1)]) (use stop(2) in \<open>auto simp: band_edges_def\<close>)
    then show ?thesis using ih(2) [OF no stop(2)] run no stop(2) by simp
  next
    case expand
    have no: "\<not> (case map_of best seq of None \<Rightarrow> False | Some held \<Rightarrow> held \<le> depth)" using expand(1) by (auto split: option.splits)
    have at: "at_depth c floor limit seeds seq depth" by (rule relaxedD(3) [OF inv]) simp
    show ?thesis
    proof (cases "ci_get c seq")
      case None
      then show ?thesis using run no expand(2) at by (auto simp: must_get_def)
    next
      case (Some e')
      then have e: "must_get c seq floor = Inr e'" by (simp add: must_get_def)
      have "relaxed c floor limit seeds (map (\<lambda>p. (p, sat_i64 (depth + 1))) (rev (entry_parents e')) @ stack) (btree_insert seq depth best)"
        by (rule relaxed_insert [OF inv expand(1)]) (use expand(2) Some in \<open>auto simp: band_edges_def\<close>)
      then show ?thesis using ih(3) [OF no expand(2) e] run no expand(2) e by simp
    qed
  qed
qed simp

lemma relaxed_start: "relaxed c floor limit (set stack) stack []"
  by (rule relaxedI) (auto simp: covered_def intro: at_depth.seed)

lemma relaxed_done:
  assumes "relaxed c floor limit seeds [] best" "at_depth c floor limit seeds s d"
  shows "\<exists>h \<le> d. map_of best s = Some h"
  using assms(2)
proof induction
  case (seed s d)
  then show ?case using relaxedD(1) [OF assms(1)] by (fastforce simp: covered_def)
next
  case (step s d p)
  then obtain h where h: "h \<le> d" "map_of best s = Some h" by blast
  then have "covered [] best p (sat_i64 (h + 1))" using relaxedD(2) [OF assms(1), of s h p] step by simp
  moreover have "sat_i64 (h + 1) \<le> sat_i64 (d + 1)" using h(1) by (simp add: sat_i64_def)
  ultimately show ?case by (fastforce simp: covered_def)
qed

text \<open>The least depth of a seq.\<close>

definition least_at :: "commit_index \<Rightarrow> int \<Rightarrow> int \<Rightarrow> (int \<times> int) set \<Rightarrow> int \<Rightarrow> int \<Rightarrow> bool" where
  "least_at c floor limit seeds s d \<longleftrightarrow> at_depth c floor limit seeds s d \<and> (\<forall>d'. at_depth c floor limit seeds s d' \<longrightarrow> d \<le> d')"

lemma relaxed_least: "relaxed c floor limit seeds [] best \<Longrightarrow> map_of best s = Some d \<longleftrightarrow> least_at c floor limit seeds s d"
  unfolding least_at_def using relaxed_done relaxedD(3) by (metis dual_order.antisym option.inject)

definition reached_row :: "commit_index \<Rightarrow> int \<times> int \<Rightarrow> reached \<Rightarrow> bool" where
  "reached_row c sd one \<longleftrightarrow> (rc_seq one, rc_depth one) = sd \<and>
     (\<exists>e. ci_get c (rc_seq one) = Some e \<and> rc_root_tree_seq one = entry_root_tree e)"

lemma reached_rows:
  "map (\<lambda>(seq, depth). rbind (must_get c seq floor) (\<lambda>e. Inr \<lparr>rc_seq = seq, rc_depth = depth, rc_root_tree_seq = entry_root_tree e\<rparr>)) xs =
     map Inr rs \<Longrightarrow> list_all2 (reached_row c) xs rs"
proof (induction xs arbitrary: rs)
  case (Cons x xs)
  then obtain r rs' where rs: "rs = r # rs'" by (cases rs) auto
  have "reached_row c x r"
    using Cons.prems unfolding rs
    by (cases "ci_get c (fst x)") (auto simp: reached_row_def must_get_def split: prod.splits)
  then show ?case using Cons unfolding rs by simp
qed simp

lemma reached_rows_set:
  assumes "list_all2 (reached_row c) xs rs"
  shows "map rc_seq rs = map fst xs" "x \<in> set xs \<Longrightarrow> ci_get c (fst x) \<noteq> None"
    and "one \<in> set rs \<longleftrightarrow> (rc_seq one, rc_depth one) \<in> set xs \<and> (\<exists>e. ci_get c (rc_seq one) = Some e \<and> rc_root_tree_seq one = entry_root_tree e)"
  using assms
proof (induction rule: list_all2_induct)
  case (Cons x xs r rs)
  { case 1 then show ?case using Cons by (auto simp: reached_row_def)
  next case 2 then show ?case using Cons by (auto simp: reached_row_def)
  next case 3
    have "one = r \<longleftrightarrow> (rc_seq one, rc_depth one) = x \<and> (\<exists>e. ci_get c (rc_seq one) = Some e \<and> rc_root_tree_seq one = entry_root_tree e)"
      using Cons(1) by (cases one; cases r) (auto simp: reached_row_def)
    then show ?case using Cons(5) by auto }
qed simp_all

lemma expand_depth_ok:
  assumes "expand_depth c seeds depths floor limit = Inr band" "S = set (zip seeds depths)"
  shows "one \<in> set (db_reached band) \<longleftrightarrow> floor \<le> rc_seq one \<and> least_at c floor limit S (rc_seq one) (rc_depth one) \<and>
      (\<exists>e. ci_get c (rc_seq one) = Some e \<and> rc_root_tree_seq one = entry_root_tree e)"
    and "sorted_wrt (<) (map rc_seq (db_reached band))"
    and "map_of (db_below band) s = Some d \<longleftrightarrow> s < floor \<and> least_at c floor limit S s d"
    and "sorted_wrt (<) (map fst (db_below band))"
    and "floor \<le> s \<Longrightarrow> least_at c floor limit S s d \<Longrightarrow> ci_get c s \<noteq> None"
proof -
  obtain best rs where loop: "expand_depth_loop c floor limit (rev (zip seeds depths)) [] = Inr best"
    and rs: "list_all2 (reached_row c) (filter (\<lambda>(seq, _). floor \<le> seq) best) rs"
    and band: "band = \<lparr>db_reached = rs, db_below = filter (\<lambda>(seq, _). seq < floor) best\<rparr>"
    using assms(1) by (auto simp: expand_depth_def rbind_eq_Inr_iff collect_results_Inr dest!: reached_rows)
  have "relaxed c floor limit S (rev (zip seeds depths)) []" using relaxed_start [of c floor limit "rev (zip seeds depths)"] assms(2) by simp
  note ok = expand_depth_loop_ok [OF loop this]
  have srt: "sorted_wrt (<) (map fst best)" using ok by simp
  then have dist: "distinct (map fst best)" by (simp add: strict_sorted_iff)
  have mem: "(s, d) \<in> set best \<longleftrightarrow> least_at c floor limit S s d" for s d
    using relaxed_least [OF conjunct1 [OF ok], of s d] map_of_eq_Some_iff [OF dist, of s d] by simp
  note rows = reached_rows_set [OF rs]
  show "sorted_wrt (<) (map rc_seq (db_reached band))" "sorted_wrt (<) (map fst (db_below band))"
    using srt rows(1) by (simp_all add: band sorted_wrt_map sorted_wrt_filter)
  show "one \<in> set (db_reached band) \<longleftrightarrow> floor \<le> rc_seq one \<and> least_at c floor limit S (rc_seq one) (rc_depth one) \<and>
      (\<exists>e. ci_get c (rc_seq one) = Some e \<and> rc_root_tree_seq one = entry_root_tree e)"
    using rows(3) [of one] mem by (auto simp: band)
  have "distinct (map fst (db_below band))" using dist by (simp add: band distinct_map_filter)
  then show "map_of (db_below band) s = Some d \<longleftrightarrow> s < floor \<and> least_at c floor limit S s d"
    using map_of_eq_Some_iff [of "db_below band" s d] mem by (auto simp: band)
  show "ci_get c s \<noteq> None" if "floor \<le> s" "least_at c floor limit S s d" using rows(2) [of "(s, d)"] that mem by auto
qed

lemma expand_depth_error:
  assumes "expand_depth c seeds depths floor limit = Inl e" "S = set (zip seeds depths)"
  shows "(\<exists>d. at_depth c floor limit S (nv_seq e) d) \<and> floor \<le> nv_seq e \<and> ci_get c (nv_seq e) = None"
proof (cases "expand_depth_loop c floor limit (rev (zip seeds depths)) []")
  case (Inl e')
  then have "e' = e" using assms(1) by (simp add: expand_depth_def)
  then show ?thesis
    using expand_depth_loop_error [OF Inl] relaxed_start [of c floor limit "rev (zip seeds depths)"] assms(2) by simp
next
  case (Inr best)
  have "relaxed c floor limit S (rev (zip seeds depths)) []" using relaxed_start [of c floor limit "rev (zip seeds depths)"] assms(2) by simp
  note ok = expand_depth_loop_ok [OF Inr this]
  have "Inl e \<in> (\<lambda>(seq, depth). rbind (must_get c seq floor) (\<lambda>e. Inr \<lparr>rc_seq = seq, rc_depth = depth, rc_root_tree_seq = entry_root_tree e\<rparr>)) `
      set (filter (\<lambda>(seq, _). floor \<le> seq) best)"
    using assms(1) Inr by (auto simp: expand_depth_def rbind_def [of "collect_results _"] split: sum.splits dest!: collect_results_Inl)
  then obtain s d where sd: "(s, d) \<in> set best" "floor \<le> s" "must_get c s floor = Inl e"
    by (auto simp: rbind_def split: sum.splits)
  then have e: "nv_seq e = s" "ci_get c s = None" by (auto simp: must_get_def ok_or_def split: option.splits)
  have "distinct (map fst best)" using ok by (simp add: strict_sorted_iff)
  then have "at_depth c floor limit S s d" using relaxedD(3) [OF conjunct1 [OF ok]] sd(1) by simp
  then show ?thesis using e sd(2) by auto
qed

end
