(* ===== verification/Repo_Graph.thy ===== *)
theory Repo_Graph
  imports Graph_Store Pack_Index Band_Walk
begin

text \<open>
  One repository's commit graph as its readers use it, \<open>RepoGraph\<close> of \<open>git/graph-store/src/store.rs\<close>:
  a band of the index, the pack facts of a scattered set of seqs, and the identity that numbers commits.
  The identity is kept by the metadata store and the bitmap codec by a library, so both are fields of
  the record the readers take; \<open>history\<close> is what readers may rely on, and the segment stores of both
  tiers are shown to provide it.
\<close>

section \<open>Pack facts\<close>

type_synonym pack_facts = "pack_index list"

definition facts_get :: "pack_facts \<Rightarrow> int \<Rightarrow> pack_node option" where
  "facts_get facts seq = find_map (\<lambda>part. pi_get part seq) facts"

definition packs_at ::
    "(pack_index, malformed, 'c, 'b) segments \<Rightarrow> int \<Rightarrow> ('c, 'b) world \<Rightarrow> int list \<Rightarrow> (malformed store_error, pack_facts) result" where
  "packs_at env repo w seqs = seg_read_at env (pack_scope repo) (List.map_filter try_u64 seqs) w"

lemma pack_storeI:
  assumes "capacity cap" "ss_value env = pack_ops" "ss_catalog env = memory_ops" "bucket_laws (ss_bucket env) view"
    "ulid_laws (ss_ulid env)" "inj_on (ss_fresh env) {..<ID_SPACE}"
  shows "segment_store env (pi_ok cap) max pi_at scope_rows view"
  using segment_packs [OF assms(1)] memory.catalog_axioms assms(2-)
  by (auto simp: segment_store_def segment_store_axioms_def)

definition packs_ok ::
    "(nat \<Rightarrow> nat) \<Rightarrow> (pack_index, malformed, memory_catalog, 'b) segments \<Rightarrow> ('b \<Rightarrow> path \<Rightarrow> bytes option) \<Rightarrow> (memory_catalog, 'b) world \<Rightarrow> bool" where
  "packs_ok cap env view w \<longleftrightarrow>
     store_inv (ss_value env) (pi_ok cap) pi_at (ss_ulid env) (ss_fresh env) (scope_rows (w_catalog w)) (view (w_bucket w)) (w_made w)"

definition pack_at ::
    "(pack_index, malformed, memory_catalog, 'b) segments \<Rightarrow> ('b \<Rightarrow> path \<Rightarrow> bytes option) \<Rightarrow> (memory_catalog, 'b) world \<Rightarrow> int \<Rightarrow> int \<Rightarrow> pack_node option" where
  "pack_at env view w repo seq =
     (if 0 \<le> seq \<and> seq \<le> i64_max then rows_answer (ss_value env) max pi_at (view (w_bucket w)) (scope_rows (w_catalog w) repo) (of_int seq) else None)"

lemma uint_of_seq: "0 \<le> seq \<Longrightarrow> seq \<le> i64_max \<Longrightarrow> uint (of_int seq :: u64) = seq"
  by (simp add: unsigned_of_int take_bit_int_eq_self i64_max_def)

lemma try_u64_keys: "0 \<le> seq \<Longrightarrow> seq \<le> i64_max \<Longrightarrow> seq \<in> set seqs \<Longrightarrow> of_int seq \<in> set (List.map_filter try_u64 seqs)"
  by (force simp: map_filter_def try_u64_nonneg intro: rev_image_eqI)

lemma packs_at_read:
  assumes laws: "capacity cap" "ss_value env = pack_ops" "ss_catalog env = memory_ops"
      "bucket_laws (ss_bucket env) view" "ulid_laws (ss_ulid env)" "inj_on (ss_fresh env) {..<ID_SPACE}"
    and "packs_ok cap env view w" "1 \<le> ss_clusters env" "packs_at env repo w seqs = Inr facts"
    and "seq \<in> set seqs" "0 \<le> seq" "seq \<le> i64_max"
  shows "facts_get facts seq = pack_at env view w repo seq"
proof -
  have "find_map (\<lambda>v. pi_at v (of_int seq)) facts =
      rows_answer (ss_value env) max pi_at (view (w_bucket w)) (scope_rows (w_catalog w) (sc_id (pack_scope repo))) (of_int seq)"
    by (rule segment_store.read_at_first [OF pack_storeI [OF laws] assms(7) [unfolded packs_ok_def] assms(8) assms(9) [unfolded packs_at_def]])
      (rule try_u64_keys [OF assms(11,12,10)])
  then show ?thesis
    using assms(11,12) by (simp add: facts_get_def pi_at_def uint_of_seq pack_at_def pack_scope_def tier_scope_def)
qed

text \<open>
  A scattered read of pack facts answers every seq it was asked for with the newest image any
  segment of the repository records for it, from whichever cluster the seq was read in, and fails only
  as a read of segments does.
\<close>

lemma packs_at_newest:
  assumes laws: "capacity cap" "ss_value env = pack_ops" "ss_catalog env = memory_ops"
      "bucket_laws (ss_bucket env) view" "ulid_laws (ss_ulid env)" "inj_on (ss_fresh env) {..<ID_SPACE}"
    and "packs_ok cap env view w" "1 \<le> ss_clusters env"
  shows "case packs_at env repo w seqs of
      Inr facts \<Rightarrow> \<forall>seq \<in> set seqs. 0 \<le> seq \<longrightarrow> seq \<le> i64_max \<longrightarrow> facts_get facts seq = pack_at env view w repo seq
    | Inl e \<Rightarrow> \<exists>i p m x. e = EBucket i m \<and> bo_get (ss_bucket env) p (w_bucket w) = Inl m \<and> view (w_bucket w) p = Some x"
proof (cases "packs_at env repo w seqs")
  case (Inl e)
  note store = pack_storeI [OF laws]
  obtain r where "range_ok r" "seg_read env (pack_scope repo) r w = Inl e"
    using segment_store.read_at_error [OF store assms(7) [unfolded packs_ok_def] assms(8) Inl [unfolded packs_at_def]] by blast
  from segment_store.read_error [OF store assms(7) [unfolded packs_ok_def] this] read_memory_catalog [OF laws(3)]
  show ?thesis using Inl by auto
next
  case (Inr facts)
  then show ?thesis using packs_at_read [OF assms(1-8) Inr] by simp
qed

section \<open>The graph a reader reads\<close>

datatype graph_error = EGraph "malformed store_error" | EIdentity string

record repo_graph =
  rg_index :: "int \<Rightarrow> int \<Rightarrow> (graph_error, commit_index) result"
  rg_packs_at :: "int list \<Rightarrow> (graph_error, pack_facts) result"
  rg_oids_of :: "int list \<Rightarrow> (graph_error, int \<rightharpoonup> oid) result"
  rg_seqs_of :: "oid list \<Rightarrow> (graph_error, oid \<rightharpoonup> int) result"
  rg_bitmap :: "bytes \<Rightarrow> u64 set option"

definition graph_result :: "(malformed store_error, 'a) result \<Rightarrow> (graph_error, 'a) result" where
  "graph_result r = (case r of Inl e \<Rightarrow> Inl (EGraph e) | Inr a \<Rightarrow> Inr a)"

lemma graph_result_Inr [simp]: "graph_result r = Inr a \<longleftrightarrow> r = Inr a"
  by (cases r) (simp_all add: graph_result_def)

definition repo_store ::
    "(commit_index, malformed, 'c, 'b) segments \<Rightarrow> ('c, 'b) world \<Rightarrow> (pack_index, malformed, 'd, 'b) segments \<Rightarrow> ('d, 'b) world \<Rightarrow>
     int \<Rightarrow> (int list \<Rightarrow> (graph_error, int \<rightharpoonup> oid) result) \<Rightarrow> (oid list \<Rightarrow> (graph_error, oid \<rightharpoonup> int) result) \<Rightarrow> (bytes \<Rightarrow> u64 set option) \<Rightarrow> repo_graph" where
  "repo_store genv gw penv pw repo oids seqs de =
     \<lparr>rg_index = (\<lambda>floor ceil. graph_result (graph_index genv repo gw floor ceil)),
      rg_packs_at = (\<lambda>s. graph_result (packs_at penv repo pw s)), rg_oids_of = oids, rg_seqs_of = seqs, rg_bitmap = de\<rparr>"

definition parents_in :: "(int \<Rightarrow> node option) \<Rightarrow> int \<Rightarrow> int list" where
  "parents_in node seq = (case node seq of None \<Rightarrow> [] | Some n \<Rightarrow> node_parents n)"

text \<open>
  What a history is to its readers: every band read answers the seqs of the band with the same nodes,
  the pack facts and the names asked for are the ones recorded, and a parent is older than its child.
\<close>

locale history =
  fixes g :: repo_graph and node :: "int \<Rightarrow> node option" and pack :: "int \<Rightarrow> pack_node option" and name :: "int \<rightharpoonup> oid"
  assumes index_reads: "rg_index g floor ceil = Inr c \<Longrightarrow> floor \<le> seq \<Longrightarrow> seq \<le> ceil \<Longrightarrow> ceil \<le> i64_max \<Longrightarrow>
        map_option entry_node (ci_get c seq) = node seq"
    and packs_read: "rg_packs_at g seqs = Inr facts \<Longrightarrow> seq \<in> set seqs \<Longrightarrow> 0 \<le> seq \<Longrightarrow> seq \<le> i64_max \<Longrightarrow>
        facts_get facts seq = pack seq"
    and oids_read: "rg_oids_of g seqs = Inr oids \<Longrightarrow> seq \<in> set seqs \<Longrightarrow> oids seq = name seq"
    and seqs_read: "rg_seqs_of g names = Inr found \<Longrightarrow> oid \<in> set names \<Longrightarrow> found oid = Some seq \<Longrightarrow> name seq = Some oid \<and> 0 \<le> seq \<and> seq \<le> i64_max"
    and seqs_complete: "rg_seqs_of g names = Inr found \<Longrightarrow> oid \<in> set names \<Longrightarrow> name seq = Some oid \<Longrightarrow> found oid = Some seq"
    and older: "p \<in> set (parents_in node seq) \<Longrightarrow> p < seq"
    and numbered: "node seq \<noteq> None \<Longrightarrow> 0 \<le> seq"

section \<open>The segment stores provide a history\<close>

definition node_at ::
    "(commit_index, malformed, memory_catalog, 'b) segments \<Rightarrow> ('b \<Rightarrow> path \<Rightarrow> bytes option) \<Rightarrow> (memory_catalog, 'b) world \<Rightarrow> int \<Rightarrow> int \<Rightarrow> node option" where
  "node_at env view w repo seq = (if 0 \<le> seq \<and> seq \<le> i64_max then commit_at env view w repo (of_int seq) else None)"

lemma ci_get_negative: "capacity cap \<Longrightarrow> ci_ok cap c \<Longrightarrow> seq < 0 \<Longrightarrow> ci_get c seq = None"
  using ci_ok_parts(1) [of cap c] by (simp add: ci_get_def ci_sized_def)

lemma graph_index_read:
  assumes laws: "capacity cap" "ss_value env = commit_ops" "ss_catalog env = memory_ops"
      "bucket_laws (ss_bucket env) view" "ulid_laws (ss_ulid env)" "inj_on (ss_fresh env) {..<ID_SPACE}"
    and "commits_ok cap env view w" "graph_index env repo w floor ceil = Inr c"
    and "floor \<le> seq" "seq \<le> ceil" "ceil \<le> i64_max"
  shows "map_option entry_node (ci_get c seq) = node_at env view w repo seq"
proof -
  note store = commit_storeI [OF laws] and inv = assms(7) [unfolded commits_ok_def]
  define r where "r = \<lparr>kr_first = of_int (max floor 0) :: key, kr_last = of_int (max ceil 0)\<rparr>"
  have le: "(of_int (max floor 0) :: key) \<le> of_int (max ceil 0)"
    using assms(9-11) by (intro of_int_le_key) (auto simp: i64_max_def)
  then have span: "band_span floor ceil = Some r" and ok: "range_ok r"
    by (simp_all add: band_span_def key_range_new_def r_def range_ok_def)
  obtain res where res: "seg_read env (graph_scope repo) r w = Inr res" and c: "c = (case res of None \<Rightarrow> ci_default | Some c \<Rightarrow> c)"
    using assms(8) by (auto simp: graph_index_def span rbind_eq_Inr_iff)
  show ?thesis
  proof (cases "0 \<le> seq")
    case True
    have "(of_int (max floor 0) :: key) \<le> of_int seq" "(of_int seq :: key) \<le> of_int (max ceil 0)"
      using True assms(9-11) by (auto intro!: of_int_le_key)
    then have "contains r (of_int seq)" by (simp add: r_def contains_def)
    from segment_store.read_answer [OF store inv ok res this]
    have "(case res of None \<Rightarrow> None | Some v \<Rightarrow> ci_at v (of_int seq)) = commit_at env view w repo (of_int seq)"
      by (simp add: commit_at_def graph_scope_def tier_scope_def)
    moreover have "ci_get ci_default seq = None" by (simp add: ci_get_def ci_default_def get_at_def)
    ultimately show ?thesis using True assms(10,11) uint_of_seq [OF True]
      by (auto simp: c node_at_def ci_at_def split: option.splits)
  next
    case False
    have "ci_get c seq = None"
    proof (cases res)
      case None
      then show ?thesis using c by (simp add: ci_get_def ci_default_def get_at_def)
    next
      case (Some v)
      then show ?thesis
        using c ci_get_negative [OF laws(1) segment_store.read_valid [OF store inv ok res [unfolded Some]]] False by simp
    qed
    then show ?thesis using False by (simp add: node_at_def)
  qed
qed

lemma repo_store_history:
  assumes graph: "capacity cap" "ss_value genv = commit_ops" "ss_catalog genv = memory_ops"
      "bucket_laws (ss_bucket genv) view" "ulid_laws (ss_ulid genv)" "inj_on (ss_fresh genv) {..<ID_SPACE}"
      "commits_ok cap genv view gw"
    and packs: "capacity pcap" "ss_value penv = pack_ops" "ss_catalog penv = memory_ops"
      "bucket_laws (ss_bucket penv) view" "ulid_laws (ss_ulid penv)" "inj_on (ss_fresh penv) {..<ID_SPACE}"
      "packs_ok pcap penv view pw" "1 \<le> ss_clusters penv"
    and names: "\<And>s m seq. oids s = Inr m \<Longrightarrow> seq \<in> set s \<Longrightarrow> m seq = name seq"
      "\<And>n m oid seq. seqs n = Inr m \<Longrightarrow> oid \<in> set n \<Longrightarrow> m oid = Some seq \<Longrightarrow> name seq = Some oid \<and> 0 \<le> seq \<and> seq \<le> i64_max"
      "\<And>n m oid seq. seqs n = Inr m \<Longrightarrow> oid \<in> set n \<Longrightarrow> name seq = Some oid \<Longrightarrow> m oid = Some seq"
    and older: "\<And>seq p. p \<in> set (parents_in (node_at genv view gw repo) seq) \<Longrightarrow> p < seq"
  shows "history (repo_store genv gw penv pw repo oids seqs de) (node_at genv view gw repo) (pack_at penv view pw repo) name"
proof
  show "p < seq" if "p \<in> set (parents_in (node_at genv view gw repo) seq)" for p seq by (rule older [OF that])
  show "0 \<le> seq" if "node_at genv view gw repo seq \<noteq> None" for seq using that by (simp add: node_at_def split: if_splits)
qed (auto simp: repo_store_def graph_index_read [OF graph] packs_at_read [OF packs] intro: names dest: names)

section \<open>An example repository\<close>

definition example_pack_env :: "(pack_index, malformed, memory_catalog, list_bucket) segments" where
  "example_pack_env = \<lparr>ss_value = pack_ops, ss_catalog = memory_ops, ss_bucket = list_bucket_ops, ss_ulid = bit_ulid_ops,
     ss_fresh = of_nat, ss_policy = example_policy, ss_clusters = 8\<rparr>"

lemma example_pack_env_laws:
  "capacity example_cap" "ss_value example_pack_env = pack_ops" "ss_catalog example_pack_env = memory_ops"
  "bucket_laws (ss_bucket example_pack_env) map_of" "ulid_laws (ss_ulid example_pack_env)"
  "inj_on (ss_fresh example_pack_env) {..<ID_SPACE}"
  using example_index_ok(1) list_bucket_laws bit_ulid_laws
  by (simp_all add: example_pack_env_def inj_on_def ID_SPACE_def word_of_nat_eq_iff take_bit_nat_eq_self)

definition packed_world :: "(memory_catalog, list_bucket) world" where
  "packed_world = snd (seg_write example_pack_env (pack_scope 7) example_packs empty_world)"

lemma packed_world_ok: "packs_ok example_cap example_pack_env map_of packed_world" "1 \<le> ss_clusters example_pack_env"
proof -
  have "packs_ok example_cap example_pack_env map_of empty_world"
    by (simp add: packs_ok_def store_inv_def empty_world_def scope_rows_def)
  then show "packs_ok example_cap example_pack_env map_of packed_world"
    using segment_store.write_spec [OF pack_storeI [OF example_pack_env_laws] _ example_packs_ok prod.collapse [symmetric], of empty_world]
    by (simp add: packs_ok_def packed_world_def empty_world_def ID_SPACE_def)
  show "1 \<le> ss_clusters example_pack_env" by (simp add: example_pack_env_def)
qed

definition example_name :: "int \<rightharpoonup> oid" where
  "example_name = [5 \<mapsto> [5], 7 \<mapsto> [7]]"

definition example_repo :: repo_graph where
  "example_repo = repo_store example_env written_world example_pack_env packed_world 7
     (\<lambda>_. Inr example_name) (\<lambda>_. Inr [[5] \<mapsto> 5, [7] \<mapsto> 7]) example_de"

lemma written_commits: "commit_at example_env map_of written_world 7 k \<in> {None, ci_at example_index k}"
proof -
  let ?w1 = "snd (seg_write example_env (graph_scope 7) example_index empty_world)"
  note wrote = segment_store.write_spec [OF commit_storeI [OF example_env_laws] _ example_index_ok(2) prod.collapse [symmetric]]
  have sc: "sc_id (graph_scope 7) = 7" by (simp add: graph_scope_def tier_scope_def)
  have none: "commit_at example_env map_of empty_world 7 k = None"
    by (simp add: commit_at_def rows_answer_def empty_world_def scope_rows_def answer_def)
  have one: "commit_at example_env map_of ?w1 7 k \<in> {None, ci_at example_index k}"
    using wrote [of empty_world "graph_scope 7", OF empty_world_ok [unfolded commits_ok_def]] none
    by (auto simp: commit_at_def sc empty_world_def ID_SPACE_def)
  have "w_made ?w1 < ID_SPACE"
    using seg_write_made [of example_env "graph_scope 7" example_index empty_world] by (simp add: empty_world_def ID_SPACE_def)
  moreover have "commits_ok example_cap example_env map_of ?w1"
    by (rule written_once_ok [OF empty_world_ok]) (simp add: empty_world_def ID_SPACE_def)
  ultimately show ?thesis
    using wrote [of ?w1 "graph_scope 7"] one
    by (auto simp: commit_at_def commits_ok_def sc written_world_def max_def)
qed

lemma example_older: "p \<in> set (parents_in (node_at example_env map_of written_world 7) seq) \<Longrightarrow> p < seq"
proof -
  assume p: "p \<in> set (parents_in (node_at example_env map_of written_world 7) seq)"
  then obtain n where n: "commit_at example_env map_of written_world 7 (of_int seq) = Some n" "0 \<le> seq" "seq \<le> i64_max" "p \<in> set (node_parents n)"
    unfolding parents_in_def node_at_def
    by (cases "commit_at example_env map_of written_world 7 (of_int seq)") (auto split: if_splits)
  then have "ci_at example_index (of_int seq) = Some n" using written_commits [of "of_int seq"] by auto
  then have "st_get example_slots seq = Some n"
    using ci_at_nodes [OF example_index_ok] ci_nodes_assemble [of example_slots] within_fits [OF example_index_ok(1)] n(2,3)
      example_slots_within by (simp add: example_index_def uint_of_seq)
  with example_slots_get show "p < seq" using n(4) by (fastforce simp: node_parents_def NONE_def)
qed

interpretation example_history: history example_repo "node_at example_env map_of written_world 7"
  "pack_at example_pack_env map_of packed_world 7" example_name
  unfolding example_repo_def
  by (rule repo_store_history [OF example_env_laws written_world_ok(1) example_pack_env_laws packed_world_ok])
    (auto simp: example_name_def i64_max_def example_older split: if_splits)

text \<open>A graph held whole in memory, whose reads can be worked out.\<close>

definition held_repo :: repo_graph where
  "held_repo = \<lparr>rg_index = (\<lambda>_ _. Inr example_index), rg_packs_at = (\<lambda>_. Inr [example_packs]), rg_oids_of = (\<lambda>_. Inr example_name),
     rg_seqs_of = (\<lambda>_. Inr [[5] \<mapsto> 5, [7] \<mapsto> 7]), rg_bitmap = example_de\<rparr>"

lemma held_get: "map_option entry_node (ci_get example_index seq) = st_get example_slots seq"
  unfolding example_index_def by (rule ci_get_assemble [OF within_fits [OF example_index_ok(1) example_slots_within]])

lemma held_slots: "st_get example_slots 5 = Some (Node 3 1 2 4 [0])" "st_get example_slots 7 = Some (Node 9 2 5 NONE [])"
  by (simp_all add: st_get_def example_slots_def seq_offset_def get_at_def Let_def sat_i64_def i64_min_def i64_max_def)

lemma held_entries:
  obtains e f where "ci_get example_index 5 = Some e" "entry_parents e = [2, 4, 0]"
    and "ci_get example_index 7 = Some f" "entry_parents f = [5]"
  using held_get [of 5] held_get [of 7] by (auto simp: held_slots entry_of_node node_parents_def NONE_def)

interpretation held_history: history held_repo "st_get example_slots" "pi_get example_packs" example_name
proof
  show "p < seq" if p: "p \<in> set (parents_in (st_get example_slots) seq)" for p seq
  proof -
    obtain n where "st_get example_slots seq = Some n" "p \<in> set (node_parents n)"
      using p by (cases "st_get example_slots seq") (simp_all add: parents_in_def)
    then show ?thesis using example_slots_get by (fastforce simp: node_parents_def NONE_def)
  qed
  show "0 \<le> seq" if "st_get example_slots seq \<noteq> None" for seq using that example_slots_get [of seq] by auto
qed (auto simp: held_repo_def held_get facts_get_def example_name_def i64_max_def split: if_splits option.splits)

end
