(* ===== verification/Descending_Graph.thy ===== *)
theory Descending_Graph
  imports Main
begin

text \<open>
  Reachability in graphs whose edges all go down, as parent edges do in the numbering of commits: a
  descending walk may be cut at a floor and continued from what it met below.
\<close>

section \<open>Graphs whose edges go down\<close>

text \<open>What a floor leaves of a graph: the edges out of nodes at or above it.\<close>

definition down :: "(int \<times> int) set \<Rightarrow> int \<Rightarrow> (int \<times> int) set" where
  "down E floor = {(s, p) \<in> E. floor \<le> s}"

definition descending :: "(int \<times> int) set \<Rightarrow> bool" where
  "descending E \<longleftrightarrow> (\<forall>(s, p) \<in> E. p < s)"

lemma down_subset: "down E floor \<subseteq> E"
  by (auto simp: down_def)

lemma down_reach: "(s, a) \<in> (down E floor)\<^sup>* \<Longrightarrow> (s, a) \<in> E\<^sup>*"
  using rtrancl_mono [OF down_subset] by blast

lemma descending_mono: "descending E \<Longrightarrow> F \<subseteq> E \<Longrightarrow> descending F"
  by (auto simp: descending_def)

lemma reach_le:
  assumes "descending E" "(s, a) \<in> E\<^sup>*"
  shows "a \<le> s"
  using assms(2) by induction (use assms(1) in \<open>auto simp: descending_def\<close>)

lemma reach_eq: "descending E \<Longrightarrow> (s, a) \<in> E\<^sup>* \<Longrightarrow> (a, s) \<in> E\<^sup>* \<Longrightarrow> a = s"
  using reach_le by (metis order_antisym)

lemma path_within:
  assumes "descending E" "(s, a) \<in> E\<^sup>*" "floor \<le> a"
  shows "(s, a) \<in> (down E floor)\<^sup>*"
  using assms(2,3)
proof (induction rule: rtrancl_induct)
  case (step b c)
  have "c < b" using step.hyps(2) assms(1) by (auto simp: descending_def)
  with step have "(s, b) \<in> (down E floor)\<^sup>*" "(b, c) \<in> down E floor" by (auto simp: down_def)
  then show ?case by (rule rtrancl_into_rtrancl)
qed simp

lemma path_split:
  assumes "(s, a) \<in> E\<^sup>*" "a < floor"
  shows "\<exists>b. (s, b) \<in> (down E floor)\<^sup>* \<and> b < floor \<and> (b, a) \<in> E\<^sup>*"
  using assms(1)
proof (induction rule: converse_rtrancl_induct)
  case base
  then show ?case using assms(2) by blast
next
  case (step s m)
  show ?case
  proof (cases "s < floor")
    case True
    then show ?thesis using step.hyps by (meson converse_rtrancl_into_rtrancl rtrancl.rtrancl_refl)
  next
    case False
    with step have "(s, m) \<in> down E floor" by (simp add: down_def)
    with step.IH show ?thesis by (meson converse_rtrancl_into_rtrancl)
  qed
qed

text \<open>Everything a set reaches below a floor is reached from what it first meets below the floor.\<close>

lemma below_floor:
  assumes "descending E"
  shows "{a \<in> E\<^sup>* `` S. a < floor} = E\<^sup>* `` {b \<in> (down E floor)\<^sup>* `` S. b < floor}"
proof (intro equalityI subsetI)
  fix a assume "a \<in> {a \<in> E\<^sup>* `` S. a < floor}"
  then show "a \<in> E\<^sup>* `` {b \<in> (down E floor)\<^sup>* `` S. b < floor}" using path_split [of _ a E floor] by blast
next
  fix a assume "a \<in> E\<^sup>* `` {b \<in> (down E floor)\<^sup>* `` S. b < floor}"
  then obtain s b where "s \<in> S" "(s, b) \<in> (down E floor)\<^sup>*" "b < floor" "(b, a) \<in> E\<^sup>*" by blast
  then have "(s, a) \<in> E\<^sup>*" "a < floor" using down_reach [of s b E floor] reach_le [OF assms] by (auto intro: rtrancl_trans order_le_less_trans)
  then show "a \<in> {a \<in> E\<^sup>* `` S. a < floor}" using \<open>s \<in> S\<close> by blast
qed

lemma above_floor:
  assumes "descending E"
  shows "{a \<in> E\<^sup>* `` S. floor \<le> a} = {a \<in> (down E floor)\<^sup>* `` S. floor \<le> a}"
  using path_within [OF assms] down_reach by blast

text \<open>A walk that stays where two graphs agree is a walk of either.\<close>

lemma reach_agree:
  assumes "\<And>s p. s \<in> T \<Longrightarrow> (s, p) \<in> E \<longleftrightarrow> (s, p) \<in> F" "\<And>s p. s \<in> T \<Longrightarrow> (s, p) \<in> F \<Longrightarrow> p \<in> T" "S \<subseteq> T"
  shows "E\<^sup>* `` S = F\<^sup>* `` S"
proof -
  have "(s, a) \<in> F\<^sup>* \<and> a \<in> T" if "(s, a) \<in> E\<^sup>*" "s \<in> T" for s a
    using that by (induction rule: rtrancl_induct) (auto simp: assms(1) intro: assms(2) rtrancl_into_rtrancl)
  moreover have "(s, a) \<in> E\<^sup>* \<and> a \<in> T" if "(s, a) \<in> F\<^sup>*" "s \<in> T" for s a
    using that by (induction rule: rtrancl_induct) (auto simp: assms(1) [symmetric] intro: assms(2) rtrancl_into_rtrancl)
  ultimately show ?thesis using assms(3) by blast
qed

end
