(* ===== verification/Metadata.thy ===== *)
theory Metadata
  imports Core_Objects "HOL-Library.Char_ord"
begin

text \<open>
  The rows of every repository, as \<open>git/metadata/src/memory.rs\<close> keeps them: what a repository is, what its
  objects are numbered as, where its refs point and which pack images it names. The lock covers each call,
  so a call is one step on the whole state. A map whose order or length is read is an association list in
  key order; a hash map read only by key is a map. The clock and a fresh storage key are arguments, and
  \<open>gix_validate::reference::name\<close>, which is not part of the sources, is the predicate \<open>valid\<close>.
\<close>

section \<open>Refnames\<close>

definition starts_with :: "string \<Rightarrow> string \<Rightarrow> bool" where
  "starts_with p s \<longleftrightarrow> take (length p) s = p"

definition is_funny_refname :: "(string \<Rightarrow> bool) \<Rightarrow> string \<Rightarrow> bool \<Rightarrow> bool" where
  "is_funny_refname valid refname is_delete =
     (if \<not> starts_with ''refs/'' refname then True
      else let rest = drop 5 refname in
        if \<not> is_delete \<and> CHR ''/'' \<notin> set rest then True else \<not> valid refname)"

definition is_branch_refname :: "string \<Rightarrow> bool" where
  "is_branch_refname refname = starts_with ''refs/heads/'' refname"

definition is_ascii_hexdigit :: "char \<Rightarrow> bool" where
  "is_ascii_hexdigit c \<longleftrightarrow> c \<in> set ''0123456789abcdefABCDEF''"

definition is_direct_ref :: "string \<Rightarrow> bool" where
  "is_direct_ref v \<longleftrightarrow> length v = 40 \<and> list_all is_ascii_hexdigit v"

text \<open>An object id in the hex it is displayed as.\<close>

definition hex_digit :: "nat \<Rightarrow> char" where
  "hex_digit n = ''0123456789abcdef'' ! n"

definition hex_of :: "oid \<Rightarrow> string" where
  "hex_of oid = concat (map (\<lambda>b. [hex_digit (unat b div 16), hex_digit (unat b mod 16)]) oid)"

lemma hex_digit_ok: "n < 16 \<Longrightarrow> is_ascii_hexdigit (hex_digit n)"
  by (auto simp: hex_digit_def is_ascii_hexdigit_def less_Suc_eq numeral_eq_Suc)

lemma hex_of_direct: "length oid = 20 \<Longrightarrow> is_direct_ref (hex_of oid)"
proof -
  have "unat b div 16 < 16" for b :: u8 using unat_bound [of b] by (simp add: less_mult_imp_div_less)
  then have "list_all is_ascii_hexdigit (hex_of oid)"
    by (auto simp: hex_of_def list_all_iff intro!: hex_digit_ok)
  moreover have "length (hex_of oid) = 2 * length oid" by (induction oid) (simp_all add: hex_of_def)
  ultimately show "length oid = 20 \<Longrightarrow> is_direct_ref (hex_of oid)" by (simp add: is_direct_ref_def)
qed

lemma symbolic_not_direct: "\<not> is_direct_ref (''ref: '' @ name)"
  by (simp add: is_direct_ref_def is_ascii_hexdigit_def)

section \<open>Rows\<close>

record identity =
  id_seq :: int
  id_kind :: kind

type_synonym repo_id = int
type_synonym storage_key = u128
type_synonym external_key = string

record ref_row =
  rr_oid :: oid
  rr_updated :: int

record repo_rows =
  rp_storage_key :: "storage_key option"
  rp_key :: "external_key option"
  rp_default_branch :: string
  rp_deleted_at :: "int option"
  rp_counters :: "u8 \<rightharpoonup> int"
  rp_identities :: "oid \<rightharpoonup> identity"
  rp_by_seq :: "(u8 \<times> int) \<rightharpoonup> oid"
  rp_branches :: "(string \<times> ref_row) list"
  rp_others :: "(string \<times> ref_row) list"
  rp_segments :: "(u128 \<times> int option) list"
  rp_gathering :: bool

definition no_rows :: repo_rows where
  "no_rows = \<lparr>rp_storage_key = None, rp_key = None, rp_default_branch = [], rp_deleted_at = None,
     rp_counters = \<lambda>_. None, rp_identities = \<lambda>_. None, rp_by_seq = \<lambda>_. None, rp_branches = [], rp_others = [],
     rp_segments = [], rp_gathering = False\<rparr>"

record repo_metadata =
  rm_id :: repo_id
  rm_storage_key :: storage_key
  rm_default_branch :: string

record repo_summary =
  rs_repo :: repo_metadata
  rs_last_push :: "int option"

record ref_entry =
  re_refname :: string
  re_oid :: oid
  re_updated :: int

record ref_update =
  ru_refname :: string
  ru_old :: oid
  ru_new :: oid

datatype ref_rejection = NonFastForward | UnknownCommit | AlreadyExists | InvalidRefname

definition show_rejection :: "ref_rejection \<Rightarrow> string" where
  "show_rejection r = (case r of NonFastForward \<Rightarrow> ''non-fast-forward'' | UnknownCommit \<Rightarrow> ''unknown commit''
     | AlreadyExists \<Rightarrow> ''already exists'' | InvalidRefname \<Rightarrow> ''invalid refname'')"

type_synonym ref_result = "string \<times> (ref_rejection, unit) result"

definition ok_result :: "string \<Rightarrow> ref_result" where
  "ok_result refname = (refname, Inr ())"

definition reject_result :: "string \<Rightarrow> ref_rejection \<Rightarrow> ref_result" where
  "reject_result refname rejection = (refname, Inl rejection)"

definition rp_meta :: "repo_rows \<Rightarrow> repo_id \<Rightarrow> repo_metadata option" where
  "rp_meta r i = map_option (\<lambda>k. \<lparr>rm_id = i, rm_storage_key = k, rm_default_branch = rp_default_branch r\<rparr>) (rp_storage_key r)"

definition rp_table :: "repo_rows \<Rightarrow> bool \<Rightarrow> (string \<times> ref_row) list" where
  "rp_table r branch = (if branch then rp_branches r else rp_others r)"

definition rp_set_table :: "repo_rows \<Rightarrow> bool \<Rightarrow> (string \<times> ref_row) list \<Rightarrow> repo_rows" where
  "rp_set_table r branch t = (if branch then r\<lparr>rp_branches := t\<rparr> else r\<lparr>rp_others := t\<rparr>)"

definition numbers_commit :: "repo_rows \<Rightarrow> oid \<Rightarrow> bool" where
  "numbers_commit r oid = (case rp_identities r oid of None \<Rightarrow> False | Some held \<Rightarrow> id_kind held = Commit)"

section \<open>Time\<close>

text \<open>Rust's division of an \<open>i64\<close> truncates towards zero.\<close>

definition secs :: "int \<Rightarrow> int" where
  "secs micros = (if 0 \<le> micros then micros div 1000000 else - (- micros div 1000000))"

definition cutoff :: "int \<Rightarrow> u64 \<Rightarrow> int" where
  "cutoff now grace_secs = sat_i64 (now - sat_i64 (min (uint grace_secs) i64_max * 1000000))"

section \<open>The state\<close>

record rows_state =
  rs_next_id :: int
  rs_repos :: "(repo_id \<times> repo_rows) list"

definition no_state :: rows_state where
  "no_state = \<lparr>rs_next_id = 0, rs_repos = []\<rparr>"

definition live_with_key :: "rows_state \<Rightarrow> external_key \<Rightarrow> repo_metadata option" where
  "live_with_key st key =
     (case find (\<lambda>(_, r). rp_deleted_at r = None \<and> rp_key r = Some key) (rs_repos st) of
        None \<Rightarrow> None | Some (i, r) \<Rightarrow> rp_meta r i)"

text \<open>A write mints the rows of a repository it is the first to mention; a read does not.\<close>

definition state_held :: "rows_state \<Rightarrow> repo_id \<Rightarrow> repo_rows option" where
  "state_held st i = map_of (rs_repos st) i"

definition state_repo :: "rows_state \<Rightarrow> repo_id \<Rightarrow> repo_rows" where
  "state_repo st i = (case map_of (rs_repos st) i of None \<Rightarrow> no_rows | Some r \<Rightarrow> r)"

definition set_repo :: "repo_id \<Rightarrow> repo_rows \<Rightarrow> rows_state \<Rightarrow> rows_state" where
  "set_repo i r st = st\<lparr>rs_repos := btree_insert i r (rs_repos st)\<rparr>"

definition md_lookup :: "rows_state \<Rightarrow> repo_id \<Rightarrow> repo_metadata option" where
  "md_lookup st i = (case map_of (rs_repos st) i of None \<Rightarrow> None
     | Some r \<Rightarrow> if rp_deleted_at r \<noteq> None then None else rp_meta r i)"

definition last_push_of :: "repo_rows \<Rightarrow> int option" where
  "last_push_of r = map_option (\<lambda>one. secs (rr_updated one)) (map_of (rp_branches r) (rp_default_branch r))"

definition last_push :: "rows_state \<Rightarrow> repo_metadata \<Rightarrow> int option" where
  "last_push st repo = (case state_held st (rm_id repo) of None \<Rightarrow> None | Some r \<Rightarrow> last_push_of r)"

section \<open>Segments and the maintenance lock\<close>

definition entry_or_default :: "(u128 \<times> int option) list \<Rightarrow> u128 \<Rightarrow> (u128 \<times> int option) list" where
  "entry_or_default m k = (if map_of m k = None then btree_insert k None m else m)"

definition register_segments :: "repo_id \<Rightarrow> u128 list \<Rightarrow> rows_state \<Rightarrow> rows_state" where
  "register_segments i ids st =
     (let r = state_repo st i in set_repo i (r\<lparr>rp_segments := foldl entry_or_default (rp_segments r) ids\<rparr>) st)"

definition stamp :: "int \<Rightarrow> (u128 \<times> int option) list \<Rightarrow> u128 \<Rightarrow> (u128 \<times> int option) list" where
  "stamp now m k = (if map_of m k = Some None then btree_insert k (Some now) m else m)"

definition retire_segments :: "int \<Rightarrow> repo_id \<Rightarrow> u128 list \<Rightarrow> rows_state \<Rightarrow> rows_state" where
  "retire_segments now i ids st =
     (let r = state_repo st i in set_repo i (r\<lparr>rp_segments := foldl (stamp now) (rp_segments r) ids\<rparr>) st)"

definition hold_maintenance :: "repo_id \<Rightarrow> rows_state \<Rightarrow> bool \<times> rows_state" where
  "hold_maintenance i st =
     (let r = state_repo st i in (\<not> rp_gathering r, set_repo i (r\<lparr>rp_gathering := True\<rparr>) st))"

definition release_maintenance :: "repo_id \<Rightarrow> rows_state \<Rightarrow> rows_state" where
  "release_maintenance i st = set_repo i ((state_repo st i)\<lparr>rp_gathering := False\<rparr>) st"

definition md_erase :: "repo_id \<Rightarrow> rows_state \<Rightarrow> rows_state" where
  "md_erase i st = st\<lparr>rs_repos := filter (\<lambda>(j, _). j \<noteq> i) (rs_repos st)\<rparr>"

section \<open>Repositories\<close>

definition md_counters :: "repo_rows \<Rightarrow> repo_rows" where
  "md_counters r = r\<lparr>rp_counters := foldl (\<lambda>m k. if m (kind_to_u8 k) = None then m(kind_to_u8 k \<mapsto> 0) else m)
     (rp_counters r) [Commit, Tree, Blob, Tag]\<rparr>"

text \<open>The next id is an unchecked \<open>i64\<close> increment.\<close>

definition wrap_i64 :: "int \<Rightarrow> int" where
  "wrap_i64 x = (x + 2 ^ 63) mod 2 ^ 64 - 2 ^ 63"

definition md_create :: "storage_key \<Rightarrow> string option \<Rightarrow> external_key \<Rightarrow> rows_state \<Rightarrow> repo_metadata \<times> rows_state" where
  "md_create fresh default_branch key st =
     (case live_with_key st key of
        Some held \<Rightarrow> (held, st)
      | None \<Rightarrow>
          let i = wrap_i64 (rs_next_id st + 1);
              meta = \<lparr>rm_id = i, rm_storage_key = fresh,
                rm_default_branch = (case default_branch of None \<Rightarrow> ''refs/heads/main'' | Some b \<Rightarrow> b)\<rparr>;
              st = st\<lparr>rs_next_id := i\<rparr>;
              r = (state_repo st i)\<lparr>rp_storage_key := Some fresh, rp_key := Some key, rp_default_branch := rm_default_branch meta\<rparr>
          in (meta, set_repo i (md_counters r) st))"

definition md_all :: "rows_state \<Rightarrow> repo_metadata list" where
  "md_all st = sort_key rm_id (List.map_filter (\<lambda>(i, r). rp_meta r i) (filter (\<lambda>(_, r). rp_deleted_at r = None) (rs_repos st)))"

definition md_deleted :: "int \<Rightarrow> u64 \<Rightarrow> rows_state \<Rightarrow> repo_metadata list" where
  "md_deleted now grace_secs st =
     (let limit = cutoff now grace_secs in
      sort_key rm_id (List.map_filter (\<lambda>(i, r). rp_meta r i)
        (filter (\<lambda>(_, r). case rp_deleted_at r of None \<Rightarrow> False | Some at \<Rightarrow> at < limit) (rs_repos st))))"

definition create_counters :: "repo_id \<Rightarrow> rows_state \<Rightarrow> rows_state" where
  "create_counters i st = set_repo i (md_counters (state_repo st i)) st"

datatype rows_error = AllocatesNone kind | BatchPastBigint | NoCounter repo_id kind | Raced

definition md_allocate :: "repo_id \<Rightarrow> kind \<Rightarrow> u64 \<Rightarrow> rows_state \<Rightarrow> (rows_error, int) result \<times> rows_state" where
  "md_allocate i k count st =
     (if count = 0 then (Inl (AllocatesNone k), st)
      else if i64_max < uint count then (Inl BatchPastBigint, st)
      else let held = state_repo st i in
        case rp_counters held (kind_to_u8 k) of
          None \<Rightarrow> (Inl (NoCounter i k), set_repo i held st)
        | Some first \<Rightarrow>
            (Inr first, set_repo i (held\<lparr>rp_counters := (rp_counters held)(kind_to_u8 k \<mapsto> sat_i64 (first + uint count))\<rparr>) st))"

definition name_one :: "repo_rows \<Rightarrow> oid \<times> identity \<Rightarrow> repo_rows" where
  "name_one r one = (case one of (oid, identity) \<Rightarrow>
     r\<lparr>rp_identities := (rp_identities r)(oid \<mapsto> identity),
       rp_by_seq := (rp_by_seq r)((kind_to_u8 (id_kind identity), id_seq identity) \<mapsto> oid)\<rparr>)"

definition md_record :: "repo_id \<Rightarrow> (oid \<times> identity) list \<Rightarrow> rows_state \<Rightarrow> (rows_error, unit) result \<times> rows_state" where
  "md_record i named st =
     (let held = state_repo st i in
      if \<exists>(oid, _) \<in> set named. rp_identities held oid \<noteq> None then (Inl Raced, set_repo i held st)
      else (Inr (), set_repo i (foldl name_one held named) st))"

definition collect_map :: "('k::linorder \<times> 'v) list \<Rightarrow> ('k \<times> 'v) list" where
  "collect_map ps = foldl (\<lambda>m (k, v). btree_insert k v m) [] ps"

definition md_identify :: "rows_state \<Rightarrow> repo_id \<Rightarrow> oid list \<Rightarrow> (oid \<times> identity) list" where
  "md_identify st i oids = (case state_held st i of None \<Rightarrow> []
     | Some held \<Rightarrow> collect_map (List.map_filter (\<lambda>oid. map_option (Pair oid) (rp_identities held oid)) oids))"

definition md_oids_of :: "rows_state \<Rightarrow> repo_id \<Rightarrow> kind \<Rightarrow> int list \<Rightarrow> (int \<times> oid) list" where
  "md_oids_of st i k seqs = (case state_held st i of None \<Rightarrow> []
     | Some held \<Rightarrow> collect_map (List.map_filter (\<lambda>seq. map_option (Pair seq) (rp_by_seq held (kind_to_u8 k, seq))) seqs))"

definition md_seqs_of :: "rows_state \<Rightarrow> repo_id \<Rightarrow> kind \<Rightarrow> oid list \<Rightarrow> (oid \<times> int) list" where
  "md_seqs_of st i k oids = map (\<lambda>(oid, held). (oid, id_seq held)) (filter (\<lambda>(_, held). id_kind held = k) (md_identify st i oids))"

definition summarize :: "rows_state \<Rightarrow> repo_id list \<Rightarrow> repo_summary list" where
  "summarize st repos =
     sort_key (\<lambda>s. rm_id (rs_repo s)) (List.map_filter (\<lambda>i. map_option
       (\<lambda>repo. \<lparr>rs_repo = repo, rs_last_push = last_push st repo\<rparr>) (md_lookup st i)) repos)"

definition by_key :: "rows_state \<Rightarrow> external_key \<Rightarrow> repo_metadata option" where
  "by_key st key = live_with_key st key"

definition key_of :: "rows_state \<Rightarrow> repo_id \<Rightarrow> external_key option" where
  "key_of st i = (case map_of (rs_repos st) i of None \<Rightarrow> None
     | Some held \<Rightarrow> if rp_deleted_at held = None then rp_key held else None)"

definition page_row :: "string \<Rightarrow> string \<Rightarrow> repo_id \<times> repo_rows \<Rightarrow> (repo_summary \<times> external_key) option" where
  "page_row prefix after row = (case row of (i, r) \<Rightarrow>
     case rp_key r of None \<Rightarrow> None | Some key \<Rightarrow>
       if key \<le> after \<or> \<not> starts_with prefix key then None
       else map_option (\<lambda>meta. (\<lparr>rs_repo = meta, rs_last_push = last_push_of r\<rparr>, key)) (rp_meta r i))"

definition page_by_key :: "rows_state \<Rightarrow> string \<Rightarrow> string \<Rightarrow> u32 \<Rightarrow> (repo_summary \<times> external_key) list" where
  "page_by_key st prefix after limit =
     take (unat limit) (sort_key snd (List.map_filter (page_row prefix after)
       (filter (\<lambda>(_, r). rp_deleted_at r = None) (rs_repos st))))"

definition mark_deleted :: "int \<Rightarrow> repo_id \<Rightarrow> rows_state \<Rightarrow> bool \<times> rows_state" where
  "mark_deleted now i st =
     (let held = state_repo st i in
      if rp_deleted_at held \<noteq> None then (False, set_repo i held st)
      else (True, set_repo i (held\<lparr>rp_deleted_at := Some now\<rparr>) st))"

section \<open>Segments read back\<close>

definition referenced_segments :: "rows_state \<Rightarrow> repo_id \<Rightarrow> u128 list \<Rightarrow> u128 set" where
  "referenced_segments st i ids = (case state_held st i of None \<Rightarrow> {}
     | Some held \<Rightarrow> {one \<in> set ids. map_of (rp_segments held) one \<noteq> None})"

definition live_segments :: "rows_state \<Rightarrow> repo_id \<Rightarrow> u128 list \<Rightarrow> u128 set" where
  "live_segments st i ids = (case state_held st i of None \<Rightarrow> {}
     | Some held \<Rightarrow> {one \<in> set ids. map_of (rp_segments held) one = Some None})"

definition drop_retired_segments :: "int \<Rightarrow> repo_id \<Rightarrow> u64 \<Rightarrow> rows_state \<Rightarrow> u64 \<times> rows_state" where
  "drop_retired_segments now i grace_secs st =
     (let limit = cutoff now grace_secs; held = state_repo st i;
          kept = filter (\<lambda>(_, retired). \<not> (case retired of None \<Rightarrow> False | Some at \<Rightarrow> at < limit)) (rp_segments held);
          dropped = length (rp_segments held) - length kept
      in (if dropped < 2 ^ 64 then of_nat dropped else - 1, set_repo i (held\<lparr>rp_segments := kept\<rparr>) st))"

section \<open>Refs\<close>

definition null_oid :: oid where
  "null_oid = replicate 20 0"

definition btree_remove :: "'k \<Rightarrow> ('k \<times> 'v) list \<Rightarrow> ('k \<times> 'v) list" where
  "btree_remove k m = filter (\<lambda>(k', _). k' \<noteq> k) m"

definition refs_chain :: "repo_rows \<Rightarrow> (string \<times> ref_row) list" where
  "refs_chain r = rp_branches r @ rp_others r"

definition ref_listing :: "rows_state \<Rightarrow> repo_id \<Rightarrow> ref_entry list" where
  "ref_listing st i = (case state_held st i of None \<Rightarrow> []
     | Some held \<Rightarrow> sort_key re_refname (map (\<lambda>(refname, one).
         \<lparr>re_refname = refname, re_oid = rr_oid one, re_updated = secs (rr_updated one)\<rparr>) (refs_chain held)))"

definition refs_for :: "rows_state \<Rightarrow> repo_metadata \<Rightarrow> (string \<times> string) list" where
  "refs_for st repo =
     btree_insert ''HEAD'' (''ref: '' @ rm_default_branch repo)
       (collect_map (map (\<lambda>(refname, one). (refname, hex_of (rr_oid one)))
         (case state_held st (rm_id repo) of None \<Rightarrow> [] | Some held \<Rightarrow> refs_chain held)))"

definition refs_matching :: "rows_state \<Rightarrow> repo_id \<Rightarrow> string list \<Rightarrow> (string \<times> string) list" where
  "refs_matching st i refnames = (case state_held st i of None \<Rightarrow> []
     | Some held \<Rightarrow> collect_map (List.map_filter (\<lambda>refname.
         map_option (\<lambda>one. (refname, hex_of (rr_oid one)))
           (case map_of (rp_branches held) refname of Some one \<Rightarrow> Some one | None \<Rightarrow> map_of (rp_others held) refname)) refnames))"

definition ref_delete :: "repo_rows \<Rightarrow> ref_update \<Rightarrow> bool \<Rightarrow> ref_result \<times> repo_rows" where
  "ref_delete repo u branch =
     (let table = rp_table repo branch in
      if ru_old u = null_oid
      then (ok_result (ru_refname u), rp_set_table repo branch (btree_remove (ru_refname u) table))
      else if map_option rr_oid (map_of table (ru_refname u)) = Some (ru_old u)
      then (ok_result (ru_refname u), rp_set_table repo branch (btree_remove (ru_refname u) table))
      else (reject_result (ru_refname u) NonFastForward, repo))"

definition ref_write :: "int \<Rightarrow> repo_rows \<Rightarrow> ref_update \<Rightarrow> bool \<Rightarrow> ref_result \<times> repo_rows" where
  "ref_write now repo u branch =
     (let numbered = \<not> branch \<or> numbers_commit repo (ru_new u);
          creating = ru_old u = null_oid;
          table = rp_table repo branch;
          held = map_option rr_oid (map_of table (ru_refname u));
          rejection =
            (if \<not> creating \<and> held \<noteq> Some (ru_old u) then Some NonFastForward
             else if \<not> numbered then Some UnknownCommit
             else if creating \<and> held \<noteq> None then Some AlreadyExists
             else None)
      in case rejection of
           Some rejection \<Rightarrow> (reject_result (ru_refname u) rejection, repo)
         | None \<Rightarrow> (ok_result (ru_refname u),
             rp_set_table repo branch (btree_insert (ru_refname u) \<lparr>rr_oid = ru_new u, rr_updated = now\<rparr> table)))"

definition ref_apply :: "(string \<Rightarrow> bool) \<Rightarrow> int \<Rightarrow> repo_rows \<Rightarrow> ref_update \<Rightarrow> ref_result \<times> repo_rows" where
  "ref_apply valid now repo u =
     (if is_funny_refname valid (ru_refname u) (ru_new u = null_oid)
      then (reject_result (ru_refname u) InvalidRefname, repo)
      else let branch = is_branch_refname (ru_refname u) in
        if ru_new u = null_oid then ref_delete repo u branch else ref_write now repo u branch)"

text \<open>Each write of a batch reads the clock for itself, so the batch takes one reading per update.\<close>

fun apply_all :: "(string \<Rightarrow> bool) \<Rightarrow> repo_rows \<Rightarrow> (int \<times> ref_update) list \<Rightarrow> ref_result list \<times> repo_rows" where
  "apply_all valid repo [] = ([], repo)"
| "apply_all valid repo ((now, u) # us) =
     (let (res, repo) = ref_apply valid now repo u; (rest, repo) = apply_all valid repo us in (res # rest, repo))"

definition update_refs ::
    "(string \<Rightarrow> bool) \<Rightarrow> repo_id \<Rightarrow> (int \<times> ref_update) list \<Rightarrow> rows_state \<Rightarrow> ref_result list \<times> rows_state" where
  "update_refs valid i updates st =
     (let (res, repo) = apply_all valid (state_repo st i) updates in (res, set_repo i repo st))"

end
