(* ===== verification/Commit_Walk.thy ===== *)
theory Commit_Walk
  imports Repo_Graph Descending_Graph Metadata
begin

text \<open>
  The banded walks of \<open>git/graph-store/src/walk.rs\<close> and the reads of \<open>source.rs\<close> built on them: ancestry,
  merge bases and first-parent pages. Each round reads the band it is about to walk and expands it in
  seq space. A loop that descends band by band is a partial function, where not returning is \<open>None\<close>; each
  is shown to return for every schedule of positive widths.
\<close>

section \<open>The schedule\<close>

definition WALK_BAND_MAX_WIDTH :: int where
  "WALK_BAND_MAX_WIDTH = 100000"

definition WALK_BAND_INITIAL_WIDTH :: int where
  "WALK_BAND_INITIAL_WIDTH = 1024"

definition WALK_BAND_GROWTH :: int where
  "WALK_BAND_GROWTH = 8"

record band_policy =
  bp_current :: int
  bp_max :: int

definition policy_new :: "int \<Rightarrow> band_policy" where
  "policy_new max_width = \<lparr>bp_current = min WALK_BAND_INITIAL_WIDTH max_width, bp_max = max_width\<rparr>"

definition policy_production :: band_policy where
  "policy_production = policy_new WALK_BAND_MAX_WIDTH"

definition policy_grow :: "band_policy \<Rightarrow> band_policy" where
  "policy_grow p = p\<lparr>bp_current := min (sat_i64 (bp_current p * WALK_BAND_GROWTH)) (bp_max p)\<rparr>"

definition policy_ok :: "band_policy \<Rightarrow> bool" where
  "policy_ok p \<longleftrightarrow> 1 \<le> bp_current p \<and> bp_current p \<le> i64_max \<and> 1 \<le> bp_max p"

lemma policy_grow_ok [simp]: "policy_ok p \<Longrightarrow> policy_ok (policy_grow p)"
  by (auto simp: policy_ok_def policy_grow_def WALK_BAND_GROWTH_def sat_i64_def i64_min_def i64_max_def)

lemma policy_new_ok: "1 \<le> width \<Longrightarrow> policy_ok (policy_new width)"
  by (auto simp: policy_ok_def policy_new_def WALK_BAND_INITIAL_WIDTH_def i64_max_def)

lemma policy_production_ok [simp]: "policy_ok policy_production"
  by (simp add: policy_ok_def policy_production_def policy_new_def WALK_BAND_INITIAL_WIDTH_def WALK_BAND_MAX_WIDTH_def i64_max_def)

text \<open>The floor of a band, which never leaves out the ceiling.\<close>

definition band_floor :: "int \<Rightarrow> band_policy \<Rightarrow> int" where
  "band_floor ceil p = sat_i64 (ceil - (bp_current p - 1))"

lemma band_floor_le: "policy_ok p \<Longrightarrow> i64_min \<le> ceil \<Longrightarrow> band_floor ceil p \<le> ceil"
  by (auto simp: band_floor_def policy_ok_def sat_i64_def i64_min_def i64_max_def)

section \<open>Errors\<close>

datatype walk_error = WRead graph_error | WNotCovered not_covered | WMissing int | WUnnamed int | WUnpacked int
  | WBitmap malformed | WDepth

definition walk_read :: "(graph_error, 'a) result \<Rightarrow> (walk_error, 'a) result" where
  "walk_read r = (case r of Inl e \<Rightarrow> Inl (WRead e) | Inr a \<Rightarrow> Inr a)"

definition walk_cover :: "(not_covered, 'a) result \<Rightarrow> (walk_error, 'a) result" where
  "walk_cover r = (case r of Inl e \<Rightarrow> Inl (WNotCovered e) | Inr a \<Rightarrow> Inr a)"

lemma walk_read_Inr [simp]: "walk_read r = Inr a \<longleftrightarrow> r = Inr a"
  by (cases r) (simp_all add: walk_read_def)

lemma walk_cover_Inr [simp]: "walk_cover r = Inr a \<longleftrightarrow> r = Inr a"
  by (cases r) (simp_all add: walk_cover_def)

section \<open>One band of ancestors\<close>

definition ceiling :: "int list \<Rightarrow> int \<Rightarrow> int" where
  "ceiling seeds floor = fold max seeds floor"

definition expand_ancestor_band :: "repo_graph \<Rightarrow> int list \<Rightarrow> int \<Rightarrow> (walk_error, int set \<times> int set) result" where
  "expand_ancestor_band g seeds floor =
     rbind (walk_read (rg_index g floor (ceiling seeds floor))) (\<lambda>index. walk_cover (expand_ancestors index seeds floor))"

section \<open>Ancestry\<close>

text \<open>A \<open>HashSet\<close> is handed to the expansion in some order; the model takes the ascending one.\<close>

partial_function (option) is_ancestor_loop ::
    "repo_graph \<Rightarrow> int \<Rightarrow> int set \<Rightarrow> band_policy \<Rightarrow> (walk_error, bool) result option" where
  "is_ancestor_loop g ancestor frontier policy =
     (if frontier = {} then Some (Inr False)
      else let floor = max (band_floor (Max frontier) policy) ancestor in
        case expand_ancestor_band g (sorted_list_of_set frontier) floor of
          Inl e \<Rightarrow> Some (Inl e)
        | Inr (visited, below) \<Rightarrow>
            if ancestor \<in> visited then Some (Inr True)
            else if floor \<le> ancestor then Some (Inr False)
            else is_ancestor_loop g ancestor below (policy_grow policy))"

definition banded_is_ancestor :: "repo_graph \<Rightarrow> int \<Rightarrow> int \<Rightarrow> band_policy \<Rightarrow> (walk_error, bool) result option" where
  "banded_is_ancestor g ancestor descendant policy =
     (if ancestor = descendant then Some (Inr True)
      else if descendant < ancestor then Some (Inr False)
      else is_ancestor_loop g ancestor {descendant} policy)"

section \<open>Merge bases\<close>

definition merge_base_side :: "repo_graph \<Rightarrow> int \<Rightarrow> int set \<times> int set \<Rightarrow> (walk_error, int set \<times> int set) result" where
  "merge_base_side g floor side = (case side of (frontier, reach) \<Rightarrow>
     if \<forall>seq \<in> frontier. seq < floor then Inr (frontier, reach)
     else rbind (expand_ancestor_band g (sorted_list_of_set frontier) floor) (\<lambda>(visited, below).
       Inr (below, reach \<union> visited \<union> below)))"

partial_function (option) merge_bases_loop ::
    "repo_graph \<Rightarrow> nat \<Rightarrow> band_policy \<Rightarrow> int set \<times> int set \<Rightarrow> int set \<times> int set \<Rightarrow> (walk_error, int set \<times> bool) result option" where
  "merge_bases_loop g max_commits policy a b =
     (if fst a \<union> fst b = {} then Some (Inr (snd a \<inter> snd b, False))
      else let floor = band_floor (Max (fst a \<union> fst b)) policy in
        case merge_base_side g floor a of Inl e \<Rightarrow> Some (Inl e) | Inr a \<Rightarrow>
        case merge_base_side g floor b of Inl e \<Rightarrow> Some (Inl e) | Inr b \<Rightarrow>
          if fst a \<subseteq> snd b \<and> fst b \<subseteq> snd a then Some (Inr (snd a \<inter> snd b, False))
          else if max_commits < card (snd a) + card (snd b) then Some (Inr (snd a \<inter> snd b, True))
          else merge_bases_loop g max_commits (policy_grow policy) a b)"

fun maximal_loop :: "repo_graph \<Rightarrow> int list \<Rightarrow> int set \<Rightarrow> int list \<Rightarrow> (walk_error, int list) result" where
  "maximal_loop g [] left bases = Inr bases"
| "maximal_loop g (seq # common) left bases =
     (if seq \<notin> left then maximal_loop g common left bases
      else let left = left - {seq}; bases = bases @ [seq] in
        if left = {} then Inr bases
        else rbind (expand_ancestor_band g [seq] (Min left)) (\<lambda>(visited, _).
          maximal_loop g common {c \<in> left. c \<notin> visited} bases))"

definition maximal :: "repo_graph \<Rightarrow> int list \<Rightarrow> (walk_error, int list) result" where
  "maximal g common = maximal_loop g common (set common) []"

definition banded_merge_bases ::
    "repo_graph \<Rightarrow> int \<Rightarrow> int \<Rightarrow> band_policy \<Rightarrow> u64 \<Rightarrow> (walk_error, int list \<times> bool) result option" where
  "banded_merge_bases g a b policy max_commits =
     (if a = b then Some (Inr ([a], False))
      else case merge_bases_loop g (unat max_commits) policy ({a}, {a}) ({b}, {b}) of
        None \<Rightarrow> None
      | Some (Inl e) \<Rightarrow> Some (Inl e)
      | Some (Inr (common, exhausted)) \<Rightarrow>
          Some (rbind (maximal g (rev (sorted_list_of_set common))) (\<lambda>bases. Inr (bases, exhausted))))"

section \<open>Reads by oid\<close>

record bases =
  bs_bases :: "oid list"
  bs_exhausted :: bool

text \<open>The names of a list of seqs, each of which has to be recorded.\<close>

definition named :: "repo_graph \<Rightarrow> int list \<Rightarrow> (walk_error, oid list) result" where
  "named g seqs = rbind (walk_read (rg_oids_of g seqs)) (\<lambda>oids.
     collect_results (map (\<lambda>seq. ok_or (oids seq) (WUnnamed seq)) seqs))"

definition merge_bases :: "repo_graph \<Rightarrow> oid \<Rightarrow> oid \<Rightarrow> u64 \<Rightarrow> (walk_error, bases) result option" where
  "merge_bases g a b max_commits =
     (case rg_seqs_of g [a, b] of Inl e \<Rightarrow> Some (Inl (WRead e))
      | Inr seqs \<Rightarrow>
     (case (seqs a, seqs b) of
        (Some a_seq, Some b_seq) \<Rightarrow>
          (case banded_merge_bases g a_seq b_seq policy_production max_commits of
             None \<Rightarrow> None
           | Some (Inl e) \<Rightarrow> Some (Inl e)
           | Some (Inr (found, exhausted)) \<Rightarrow>
               Some (rbind (named g found) (\<lambda>oids. Inr \<lparr>bs_bases = oids, bs_exhausted = exhausted\<rparr>)))
      | _ \<Rightarrow> Some (Inr \<lparr>bs_bases = [], bs_exhausted = False\<rparr>)))"

definition is_ancestor :: "repo_graph \<Rightarrow> oid \<Rightarrow> oid \<Rightarrow> (walk_error, bool) result option" where
  "is_ancestor g ancestor descendant =
     (case rg_seqs_of g [ancestor, descendant] of Inl e \<Rightarrow> Some (Inl (WRead e))
      | Inr seqs \<Rightarrow>
     (case (seqs ancestor, seqs descendant) of
        (Some a, Some d) \<Rightarrow> banded_is_ancestor g a d policy_production
      | _ \<Rightarrow> Some (Inr False)))"

definition parents_of :: "repo_graph \<Rightarrow> int \<Rightarrow> (walk_error, int list) result" where
  "parents_of g seq = rbind (walk_read (rg_index g seq seq)) (\<lambda>index.
     rbind (ok_or (ci_get index seq) (WMissing seq)) (\<lambda>e. Inr (entry_parents e)))"

text \<open>Which of some commits the history of a seed reaches; when two candidates share a seq, the later one names it.\<close>

definition ancestors_among :: "repo_graph \<Rightarrow> oid \<Rightarrow> oid list \<Rightarrow> u64 \<Rightarrow> (walk_error, oid set) result" where
  "ancestors_among g seed candidates max_commits =
     (if candidates = [] then Inr {}
      else rbind (walk_read (rg_seqs_of g (candidates @ [seed]))) (\<lambda>seqs.
        case seqs seed of None \<Rightarrow> Inr {}
        | Some seed_seq \<Rightarrow>
            let wanted = map_of (rev (List.map_filter (\<lambda>oid. map_option (\<lambda>seq. (seq, oid)) (seqs oid)) candidates)) in
            if dom wanted = {} then Inr {}
            else let reach = (if uint max_commits \<le> i64_max then uint max_commits else i64_max);
                     floor = max (Min (dom wanted)) (sat_i64 (seed_seq - reach)) in
              rbind (walk_read (rg_index g floor seed_seq)) (\<lambda>index.
              rbind (walk_cover (expand_ancestors index [seed_seq] floor)) (\<lambda>(visited, below).
              Inr ((\<lambda>seq. the (wanted seq)) ` {seq \<in> visited \<union> below. wanted seq \<noteq> None})))))"

definition COMMIT_PACK_HEADER_SIZE :: u64 where
  "COMMIT_PACK_HEADER_SIZE = 12"

text \<open>A \<open>HashMap\<close> collected from pairs keeps the last of each key; the model iterates it in key order.\<close>

definition locations_of :: "repo_graph \<Rightarrow> (oid \<times> identity) list \<Rightarrow> (walk_error, (oid \<times> object_meta) list) result" where
  "locations_of g held =
     (let seqs = foldl (\<lambda>m (oid, i). btree_insert oid (id_seq i) m) [] (filter (\<lambda>(_, i). id_kind i = Commit) held) in
      if seqs = [] then Inr []
      else rbind (walk_read (rg_packs_at g (map snd seqs))) (\<lambda>packs.
        Inr (map (\<lambda>(oid, seq). (oid, \<lparr>om_kind = Commit,
          om_location = map_option (\<lambda>pack. \<lparr>cp_image = \<lparr>pi_pack_sha = oid, pi_offset = COMMIT_PACK_HEADER_SIZE,
              pi_entry_len = pn_entry_len pack, pi_base = None\<rparr>, cp_segment = pe_segment pack\<rparr>) (facts_get packs seq),
          om_object_seq = None\<rparr>)) seqs)))"

definition graph_contains :: "repo_graph \<Rightarrow> oid \<Rightarrow> (walk_error, bool) result" where
  "graph_contains g oid =
     rbind (walk_read (rg_seqs_of g [oid])) (\<lambda>seqs.
     case seqs oid of None \<Rightarrow> Inr False
     | Some seq \<Rightarrow> rbind (locations_of g [(oid, \<lparr>id_seq = seq, id_kind = Commit\<rparr>)]) (\<lambda>ls.
         Inr (list_ex (\<lambda>(_, meta). is_stored meta) ls)))"

section \<open>First-parent pages\<close>

definition PAGE_BAND :: int where
  "PAGE_BAND = 4096"

function follow_loop ::
    "commit_index \<Rightarrow> int \<Rightarrow> nat \<Rightarrow> int option \<Rightarrow> int list \<Rightarrow> (walk_error, int option \<times> int list) result" where
  "follow_loop index floor limit None page = Inr (None, page)"
| "follow_loop index floor limit (Some seq) page =
     (if seq < floor then Inr (Some seq, page)
      else if limit \<le> length page then Inr (None, page)
      else rbind (ok_or (ci_get index seq) (WMissing seq)) (\<lambda>e.
        follow_loop index floor limit (case entry_parents e of [] \<Rightarrow> None | p # _ \<Rightarrow> Some p) (page @ [seq])))"
  by pat_completeness auto

termination
  by (relation "measure (\<lambda>(index, floor, limit, at, page). limit - length page)") auto

definition follow :: "commit_index \<Rightarrow> int \<Rightarrow> int \<Rightarrow> nat \<Rightarrow> int list \<Rightarrow> (walk_error, int option \<times> int list) result" where
  "follow index from floor limit page = follow_loop index floor limit (Some from) page"

partial_function (option) page_loop ::
    "repo_graph \<Rightarrow> nat \<Rightarrow> int option \<Rightarrow> int list \<Rightarrow> (walk_error, int list) result option" where
  "page_loop g limit at page =
     (case at of None \<Rightarrow> Some (Inr page)
      | Some seq \<Rightarrow>
          if limit \<le> length page then Some (Inr page)
          else let floor = max (sat_i64 (seq - PAGE_BAND)) 0 in
            case rg_index g floor seq of Inl e \<Rightarrow> Some (Inl (WRead e))
            | Inr index \<Rightarrow>
                (case follow index seq floor limit page of Inl e \<Rightarrow> Some (Inl e)
                 | Inr (at, page) \<Rightarrow> page_loop g limit at page))"

definition first_parent_page :: "repo_graph \<Rightarrow> oid \<Rightarrow> u32 \<Rightarrow> (walk_error, oid list) result option" where
  "first_parent_page g tip limit =
     (if limit = 0 then Some (Inr [])
      else case rg_seqs_of g [tip] of Inl e \<Rightarrow> Some (Inl (WRead e))
      | Inr seqs \<Rightarrow>
          (case seqs tip of None \<Rightarrow> Some (Inr [])
           | Some seq \<Rightarrow>
               (case page_loop g (unat limit) (Some seq) [] of None \<Rightarrow> None
                | Some (Inl e) \<Rightarrow> Some (Inl e)
                | Some (Inr page) \<Rightarrow> Some (named g page))))"

section \<open>Bands over a history\<close>

definition parent_edges :: "(int \<Rightarrow> node option) \<Rightarrow> (int \<times> int) set" where
  "parent_edges node = {(s, p). p \<in> set (parents_in node s)}"

text \<open>The ways a walk from some seqs can fail: a read that failed, or a commit it reached that is not
  recorded, has no name, or has no pack facts or unreadable ones.\<close>

definition read_failed :: "repo_graph \<Rightarrow> graph_error \<Rightarrow> bool" where
  "read_failed g e \<longleftrightarrow> (\<exists>floor ceil. rg_index g floor ceil = Inl e) \<or> (\<exists>seqs. rg_packs_at g seqs = Inl e) \<or>
     (\<exists>seqs. rg_oids_of g seqs = Inl e) \<or> (\<exists>oids. rg_seqs_of g oids = Inl e)"

definition walk_failure ::
    "repo_graph \<Rightarrow> (int \<Rightarrow> node option) \<Rightarrow> (int \<Rightarrow> pack_node option) \<Rightarrow> (int \<rightharpoonup> oid) \<Rightarrow> int set \<Rightarrow> walk_error \<Rightarrow> bool" where
  "walk_failure g node pack name S e = (case e of
     WRead er \<Rightarrow> read_failed g er
   | WNotCovered nc \<Rightarrow> nv_seq nc \<in> (parent_edges node)\<^sup>* `` S \<and> node (nv_seq nc) = None
   | WMissing seq \<Rightarrow> seq \<in> (parent_edges node)\<^sup>* `` S \<and> node seq = None
   | WUnnamed seq \<Rightarrow> seq \<in> (parent_edges node)\<^sup>* `` S \<and> name seq = None
   | WUnpacked seq \<Rightarrow> seq \<in> (parent_edges node)\<^sup>* `` S \<and> pack seq = None
   | WBitmap m \<Rightarrow> \<exists>seq \<in> (parent_edges node)\<^sup>* `` S. \<exists>n. pack seq = Some n \<and>
       (pe_trees (rg_bitmap g) n = Inl m \<or> pe_blobs (rg_bitmap g) n = Inl m)
   | WDepth \<Rightarrow> False)"

text \<open>The members of a set of commits that no other member reaches, the seqs some oids name, and the
  chain of first parents.\<close>

definition best_of :: "(int \<Rightarrow> node option) \<Rightarrow> int set \<Rightarrow> int set" where
  "best_of node X = {c \<in> X. \<forall>d \<in> X. (d, c) \<in> (parent_edges node)\<^sup>* \<longrightarrow> d = c}"

definition named_as :: "(int \<rightharpoonup> oid) \<Rightarrow> oid \<Rightarrow> int set" where
  "named_as name oid = {seq. name seq = Some oid}"

fun first_parents :: "(int \<Rightarrow> node option) \<Rightarrow> nat \<Rightarrow> int \<Rightarrow> int list" where
  "first_parents node 0 seq = []"
| "first_parents node (Suc n) seq = seq # (case parents_in node seq of [] \<Rightarrow> [] | p # _ \<Rightarrow> first_parents node n p)"

definition i64s :: "int set" where
  "i64s = {i64_min..i64_max}"

lemma parents_bound: "set (parents_in node s) \<subseteq> {0..<2 ^ 32}"
  using uint_bounded [where 'a = 32]
  by (auto simp: parents_in_def node_parents_def dest!: set_takeWhileD split: option.splits)

lemma reach_bound:
  assumes "E \<subseteq> parent_edges node"
  shows "E\<^sup>* `` S \<subseteq> S \<union> {0..<2 ^ 32}"
proof
  fix a assume "a \<in> E\<^sup>* `` S"
  then obtain s where "s \<in> S" "(s, a) \<in> E\<^sup>*" by blast
  from this(2) show "a \<in> S \<union> {0..<2 ^ 32}"
  proof (cases rule: rtranclE)
    case base
    then show ?thesis using \<open>s \<in> S\<close> by simp
  next
    case (step m)
    then have "a \<in> set (parents_in node m)" using assms by (auto simp: parent_edges_def)
    then show ?thesis using parents_bound [of node m] by blast
  qed
qed

lemma reach_i64s:
  assumes "E \<subseteq> parent_edges node" "S \<subseteq> i64s"
  shows "E\<^sup>* `` S \<subseteq> i64s"
proof -
  have "({0..<2 ^ 32} :: int set) \<subseteq> i64s" by (auto simp: i64s_def i64_min_def i64_max_def)
  then show ?thesis using reach_bound [OF assms(1), of S] assms(2) by blast
qed

lemma reach_finite: "E \<subseteq> parent_edges node \<Longrightarrow> finite S \<Longrightarrow> finite (E\<^sup>* `` S)"
  by (rule finite_subset [OF reach_bound]) simp_all

lemma read_failedI:
  "rg_index g floor ceil = Inl er \<Longrightarrow> read_failed g er" "rg_packs_at g seqs = Inl er \<Longrightarrow> read_failed g er"
  "rg_oids_of g seqs = Inl er \<Longrightarrow> read_failed g er" "rg_seqs_of g oids = Inl er \<Longrightarrow> read_failed g er"
  unfolding read_failed_def by blast+

lemma walk_failure_mono:
  assumes "walk_failure g node pack name S e" "S \<subseteq> (parent_edges node)\<^sup>* `` T"
  shows "walk_failure g node pack name T e"
proof -
  have sub: "(parent_edges node)\<^sup>* `` S \<subseteq> (parent_edges node)\<^sup>* `` T"
    using assms(2) by (auto intro: rtrancl_trans)
  show ?thesis using assms(1) sub unfolding walk_failure_def by (cases e) (simp_all, (blast+)?)
qed

lemma ceiling_spec: "set seeds \<subseteq> {..ceiling seeds floor}" "floor \<le> ceiling seeds floor"
  "ceiling seeds floor \<in> insert floor (set seeds)"
proof -
  have "set seeds \<subseteq> {..fold max seeds x} \<and> x \<le> fold max seeds x \<and> fold max seeds x \<in> insert x (set seeds)" for x
  proof (induction seeds arbitrary: x)
    case (Cons y ys)
    have "max y x \<in> {x, y}" "y \<le> max y x" "x \<le> max y x" by (auto simp: max_def)
    then show ?case using Cons.IH [of "max y x"] by auto
  qed simp
  then show "set seeds \<subseteq> {..ceiling seeds floor}" "floor \<le> ceiling seeds floor"
    "ceiling seeds floor \<in> insert floor (set seeds)" by (simp_all add: ceiling_def)
qed

context history
begin

abbreviation "G \<equiv> parent_edges node"

abbreviation "fails \<equiv> walk_failure g node pack name"

lemma descending_G: "descending G"
  using older by (auto simp: descending_def parent_edges_def)

lemma band_edge:
  assumes "rg_index g floor ceil = Inr c" "ceil \<le> i64_max" "s \<le> ceil"
  shows "(s, p) \<in> band_edges c floor \<longleftrightarrow> (s, p) \<in> down G floor"
  using index_reads [OF assms(1), of s] assms(2,3)
  by (cases "ci_get c s"; cases "node s") (auto simp: band_edges_def down_def parent_edges_def parents_in_def entry_of_node)

lemma band_reach:
  assumes "rg_index g floor ceil = Inr c" "ceil \<le> i64_max" "S \<subseteq> {..ceil}"
  shows "(band_edges c floor)\<^sup>* `` S = (down G floor)\<^sup>* `` S"
proof (rule reach_agree [OF _ _ assms(3)])
  fix s p :: int assume s: "s \<in> {..ceil}"
  show "p \<in> {..ceil}" if "(s, p) \<in> down G floor"
    using that s descending_G by (fastforce simp: descending_def down_def)
  show "(s, p) \<in> band_edges c floor \<longleftrightarrow> (s, p) \<in> down G floor" using band_edge [OF assms(1,2)] s by simp
qed

lemma expand_band_ok:
  assumes "expand_ancestor_band g seeds floor = Inr (v, b)" "set seeds \<subseteq> i64s" "floor \<le> i64_max"
  shows "v = {a \<in> G\<^sup>* `` set seeds. floor \<le> a}" "b = {a \<in> (down G floor)\<^sup>* `` set seeds. a < floor}"
proof -
  note cs = ceiling_spec [where seeds = seeds and floor = floor]
  obtain c where c: "rg_index g floor (ceiling seeds floor) = Inr c" "expand_ancestors c seeds floor = Inr (v, b)"
    using assms(1) by (auto simp: expand_ancestor_band_def rbind_eq_Inr_iff)
  have "ceiling seeds floor \<le> i64_max" using cs(3) assms(2,3) by (auto simp: i64s_def)
  from band_reach [OF c(1) this cs(1)] expand_ancestors_ok [OF c(2)]
  show "v = {a \<in> G\<^sup>* `` set seeds. floor \<le> a}" "b = {a \<in> (down G floor)\<^sup>* `` set seeds. a < floor}"
    using above_floor [OF descending_G, of "set seeds" floor] by simp_all
qed

lemma expand_band_error:
  assumes "expand_ancestor_band g seeds floor = Inl e" "set seeds \<subseteq> i64s" "floor \<le> i64_max"
  shows "fails (set seeds) e"
proof (cases "rg_index g floor (ceiling seeds floor)")
  case (Inl er)
  then have "e = WRead er" using assms(1) by (simp add: expand_ancestor_band_def walk_read_def)
  then show ?thesis using read_failedI(1) [OF Inl] by (simp add: walk_failure_def)
next
  case (Inr c)
  note cs = ceiling_spec [where seeds = seeds and floor = floor]
  have le: "ceiling seeds floor \<le> i64_max" using cs(3) assms(2,3) by (auto simp: i64s_def)
  obtain nc where nc: "expand_ancestors c seeds floor = Inl nc" "e = WNotCovered nc"
    using assms(1) Inr by (auto simp: expand_ancestor_band_def walk_read_def walk_cover_def split: sum.splits)
  have miss: "nv_seq nc \<in> (down G floor)\<^sup>* `` set seeds" "floor \<le> nv_seq nc" "ci_get c (nv_seq nc) = None"
    using expand_ancestors_error [OF nc(1)] band_reach [OF Inr le cs(1)] by simp_all
  then obtain s where s: "s \<in> set seeds" "(s, nv_seq nc) \<in> G\<^sup>*" using down_reach by blast
  then have "nv_seq nc \<le> ceiling seeds floor" using cs(1) reach_le [OF descending_G s(2)] by auto
  then have "node (nv_seq nc) = None" using index_reads [OF Inr miss(2) _ le] miss(3) by simp
  then show ?thesis using s nc(2) by (auto simp: walk_failure_def)
qed

lemma is_ancestor_loop_total:
  assumes "finite F" "F \<subseteq> i64s" "a \<in> i64s" "policy_ok p"
  shows "\<exists>r. is_ancestor_loop g a F p = Some r \<and>
    (case r of Inr yes \<Rightarrow> yes \<longleftrightarrow> a \<in> G\<^sup>* `` F | Inl e \<Rightarrow> fails F e)"
  using assms
proof (induction "nat (Max F - a)" arbitrary: F p rule: less_induct)
  case less
  show ?case
  proof (cases "F = {}")
    case True
    then show ?thesis by (subst is_ancestor_loop.simps) simp
  next
    case False
    define floor where "floor = max (band_floor (Max F) p) a"
    have top: "Max F \<in> F" using False less.prems(1) by simp
    have le: "band_floor (Max F) p \<le> Max F"
      using top less.prems by (intro band_floor_le) (auto simp: i64s_def)
    have fl: "floor \<le> i64_max" using le top less.prems by (auto simp: floor_def i64s_def)
    have seeds: "set (sorted_list_of_set F) = F" using less.prems(1) by simp
    show ?thesis
    proof (cases "expand_ancestor_band g (sorted_list_of_set F) floor")
      case (Inl e)
      then have "fails F e" using expand_band_error [OF Inl] seeds less.prems(2) fl by simp
      then show ?thesis using False Inl by (subst is_ancestor_loop.simps) (simp flip: floor_def)
    next
      case (Inr vb)
      obtain v b where vb: "vb = (v, b)" by force
      note ok = expand_band_ok [OF Inr [unfolded vb], unfolded seeds, OF less.prems(2) fl]
      have step: "is_ancestor_loop g a F p = (if a \<in> v then Some (Inr True) else if floor \<le> a then Some (Inr False)
          else is_ancestor_loop g a b (policy_grow p))"
        using False Inr vb by (subst is_ancestor_loop.simps) (simp flip: floor_def)
      show ?thesis
      proof (cases "a \<in> v \<or> floor \<le> a")
        case True
        then show ?thesis unfolding step using ok(1) by auto
      next
        case go: False
        then have "b \<noteq> {} \<Longrightarrow> Max b < floor" "finite b"
          using ok(2) reach_finite [OF down_subset less.prems(1)] by (auto simp: floor_def)
        moreover have "floor \<le> Max F" "a < floor" using go le by (auto simp: floor_def max_def split: if_splits)
        ultimately have small: "b \<noteq> {} \<Longrightarrow> nat (Max b - a) < nat (Max F - a)" by auto
        have b64: "b \<subseteq> i64s" using ok(2) reach_i64s [OF down_subset less.prems(2)] by blast
        have iff: "a \<in> G\<^sup>* `` F \<longleftrightarrow> a \<in> G\<^sup>* `` b"
          using below_floor [OF descending_G, of F floor] \<open>a < floor\<close> ok(2) by blast
        have sub: "b \<subseteq> G\<^sup>* `` F" using ok(2) down_reach by blast
        show ?thesis
        proof (cases "b = {}")
          case True
          then have "is_ancestor_loop g a b (policy_grow p) = Some (Inr False)" by (subst is_ancestor_loop.simps) simp
          then show ?thesis unfolding step using go iff True by simp
        next
          case False
          from less.hyps [OF small [OF False] \<open>finite b\<close> b64 less.prems(3) policy_grow_ok [OF less.prems(4)]]
          obtain r where r: "is_ancestor_loop g a b (policy_grow p) = Some r"
            "case r of Inr yes \<Rightarrow> yes \<longleftrightarrow> a \<in> G\<^sup>* `` b | Inl e \<Rightarrow> fails b e" by blast
          have "case r of Inr yes \<Rightarrow> yes \<longleftrightarrow> a \<in> G\<^sup>* `` F | Inl e \<Rightarrow> fails F e"
            using r(2) iff walk_failure_mono [OF _ sub] by (cases r) simp_all
          then show ?thesis unfolding step using go r(1) by simp
        qed
      qed
    qed
  qed
qed

text \<open>One side of a merge-base walk, explored down to \<open>P\<close>: what it met is what its seed reaches from there up
  and the frontier, and everything further down is reached from the frontier.\<close>

definition side_inv :: "int \<Rightarrow> int \<Rightarrow> int set \<times> int set \<Rightarrow> bool" where
  "side_inv x P side \<longleftrightarrow> finite (fst side) \<and> fst side \<subseteq> i64s \<and> fst side \<subseteq> {..<P} \<and>
     {s \<in> G\<^sup>* `` {x}. s < P} = G\<^sup>* `` fst side \<and> snd side = {s \<in> G\<^sup>* `` {x}. P \<le> s} \<union> fst side"

lemma side_inv_start: "x \<in> i64s \<Longrightarrow> x < P \<Longrightarrow> side_inv x P ({x}, {x})"
  using reach_le [OF descending_G, of x] by (fastforce simp: side_inv_def)

lemma side_reached: "side_inv x P side \<Longrightarrow> snd side \<subseteq> G\<^sup>* `` {x}" "side_inv x P side \<Longrightarrow> fst side \<subseteq> G\<^sup>* `` {x}"
  by (auto simp: side_inv_def)

lemma side_step:
  assumes "merge_base_side g floor side = Inr side'" "side_inv x P side" "floor < P" "floor \<le> i64_max"
  shows "side_inv x floor side'"
proof -
  obtain F R where side: "side = (F, R)" by force
  have inv: "finite F" "F \<subseteq> i64s" "F \<subseteq> {..<P}" "{s \<in> G\<^sup>* `` {x}. s < P} = G\<^sup>* `` F"
      "R = {s \<in> G\<^sup>* `` {x}. P \<le> s} \<union> F"
    using assms(2) by (simp_all add: side_inv_def side)
  show ?thesis
  proof (cases "\<forall>s \<in> F. s < floor")
    case True
    have "s < floor" if "s \<in> G\<^sup>* `` F" for s
      using that True reach_le [OF descending_G, of _ s] by fastforce
    then have low: "{s \<in> G\<^sup>* `` {x}. s < P} = {s \<in> G\<^sup>* `` {x}. s < floor}" using inv(4) assms(3) by auto
    then have "{s \<in> G\<^sup>* `` {x}. P \<le> s} = {s \<in> G\<^sup>* `` {x}. floor \<le> s}"
      using assms(3) by (metis (no_types, lifting) Collect_cong mem_Collect_eq not_less)
    moreover have "side' = side" using assms(1) True by (simp add: merge_base_side_def side)
    ultimately show ?thesis using inv True low by (auto simp: side_inv_def side)
  next
    case False
    then obtain v b where vb: "expand_ancestor_band g (sorted_list_of_set F) floor = Inr (v, b)"
      and s': "side' = (b, R \<union> v \<union> b)"
      using assms(1) unfolding merge_base_side_def side prod.case if_not_P [OF False] by (auto simp: rbind_eq_Inr_iff)
    have seeds: "set (sorted_list_of_set F) = F" using inv(1) by simp
    note ok = expand_band_ok [OF vb, unfolded seeds, OF inv(2) assms(4)]
    have "finite b" using ok(2) reach_finite [OF down_subset inv(1)] by simp
    moreover have "b \<subseteq> i64s" using ok(2) reach_i64s [OF down_subset [of G floor] inv(2)] by blast
    moreover have "{s \<in> G\<^sup>* `` {x}. s < floor} = G\<^sup>* `` b"
    proof -
      have "{s \<in> G\<^sup>* `` {x}. s < floor} = {s \<in> {s \<in> G\<^sup>* `` {x}. s < P}. s < floor}" using assms(3) by auto
      then show ?thesis unfolding inv(4) ok(2) below_floor [OF descending_G, of F floor, symmetric] .
    qed
    moreover have "R \<union> v \<union> b = {s \<in> G\<^sup>* `` {x}. floor \<le> s} \<union> b"
    proof -
      have "v = {s \<in> G\<^sup>* `` {x}. s < P \<and> floor \<le> s}" using ok(1) inv(4) by blast
      moreover have "F \<subseteq> v \<union> b" using ok by (auto simp: not_less)
      ultimately show ?thesis using inv(5) assms(3) by auto
    qed
    ultimately show ?thesis using ok(2) by (auto simp: side_inv_def s')
  qed
qed

lemma side_error:
  assumes "merge_base_side g floor side = Inl e" "side_inv x P side" "floor \<le> i64_max"
  shows "fails {x} e"
proof -
  have inv: "finite (fst side)" "fst side \<subseteq> i64s" using assms(2) by (simp_all add: side_inv_def)
  have "expand_ancestor_band g (sorted_list_of_set (fst side)) floor = Inl e"
    using assms(1) by (auto simp: merge_base_side_def rbind_def split: prod.splits if_splits sum.splits)
  from expand_band_error [OF this] inv assms(3) have "fails (fst side) e" by simp
  then show ?thesis by (rule walk_failure_mono) (rule side_reached(2) [OF assms(2)])
qed

text \<open>What the loop finds: common ancestors that reach every common ancestor, unless it stopped at its budget.\<close>

definition common_found :: "int \<Rightarrow> int \<Rightarrow> nat \<Rightarrow> int set \<times> bool \<Rightarrow> bool" where
  "common_found a b budget found \<longleftrightarrow> finite (fst found) \<and> fst found \<subseteq> G\<^sup>* `` {a} \<inter> G\<^sup>* `` {b} \<and>
     (if snd found then budget < card (G\<^sup>* `` {a}) + card (G\<^sup>* `` {b}) else G\<^sup>* `` {a} \<inter> G\<^sup>* `` {b} \<subseteq> G\<^sup>* `` fst found)"

lemma common_found_all:
  assumes "side_inv a P A" "side_inv b P B" "fst A \<subseteq> snd B" "fst B \<subseteq> snd A"
  shows "common_found a b budget (snd A \<inter> snd B, False)"
proof -
  have "s \<in> G\<^sup>* `` (snd A \<inter> snd B)" if s: "s \<in> G\<^sup>* `` {a}" "s \<in> G\<^sup>* `` {b}" for s
  proof (cases "P \<le> s")
    case True
    then have "s \<in> snd A \<inter> snd B" using s assms(1,2) by (simp add: side_inv_def)
    then show ?thesis by blast
  next
    case False
    then have "s \<in> G\<^sup>* `` fst A" using s(1) assms(1) by (auto simp: side_inv_def)
    moreover have "fst A \<subseteq> snd A \<inter> snd B" using assms(1,3) by (auto simp: side_inv_def)
    ultimately show ?thesis by blast
  qed
  moreover have "finite (snd A)"
    by (rule finite_subset [OF side_reached(1) [OF assms(1)]]) (rule reach_finite [OF subset_refl], simp)
  ultimately show ?thesis using side_reached(1) [OF assms(1)] side_reached(1) [OF assms(2)] by (auto simp: common_found_def)
qed

lemma common_found_budget:
  assumes "side_inv a P A" "side_inv b P B" "budget < card (snd A) + card (snd B)"
  shows "common_found a b budget (snd A \<inter> snd B, True)"
proof -
  have fin: "finite (G\<^sup>* `` {x})" for x by (rule reach_finite [OF subset_refl]) simp
  note sub = side_reached(1) [OF assms(1)] side_reached(1) [OF assms(2)]
  have "card (snd A) \<le> card (G\<^sup>* `` {a})" "card (snd B) \<le> card (G\<^sup>* `` {b})"
    using sub by (simp_all add: card_mono fin)
  moreover have "finite (snd A)" using sub(1) fin by (rule finite_subset)
  ultimately show ?thesis using sub assms(3) by (auto simp: common_found_def)
qed

lemma merge_bases_loop_total:
  assumes "side_inv a P A" "side_inv b P B" "policy_ok p"
  shows "\<exists>r. merge_bases_loop g budget p A B = Some r \<and>
    (case r of Inr found \<Rightarrow> common_found a b budget found | Inl e \<Rightarrow> fails {a, b} e)"
  using assms
proof (induction "nat (Max (fst A \<union> fst B) - i64_min)" arbitrary: P A B p rule: less_induct)
  case less
  let ?F = "fst A \<union> fst B"
  show ?case
  proof (cases "?F = {}")
    case True
    then have "common_found a b budget (snd A \<inter> snd B, False)"
      using less.prems by (intro common_found_all) auto
    then show ?thesis using True by (subst merge_bases_loop.simps) simp
  next
    case False
    define floor where "floor = band_floor (Max ?F) p"
    have F: "finite ?F" "?F \<subseteq> i64s" "?F \<subseteq> {..<P}" using less.prems(1,2) by (auto simp: side_inv_def)
    have top: "Max ?F \<in> ?F" using False F(1) by (rule Max_in [rotated])
    have le: "floor \<le> Max ?F" unfolding floor_def
      using top F(2) less.prems(3) by (intro band_floor_le) (auto simp: i64s_def)
    have fl: "floor \<le> i64_max" "floor < P" using le top F by (auto simp: i64s_def)
    show ?thesis
    proof (cases "merge_base_side g floor A")
      case (Inl e)
      then have "fails {a, b} e"
        using side_error [OF Inl less.prems(1) fl(1)] by (rule_tac walk_failure_mono) auto
      then show ?thesis using False Inl by (subst merge_bases_loop.simps) (auto simp flip: floor_def)
    next
      case A': (Inr A')
      show ?thesis
      proof (cases "merge_base_side g floor B")
        case (Inl e)
        then have "fails {a, b} e"
          using side_error [OF Inl less.prems(2) fl(1)] by (rule_tac walk_failure_mono) auto
        then show ?thesis using False A' Inl by (subst merge_bases_loop.simps) (auto simp flip: floor_def)
      next
        case B': (Inr B')
        note invA = side_step [OF A' less.prems(1) fl(2,1)] and invB = side_step [OF B' less.prems(2) fl(2,1)]
        have run: "merge_bases_loop g budget p A B =
            (if fst A' \<subseteq> snd B' \<and> fst B' \<subseteq> snd A' then Some (Inr (snd A' \<inter> snd B', False))
             else if budget < card (snd A') + card (snd B') then Some (Inr (snd A' \<inter> snd B', True))
             else merge_bases_loop g budget (policy_grow p) A' B')"
          using False A' B' by (subst merge_bases_loop.simps) (auto simp flip: floor_def)
        have "nat (Max (fst A' \<union> fst B') - i64_min) < nat (Max ?F - i64_min)" if "fst A' \<union> fst B' \<noteq> {}"
        proof -
          have fin: "finite (fst A' \<union> fst B')" and sub: "fst A' \<union> fst B' \<subseteq> {..<floor}"
            using invA invB by (auto simp: side_inv_def)
          have "Max (fst A' \<union> fst B') < floor" using Max_in [OF fin that] sub by blast
          moreover have "i64_min \<le> Max (fst A' \<union> fst B')"
            using Max_in [OF fin that] invA invB by (auto simp: side_inv_def i64s_def)
          ultimately show ?thesis using le by linarith
        qed
        moreover have "fst A' \<union> fst B' = {} \<Longrightarrow> fst A' \<subseteq> snd B' \<and> fst B' \<subseteq> snd A'" by auto
        ultimately show ?thesis
          unfolding run using common_found_all [OF invA invB] common_found_budget [OF invA invB]
            less.hyps [OF _ invA invB policy_grow_ok [OF less.prems(3)]] by (auto simp del: Un_empty)
      qed
    qed
  qed
qed

text \<open>The members of a set that no other member reaches.\<close>

abbreviation "best \<equiv> best_of node"

lemmas best_def = best_of_def [of node]

lemma best_skip:
  assumes "seq \<in> L" "\<forall>d \<in> L. d \<le> seq" "L' = {c \<in> L - {seq}. (seq, c) \<notin> G\<^sup>*}"
  shows "best L = insert seq (best L')"
proof -
  have "seq \<in> best L"
    using assms(1,2) reach_le [OF descending_G, of _ seq] by (fastforce simp: best_def)
  moreover have "c \<in> best L'" if "c \<in> best L" "c \<noteq> seq" for c
    using that assms(1,3) by (auto simp: best_def)
  moreover have "c \<in> best L" if c: "c \<in> best L'" for c
  proof -
    have "d = c" if d: "d \<in> L" "(d, c) \<in> G\<^sup>*" for d
    proof (cases "d \<in> L'")
      case False
      then have "(seq, d) \<in> G\<^sup>*" using d(1) assms(3) by auto
      then have "(seq, c) \<in> G\<^sup>*" using d(2) by (rule rtrancl_trans)
      then show ?thesis using c assms(3) by (auto simp: best_def)
    qed (use c d in \<open>auto simp: best_def\<close>)
    then show ?thesis using c assms(3) by (auto simp: best_def)
  qed
  ultimately show ?thesis by blast
qed

lemma best_cofinal:
  assumes "C \<subseteq> X" "X \<subseteq> G\<^sup>* `` C"
  shows "best C = best X"
proof -
  have "c \<in> best X" if c: "c \<in> best C" for c
  proof -
    have "d = c" if d: "d \<in> X" "(d, c) \<in> G\<^sup>*" for d
    proof -
      obtain c' where c': "c' \<in> C" "(c', d) \<in> G\<^sup>*" using assms(2) d(1) by blast
      then have "c' = c" using c rtrancl_trans [OF c'(2) d(2)] by (simp add: best_def)
      then show ?thesis using reach_eq [OF descending_G d(2)] c'(2) by simp
    qed
    then show ?thesis using c assms(1) by (auto simp: best_def)
  qed
  moreover have "c \<in> best C" if c: "c \<in> best X" for c
  proof -
    have "c \<in> X" using c by (simp add: best_def)
    then obtain c' where c': "c' \<in> C" "(c', c) \<in> G\<^sup>*" using assms(2) by blast
    then have "c' = c" using c assms(1) by (auto simp: best_def)
    then show ?thesis using c c'(1) assms(1) by (auto simp: best_def)
  qed
  ultimately show ?thesis by blast
qed

lemma maximal_loop_ok:
  assumes "maximal_loop g xs L bases = Inr bases'" "L \<subseteq> set xs" "sorted_wrt (>) xs" "set xs \<subseteq> i64s"
  shows "bases' = bases @ filter (\<lambda>c. c \<in> best L) xs"
  using assms
proof (induction xs arbitrary: L bases)
  case Nil
  then show ?case by simp
next
  case (Cons seq xs)
  note run = Cons.prems(1) and sub = Cons.prems(2)
  have srt: "sorted_wrt (>) xs" "\<forall>x \<in> set xs. x < seq" and i64: "set xs \<subseteq> i64s" "seq \<in> i64s"
    using Cons.prems by auto
  show ?case
  proof (cases "seq \<in> L")
    case False
    then have "L \<subseteq> set xs" "seq \<notin> best L" using sub by (auto simp: best_def)
    then show ?thesis using Cons.IH [of L bases] run False srt i64 by simp
  next
    case True
    define L' where "L' = {c \<in> L - {seq}. (seq, c) \<notin> G\<^sup>*}"
    have max: "\<forall>d \<in> L. d \<le> seq" using sub srt(2) by (auto simp: less_imp_le)
    note best = best_skip [OF True max L'_def]
    have seq': "seq \<notin> best L'" by (simp add: best_def L'_def)
    have "filter (\<lambda>c. c \<in> best L) xs = filter (\<lambda>c. c \<in> best L') xs"
      using srt(2) by (intro filter_cong) (auto simp: best)
    then have drop: "filter (\<lambda>c. c \<in> best L) (seq # xs) = seq # filter (\<lambda>c. c \<in> best L') xs"
      using best by simp
    show ?thesis
    proof (cases "L - {seq} = {}")
      case empty: True
      then have "best L' = {}" by (auto simp: L'_def best_def)
      moreover have "bases' = bases @ [seq]" using run True empty by simp
      ultimately show ?thesis unfolding drop by simp
    next
      case False
      have fin: "finite (L - {seq})" using sub finite_subset by (auto intro: finite_subset)
      obtain v b where vb: "expand_ancestor_band g [seq] (Min (L - {seq})) = Inr (v, b)"
        and rest: "maximal_loop g xs {c \<in> L - {seq}. c \<notin> v} (bases @ [seq]) = Inr bases'"
        using run True False by (auto simp: rbind_eq_Inr_iff Let_def)
      have "Min (L - {seq}) \<in> set xs" using Min_in [OF fin False] sub by auto
      then have "Min (L - {seq}) \<le> i64_max" using i64 by (auto simp: i64s_def)
      note ok = expand_band_ok [OF vb _ this]
      have "{c \<in> L - {seq}. c \<notin> v} = L'"
        using ok(1) i64 Min_le [OF fin] by (auto simp: L'_def)
      with rest have "maximal_loop g xs L' (bases @ [seq]) = Inr bases'" by simp
      moreover have "L' \<subseteq> set xs" using sub by (auto simp: L'_def)
      ultimately have "bases' = (bases @ [seq]) @ filter (\<lambda>c. c \<in> best L') xs"
        using Cons.IH srt(1) i64(1) by blast
      then show ?thesis unfolding drop by simp
    qed
  qed
qed

lemma maximal_loop_error:
  assumes "maximal_loop g xs L bases = Inl e" "L \<subseteq> set xs" "set xs \<subseteq> i64s"
  shows "fails (set xs) e"
  using assms
proof (induction xs arbitrary: L bases)
  case Nil
  then show ?case by simp
next
  case (Cons seq xs)
  note run = Cons.prems(1) and sub = Cons.prems(2) and i64 = Cons.prems(3)
  have up: "fails (set (seq # xs)) e" if "fails S e" "S \<subseteq> set (seq # xs)" for S
    using that by (intro walk_failure_mono [OF that(1)]) auto
  consider (skip) "seq \<notin> L" "maximal_loop g xs L bases = Inl e"
    | (fail) "seq \<in> L" "L - {seq} \<noteq> {}" "expand_ancestor_band g [seq] (Min (L - {seq})) = Inl e"
    | (rest) v where "seq \<in> L" "maximal_loop g xs {c \<in> L - {seq}. c \<notin> v} (bases @ [seq]) = Inl e"
    using run by (auto simp: Let_def rbind_def split: if_splits sum.splits prod.splits)
  then show ?case
  proof cases
    case skip
    then have "fails (set xs) e" using Cons.IH [OF skip(2)] sub i64 by auto
    then show ?thesis by (rule up) auto
  next
    case fail
    have fin: "finite (L - {seq})" using sub by (auto intro: finite_subset)
    have "Min (L - {seq}) \<in> set xs" using Min_in [OF fin fail(2)] sub by auto
    then have "Min (L - {seq}) \<le> i64_max" using i64 by (auto simp: i64s_def)
    from expand_band_error [OF fail(3) _ this] i64 show ?thesis by (intro up) auto
  next
    case (rest v)
    have "fails (set xs) e"
      by (rule Cons.IH [OF rest(2)]) (use sub i64 in auto)
    then show ?thesis by (rule up) auto
  qed
qed

subsection \<open>Names\<close>

lemma named_ok: "named g seqs = Inr oids \<Longrightarrow> map name seqs = map Some oids"
proof -
  assume "named g seqs = Inr oids"
  then obtain m where m: "rg_oids_of g seqs = Inr m" "map (\<lambda>seq. ok_or (m seq) (WUnnamed seq)) seqs = map Inr oids"
    by (auto simp: named_def rbind_eq_Inr_iff collect_results_Inr)
  then have len: "length oids = length seqs" by (metis length_map)
  have "name (seqs ! i) = Some (oids ! i)" if "i < length seqs" for i
  proof -
    have "ok_or (m (seqs ! i)) (WUnnamed (seqs ! i)) = Inr (oids ! i)"
      using arg_cong [OF m(2), of "\<lambda>xs. xs ! i"] that len by simp
    then show ?thesis using oids_read [OF m(1), of "seqs ! i"] that by (simp add: ok_or_eq_Inr_iff)
  qed
  with len show "map name seqs = map Some oids" by (auto simp: list_eq_iff_nth_eq)
qed

lemma named_error: "named g seqs = Inl e \<Longrightarrow> fails (set seqs) e"
proof (cases "rg_oids_of g seqs")
  case (Inl er)
  assume "named g seqs = Inl e"
  with Inl have "e = WRead er" by (simp add: named_def walk_read_def)
  then show ?thesis using read_failedI(3) [OF Inl] by (simp add: walk_failure_def)
next
  case (Inr m)
  assume "named g seqs = Inl e"
  with Inr have "Inl e \<in> (\<lambda>seq. ok_or (m seq) (WUnnamed seq)) ` set seqs"
    by (auto simp: named_def walk_read_def dest: collect_results_Inl)
  then obtain seq where "seq \<in> set seqs" "e = WUnnamed seq" "m seq = None" by (auto simp: ok_or_def split: option.splits)
  then show ?thesis using oids_read [OF Inr] by (auto simp: walk_failure_def)
qed

lemma seqs_found:
  assumes "rg_seqs_of g oids = Inr seqs" "oid \<in> set oids" "seqs oid = Some seq"
  shows "named_as name oid = {seq}" "seq \<in> i64s" "0 \<le> seq"
proof -
  note read = seqs_read [OF assms]
  have "s = seq" if "name s = Some oid" for s using seqs_complete [OF assms(1,2) that] assms(3) by simp
  then show "named_as name oid = {seq}" using read by (auto simp: named_as_def)
  show "seq \<in> i64s" "0 \<le> seq" using read by (auto simp: i64s_def i64_min_def)
qed

lemma seqs_none:
  assumes "rg_seqs_of g oids = Inr seqs" "oid \<in> set oids" "seqs oid = None"
  shows "named_as name oid = {}"
proof -
  have "name s \<noteq> Some oid" for s using seqs_complete [OF assms(1,2), of s] assms(3) by auto
  then show ?thesis by (simp add: named_as_def)
qed

subsection \<open>First-parent chains\<close>

definition page_left :: "nat \<Rightarrow> int option \<Rightarrow> int list \<Rightarrow> int list" where
  "page_left limit at page = (case at of None \<Rightarrow> [] | Some seq \<Rightarrow> first_parents node (limit - length page) seq)"

abbreviation "first_parent e \<equiv> (case entry_parents e of [] \<Rightarrow> None | p # _ \<Rightarrow> Some p)"

lemma page_left_step:
  assumes "node seq = Some (entry_node e)" "length page < limit"
  shows "page @ page_left limit (Some seq) page = (page @ [seq]) @ page_left limit (first_parent e) (page @ [seq])"
proof -
  have "limit - length page = Suc (limit - length (page @ [seq]))" using assms(2) by simp
  then show ?thesis
    using assms(1) by (simp add: page_left_def parents_in_def entry_of_node split: list.split)
qed

lemma follow_loop_ok:
  assumes "follow_loop c floor limit at page = Inr (at', page')"
    and "\<forall>seq. floor \<le> seq \<longrightarrow> seq \<le> ceil \<longrightarrow> map_option entry_node (ci_get c seq) = node seq"
    and "\<forall>seq. at = Some seq \<longrightarrow> seq \<le> ceil \<and> 0 \<le> seq"
  shows "page' @ page_left limit at' page' = page @ page_left limit at page \<and>
    (case at' of None \<Rightarrow> True | Some seq \<Rightarrow> seq < floor \<and> 0 \<le> seq)"
  using assms
proof (induction c floor limit at page rule: follow_loop.induct)
  case (1 c floor limit page)
  then show ?case by (simp add: page_left_def)
next
  case (2 c floor limit seq page)
  note ih = 2(1) and run = 2(2) and reads = 2(3) and at = 2(4)
  consider (below) "seq < floor" | (full) "\<not> seq < floor" "limit \<le> length page" | (go) "floor \<le> seq" "length page < limit" by linarith
  then show ?case
  proof cases
    case below
    then show ?thesis using run at by (auto simp: page_left_def)
  next
    case full
    then show ?thesis using run by (auto simp: page_left_def)
  next
    case go
    then obtain e where e: "ci_get c seq = Some e"
      and rest: "follow_loop c floor limit (first_parent e) (page @ [seq]) = Inr (at', page')"
      using run by (auto simp: rbind_eq_Inr_iff ok_or_eq_Inr_iff)
    have n: "node seq = Some (entry_node e)" using reads go at e by fastforce
    have "p < seq \<and> 0 \<le> p" if "first_parent e = Some p" for p
    proof -
      have "p \<in> set (parents_in node seq)" using that n by (auto simp: parents_in_def entry_of_node split: list.splits)
      then show ?thesis using older parents_bound [of node seq] by fastforce
    qed
    then have "\<forall>p. first_parent e = Some p \<longrightarrow> p \<le> ceil \<and> 0 \<le> p" using at by fastforce
    then show ?thesis
      using ih [of e] go e rest reads page_left_step [OF n go(2)] by (simp add: ok_or_def)
  qed
qed

lemma follow_loop_error:
  assumes "follow_loop c floor limit at page = Inl e"
    and "\<forall>seq. floor \<le> seq \<longrightarrow> seq \<le> ceil \<longrightarrow> map_option entry_node (ci_get c seq) = node seq"
    and "\<forall>seq. at = Some seq \<longrightarrow> seq \<le> ceil"
  shows "fails (set_option at) e"
  using assms
proof (induction c floor limit at page rule: follow_loop.induct)
  case (2 c floor limit seq page)
  note ih = 2(1) and run = 2(2) and reads = 2(3) and at = 2(4)
  have go: "floor \<le> seq" "length page < limit" using run by (auto split: if_splits)
  show ?case
  proof (cases "ci_get c seq")
    case None
    then have "e = WMissing seq" "node seq = None" using run go reads at by fastforce+
    then show ?thesis by (auto simp: walk_failure_def)
  next
    case (Some e')
    have n: "node seq = Some (entry_node e')" using reads go at Some by fastforce
    have edge: "p < seq \<and> (seq, p) \<in> G" if "first_parent e' = Some p" for p
      using that n older [of p seq] by (auto simp: parent_edges_def parents_in_def entry_of_node split: list.splits)
    have "fails (set_option (first_parent e')) e"
      using ih [of e'] go Some run reads edge at by (fastforce simp: ok_or_def)
    then show ?thesis by (rule walk_failure_mono) (use edge in auto)
  qed
qed simp

lemma follow_ok:
  assumes "rg_index g floor seq = Inr c" "follow c seq floor limit page = Inr (at', page')" "0 \<le> seq" "seq \<le> i64_max"
  shows "page' @ page_left limit at' page' = page @ page_left limit (Some seq) page"
    "at' = Some s \<Longrightarrow> s < floor \<and> 0 \<le> s"
  using follow_loop_ok [OF assms(2) [unfolded follow_def], of seq] index_reads [OF assms(1)] assms(3,4) by auto

lemma follow_error:
  assumes "rg_index g floor seq = Inr c" "follow c seq floor limit page = Inl e" "seq \<le> i64_max"
  shows "fails {seq} e"
  using follow_loop_error [OF assms(2) [unfolded follow_def], of seq] index_reads [OF assms(1)] assms(3) by auto

lemma follow_parent:
  assumes "follow_loop c floor limit at page = Inr (Some s, page')"
    and "\<forall>seq. floor \<le> seq \<longrightarrow> seq \<le> ceil \<longrightarrow> map_option entry_node (ci_get c seq) = node seq"
    and "\<forall>seq. at = Some seq \<longrightarrow> seq \<le> ceil"
  shows "s \<in> G\<^sup>* `` set_option at"
  using assms
proof (induction c floor limit at page rule: follow_loop.induct)
  case (2 c floor limit seq page)
  note ih = 2(1) and run = 2(2) and reads = 2(3) and at = 2(4)
  show ?case
  proof (cases "seq < floor")
    case False
    then have go: "floor \<le> seq" "length page < limit" using run by (auto split: if_splits)
    then obtain e' where Some: "ci_get c seq = Some e'" using run by (auto simp: rbind_eq_Inr_iff ok_or_eq_Inr_iff)
    have n: "node seq = Some (entry_node e')" using reads go at Some by fastforce
    have edge: "p < seq \<and> (seq, p) \<in> G" if "first_parent e' = Some p" for p
      using that n older [of p seq] by (auto simp: parent_edges_def parents_in_def entry_of_node split: list.splits)
    have "s \<in> G\<^sup>* `` set_option (first_parent e')"
      using ih [of e'] go Some run reads edge at by (fastforce simp: ok_or_def)
    then show ?thesis using edge by (auto intro: converse_rtrancl_into_rtrancl)
  qed (use run in auto)
qed simp

lemma page_loop_total:
  assumes "\<forall>seq. at = Some seq \<longrightarrow> 0 \<le> seq \<and> seq \<le> i64_max"
  shows "\<exists>r. page_loop g limit at page = Some r \<and>
    (case r of Inr page' \<Rightarrow> page' = page @ page_left limit at page | Inl e \<Rightarrow> fails (set_option at) e)"
  using assms
proof (induction "case at of None \<Rightarrow> 0 | Some seq \<Rightarrow> Suc (nat seq)" arbitrary: at page rule: less_induct)
  case less
  show ?case
  proof (cases at)
    case None
    then show ?thesis by (subst page_loop.simps) (simp add: page_left_def)
  next
    case (Some seq)
    define floor where "floor = max (sat_i64 (seq - PAGE_BAND)) 0"
    have b: "0 \<le> seq" "seq \<le> i64_max" using less.prems Some by simp_all
    have fl: "floor \<le> seq" using b by (auto simp: floor_def sat_i64_def PAGE_BAND_def i64_min_def i64_max_def)
    show ?thesis
    proof (cases "limit \<le> length page")
      case True
      then show ?thesis using Some by (subst page_loop.simps) (simp add: page_left_def)
    next
      case room: False
      show ?thesis
      proof (cases "rg_index g floor seq")
        case (Inl er)
        then show ?thesis using Some room read_failedI(1) [OF Inl]
          by (subst page_loop.simps) (simp add: walk_failure_def flip: floor_def)
      next
        case c: (Inr c)
        show ?thesis
        proof (cases "follow c seq floor limit page")
          case (Inl e)
          then show ?thesis using Some room c follow_error [OF c Inl b(2)]
            by (subst page_loop.simps) (simp flip: floor_def)
        next
          case (Inr ap)
          obtain at' page' where ap: "ap = (at', page')" by force
          note ok = follow_ok [OF c Inr [unfolded ap] b]
          have run: "page_loop g limit at page = page_loop g limit at' page'"
            using Some room c Inr ap by (subst page_loop.simps) (simp flip: floor_def)
          have small: "(case at' of None \<Rightarrow> 0 | Some seq \<Rightarrow> Suc (nat seq)) < (case at of None \<Rightarrow> 0 | Some seq \<Rightarrow> Suc (nat seq))"
            using ok(2) fl Some by (cases at') fastforce+
          have "\<forall>s. at' = Some s \<longrightarrow> 0 \<le> s \<and> s \<le> i64_max" using ok(2) fl b(2) by fastforce
          from less.hyps [OF small this, of page'] obtain r where r: "page_loop g limit at' page' = Some r"
            "case r of Inr page2 \<Rightarrow> page2 = page' @ page_left limit at' page' | Inl e \<Rightarrow> fails (set_option at') e" by blast
          have sub: "set_option at' \<subseteq> G\<^sup>* `` set_option at"
            using follow_parent [of c floor limit "Some seq" page _ page' seq] Inr ap index_reads [OF c] b(2) Some
            by (cases at') (auto simp: follow_def)
          have "case r of Inr page2 \<Rightarrow> page2 = page @ page_left limit at page | Inl e \<Rightarrow> fails (set_option at) e"
            using r(2) ok(1) Some walk_failure_mono [OF _ sub] by (cases r) simp_all
          then show ?thesis using run r(1) by simp
        qed
      qed
    qed
  qed
qed

subsection \<open>The reads by oid\<close>

lemma banded_is_ancestor_total:
  assumes "a \<in> i64s" "d \<in> i64s" "policy_ok p"
  shows "\<exists>r. banded_is_ancestor g a d p = Some r \<and>
    (case r of Inr yes \<Rightarrow> yes \<longleftrightarrow> (d, a) \<in> G\<^sup>* | Inl e \<Rightarrow> fails {d} e)"
proof (cases "a = d \<or> d < a")
  case True
  then show ?thesis using reach_le [OF descending_G, of d a] by (auto simp: banded_is_ancestor_def)
next
  case False
  then show ?thesis using is_ancestor_loop_total [of "{d}" a p, unfolded Image_singleton_iff] assms by (simp add: banded_is_ancestor_def)
qed

lemma banded_merge_bases_total:
  assumes "a \<in> i64s" "b \<in> i64s" "policy_ok p"
  shows "\<exists>r. banded_merge_bases g a b p budget = Some r \<and>
    (case r of Inr (bases, exhausted) \<Rightarrow> sorted_wrt (>) bases \<and> set bases \<subseteq> G\<^sup>* `` {a} \<inter> G\<^sup>* `` {b} \<and>
        (if exhausted then unat budget < card (G\<^sup>* `` {a}) + card (G\<^sup>* `` {b}) else set bases = best (G\<^sup>* `` {a} \<inter> G\<^sup>* `` {b}))
     | Inl e \<Rightarrow> fails {a, b} e)"
proof (cases "a = b")
  case True
  have "best (G\<^sup>* `` {b} \<inter> G\<^sup>* `` {b}) = {b}" using reach_eq [OF descending_G] by (auto simp: best_def)
  then show ?thesis using True by (simp add: banded_merge_bases_def)
next
  case False
  define P where "P = max a b + 1"
  have "side_inv a P ({a}, {a})" "side_inv b P ({b}, {b})"
    using assms by (auto intro!: side_inv_start simp: P_def)
  from merge_bases_loop_total [OF this assms(3), of "unat budget"] obtain r where
    r: "merge_bases_loop g (unat budget) p ({a}, {a}) ({b}, {b}) = Some r"
    "case r of Inr found \<Rightarrow> common_found a b (unat budget) found | Inl e \<Rightarrow> fails {a, b} e" by blast
  show ?thesis
  proof (cases r)
    case (Inl e)
    then show ?thesis using r False by (simp add: banded_merge_bases_def)
  next
    case (Inr found)
    obtain C ex where found: "found = (C, ex)" by force
    have C: "finite C" "C \<subseteq> G\<^sup>* `` {a} \<inter> G\<^sup>* `` {b}"
      "if ex then unat budget < card (G\<^sup>* `` {a}) + card (G\<^sup>* `` {b}) else G\<^sup>* `` {a} \<inter> G\<^sup>* `` {b} \<subseteq> G\<^sup>* `` C"
      using r(2) unfolding Inr found common_found_def sum.case fst_conv snd_conv by blast+
    define xs where "xs = rev (sorted_list_of_set C)"
    have xs: "set xs = C" "sorted_wrt (>) xs" using C(1) by (simp_all add: xs_def sorted_wrt_rev)
    have i64: "set xs \<subseteq> i64s"
      unfolding xs(1) using C(2) reach_i64s [OF subset_refl [of G], of "{a}"] assms(1) by blast
    have run: "banded_merge_bases g a b p budget = Some (rbind (maximal g xs) (\<lambda>bases. Inr (bases, ex)))"
      using r(1) False by (simp add: banded_merge_bases_def Inr found xs_def)
    show ?thesis
    proof (cases "maximal g xs")
      case (Inl e)
      then have "fails C e" using maximal_loop_error [OF Inl [unfolded maximal_def] subset_refl i64] xs(1) by simp
      then have "fails {a, b} e" by (rule walk_failure_mono) (use C(2) in blast)
      then show ?thesis using run Inl by simp
    next
      case (Inr bases)
      have bases: "bases = filter (\<lambda>c. c \<in> best C) xs"
        using maximal_loop_ok [OF Inr [unfolded maximal_def] subset_refl xs(2) i64] xs(1) by simp
      have "set bases = best C" using bases xs(1) by (auto simp: best_def)
      moreover have "best C = best (G\<^sup>* `` {a} \<inter> G\<^sup>* `` {b})" if "\<not> ex"
        using that C(2,3) by (intro best_cofinal) auto
      moreover have "best C \<subseteq> C" by (auto simp: best_def)
      moreover have "sorted_wrt (>) bases" using xs(2) by (simp add: bases sorted_wrt_filter)
      ultimately show ?thesis using run Inr C(2,3) by auto
    qed
  qed
qed

text \<open>A walk that starts at a commit the graph does not hold fails.\<close>

lemma is_ancestor_loop_unheld:
  assumes "node d = None" "a < d" "d \<in> i64s" "policy_ok p"
  shows "\<exists>e. is_ancestor_loop g a {d} p = Some (Inl e)"
proof -
  define floor where "floor = max (band_floor d p) a"
  have floor: "floor \<le> d" using band_floor_le [OF assms(4), of d] assms(2,3) by (auto simp: floor_def i64s_def)
  have "ceiling [d] floor = d" using floor by (simp add: ceiling_def max_def)
  moreover have "ci_get c d = None" if "rg_index g floor d = Inr c" for c
    using index_reads [OF that floor order_refl] assms(1,3) by (simp add: i64s_def)
  ultimately have "\<exists>e. expand_ancestor_band g [d] floor = Inl e"
    using floor by (cases "rg_index g floor d")
      (auto simp: expand_ancestor_band_def walk_read_def walk_cover_def expand_ancestors_def must_get_def)
  then show ?thesis by (subst is_ancestor_loop.simps) (auto simp flip: floor_def)
qed

lemma banded_is_ancestor_unheld:
  "node d = None \<Longrightarrow> a < d \<Longrightarrow> d \<in> i64s \<Longrightarrow> policy_ok p \<Longrightarrow> \<exists>e. banded_is_ancestor g a d p = Some (Inl e)"
  using is_ancestor_loop_unheld by (simp add: banded_is_ancestor_def)

lemma is_ancestor_total:
  "\<exists>r. is_ancestor g a d = Some r \<and>
    (case r of Inr yes \<Rightarrow> yes \<longleftrightarrow> (\<exists>x \<in> named_as name a. \<exists>y \<in> named_as name d. (y, x) \<in> G\<^sup>*)
     | Inl e \<Rightarrow> fails (named_as name d) e) \<and>
    (\<forall>x \<in> named_as name a. \<forall>y \<in> named_as name d. x < y \<and> node y = None \<longrightarrow> (\<exists>e. r = Inl e))"
proof (cases "rg_seqs_of g [a, d]")
  case (Inl er)
  then show ?thesis using read_failedI(4) [OF Inl] by (simp add: is_ancestor_def walk_failure_def)
next
  case (Inr seqs)
  show ?thesis
  proof (cases "seqs a = None \<or> seqs d = None")
    case True
    then show ?thesis using seqs_none [OF Inr, of a] seqs_none [OF Inr, of d] Inr
      by (auto simp: is_ancestor_def split: option.split)
  next
    case False
    then obtain x y where xy: "seqs a = Some x" "seqs d = Some y" by auto
    have x: "named_as name a = {x}" "x \<in> i64s" and y: "named_as name d = {y}" "y \<in> i64s"
      using seqs_found [OF Inr _ xy(1)] seqs_found [OF Inr _ xy(2)] by simp_all
    have run: "is_ancestor g a d = banded_is_ancestor g x y policy_production" using Inr xy by (simp add: is_ancestor_def)
    from banded_is_ancestor_total [OF x(2) y(2) policy_production_ok] obtain r where
      r: "banded_is_ancestor g x y policy_production = Some r"
      "case r of Inr yes \<Rightarrow> yes \<longleftrightarrow> (y, x) \<in> G\<^sup>* | Inl e \<Rightarrow> fails {y} e" by blast
    have "\<exists>e. r = Inl e" if "x < y" "node y = None"
      using banded_is_ancestor_unheld [OF that(2,1) y(2) policy_production_ok] r(1) by simp
    then show ?thesis using r unfolding run x(1) y(1) by (cases r; cases "node y") auto
  qed
qed

lemma merge_bases_total:
  "\<exists>r. merge_bases g a b budget = Some r \<and>
    (case r of Inr res \<Rightarrow> \<exists>seqs. map name seqs = map Some (bs_bases res) \<and> sorted_wrt (>) seqs \<and>
        set seqs \<subseteq> G\<^sup>* `` named_as name a \<inter> G\<^sup>* `` named_as name b \<and>
        (if bs_exhausted res then unat budget < card (G\<^sup>* `` named_as name a) + card (G\<^sup>* `` named_as name b)
         else set seqs = best (G\<^sup>* `` named_as name a \<inter> G\<^sup>* `` named_as name b))
     | Inl e \<Rightarrow> fails (named_as name a \<union> named_as name b) e)"
proof (cases "rg_seqs_of g [a, b]")
  case (Inl er)
  then show ?thesis using read_failedI(4) [OF Inl] by (simp add: merge_bases_def walk_failure_def)
next
  case seqs: (Inr seqs)
  show ?thesis
  proof (cases "seqs a = None \<or> seqs b = None")
    case True
    then have "merge_bases g a b budget = Some (Inr \<lparr>bs_bases = [], bs_exhausted = False\<rparr>)"
      using seqs by (auto simp: merge_bases_def split: option.split)
    moreover have "G\<^sup>* `` named_as name a \<inter> G\<^sup>* `` named_as name b = {}"
      using True seqs_none [OF seqs, of a] seqs_none [OF seqs, of b] by auto
    ultimately show ?thesis by (simp add: best_def)
  next
    case False
    then obtain x y where xy: "seqs a = Some x" "seqs b = Some y" by auto
    have x: "named_as name a = {x}" "x \<in> i64s" and y: "named_as name b = {y}" "y \<in> i64s"
      using seqs_found [OF seqs _ xy(1)] seqs_found [OF seqs _ xy(2)] by simp_all
    from banded_merge_bases_total [OF x(2) y(2) policy_production_ok, of budget] obtain r where
      r: "banded_merge_bases g x y policy_production budget = Some r"
      "case r of Inr (bases, exhausted) \<Rightarrow> sorted_wrt (>) bases \<and> set bases \<subseteq> G\<^sup>* `` {x} \<inter> G\<^sup>* `` {y} \<and>
        (if exhausted then unat budget < card (G\<^sup>* `` {x}) + card (G\<^sup>* `` {y}) else set bases = best (G\<^sup>* `` {x} \<inter> G\<^sup>* `` {y}))
       | Inl e \<Rightarrow> fails {x, y} e" by blast
    show ?thesis
    proof (cases r)
      case (Inl e)
      then show ?thesis using seqs xy r by (simp add: merge_bases_def x(1) y(1) insert_commute)
    next
      case (Inr found)
      obtain bs ex where bs: "found = (bs, ex)" by force
      have run: "merge_bases g a b budget = Some (rbind (named g bs) (\<lambda>oids. Inr \<lparr>bs_bases = oids, bs_exhausted = ex\<rparr>))"
        using seqs xy r(1) by (simp add: merge_bases_def Inr bs)
      have spec: "sorted_wrt (>) bs" "set bs \<subseteq> G\<^sup>* `` {x} \<inter> G\<^sup>* `` {y}"
        "if ex then unat budget < card (G\<^sup>* `` {x}) + card (G\<^sup>* `` {y}) else set bs = best (G\<^sup>* `` {x} \<inter> G\<^sup>* `` {y})"
        using r(2) unfolding Inr bs sum.case prod.case by blast+
      show ?thesis
      proof (cases "named g bs")
        case (Inl e)
        then have "fails {y, x} e" by (intro walk_failure_mono [OF named_error [OF Inl]]) (use spec(2) in blast)
        then show ?thesis using run Inl by (simp add: x(1) y(1))
      next
        case (Inr oids)
        then show ?thesis using run named_ok [OF Inr] spec by (auto simp: x(1) y(1) intro!: exI [of _ bs])
      qed
    qed
  qed
qed

lemma first_parent_page_total:
  "\<exists>r. first_parent_page g tip limit = Some r \<and>
    (case r of Inr oids \<Rightarrow> \<exists>page. map name page = map Some oids \<and>
        ((\<exists>x \<in> named_as name tip. page = first_parents node (unat limit) x) \<or>
         page = [] \<and> (limit = 0 \<or> named_as name tip = {}))
     | Inl e \<Rightarrow> fails (named_as name tip) e)"
proof (cases "limit = 0")
  case True
  then show ?thesis by (auto simp: first_parent_page_def)
next
  case limit: False
  show ?thesis
  proof (cases "rg_seqs_of g [tip]")
    case (Inl er)
    then show ?thesis using limit read_failedI(4) [OF Inl] by (simp add: first_parent_page_def walk_failure_def)
  next
    case seqs: (Inr seqs)
    show ?thesis
    proof (cases "seqs tip")
      case None
      then show ?thesis using limit seqs seqs_none [OF seqs _ None] by (simp add: first_parent_page_def)
    next
      case (Some x)
      have x: "named_as name tip = {x}" "x \<in> i64s" "0 \<le> x" using seqs_found [OF seqs _ Some] by simp_all
      have left: "[] @ page_left (unat limit) (Some x) [] = first_parents node (unat limit) x" "set_option (Some x) = {x}"
        by (simp_all add: page_left_def)
      from page_loop_total [of "Some x" "unat limit" "[]", unfolded left] x(2,3) obtain r where
        r: "page_loop g (unat limit) (Some x) [] = Some r"
        "case r of Inr page \<Rightarrow> page = first_parents node (unat limit) x | Inl e \<Rightarrow> fails {x} e"
        by (auto simp: i64s_def)
      show ?thesis
      proof (cases r)
        case (Inl e)
        then show ?thesis using limit seqs Some r by (simp add: first_parent_page_def x(1))
      next
        case page: (Inr page)
        then have run: "first_parent_page g tip limit = Some (named g page)"
          using limit seqs Some r(1) by (simp add: first_parent_page_def)
        show ?thesis
        proof (cases "named g page")
          case (Inl e)
          have "set (first_parents node n s) \<subseteq> G\<^sup>* `` {s}" for n s
          proof (induction n arbitrary: s)
            case (Suc n)
            show ?case
            proof (cases "parents_in node s")
              case (Cons p ps)
              then have "(s, p) \<in> G" by (simp add: parent_edges_def)
              then show ?thesis using Suc [of p] Cons by (auto intro: converse_rtrancl_into_rtrancl)
            qed simp
          qed simp
          then have "fails {x} e" using r(2) page by (intro walk_failure_mono [OF named_error [OF Inl]]) simp
          then show ?thesis using run Inl x(1) by simp
        next
          case (Inr oids)
          then show ?thesis using run named_ok [OF Inr] r(2) page x(1) by auto
        qed
      qed
    qed
  qed
qed

lemma graph_contains_ok:
  assumes "graph_contains g oid = Inr yes"
  shows "yes \<longleftrightarrow> (\<exists>x \<in> named_as name oid. pack x \<noteq> None)"
proof -
  obtain seqs where seqs: "rg_seqs_of g [oid] = Inr seqs" using assms by (auto simp: graph_contains_def rbind_eq_Inr_iff)
  show ?thesis
  proof (cases "seqs oid")
    case None
    then show ?thesis using assms seqs seqs_none [OF seqs _ None] by (simp add: graph_contains_def walk_read_def)
  next
    case (Some x)
    have x: "named_as name oid = {x}" "x \<in> i64s" "0 \<le> x" using seqs_found [OF seqs _ Some] by simp_all
    obtain facts where facts: "rg_packs_at g [x] = Inr facts" "yes \<longleftrightarrow> facts_get facts x \<noteq> None"
      using assms seqs Some
      by (auto simp: graph_contains_def walk_read_def [of "rg_seqs_of _ _"] locations_of_def rbind_eq_Inr_iff is_stored_def)
    then show ?thesis using packs_read [OF facts(1), of x] x by (simp add: i64s_def)
  qed
qed

text \<open>Which seqs the candidates have, as the walk looks them up.\<close>

lemma wanted_seqs:
  assumes "rg_seqs_of g names = Inr seqs" "set candidates \<subseteq> set names"
  shows "map_of (rev (List.map_filter (\<lambda>oid. map_option (\<lambda>seq. (seq, oid)) (seqs oid)) candidates)) seq = Some oid \<longleftrightarrow>
    oid \<in> set candidates \<and> name seq = Some oid" (is "map_of (rev ?ps) seq = _ \<longleftrightarrow> ?R")
proof -
  have pair: "(seq, oid) \<in> set ?ps \<longleftrightarrow> oid \<in> set candidates \<and> name seq = Some oid" for seq oid
  proof -
    have "(seq, oid) \<in> set ?ps \<longleftrightarrow> oid \<in> set candidates \<and> seqs oid = Some seq" by (auto simp: set_map_filter)
    then show ?thesis
      using seqs_read [OF assms(1), of oid seq] seqs_complete [OF assms(1), of oid seq] assms(2) by blast
  qed
  show ?thesis
  proof
    assume "map_of (rev ?ps) seq = Some oid"
    then show ?R using map_of_SomeD [of "rev ?ps" seq oid] pair by simp
  next
    assume R: ?R
    then have "(seq, oid) \<in> set (rev ?ps)" using pair by simp
    from weak_map_of_SomeI [OF this] obtain oid' where m: "map_of (rev ?ps) seq = Some oid'" by blast
    then have "name seq = Some oid'" using map_of_SomeD [of "rev ?ps" seq oid'] pair by simp
    then show "map_of (rev ?ps) seq = Some oid" using m R by simp
  qed
qed

text \<open>One band's ancestors, picked out of the candidates by name.\<close>

lemma band_found:
  assumes c: "rg_index g floor s = Inr c" "expand_ancestors c [s] floor = Inr (v, b)" and s: "s \<in> i64s"
    and wanted: "\<And>seq oid. wanted seq = Some oid \<longleftrightarrow> oid \<in> set candidates \<and> name seq = Some oid"
    and found: "found = (\<lambda>seq. the (wanted seq)) ` {seq \<in> v \<union> b. wanted seq \<noteq> None}"
  shows "oid \<in> found \<Longrightarrow> oid \<in> set candidates \<and> (\<exists>y \<in> named_as name oid. (s, y) \<in> G\<^sup>*)"
    and "oid \<in> set candidates \<Longrightarrow> name y = Some oid \<Longrightarrow> (s, y) \<in> G\<^sup>* \<Longrightarrow> floor \<le> y \<Longrightarrow> oid \<in> found"
proof -
  have "(band_edges c floor)\<^sup>* `` set [s] = (down G floor)\<^sup>* `` {s}"
    using band_reach [OF c(1), of "{s}"] s by (simp add: i64s_def)
  then have vb: "v = {a \<in> (down G floor)\<^sup>* `` {s}. floor \<le> a}" "b = {a \<in> (down G floor)\<^sup>* `` {s}. a < floor}"
    using expand_ancestors_ok [OF c(2)] by (simp_all only:)
  have "oid \<in> found \<longleftrightarrow> (\<exists>y \<in> v \<union> b. wanted y = Some oid)"
    unfolding found image_iff by (auto intro!: bexI)
  then have in_found: "oid \<in> found \<longleftrightarrow> oid \<in> set candidates \<and> (\<exists>y \<in> v \<union> b. name y = Some oid)"
    using wanted by blast
  show "oid \<in> found" if "oid \<in> set candidates" "name y = Some oid" "(s, y) \<in> G\<^sup>*" "floor \<le> y"
    using that in_found vb(1) path_within [OF descending_G that(3)] by auto
  show "oid \<in> set candidates \<and> (\<exists>y \<in> named_as name oid. (s, y) \<in> G\<^sup>*)" if mem: "oid \<in> found"
  proof -
    obtain y where y: "y \<in> v \<union> b" "name y = Some oid" using mem in_found by blast
    then have "(s, y) \<in> G\<^sup>*" using vb down_reach [of s y G floor] by auto
    then show ?thesis using y mem in_found by (auto simp: named_as_def)
  qed
qed

lemma ancestors_among_ok:
  assumes "ancestors_among g seed candidates max_commits = Inr found"
  shows "(oid \<in> found \<longrightarrow> oid \<in> set candidates \<and> (\<exists>x \<in> named_as name seed. \<exists>y \<in> named_as name oid. (x, y) \<in> G\<^sup>*)) \<and>
    (oid \<in> set candidates \<longrightarrow> name x = Some seed \<longrightarrow> name y = Some oid \<longrightarrow> (x, y) \<in> G\<^sup>* \<longrightarrow> x - y \<le> uint max_commits \<longrightarrow> oid \<in> found)"
proof (cases "candidates = []")
  case True
  then show ?thesis using assms by (simp add: ancestors_among_def)
next
  case ne: False
  obtain seqs where seqs: "rg_seqs_of g (candidates @ [seed]) = Inr seqs"
    using assms ne by (auto simp: ancestors_among_def rbind_eq_Inr_iff)
  define wanted where "wanted = map_of (rev (List.map_filter (\<lambda>oid. map_option (\<lambda>seq. (seq, oid)) (seqs oid)) candidates))"
  have wanted: "wanted seq = Some oid \<longleftrightarrow> oid \<in> set candidates \<and> name seq = Some oid" for seq oid
    unfolding wanted_def by (rule wanted_seqs [OF seqs]) auto
  have fin: "finite (dom wanted)" unfolding wanted_def by (rule finite_dom_map_of)
  consider (unknown) "seqs seed = None" | (empty) s where "seqs seed = Some s" "dom wanted = {}"
    | (band) s where "seqs seed = Some s" "dom wanted \<noteq> {}" by blast
  then show ?thesis
  proof cases
    case unknown
    then show ?thesis using assms ne seqs seqs_none [OF seqs _ unknown]
      by (auto simp: ancestors_among_def walk_read_def named_as_def)
  next
    case empty
    then have "found = {}" using assms ne seqs
      by (simp add: ancestors_among_def walk_read_def Let_def flip: wanted_def)
    then show ?thesis using empty wanted by auto
  next
    case band
    have s: "named_as name seed = {s}" "s \<in> i64s" "0 \<le> s" using seqs_found [OF seqs _ band(1)] by simp_all
    define reach where "reach = (if uint max_commits \<le> i64_max then uint max_commits else i64_max)"
    define floor where "floor = max (Min (dom wanted)) (sat_i64 (s - reach))"
    obtain c v b where c: "rg_index g floor s = Inr c" "expand_ancestors c [s] floor = Inr (v, b)"
      and found: "found = (\<lambda>seq. the (wanted seq)) ` {seq \<in> v \<union> b. wanted seq \<noteq> None}"
      using assms ne seqs band
      by (auto simp: ancestors_among_def walk_read_def [of "rg_seqs_of _ _"] Let_def rbind_eq_Inr_iff reach_def floor_def
          simp flip: wanted_def)
    note ok = band_found [OF c s(2) wanted found]
    have "oid \<in> found" if "oid \<in> set candidates" "name x = Some seed" "name y = Some oid" "(x, y) \<in> G\<^sup>*" "x - y \<le> uint max_commits"
    proof -
      have x: "x = s" using that(2) s(1) by (auto simp: named_as_def)
      have "wanted y = Some oid" using wanted that by simp
      then have "Min (dom wanted) \<le> y" using fin by (intro Min_le) auto
      moreover have "0 \<le> y" using seqs_read [OF seqs, of oid y] seqs_complete [OF seqs, of oid y] that by auto
      moreover have "sat_i64 (s - reach) \<le> y"
        using that(5) s(2,3) \<open>0 \<le> y\<close> x by (auto simp: reach_def sat_i64_def i64s_def i64_min_def i64_max_def)
      ultimately show ?thesis using ok(2) [of oid y] that x by (simp add: floor_def)
    qed
    then show ?thesis using ok(1) [of oid] s(1) by auto
  qed
qed

end

lemma held_among: "ancestors_among held_repo [7] [[5]] 4 = Inr {[5]}"
proof -
  obtain e f where "ci_get example_index 5 = Some e" "entry_parents e = [2, 4, 0]"
    "ci_get example_index 7 = Some f" "entry_parents f = [5]" by (rule held_entries)
  then have "expand_ancestors example_index [7] 5 = Inr ({5, 7}, {0, 2, 4})"
    by (auto simp: expand_ancestors_def must_get_def)
  then show ?thesis
    by (auto simp: ancestors_among_def held_repo_def map_filter_simps i64_max_def sat_i64_def i64_min_def walk_read_def walk_cover_def)
qed
section \<open>The reads are right\<close>

text \<open>A graph that names two commits and holds neither.\<close>

definition bare_repo :: repo_graph where
  "bare_repo = held_repo\<lparr>rg_index := (\<lambda>_ _. Inr ci_default), rg_packs_at := (\<lambda>_. Inr [])\<rparr>"

interpretation bare_history: history bare_repo "\<lambda>_. None" "\<lambda>_. None" example_name
  by unfold_locales (auto simp: bare_repo_def held_repo_def example_name_def ci_get_def ci_default_def get_at_def
    facts_get_def parents_in_def i64_max_def split: if_splits)

text \<open>C20: \<open>is_ancestor\<close> always returns. Over a graph whose reads agree with one history, it answers whether the
  ancestor is reached from the descendant over parent edges, across however many bands the walk takes; an oid
  with no seq is nobody's ancestor and has none. It fails only when a read fails or the descendant's history has a
  commit the graph does not hold. In particular a descendant that has a seq but is not in the graph is not answered
  \<open>false\<close>, as the comment on \<open>is_ancestor\<close> has it for an oid the graph does not hold: the question is an error for an
  older ancestor, and true for the oid itself, which reaches itself without a read of the graph.\<close>

theorem is_ancestor_correct:
  assumes "history g node pack name"
  shows "\<exists>r. is_ancestor g a d = Some r \<and>
    (case r of Inr yes \<Rightarrow> yes \<longleftrightarrow> (\<exists>x \<in> named_as name a. \<exists>y \<in> named_as name d. (y, x) \<in> (parent_edges node)\<^sup>*)
     | Inl e \<Rightarrow> walk_failure g node pack name (named_as name d) e) \<and>
    (\<forall>x \<in> named_as name a. \<forall>y \<in> named_as name d. x < y \<and> node y = None \<longrightarrow> (\<exists>e. r = Inl e))"
  by (rule history.is_ancestor_total [OF assms])

theorem is_ancestor_correct_witness:
  "(\<exists>r. is_ancestor example_repo [5] [7] = Some r \<and>
    (case r of Inr yes \<Rightarrow> yes \<longleftrightarrow> (\<exists>x \<in> named_as example_name [5]. \<exists>y \<in> named_as example_name [7].
        (y, x) \<in> (parent_edges (node_at example_env map_of written_world 7))\<^sup>*)
     | Inl e \<Rightarrow> walk_failure example_repo (node_at example_env map_of written_world 7)
         (pack_at example_pack_env map_of packed_world 7) example_name (named_as example_name [7]) e)) \<and>
   (\<exists>e. is_ancestor bare_repo [5] [7] = Some (Inl e))"
proof -
  have "5 \<in> named_as example_name [5]" "7 \<in> named_as example_name [7]" by (simp_all add: named_as_def example_name_def)
  then have bare: "\<exists>e. is_ancestor bare_repo [5] [7] = Some (Inl e)"
    using is_ancestor_correct [OF bare_history.history_axioms, of "[5]" "[7]"] by fastforce
  have "\<exists>r. P r \<and> Q r" if "\<exists>r. P r \<and> Q r \<and> R r" for P Q R :: "(walk_error, bool) result \<Rightarrow> bool"
    using that by blast
  from this [OF is_ancestor_correct [OF example_history.history_axioms, of "[5]" "[7]"]] bare show ?thesis by simp
qed

text \<open>C21: \<open>merge_bases\<close> always returns, with the best common ancestors of the two commits in descending seq order: the
  commits both reach that no other such commit reaches. When the budget of visited commits ran out it says so,
  which happens only when the two histories together are larger than the budget, and what it names is still common.\<close>

theorem merge_bases_correct:
  assumes "history g node pack name"
  shows "\<exists>r. merge_bases g a b budget = Some r \<and>
    (case r of Inr res \<Rightarrow> \<exists>seqs. map name seqs = map Some (bs_bases res) \<and> sorted_wrt (>) seqs \<and>
        set seqs \<subseteq> (parent_edges node)\<^sup>* `` named_as name a \<inter> (parent_edges node)\<^sup>* `` named_as name b \<and>
        (if bs_exhausted res
         then unat budget < card ((parent_edges node)\<^sup>* `` named_as name a) + card ((parent_edges node)\<^sup>* `` named_as name b)
         else set seqs = best_of node ((parent_edges node)\<^sup>* `` named_as name a \<inter> (parent_edges node)\<^sup>* `` named_as name b))
     | Inl e \<Rightarrow> walk_failure g node pack name (named_as name a \<union> named_as name b) e)"
  by (rule history.merge_bases_total [OF assms])

theorem merge_bases_correct_witness:
  "\<exists>r. merge_bases example_repo [5] [7] 100 = Some r"
  using merge_bases_correct [OF example_history.history_axioms, of "[5]" "[7]" 100] by blast

text \<open>C22: \<open>first_parent_page\<close> always returns, with the names of the first \<open>limit\<close> commits of the tip's first-parent chain,
  however many bands the chain crosses.\<close>

theorem first_parent_page_correct:
  assumes "history g node pack name"
  shows "\<exists>r. first_parent_page g tip limit = Some r \<and>
    (case r of Inr oids \<Rightarrow> \<exists>page. map name page = map Some oids \<and>
        ((\<exists>x \<in> named_as name tip. page = first_parents node (unat limit) x) \<or>
         page = [] \<and> (limit = 0 \<or> named_as name tip = {}))
     | Inl e \<Rightarrow> walk_failure g node pack name (named_as name tip) e)"
  by (rule history.first_parent_page_total [OF assms])

theorem first_parent_page_correct_witness:
  "\<exists>r. first_parent_page example_repo [7] 10 = Some r"
  using first_parent_page_correct [OF example_history.history_axioms, of "[7]" 10] by blast

text \<open>C23: \<open>ancestors_among\<close> names only candidates the seed reaches, and every candidate it reaches within \<open>max_commits\<close> seqs.\<close>

theorem ancestors_among_correct:
  assumes "history g node pack name" "ancestors_among g seed candidates max_commits = Inr found"
  shows "(oid \<in> found \<longrightarrow> oid \<in> set candidates \<and>
      (\<exists>x \<in> named_as name seed. \<exists>y \<in> named_as name oid. (x, y) \<in> (parent_edges node)\<^sup>*)) \<and>
    (oid \<in> set candidates \<longrightarrow> name x = Some seed \<longrightarrow> name y = Some oid \<longrightarrow> (x, y) \<in> (parent_edges node)\<^sup>* \<longrightarrow>
      x - y \<le> uint max_commits \<longrightarrow> oid \<in> found)"
  by (rule history.ancestors_among_ok [OF assms])

theorem ancestors_among_correct_witness:
  "ancestors_among held_repo [7] [[5]] 4 = Inr {[5]} \<and>
    (\<exists>x \<in> named_as example_name [7]. \<exists>y \<in> named_as example_name [5]. (x, y) \<in> (parent_edges (st_get example_slots))\<^sup>*)"
  using ancestors_among_correct [OF held_history.history_axioms held_among, of "[5]"] held_among by blast

text \<open>C24: Every band schedule of positive widths ends: over any history, \<open>banded_merge_bases\<close> returns for
  \<open>BandPolicy::new\<close> of any width from one up, whatever the two tips and the budget.\<close>

theorem banded_merge_bases_terminates:
  assumes "history g node pack name" "1 \<le> width" "a \<in> i64s" "b \<in> i64s"
  shows "banded_merge_bases g a b (policy_new width) budget \<noteq> None"
  using history.banded_merge_bases_total [OF assms(1,3,4)] policy_new_ok [OF assms(2)] by fastforce

theorem banded_merge_bases_terminates_witness:
  "banded_merge_bases example_repo 5 7 (policy_new 1) 100 \<noteq> None"
  by (rule banded_merge_bases_terminates [OF example_history.history_axioms]) (simp_all add: i64s_def i64_min_def i64_max_def)

end
