(* ===== verification/Paint_Walk.thy ===== *)
theory Paint_Walk
  imports Commit_Walk
begin

text \<open>
  The walk of a fetch, \<open>git/graph-store/src/walk.rs\<close>: the commits reachable from the wants and not from
  the haves, painted band by band, with the objects their packs hold. A frontier is a \<open>BTreeMap\<close>, an
  association list in key order; a roaring bitmap is the set it represents.

  The proof follows a frontier by the seqs each colour has marked. \<open>band_paint_finalized\<close> shows that one band
  finalizes exactly the commits of its range that only the wants reach; the loop lemma adds the bands up
  and shows that the walk ends.
\<close>

section \<open>What a walk gathers\<close>

record walk_seeds =
  ws_wants :: "int list"
  ws_haves :: "int list"
  ws_shallow :: "int list"

record needed_commit =
  nc_oid :: oid
  nc_segment :: segment_location
  nc_pack_object_count :: u32
  nc_pack_tree_count :: u32
  nc_blob_offset :: u64

record needed =
  nd_commits :: "needed_commit list"
  nd_trees :: "u64 set"
  nd_blobs :: "u64 set"

definition no_needed :: needed where
  "no_needed = \<lparr>nd_commits = [], nd_trees = {}, nd_blobs = {}\<rparr>"

definition needed_contains :: "needed \<Rightarrow> object_seq \<Rightarrow> bool" where
  "needed_contains n seq = (case seq of TreeSeq s \<Rightarrow> s \<in> nd_trees n | BlobSeq s \<Rightarrow> s \<in> nd_blobs n | TagSeq _ \<Rightarrow> False)"

definition object_count :: "needed \<Rightarrow> bool \<Rightarrow> bool \<Rightarrow> u64" where
  "object_count n keep_trees keep_blobs =
     (let commits = (if length (nd_commits n) < 2 ^ 64 then of_nat (length (nd_commits n)) else - 1);
          trees = (if keep_trees then of_nat (card (nd_trees n)) else 0);
          blobs = (if keep_blobs then of_nat (card (nd_blobs n)) else 0) in
      sat_add (sat_add commits trees) blobs)"

definition u32_or_max :: "u64 \<Rightarrow> u32" where
  "u32_or_max n = (if unat n < 2 ^ 32 then ucast n else - 1)"

definition needed_row :: "oid \<Rightarrow> pack_node \<Rightarrow> u64 set \<Rightarrow> u64 set \<Rightarrow> needed_commit" where
  "needed_row oid pack trees blobs =
     \<lparr>nc_oid = oid, nc_segment = pe_segment pack,
      nc_pack_object_count = u32_or_max (1 + of_nat (card trees) + of_nat (card blobs)),
      nc_pack_tree_count = u32_or_max (1 + of_nat (card trees)), nc_blob_offset = pn_blob_offset pack\<rparr>"

definition walk_bitmap :: "(malformed, 'a) result \<Rightarrow> (walk_error, 'a) result" where
  "walk_bitmap r = (case r of Inl e \<Rightarrow> Inl (WBitmap e) | Inr a \<Rightarrow> Inr a)"

lemma walk_bitmap_Inr [simp]: "walk_bitmap r = Inr a \<longleftrightarrow> r = Inr a"
  by (cases r) (simp_all add: walk_bitmap_def)

definition needed_push :: "(bytes \<Rightarrow> u64 set option) \<Rightarrow> needed \<Rightarrow> oid \<Rightarrow> pack_node \<Rightarrow> (walk_error, needed) result" where
  "needed_push de n oid pack =
     rbind (walk_bitmap (pe_trees de pack)) (\<lambda>trees.
     rbind (walk_bitmap (pe_blobs de pack)) (\<lambda>blobs.
     Inr \<lparr>nd_commits = nd_commits n @ [needed_row oid pack trees blobs], nd_trees = nd_trees n \<union> trees,
          nd_blobs = nd_blobs n \<union> blobs\<rparr>))"

text \<open>The pack facts and the names of some seqs, read together; the model reads the facts first.\<close>

definition walk_pack_facts :: "repo_graph \<Rightarrow> int list \<Rightarrow> (walk_error, pack_facts \<times> (int \<rightharpoonup> oid)) result" where
  "walk_pack_facts g seqs =
     (if seqs = [] then Inr ([], Map.empty)
      else rbind (walk_read (rg_packs_at g seqs)) (\<lambda>packs.
        rbind (walk_read (rg_oids_of g seqs)) (\<lambda>oids. Inr (packs, oids))))"

section \<open>The paint walk\<close>

fun push_finalized ::
    "(bytes \<Rightarrow> u64 set option) \<Rightarrow> pack_facts \<Rightarrow> (int \<rightharpoonup> oid) \<Rightarrow> int list \<Rightarrow> needed \<Rightarrow> (walk_error, needed) result" where
  "push_finalized de packs oids [] n = Inr n"
| "push_finalized de packs oids (seq # seqs) n =
     rbind (ok_or (facts_get packs seq) (WUnpacked seq)) (\<lambda>pack.
     rbind (ok_or (oids seq) (WUnnamed seq)) (\<lambda>oid.
     rbind (needed_push de n oid pack) (push_finalized de packs oids seqs)))"

definition walk_paint_band ::
    "repo_graph \<Rightarrow> int \<Rightarrow> int list \<Rightarrow> int list \<Rightarrow> (int \<times> u8) list \<Rightarrow> needed \<Rightarrow> (walk_error, (int \<times> u8) list \<times> needed) result" where
  "walk_paint_band g band_width want_block have_block frontier needed =
     (if frontier = [] then Inr (frontier, needed)
      else let ceil = fst (last frontier);
               floor = sat_i64 (ceil - (band_width - 1));
               seeds = filter (\<lambda>(seq, _). floor \<le> seq) frontier;
               kept = filter (\<lambda>(seq, _). seq < floor) frontier;
               seed_seqs = map fst seeds;
               seed_flags = map (\<lambda>(_, flags). if flags AND FLAG_HAVE = 0 then FLAG_WANT else FLAG_HAVE) seeds in
        rbind (walk_read (rg_index g floor (ceiling seed_seqs floor))) (\<lambda>index.
        rbind (walk_cover (expand_paint index seed_seqs seed_flags floor want_block have_block)) (\<lambda>band.
        rbind (walk_pack_facts g (pb_finalized band)) (\<lambda>(packs, oids).
        rbind (push_finalized (rg_bitmap g) packs oids (pb_finalized band) needed) (\<lambda>needed.
        Inr (foldl (\<lambda>m (seq, flags). flag_entry seq flags m) kept (pb_below band), needed))))))"

partial_function (option) paint_walk_loop ::
    "repo_graph \<Rightarrow> int list \<Rightarrow> int list \<Rightarrow> band_policy \<Rightarrow> (int \<times> u8) list \<Rightarrow> needed \<Rightarrow> (walk_error, needed) result option" where
  "paint_walk_loop g want_block have_block policy frontier needed =
     (if list_ex (\<lambda>(_, flags). flags = FLAG_WANT) frontier
      then case walk_paint_band g (bp_current policy) want_block have_block frontier needed of
          Inl e \<Rightarrow> Some (Inl e)
        | Inr (frontier, needed) \<Rightarrow> paint_walk_loop g want_block have_block (policy_grow policy) frontier needed
      else Some (Inr needed))"

definition banded_paint_walk ::
    "repo_graph \<Rightarrow> int list \<Rightarrow> int list \<Rightarrow> int list \<Rightarrow> int list \<Rightarrow> band_policy \<Rightarrow> (walk_error, needed) result option" where
  "banded_paint_walk g want_seqs have_seqs want_block have_block policy =
     (let frontier = foldl (\<lambda>m seq. flag_entry seq FLAG_WANT m) [] want_seqs;
          frontier = foldl (\<lambda>m seq. flag_entry seq FLAG_HAVE m) frontier have_seqs in
      paint_walk_loop g want_block have_block policy frontier no_needed)"

definition needed_commits :: "repo_graph \<Rightarrow> walk_seeds \<Rightarrow> band_policy \<Rightarrow> (walk_error, needed) result option" where
  "needed_commits g seeds policy =
     (if ws_wants seeds = [] then Some (Inr no_needed)
      else banded_paint_walk g (ws_wants seeds) (ws_haves seeds) (ws_shallow seeds) (ws_shallow seeds) policy)"

section \<open>What gathering gives\<close>

text \<open>The rows of some seqs and the unions of their bitmaps, as one walk records them.\<close>

definition row_of ::
    "(bytes \<Rightarrow> u64 set option) \<Rightarrow> (int \<Rightarrow> pack_node option) \<Rightarrow> (int \<rightharpoonup> oid) \<Rightarrow> int \<Rightarrow> oid \<times> pack_node \<times> u64 set \<times> u64 set \<Rightarrow> bool" where
  "row_of de pack name seq = (\<lambda>(oid, n, trees, blobs).
     name seq = Some oid \<and> pack seq = Some n \<and> pe_trees de n = Inr trees \<and> pe_blobs de n = Inr blobs)"

definition gathered ::
    "(bytes \<Rightarrow> u64 set option) \<Rightarrow> (int \<Rightarrow> pack_node option) \<Rightarrow> (int \<rightharpoonup> oid) \<Rightarrow> int list \<Rightarrow> needed \<Rightarrow> bool" where
  "gathered de pack name seqs n \<longleftrightarrow> (\<exists>rows. list_all2 (row_of de pack name) seqs rows \<and>
     n = \<lparr>nd_commits = map (\<lambda>(oid, p, trees, blobs). needed_row oid p trees blobs) rows,
          nd_trees = (\<Union>(_, _, trees, _) \<in> set rows. trees), nd_blobs = (\<Union>(_, _, _, blobs) \<in> set rows. blobs)\<rparr>)"

lemma gathered_Nil: "gathered de pack name [] no_needed"
  by (simp add: gathered_def no_needed_def)

lemma rbind_eq_Inl_iff: "rbind r f = Inl e \<longleftrightarrow> r = Inl e \<or> (\<exists>a. r = Inr a \<and> f a = Inl e)"
  by (cases r) auto

lemma ok_or_eq_Inl_iff: "ok_or x e = Inl e' \<longleftrightarrow> x = None \<and> e' = e"
  by (cases x) auto

lemma gathered_push:
  assumes "gathered de pack name seqs n" "name seq = Some oid" "pack seq = Some p" "needed_push de n oid p = Inr n'"
  shows "gathered de pack name (seqs @ [seq]) n'"
proof -
  obtain rows where rows: "list_all2 (row_of de pack name) seqs rows"
    "n = \<lparr>nd_commits = map (\<lambda>(oid, p, trees, blobs). needed_row oid p trees blobs) rows,
          nd_trees = (\<Union>(_, _, trees, _) \<in> set rows. trees), nd_blobs = (\<Union>(_, _, _, blobs) \<in> set rows. blobs)\<rparr>"
    using assms(1) unfolding gathered_def by blast
  obtain trees blobs where tb: "pe_trees de p = Inr trees" "pe_blobs de p = Inr blobs"
    and n': "n' = \<lparr>nd_commits = nd_commits n @ [needed_row oid p trees blobs], nd_trees = nd_trees n \<union> trees, nd_blobs = nd_blobs n \<union> blobs\<rparr>"
    using assms(4) by (auto simp: needed_push_def rbind_eq_Inr_iff)
  have "list_all2 (row_of de pack name) (seqs @ [seq]) (rows @ [(oid, p, trees, blobs)])"
    using rows(1) assms(2,3) tb by (simp add: list_all2_appendI row_of_def)
  moreover have "n' = \<lparr>nd_commits = map (\<lambda>(oid, p, trees, blobs). needed_row oid p trees blobs) (rows @ [(oid, p, trees, blobs)]),
      nd_trees = (\<Union>(_, _, trees, _) \<in> set (rows @ [(oid, p, trees, blobs)]). trees),
      nd_blobs = (\<Union>(_, _, _, blobs) \<in> set (rows @ [(oid, p, trees, blobs)]). blobs)\<rparr>"
    unfolding n' rows(2) by (simp add: Un_commute)
  ultimately show ?thesis unfolding gathered_def by blast
qed

lemma needed_push_error:
  "needed_push de n oid p = Inl e \<Longrightarrow> \<exists>m. e = WBitmap m \<and> (pe_trees de p = Inl m \<or> pe_blobs de p = Inl m)"
  by (auto simp: needed_push_def rbind_eq_Inl_iff walk_bitmap_def split: sum.splits)

lemma push_finalized_ok:
  assumes "push_finalized de packs oids seqs n = Inr n'" "gathered de pack name before n"
    and "\<And>s. s \<in> set seqs \<Longrightarrow> facts_get packs s = pack s" "\<And>s. s \<in> set seqs \<Longrightarrow> oids s = name s"
  shows "gathered de pack name (before @ seqs) n'"
  using assms
proof (induction seqs arbitrary: n before)
  case (Cons seq seqs)
  obtain p oid m where p: "pack seq = Some p" and oid: "name seq = Some oid" and m: "needed_push de n oid p = Inr m"
    and rest: "push_finalized de packs oids seqs m = Inr n'"
    using Cons.prems by (auto simp: rbind_eq_Inr_iff ok_or_eq_Inr_iff)
  show ?case using Cons.IH [OF rest gathered_push [OF Cons.prems(2) oid p m]] Cons.prems(3,4) by simp
qed simp

lemma push_finalized_error:
  assumes "push_finalized de packs oids seqs n = Inl e"
    and "\<And>s. s \<in> set seqs \<Longrightarrow> facts_get packs s = pack s" "\<And>s. s \<in> set seqs \<Longrightarrow> oids s = name s"
  shows "\<exists>s \<in> set seqs. e = WUnpacked s \<and> pack s = None \<or> e = WUnnamed s \<and> name s = None \<or>
    (\<exists>p m. pack s = Some p \<and> e = WBitmap m \<and> (pe_trees de p = Inl m \<or> pe_blobs de p = Inl m))"
  using assms
proof (induction seqs arbitrary: n)
  case (Cons seq seqs)
  have head: "facts_get packs seq = pack seq" "oids seq = name seq" using Cons.prems(2,3) by simp_all
  consider (unpacked) "pack seq = None" "e = WUnpacked seq" | (unnamed) "name seq = None" "e = WUnnamed seq"
    | (push) p oid where "pack seq = Some p" "needed_push de n oid p = Inl e"
    | (rest) m where "push_finalized de packs oids seqs m = Inl e"
    using Cons.prems(1) head by (auto simp: rbind_eq_Inl_iff ok_or_eq_Inl_iff ok_or_eq_Inr_iff)
  then show ?case
  proof cases
    case push
    then show ?thesis using needed_push_error [OF push(2)] by auto
  next
    case rest
    then show ?thesis using Cons.IH [OF rest] Cons.prems(2,3) by auto
  qed simp_all
qed simp

section \<open>Merging a band into the frontier\<close>

lemma flag_merge:
  assumes "sorted_wrt (<) (map fst below)"
  shows "flag_of (foldl (\<lambda>m (seq, flags). flag_entry seq flags m) kept below) s = flag_of kept s OR flag_of below s"
proof -
  have "distinct (map fst below)" using assms by (simp add: strict_sorted_iff)
  then show ?thesis
  proof (induction below arbitrary: kept)
    case (Cons x below)
    obtain seq flags where x: "x = (seq, flags)" by force
    have "map_of below seq = None" using Cons.prems by (simp add: x map_of_eq_None_iff)
    then have "flag_of below seq = 0" by (simp add: flag_of_def)
    then show ?case using Cons.IH [of "flag_entry seq flags kept"] Cons.prems
      by (auto simp: x flag_of_flag_entry) (auto simp: flag_of_def)
  qed (simp add: flag_of_def)
qed

lemma flag_merge_dom:
  "fst ` set (foldl (\<lambda>m (seq, flags). flag_entry seq flags m) kept below) = fst ` set kept \<union> fst ` set below"
proof (induction below arbitrary: kept)
  case (Cons x below)
  obtain seq flags where x: "x = (seq, flags)" by force
  show ?case unfolding x foldl_Cons prod.case Cons.IH flag_entry_dom by simp
qed simp

lemma flag_merge_sorted:
  "sorted_wrt (<) (map fst kept) \<Longrightarrow> sorted_wrt (<) (map fst (foldl (\<lambda>m (seq, flags). flag_entry seq flags m) kept below))"
  by (induction below arbitrary: kept) auto

text \<open>A frontier by the seqs each colour has marked.\<close>

definition marks :: "(int \<times> u8) list \<Rightarrow> int set \<Rightarrow> int set \<Rightarrow> bool" where
  "marks m A B \<longleftrightarrow> sorted_wrt (<) (map fst m) \<and> fst ` set m = A \<union> B \<and> (\<forall>s. flag_of m s = mark (s \<in> A) (s \<in> B))"

lemma marks_Nil: "marks [] {} {}"
  by (simp add: marks_def flag_of_def mark_def)

lemma marks_finite: "marks m A B \<Longrightarrow> finite (A \<union> B)"
  unfolding marks_def by (metis finite_imageI finite_set)

lemma marks_entry:
  assumes "marks m A B"
  shows "marks (flag_entry seq FLAG_WANT m) (insert seq A) B" "marks (flag_entry seq FLAG_HAVE m) A (insert seq B)"
  using assms by (auto simp: marks_def flag_of_flag_entry flag_entry_dom mark_def or.assoc or.commute or.left_commute)

lemma marks_seeds:
  assumes "marks m A B"
  shows "marks (foldl (\<lambda>m seq. flag_entry seq FLAG_WANT m) m wants) (A \<union> set wants) B"
    and "marks (foldl (\<lambda>m seq. flag_entry seq FLAG_HAVE m) m haves) A (B \<union> set haves)"
proof -
  show "marks (foldl (\<lambda>m seq. flag_entry seq FLAG_WANT m) m wants) (A \<union> set wants) B" using assms
  proof (induction wants arbitrary: m A)
    case (Cons w ws)
    then show ?case using Cons.IH [OF marks_entry(1) [OF Cons.prems, of w]] by simp
  qed simp
  show "marks (foldl (\<lambda>m seq. flag_entry seq FLAG_HAVE m) m haves) A (B \<union> set haves)" using assms
  proof (induction haves arbitrary: m B)
    case (Cons w ws)
    then show ?case using Cons.IH [OF marks_entry(2) [OF Cons.prems, of w]] by simp
  qed simp
qed

lemma marks_entries:
  assumes "marks m A B"
  shows "(s, f) \<in> set m \<longleftrightarrow> s \<in> A \<union> B \<and> f = mark (s \<in> A) (s \<in> B)"
proof -
  have d: "distinct (map fst m)" using assms by (simp add: marks_def strict_sorted_iff)
  have "(s, f) \<in> set m \<longleftrightarrow> map_of m s = Some f" using map_of_eq_Some_iff [OF d] by simp
  moreover have "map_of m s = None \<longleftrightarrow> s \<notin> A \<union> B" using assms by (auto simp: marks_def map_of_eq_None_iff)
  moreover have "map_of m s = Some h \<Longrightarrow> h = mark (s \<in> A) (s \<in> B)" for h
    using assms unfolding marks_def flag_of_def by (metis option.simps(5))
  ultimately show ?thesis by (cases "map_of m s") auto
qed

lemma mark_simps [simp]: "mark w h AND FLAG_HAVE = 0 \<longleftrightarrow> \<not> h" "mark w h = FLAG_WANT \<longleftrightarrow> w \<and> \<not> h"
  by (cases w; cases h; simp add: mark_def)+

lemma marks_want_only:
  assumes "marks m A B"
  shows "list_ex (\<lambda>(_, flags). flags = FLAG_WANT) m \<longleftrightarrow> A - B \<noteq> {}"
proof -
  have "list_ex (\<lambda>(_, flags). flags = FLAG_WANT) m \<longleftrightarrow> (\<exists>s. (s, FLAG_WANT) \<in> set m)" by (auto simp: list_ex_iff)
  also have "\<dots> \<longleftrightarrow> A - B \<noteq> {}" using mark_simps(2) unfolding marks_entries [OF assms] by (metis Diff_iff UnI1 ex_in_conv)
  finally show ?thesis .
qed

text \<open>The split at a floor.\<close>

lemma marks_split:
  assumes "marks m A B" "seeds = filter (\<lambda>(seq, _). floor \<le> seq) m"
    "flags = map (\<lambda>(_, flags). if flags AND FLAG_HAVE = 0 then FLAG_WANT else FLAG_HAVE) seeds"
  shows "marks (filter (\<lambda>(seq, _). seq < floor) m) {s \<in> A. s < floor} {s \<in> B. s < floor}"
    and "seeds_flagged (map fst seeds) flags FLAG_WANT = {s \<in> A - B. floor \<le> s}"
    and "seeds_flagged (map fst seeds) flags FLAG_HAVE = {s \<in> B. floor \<le> s}"
    and "set flags \<subseteq> {FLAG_WANT, FLAG_HAVE}" "set (map fst seeds) = {s \<in> A \<union> B. floor \<le> s}"
proof -
  note ent = marks_entries [OF assms(1)]
  have zip: "zip (map fst seeds) flags = map (\<lambda>(s, f). (s, if f AND FLAG_HAVE = 0 then FLAG_WANT else FLAG_HAVE)) seeds"
    unfolding assms(3) by (induction seeds) auto
  have flagged: "s \<in> seeds_flagged (map fst seeds) flags c \<longleftrightarrow> s \<in> A \<union> B \<and> floor \<le> s \<and> c = (if s \<in> B then FLAG_HAVE else FLAG_WANT)" for s c
    unfolding seeds_flagged_def zip using ent by (fastforce simp: assms(2) image_iff split: if_splits)
  show "seeds_flagged (map fst seeds) flags FLAG_WANT = {s \<in> A - B. floor \<le> s}"
    "seeds_flagged (map fst seeds) flags FLAG_HAVE = {s \<in> B. floor \<le> s}"
    using flagged by (auto split: if_splits)
  show "set flags \<subseteq> {FLAG_WANT, FLAG_HAVE}" by (auto simp: assms(3))
  show "set (map fst seeds) = {s \<in> A \<union> B. floor \<le> s}" using ent by (force simp: assms(2) image_iff)
  have d: "distinct (map fst m)" using assms(1) by (simp add: marks_def strict_sorted_iff)
  have "flag_of (filter (\<lambda>(seq, _). seq < floor) m) s = (if s < floor then flag_of m s else 0)" for s
    unfolding flag_of_def by (induction m) auto
  moreover have "fst ` set (filter (\<lambda>(seq, _). seq < floor) m) = {s \<in> A. s < floor} \<union> {s \<in> B. s < floor}"
    using ent by (force simp: image_iff)
  ultimately show "marks (filter (\<lambda>(seq, _). seq < floor) m) {s \<in> A. s < floor} {s \<in> B. s < floor}"
    using assms(1) by (auto simp: marks_def mark_def sorted_wrt_map sorted_wrt_filter)
qed

lemma marks_merge:
  assumes "marks kept A B" "sorted_wrt (<) (map fst below)" "fst ` set below = X \<union> Y" "\<And>s. flag_of below s = mark (s \<in> X) (s \<in> Y)"
  shows "marks (foldl (\<lambda>m (seq, flags). flag_entry seq flags m) kept below) (A \<union> X) (B \<union> Y)"
proof -
  have "mark a b OR mark x y = mark (a \<or> x) (b \<or> y)" for a b x y
    by (cases a; cases b; cases x; cases y) (simp_all add: mark_def FLAG_WANT_def FLAG_HAVE_def)
  then show ?thesis using assms(1,4) flag_merge [OF assms(2)] flag_merge_sorted [of kept below] flag_merge_dom [of kept below] assms(3)
    by (auto simp: marks_def)
qed

section \<open>The paint walk over a history\<close>

text \<open>Parent edges that do not leave a blocked commit, which the walk takes as parentless, and what they reach.\<close>

definition unblocked :: "(int \<Rightarrow> node option) \<Rightarrow> int set \<Rightarrow> (int \<times> int) set" where
  "unblocked node blocked = {(s, p) \<in> parent_edges node. s \<notin> blocked}"

definition painted :: "(int \<Rightarrow> node option) \<Rightarrow> int set \<Rightarrow> int set \<Rightarrow> int set" where
  "painted node blocked seeds = (unblocked node blocked)\<^sup>* `` seeds"

lemma unblocked_sub: "unblocked node X \<subseteq> parent_edges node"
  by (auto simp: unblocked_def)

lemma unblocked_mono: "Y \<subseteq> X \<Longrightarrow> unblocked node X \<subseteq> unblocked node Y"
  by (auto simp: unblocked_def)

lemma painted_reach: "painted node X S \<subseteq> (parent_edges node)\<^sup>* `` S"
  unfolding painted_def using rtrancl_mono [OF unblocked_sub] by blast

text \<open>A path of the want paint to a commit outside the have paint keeps clear of the have paint.\<close>

lemma clear_path:
  assumes "(a, s) \<in> E\<^sup>*" "s \<notin> H" "E `` H \<subseteq> H" "S \<subseteq> H"
  shows "(a, s) \<in> {(x, y) \<in> E. y \<notin> S}\<^sup>*" "a \<notin> H"
proof -
  have "(a, s) \<in> {(x, y) \<in> E. y \<notin> S}\<^sup>* \<and> a \<notin> H" using assms(1,2)
  proof (induction rule: rtrancl_induct)
    case (step b c)
    then have "b \<notin> H" using assms(3) by blast
    then have "(a, b) \<in> {(x, y) \<in> E. y \<notin> S}\<^sup>*" "a \<notin> H" using step.IH by simp_all
    moreover have "(b, c) \<in> {(x, y) \<in> E. y \<notin> S}" using step assms(4) by blast
    ultimately show ?case by (meson rtrancl.rtrancl_into_rtrancl)
  qed simp
  then show "(a, s) \<in> {(x, y) \<in> E. y \<notin> S}\<^sup>*" "a \<notin> H" by simp_all
qed

lemma down_below: "b < floor \<Longrightarrow> (b, a) \<in> (down E floor)\<^sup>* \<Longrightarrow> a = b"
  by (erule converse_rtranclE) (auto simp: down_def)

lemma down_image_split: "(down E floor)\<^sup>* `` X = {s \<in> X. s < floor} \<union> (down E floor)\<^sup>* `` {s \<in> X. floor \<le> s}"
proof (intro equalityI subsetI)
  fix a assume "a \<in> (down E floor)\<^sup>* `` X"
  then obtain x where "x \<in> X" "(x, a) \<in> (down E floor)\<^sup>*" by blast
  then show "a \<in> {s \<in> X. s < floor} \<union> (down E floor)\<^sup>* `` {s \<in> X. floor \<le> s}"
    using down_below [of x floor a E] by (cases "x < floor") auto
qed auto

text \<open>One band of paint, on the marks alone: \<open>A\<close> and \<open>B\<close> are the frontier's marks, \<open>W\<close> and \<open>H\<close> what each colour reaches.\<close>

definition paint_inv :: "(int \<times> int) set \<Rightarrow> (int \<times> int) set \<Rightarrow> int set \<Rightarrow> int set \<Rightarrow> int \<Rightarrow> int set \<Rightarrow> int set \<Rightarrow> bool" where
  "paint_inv Ew Eh W H P A B \<longleftrightarrow> A \<union> B \<subseteq> {..<P} \<and> {s \<in> H. s < P} = Eh\<^sup>* `` B \<and> A \<subseteq> W \<and> {s \<in> W - H. s < P} \<subseteq> Ew\<^sup>* `` (A - B)"

definition band_paint ::
    "(int \<times> int) set \<Rightarrow> (int \<times> int) set \<Rightarrow> int set \<Rightarrow> int set \<Rightarrow> int \<Rightarrow> int set \<Rightarrow> int set \<Rightarrow> int \<Rightarrow> int set \<Rightarrow> int set \<Rightarrow> bool" where
  "band_paint Ew Eh W H P A B floor W' H' \<longleftrightarrow> paint_inv Ew Eh W H P A B \<and> descending Eh \<and> Ew \<subseteq> Eh \<and> Eh `` H \<subseteq> H \<and> Ew `` W \<subseteq> W \<and>
     floor < P \<and> W' = {(s, p) \<in> down Ew floor. p \<notin> {s \<in> B. floor \<le> s}}\<^sup>* `` {s \<in> A - B. floor \<le> s} \<and>
     H' = (down Eh floor)\<^sup>* `` {s \<in> B. floor \<le> s}"

lemma band_paintD:
  assumes "band_paint Ew Eh W H P A B floor W' H'"
  shows "A \<union> B \<subseteq> {..<P}" "{s \<in> H. s < P} = Eh\<^sup>* `` B" "A \<subseteq> W" "{s \<in> W - H. s < P} \<subseteq> Ew\<^sup>* `` (A - B)"
    and "descending Eh" "descending Ew" "Ew \<subseteq> Eh" "Eh `` H \<subseteq> H" "Ew `` W \<subseteq> W" "Ew `` H \<subseteq> H" "floor < P" "B \<subseteq> H"
    and "W' = {(s, p) \<in> down Ew floor. p \<notin> {s \<in> B. floor \<le> s}}\<^sup>* `` {s \<in> A - B. floor \<le> s}"
    and "H' = (down Eh floor)\<^sup>* `` {s \<in> B. floor \<le> s}"
proof -
  show d: "descending Eh" and sub: "Ew \<subseteq> Eh" and cl: "Eh `` H \<subseteq> H" and H: "{s \<in> H. s < P} = Eh\<^sup>* `` B"
    using assms by (simp_all add: band_paint_def paint_inv_def)
  show "descending Ew" by (rule descending_mono [OF d sub])
  show "Ew `` H \<subseteq> H" using cl sub by blast
  show "B \<subseteq> H" using H by blast
qed (use assms in \<open>simp_all add: band_paint_def paint_inv_def\<close>)

lemma band_paint_within:
  assumes "band_paint Ew Eh W H P A B floor W' H'"
  shows "W' \<subseteq> W" "H' \<subseteq> H"
proof -
  note bp = band_paintD [OF assms]
  have "down Eh floor `` H \<subseteq> H" using bp(8) down_subset by blast
  then have "(down Eh floor)\<^sup>* `` H = H" by (rule closed_rtrancl)
  then show "H' \<subseteq> H" unfolding bp(14) using bp(12) by blast
  have "{(s, p) \<in> down Ew floor. p \<notin> {s \<in> B. floor \<le> s}} `` W \<subseteq> W" using bp(9) down_subset by blast
  then have "{(s, p) \<in> down Ew floor. p \<notin> {s \<in> B. floor \<le> s}}\<^sup>* `` W = W" by (rule closed_rtrancl)
  then show "W' \<subseteq> W" unfolding bp(13) using bp(3) by blast
qed

lemma band_paint_clear:
  assumes "band_paint Ew Eh W H P A B floor W' H'" "(a, s) \<in> (down Ew floor)\<^sup>*" "s \<notin> H" "a \<in> A - B" "floor \<le> a"
  shows "s \<in> W'"
proof -
  note bp = band_paintD [OF assms(1)]
  have "down Ew floor `` H \<subseteq> H" using bp(10) down_subset by blast
  from clear_path(1) [OF assms(2,3) this, of "{s \<in> B. floor \<le> s}"] bp(12)
  have "(a, s) \<in> {(s, p) \<in> down Ew floor. p \<notin> {s \<in> B. floor \<le> s}}\<^sup>*" by auto
  then show ?thesis unfolding bp(13) using assms(4,5) by blast
qed

lemma band_paint_finalized:
  assumes "band_paint Ew Eh W H P A B floor W' H'"
  shows "{s \<in> W' - H'. floor \<le> s} = {s \<in> W - H. floor \<le> s \<and> s < P}"
proof (intro equalityI subsetI)
  note bp = band_paintD [OF assms] and within = band_paint_within [OF assms]
  fix s assume "s \<in> {s \<in> W' - H'. floor \<le> s}"
  then have s: "s \<in> W'" "s \<notin> H'" "floor \<le> s" by simp_all
  then obtain a where a: "a \<in> A - B" "(a, s) \<in> {(s, p) \<in> down Ew floor. p \<notin> {s \<in> B. floor \<le> s}}\<^sup>*" unfolding bp(13) by blast
  then have "(a, s) \<in> Ew\<^sup>*" using rtrancl_mono [of "{(s, p) \<in> down Ew floor. p \<notin> {s \<in> B. floor \<le> s}}" Ew] down_subset by blast
  then have "s < P" using reach_le [OF bp(6)] a bp(1) by fastforce
  have "s \<notin> H"
  proof
    assume "s \<in> H"
    then obtain b where b: "b \<in> B" "(b, s) \<in> Eh\<^sup>*" using bp(2) \<open>s < P\<close> by blast
    then have "floor \<le> b" using reach_le [OF bp(5) b(2)] s(3) by simp
    then have "s \<in> H'" unfolding bp(14) using path_within [OF bp(5) b(2) s(3)] b(1) by blast
    then show False using s by simp
  qed
  then show "s \<in> {s \<in> W - H. floor \<le> s \<and> s < P}" using s within(1) \<open>s < P\<close> by blast
next
  note bp = band_paintD [OF assms] and within = band_paint_within [OF assms]
  fix s assume "s \<in> {s \<in> W - H. floor \<le> s \<and> s < P}"
  then have s: "s \<in> W" "s \<notin> H" "floor \<le> s" "s < P" by simp_all
  then obtain a where a: "a \<in> A - B" "(a, s) \<in> Ew\<^sup>*" using bp(4) by blast
  then have "floor \<le> a" using reach_le [OF bp(6) a(2)] s(3) by simp
  then have "s \<in> W'" by (rule band_paint_clear [OF assms path_within [OF bp(6) a(2) s(3)] s(2) a(1)])
  then show "s \<in> {s \<in> W' - H'. floor \<le> s}" using s within(2) by blast
qed

lemma band_paint_next:
  assumes "band_paint Ew Eh W H P A B floor W' H'"
  shows "paint_inv Ew Eh W H floor ({s \<in> A. s < floor} \<union> {s \<in> W'. s < floor}) ({s \<in> B. s < floor} \<union> {s \<in> H'. s < floor})"
  unfolding paint_inv_def
proof (intro conjI)
  note bp = band_paintD [OF assms] and within = band_paint_within [OF assms]
  show "{s \<in> A. s < floor} \<union> {s \<in> W'. s < floor} \<union> ({s \<in> B. s < floor} \<union> {s \<in> H'. s < floor}) \<subseteq> {..<floor}" by auto
  have "{s \<in> H. s < floor} = {a \<in> Eh\<^sup>* `` B. a < floor}" using bp(2,11) by auto
  also have "\<dots> = Eh\<^sup>* `` {b \<in> (down Eh floor)\<^sup>* `` B. b < floor}" by (rule below_floor [OF bp(5)])
  also have "{b \<in> (down Eh floor)\<^sup>* `` B. b < floor} = {s \<in> B. s < floor} \<union> {s \<in> H'. s < floor}"
    unfolding bp(14) by (subst down_image_split) auto
  finally show "{s \<in> H. s < floor} = Eh\<^sup>* `` ({s \<in> B. s < floor} \<union> {s \<in> H'. s < floor})" .
  show "{s \<in> A. s < floor} \<union> {s \<in> W'. s < floor} \<subseteq> W" using bp(3) within(1) by auto
  show "{s \<in> W - H. s < floor} \<subseteq> Ew\<^sup>* `` ({s \<in> A. s < floor} \<union> {s \<in> W'. s < floor} - ({s \<in> B. s < floor} \<union> {s \<in> H'. s < floor}))"
  proof
    fix s assume "s \<in> {s \<in> W - H. s < floor}"
    then have s: "s \<in> W" "s \<notin> H" "s < floor" "s < P" using bp(11) by auto
    then obtain a where a: "a \<in> A - B" "(a, s) \<in> Ew\<^sup>*" using bp(4) by blast
    obtain b where b: "(a, b) \<in> (down Ew floor)\<^sup>*" "b < floor" "(b, s) \<in> Ew\<^sup>*" using path_split [OF a(2) s(3)] by blast
    have "b \<notin> H" using clear_path(2) [OF b(3) s(2) bp(10), of "{}"] by blast
    moreover have "b \<in> {s \<in> A. s < floor} \<union> {s \<in> W'. s < floor}"
      using down_below [of a floor b Ew] band_paint_clear [OF assms b(1) \<open>b \<notin> H\<close> a(1)] a(1) b(1,2) by (cases "a < floor") auto
    ultimately show "s \<in> Ew\<^sup>* `` ({s \<in> A. s < floor} \<union> {s \<in> W'. s < floor} - ({s \<in> B. s < floor} \<union> {s \<in> H'. s < floor}))"
      using b(3) bp(12) within(2) by blast
  qed
qed

context history
begin

lemma descending_unblocked: "descending (unblocked node X)"
  by (rule descending_mono [OF descending_G unblocked_sub])

lemma painted_closed: "unblocked node X `` painted node X S \<subseteq> painted node X S"
  by (auto simp: painted_def intro: rtrancl_into_rtrancl)

text \<open>The colours of one band, read over the history.\<close>

lemma band_coloured:
  assumes "rg_index g floor ceil = Inr c" "ceil \<le> i64_max" "set seeds \<subseteq> {..ceil}"
    and paint: "paint = \<lparr>pt_seeds = seeds, pt_flags = flags, pt_floor = floor, pt_want_block = wb, pt_have_block = hb,
        pt_have_seeds = seeds_flagged seeds flags FLAG_HAVE\<rparr>"
  shows "coloured c paint FLAG_HAVE = (down (unblocked node hb) floor)\<^sup>* `` seeds_flagged seeds flags FLAG_HAVE"
    and "coloured c paint FLAG_WANT =
      {(s, p) \<in> down (unblocked node wb) floor. p \<notin> seeds_flagged seeds flags FLAG_HAVE}\<^sup>* `` seeds_flagged seeds flags FLAG_WANT"
proof -
  have sub: "seeds_flagged seeds flags col \<subseteq> {..ceil}" for col
    using assms(3) by (auto simp: seeds_flagged_def dest: set_zip_leftD)
  have fall: "p \<in> {..ceil}" if "(s, p) \<in> G" "s \<in> {..ceil}" for s p
    using that descending_G by (fastforce simp: descending_def)
  note edge = band_edge [OF assms(1,2)]
  have hv: "(s, p) \<in> colour_edges c FLAG_HAVE paint \<longleftrightarrow> (s, p) \<in> down (unblocked node hb) floor" if "s \<in> {..ceil}" for s p
    using that edge [of s p] by (auto simp: colour_edges_def paint_blocks_def paint down_def unblocked_def)
  have wt: "(s, p) \<in> colour_edges c FLAG_WANT paint \<longleftrightarrow>
      (s, p) \<in> {(s, p) \<in> down (unblocked node wb) floor. p \<notin> seeds_flagged seeds flags FLAG_HAVE}" if "s \<in> {..ceil}" for s p
    using that edge [of s p] by (auto simp: colour_edges_def paint_blocks_def paint down_def unblocked_def)
  have ps: "pt_seeds paint = seeds" "pt_flags paint = flags" by (simp_all add: paint)
  show "coloured c paint FLAG_HAVE = (down (unblocked node hb) floor)\<^sup>* `` seeds_flagged seeds flags FLAG_HAVE"
    unfolding coloured_def ps
    by (rule reach_agree [OF hv _ sub]) (use fall in \<open>auto simp: down_def unblocked_def\<close>)
  show "coloured c paint FLAG_WANT =
      {(s, p) \<in> down (unblocked node wb) floor. p \<notin> seeds_flagged seeds flags FLAG_HAVE}\<^sup>* `` seeds_flagged seeds flags FLAG_WANT"
    unfolding coloured_def ps
    by (rule reach_agree [OF wt _ sub]) (use fall in \<open>auto simp: down_def unblocked_def\<close>)
qed

lemma pack_facts_ok:
  assumes "walk_pack_facts g seqs = Inr (packs, oids)" "s \<in> set seqs" "0 \<le> s" "s \<le> i64_max"
  shows "facts_get packs s = pack s" "oids s = name s"
proof -
  have "rg_packs_at g seqs = Inr packs" "rg_oids_of g seqs = Inr oids"
    using assms(1,2) by (auto simp: walk_pack_facts_def rbind_eq_Inr_iff split: if_splits)
  then show "facts_get packs s = pack s" "oids s = name s" using packs_read oids_read assms(2-4) by simp_all
qed

lemma pack_facts_error: "walk_pack_facts g seqs = Inl e \<Longrightarrow> fails S e"
  using read_failedI(2,3)
  by (auto simp: walk_pack_facts_def rbind_eq_Inl_iff walk_read_def walk_failure_def split: if_splits sum.splits)

lemma strict_sorted_last: "sorted_wrt (<) (xs :: int list) \<Longrightarrow> xs \<noteq> [] \<Longrightarrow> last xs = Max (set xs)"
  by (induction xs rule: rev_induct) (auto simp: sorted_wrt_append less_imp_le intro!: Max_eqI [symmetric])

lemma marks_last:
  assumes "marks m A B" "A \<union> B \<noteq> {}"
  shows "fst (last m) = Max (A \<union> B)" "m \<noteq> []"
proof -
  show ne: "m \<noteq> []" using assms by (auto simp: marks_def)
  have "fst (last m) = Max (set (map fst m))"
    using assms(1) ne strict_sorted_last [of "map fst m"] by (simp add: marks_def last_map)
  then show "fst (last m) = Max (A \<union> B)" using assms(1) by (simp add: marks_def)
qed

lemma below_reach:
  assumes "X \<subseteq> {0..i64_max}" "Y \<subseteq> G\<^sup>* `` X"
  shows "Y \<subseteq> {0..i64_max}"
proof -
  have "({0..<2 ^ 32} :: int set) \<subseteq> {0..i64_max}" by (auto simp: i64_max_def)
  then show ?thesis using reach_bound [of G node X] assms by blast
qed

text \<open>What one band of a marked frontier paints.\<close>

lemma paint_band_coloured:
  assumes frontier: "marks m A B" "A \<union> B \<subseteq> {0..i64_max}" and floor: "floor \<le> i64_max"
    and seeds: "seeds = filter (\<lambda>(seq, _). floor \<le> seq) m"
    and flags: "flags = map (\<lambda>(_, flags). if flags AND FLAG_HAVE = 0 then FLAG_WANT else FLAG_HAVE) seeds"
    and c: "rg_index g floor (ceiling (map fst seeds) floor) = Inr c"
    and paint: "paint = \<lparr>pt_seeds = map fst seeds, pt_flags = flags, pt_floor = floor, pt_want_block = wb, pt_have_block = hb,
        pt_have_seeds = seeds_flagged (map fst seeds) flags FLAG_HAVE\<rparr>"
  shows "coloured c paint FLAG_HAVE = (down (unblocked node hb) floor)\<^sup>* `` {s \<in> B. floor \<le> s}"
    and "coloured c paint FLAG_WANT =
      {(s, p) \<in> down (unblocked node wb) floor. p \<notin> {s \<in> B. floor \<le> s}}\<^sup>* `` {s \<in> A - B. floor \<le> s}"
    and "coloured c paint FLAG_WANT \<union> coloured c paint FLAG_HAVE \<subseteq> (down G floor)\<^sup>* `` {s \<in> A \<union> B. floor \<le> s}"
    and "ceiling (map fst seeds) floor \<le> i64_max" "{s \<in> A \<union> B. floor \<le> s} \<subseteq> {..ceiling (map fst seeds) floor}"
proof -
  note split = marks_split [OF frontier(1) seeds flags]
  note cs = ceiling_spec [where seeds = "map fst seeds" and floor = floor]
  show ceil: "ceiling (map fst seeds) floor \<le> i64_max" using cs(3) split(5) frontier(2) floor by auto
  show "{s \<in> A \<union> B. floor \<le> s} \<subseteq> {..ceiling (map fst seeds) floor}" using cs(1) split(5) by simp
  note col = band_coloured [OF c ceil cs(1) paint, unfolded split(2,3)]
  then show "coloured c paint FLAG_HAVE = (down (unblocked node hb) floor)\<^sup>* `` {s \<in> B. floor \<le> s}"
    "coloured c paint FLAG_WANT =
      {(s, p) \<in> down (unblocked node wb) floor. p \<notin> {s \<in> B. floor \<le> s}}\<^sup>* `` {s \<in> A - B. floor \<le> s}" by simp_all
  show "coloured c paint FLAG_WANT \<union> coloured c paint FLAG_HAVE \<subseteq> (down G floor)\<^sup>* `` {s \<in> A \<union> B. floor \<le> s}"
    using rtrancl_mono [of "{(s, p) \<in> down (unblocked node wb) floor. p \<notin> {s \<in> B. floor \<le> s}}" "down G floor"]
      rtrancl_mono [of "down (unblocked node hb) floor" "down G floor"] unfolding col by (auto simp: down_def unblocked_def)
qed

lemma marks_below:
  assumes "sorted_wrt (<) (map fst below)" "fst ` set below = {s \<in> W \<union> H. s < floor}"
    "\<And>s. s < floor \<Longrightarrow> flag_of below s = mark (s \<in> W) (s \<in> H)"
  shows "marks below {s \<in> W. s < floor} {s \<in> H. s < floor}"
  unfolding marks_def
proof (intro conjI allI)
  fix s
  show "flag_of below s = mark (s \<in> {s \<in> W. s < floor}) (s \<in> {s \<in> H. s < floor})"
  proof (cases "s < floor")
    case False
    then have "map_of below s = None" using assms(2) by (simp add: map_of_eq_None_iff)
    then show ?thesis using False by (simp add: flag_of_def mark_def)
  qed (use assms(3) in simp)
qed (use assms(1,2) in auto)

lemma paint_band_ok:
  assumes run: "walk_paint_band g width wb hb m n = Inr (m', n')"
    and frontier: "marks m A B" "A \<union> B \<subseteq> {0..i64_max}" "A \<union> B \<noteq> {}"
    and floor: "floor = sat_i64 (Max (A \<union> B) - (width - 1))" "floor \<le> Max (A \<union> B)"
    and inv: "paint_inv (unblocked node (set wb)) (unblocked node (set hb)) (painted node (set wb) wants) (painted node (set hb) haves) P A B"
    and blocks: "set hb \<subseteq> set wb" and got: "gathered (rg_bitmap g) pack name before n"
  shows "\<exists>A' B' seqs. marks m' A' B' \<and> A' \<union> B' \<subseteq> {0..i64_max} \<and>
    paint_inv (unblocked node (set wb)) (unblocked node (set hb)) (painted node (set wb) wants) (painted node (set hb) haves) floor A' B' \<and>
    gathered (rg_bitmap g) pack name (before @ seqs) n' \<and> sorted_wrt (<) seqs \<and>
    set seqs = {s \<in> painted node (set wb) wants - painted node (set hb) haves. floor \<le> s \<and> s < P}"
proof -
  define seeds where "seeds = filter (\<lambda>(seq, _). floor \<le> seq) m"
  define flags where "flags = map (\<lambda>(_, flags). if flags AND FLAG_HAVE = 0 then FLAG_WANT else FLAG_HAVE) seeds"
  define kept where "kept = filter (\<lambda>(seq, _). seq < floor) m"
  note last = marks_last [OF frontier(1,3)]
  obtain c band packs oids where c: "rg_index g floor (ceiling (map fst seeds) floor) = Inr c"
      "expand_paint c (map fst seeds) flags floor wb hb = Inr band" "walk_pack_facts g (pb_finalized band) = Inr (packs, oids)"
      "push_finalized (rg_bitmap g) packs oids (pb_finalized band) n = Inr n'"
    and m': "m' = foldl (\<lambda>m (seq, flags). flag_entry seq flags m) kept (pb_below band)"
    using run last(2) unfolding walk_paint_band_def last(1) Let_def floor(1) [symmetric] seeds_def [symmetric] flags_def [symmetric] kept_def [symmetric]
    by (auto simp: rbind_eq_Inr_iff)
  note split = marks_split [OF frontier(1) seeds_def flags_def, folded kept_def]
  have top: "Max (A \<union> B) \<in> A \<union> B" by (rule Max_in [OF marks_finite [OF frontier(1)] frontier(3)])
  then have "floor < P" "floor \<le> i64_max" using floor(2) inv frontier(2) by (auto simp: paint_inv_def)
  define paint where "paint = \<lparr>pt_seeds = map fst seeds, pt_flags = flags, pt_floor = floor, pt_want_block = set wb, pt_have_block = set hb,
        pt_have_seeds = seeds_flagged (map fst seeds) flags FLAG_HAVE\<rparr>"
  let ?W = "coloured c paint FLAG_WANT" and ?H = "coloured c paint FLAG_HAVE"
  note col = paint_band_coloured [OF frontier(1,2) \<open>floor \<le> i64_max\<close> seeds_def flags_def c(1) paint_def]
  have bp: "band_paint (unblocked node (set wb)) (unblocked node (set hb)) (painted node (set wb) wants) (painted node (set hb) haves) P A B floor ?W ?H"
    using inv descending_unblocked unblocked_mono [OF blocks] painted_closed \<open>floor < P\<close> col(1,2) by (simp add: band_paint_def)
  note ok = expand_paint_ok [OF c(2) split(4) paint_def refl refl]
  have marks: "marks m' ({s \<in> A. s < floor} \<union> {s \<in> ?W. s < floor}) ({s \<in> B. s < floor} \<union> {s \<in> ?H. s < floor})"
    unfolding m' using marks_below [OF ok(4,3,5)] split(1) by (intro marks_merge) (simp_all add: marks_def)
  have range: "?W \<union> ?H \<subseteq> {0..i64_max}" using col(3) down_reach by (intro below_reach [OF frontier(2)]) blast
  have "set (pb_finalized band) \<subseteq> {0..i64_max}" using ok(1) range by auto
  then have "gathered (rg_bitmap g) pack name (before @ pb_finalized band) n'"
    using pack_facts_ok [OF c(3)] by (intro push_finalized_ok [OF c(4) got]) auto
  moreover have "{s \<in> A. s < floor} \<union> {s \<in> ?W. s < floor} \<union> ({s \<in> B. s < floor} \<union> {s \<in> ?H. s < floor}) \<subseteq> {0..i64_max}"
    using range frontier(2) by blast
  moreover have "set (pb_finalized band) = {s \<in> painted node (set wb) wants - painted node (set hb) haves. floor \<le> s \<and> s < P}"
    using ok(1) band_paint_finalized [OF bp] by simp
  ultimately show ?thesis using marks band_paint_next [OF bp] ok(2) by blast
qed

lemma paint_band_error:
  assumes run: "walk_paint_band g width wb hb m n = Inl e"
    and frontier: "marks m A B" "A \<union> B \<subseteq> {0..i64_max}" "A \<union> B \<noteq> {}"
    and floor: "floor = sat_i64 (Max (A \<union> B) - (width - 1))" "floor \<le> Max (A \<union> B)"
  shows "fails (A \<union> B) e"
proof -
  define seeds where "seeds = filter (\<lambda>(seq, _). floor \<le> seq) m"
  define flags where "flags = map (\<lambda>(_, flags). if flags AND FLAG_HAVE = 0 then FLAG_WANT else FLAG_HAVE) seeds"
  note last = marks_last [OF frontier(1,3)] and split = marks_split [OF frontier(1) seeds_def flags_def]
  have "floor \<le> i64_max" using floor(2) frontier(2) Max_in [OF marks_finite [OF frontier(1)] frontier(3)] by auto
  define paint where "paint = \<lparr>pt_seeds = map fst seeds, pt_flags = flags, pt_floor = floor, pt_want_block = set wb, pt_have_block = set hb,
        pt_have_seeds = seeds_flagged (map fst seeds) flags FLAG_HAVE\<rparr>"
  note col = paint_band_coloured [OF frontier(1,2) \<open>floor \<le> i64_max\<close> seeds_def flags_def _ paint_def]
  have reach: "fails {s \<in> A \<union> B. floor \<le> s} e \<Longrightarrow> fails (A \<union> B) e" by (erule walk_failure_mono) auto
  consider (index) er where "rg_index g floor (ceiling (map fst seeds) floor) = Inl er" "e = WRead er"
    | (expand) c nc where "rg_index g floor (ceiling (map fst seeds) floor) = Inr c"
        "expand_paint c (map fst seeds) flags floor wb hb = Inl nc" "e = WNotCovered nc"
    | (facts) seqs where "walk_pack_facts g seqs = Inl e"
    | (push) c band packs oids where "rg_index g floor (ceiling (map fst seeds) floor) = Inr c"
        "expand_paint c (map fst seeds) flags floor wb hb = Inr band"
        "walk_pack_facts g (pb_finalized band) = Inr (packs, oids)" "push_finalized (rg_bitmap g) packs oids (pb_finalized band) n = Inl e"
    using run last(2) unfolding walk_paint_band_def last(1) Let_def floor(1) [symmetric] seeds_def [symmetric] flags_def [symmetric]
    by (auto simp: rbind_eq_Inl_iff walk_read_def walk_cover_def split: sum.splits)
  then show ?thesis
  proof cases
    case index
    then show ?thesis using read_failedI(1) by (auto simp: walk_failure_def)
  next
    case expand
    note miss = expand_paint_error [OF expand(2) split(4) paint_def]
    let ?X = "{s \<in> A \<union> B. floor \<le> s}"
    have in_band: "nv_seq nc \<in> (down G floor)\<^sup>* `` ?X" using miss col(3) [OF expand(1)] by blast
    then have le: "nv_seq nc \<le> ceiling (map fst seeds) floor"
      using col(5) [OF expand(1)] reach_le [OF descending_mono [OF descending_G down_subset]] by fastforce
    have "node (nv_seq nc) = None" using index_reads [OF expand(1) _ le col(4) [OF expand(1)]] miss by simp
    moreover have "nv_seq nc \<in> G\<^sup>* `` ?X" using in_band down_reach by blast
    ultimately have "fails ?X e" by (simp add: expand(3) walk_failure_def)
    then show ?thesis by (rule reach)
  next
    case facts
    then show ?thesis by (rule pack_facts_error)
  next
    case push
    have sub: "set (pb_finalized band) \<subseteq> G\<^sup>* `` (A \<union> B)"
      using expand_paint_ok(1) [OF push(2) split(4) paint_def refl refl] col(3) [OF push(1)] down_reach by blast
    then have "set (pb_finalized band) \<subseteq> {0..i64_max}" by (rule below_reach [OF frontier(2)])
    then have "\<exists>s \<in> set (pb_finalized band). e = WUnpacked s \<and> pack s = None \<or> e = WUnnamed s \<and> name s = None \<or>
      (\<exists>p m. pack s = Some p \<and> e = WBitmap m \<and> (pe_trees (rg_bitmap g) p = Inl m \<or> pe_blobs (rg_bitmap g) p = Inl m))"
      using pack_facts_ok [OF push(3)] by (intro push_finalized_error [OF push(4)]) auto
    then show ?thesis using sub by (fastforce simp: walk_failure_def)
  qed
qed

lemma paint_walk_loop_total:
  fixes wb hb :: "int list"
  assumes "marks m A B" "A \<union> B \<subseteq> {0..i64_max}" "policy_ok p" "set hb \<subseteq> set wb"
    "paint_inv (unblocked node (set wb)) (unblocked node (set hb)) (painted node (set wb) wants) (painted node (set hb) haves) P A B"
    "gathered (rg_bitmap g) pack name before n" "distinct before" "wants \<union> haves = S"
    "set before = {s \<in> painted node (set wb) wants - painted node (set hb) haves. P \<le> s}"
  shows "\<exists>r. paint_walk_loop g wb hb p m n = Some r \<and>
    (case r of Inr n' \<Rightarrow> \<exists>seqs. gathered (rg_bitmap g) pack name seqs n' \<and> distinct seqs \<and>
        set seqs = painted node (set wb) wants - painted node (set hb) haves
     | Inl e \<Rightarrow> fails S e)"
  using assms
proof (induction "nat P" arbitrary: P m n A B before p rule: less_induct)
  case less
  let ?D = "painted node (set wb) wants - painted node (set hb) haves"
  show ?case
  proof (cases "A - B = {}")
    case True
    then have "{s \<in> ?D. s < P} = {}" using less.prems(5) unfolding paint_inv_def True by blast
    then have "set before = ?D" using less.prems(9) by (auto simp: not_less)
    moreover have "paint_walk_loop g wb hb p m n = Some (Inr n)"
      using True by (subst paint_walk_loop.simps) (simp add: marks_want_only [OF less.prems(1)])
    ultimately show ?thesis using less.prems(6,7) by auto
  next
    case False
    then have ne: "A \<union> B \<noteq> {}" by blast
    have top: "Max (A \<union> B) \<in> A \<union> B" by (rule Max_in [OF marks_finite [OF less.prems(1)] ne])
    define floor where "floor = sat_i64 (Max (A \<union> B) - (bp_current p - 1))"
    have "i64_min \<le> Max (A \<union> B)" using top less.prems(2) by (auto simp: i64_min_def)
    then have le: "floor \<le> Max (A \<union> B)" using band_floor_le [OF less.prems(3)] by (simp add: floor_def band_floor_def)
    have "A \<union> B \<subseteq> {..<P}" using less.prems(5) by (simp add: paint_inv_def)
    then have "Max (A \<union> B) < P" "0 \<le> Max (A \<union> B)" using subsetD [OF _ top, of "{..<P}"] subsetD [OF less.prems(2) top] by simp_all
    then have below: "floor < P" "0 < P" using le by simp_all
    have "B \<subseteq> painted node (set hb) haves" "A \<subseteq> painted node (set wb) wants" using less.prems(5) unfolding paint_inv_def by blast+
    then have reach: "A \<union> B \<subseteq> G\<^sup>* `` S"
      using less.prems(8) painted_reach [of node "set wb" wants] painted_reach [of node "set hb" haves] by blast
    have step: "paint_walk_loop g wb hb p m n = (case walk_paint_band g (bp_current p) wb hb m n of Inl e \<Rightarrow> Some (Inl e)
        | Inr (m', n') \<Rightarrow> paint_walk_loop g wb hb (policy_grow p) m' n')"
      using False by (subst paint_walk_loop.simps) (simp add: marks_want_only [OF less.prems(1)])
    show ?thesis
    proof (cases "walk_paint_band g (bp_current p) wb hb m n")
      case (Inl e)
      have "fails S e" using paint_band_error [OF Inl less.prems(1,2) ne floor_def le] reach by (rule walk_failure_mono)
      then show ?thesis unfolding step by (simp add: Inl)
    next
      case (Inr mn)
      obtain m' n' where mn: "mn = (m', n')" by force
      from paint_band_ok [OF Inr [unfolded mn] less.prems(1,2) ne floor_def le less.prems(5,4,6)]
      obtain A' B' seqs where next': "marks m' A' B'" "A' \<union> B' \<subseteq> {0..i64_max}"
        "paint_inv (unblocked node (set wb)) (unblocked node (set hb)) (painted node (set wb) wants) (painted node (set hb) haves) floor A' B'"
        "gathered (rg_bitmap g) pack name (before @ seqs) n'" "sorted_wrt (<) seqs" "set seqs = {s \<in> ?D. floor \<le> s \<and> s < P}" by blast
      have "distinct (before @ seqs)" "set (before @ seqs) = {s \<in> ?D. floor \<le> s}"
        using less.prems(7,9) next'(5,6) below by (auto simp: strict_sorted_iff)
      from less.hyps [OF _ next'(1,2) policy_grow_ok [OF less.prems(3)] less.prems(4) next'(3,4) this(1) less.prems(8) this(2)]
      show ?thesis unfolding step using below by (simp add: Inr mn)
    qed
  qed
qed

lemma banded_paint_walk_total:
  assumes "set wants \<union> set haves \<subseteq> {0..i64_max}" "policy_ok p" "set hb \<subseteq> set wb"
  shows "\<exists>r. banded_paint_walk g wants haves wb hb p = Some r \<and>
    (case r of Inr n \<Rightarrow> \<exists>seqs. gathered (rg_bitmap g) pack name seqs n \<and> distinct seqs \<and>
        set seqs = painted node (set wb) (set wants) - painted node (set hb) (set haves)
     | Inl e \<Rightarrow> fails (set wants \<union> set haves) e)"
proof -
  let ?m = "foldl (\<lambda>m seq. flag_entry seq FLAG_HAVE m) (foldl (\<lambda>m seq. flag_entry seq FLAG_WANT m) [] wants) haves"
  have marks: "marks ?m (set wants) (set haves)"
    using marks_seeds(2) [OF marks_seeds(1) [OF marks_Nil, of wants], of haves] by simp
  have low: "painted node X S \<subseteq> {0..i64_max}" if "S \<subseteq> {0..i64_max}" for X S
    by (rule below_reach [OF that painted_reach])
  have "paint_inv (unblocked node (set wb)) (unblocked node (set hb)) (painted node (set wb) (set wants)) (painted node (set hb) (set haves))
      (i64_max + 1) (set wants) (set haves)"
    unfolding paint_inv_def
  proof (intro conjI)
    show "{s \<in> painted node (set hb) (set haves). s < i64_max + 1} = (unblocked node (set hb))\<^sup>* `` set haves"
      using low [of "set haves" "set hb"] assms(1) by (auto simp: painted_def)
    show "{s \<in> painted node (set wb) (set wants) - painted node (set hb) (set haves). s < i64_max + 1} \<subseteq>
        (unblocked node (set wb))\<^sup>* `` (set wants - set haves)"
    proof
      fix s assume "s \<in> {s \<in> painted node (set wb) (set wants) - painted node (set hb) (set haves). s < i64_max + 1}"
      then obtain w where w: "w \<in> set wants" "(w, s) \<in> (unblocked node (set wb))\<^sup>*" "s \<notin> painted node (set hb) (set haves)"
        by (auto simp: painted_def)
      have "unblocked node (set wb) `` painted node (set hb) (set haves) \<subseteq> painted node (set hb) (set haves)"
        using painted_closed unblocked_mono [OF assms(3)] by blast
      from clear_path(2) [OF w(2,3) this, of "{}"] have "w \<notin> set haves" by (auto simp: painted_def)
      then show "s \<in> (unblocked node (set wb))\<^sup>* `` (set wants - set haves)" using w by blast
    qed
  qed (use assms(1) in \<open>auto simp: painted_def\<close>)
  from paint_walk_loop_total [OF marks assms(1,2,3) this gathered_Nil, of "set wants \<union> set haves"]
  show ?thesis using low [of "set wants" "set wb"] assms(1) by (fastforce simp: banded_paint_walk_def)
qed

end

section \<open>A fetch is sent what it needs\<close>

text \<open>Whether a pack holds an object, by the number its kind counts it with.\<close>

definition in_pack :: "(bytes \<Rightarrow> u64 set option) \<Rightarrow> pack_node \<Rightarrow> object_seq \<Rightarrow> bool" where
  "in_pack de p seq = (case seq of
     TreeSeq s \<Rightarrow> (case pe_trees de p of Inr trees \<Rightarrow> s \<in> trees | Inl _ \<Rightarrow> False)
   | BlobSeq s \<Rightarrow> (case pe_blobs de p of Inr blobs \<Rightarrow> s \<in> blobs | Inl _ \<Rightarrow> False)
   | TagSeq _ \<Rightarrow> False)"

lemma gathered_contains:
  assumes "gathered de pack name seqs n"
  shows "needed_contains n seq \<longleftrightarrow> (\<exists>s \<in> set seqs. \<exists>p. pack s = Some p \<and> in_pack de p seq)"
proof -
  obtain rows where rows: "list_all2 (row_of de pack name) seqs rows" and n: "nd_trees n = (\<Union>(_, _, trees, _) \<in> set rows. trees)"
    "nd_blobs n = (\<Union>(_, _, _, blobs) \<in> set rows. blobs)" using assms by (auto simp: gathered_def)
  have "needed_contains n seq \<longleftrightarrow> (\<exists>(_, p, _, _) \<in> set rows. in_pack de p seq)"
  proof -
    have "(case seq of TreeSeq s \<Rightarrow> s \<in> trees | BlobSeq s \<Rightarrow> s \<in> blobs | TagSeq _ \<Rightarrow> False) \<longleftrightarrow> in_pack de p seq"
      if "(oid, p, trees, blobs) \<in> set rows" for oid p trees blobs
    proof -
      obtain s where "row_of de pack name s (oid, p, trees, blobs)"
        using rows \<open>(oid, p, trees, blobs) \<in> set rows\<close> by (auto simp: list_all2_conv_all_nth in_set_conv_nth)
      then show ?thesis by (cases seq) (simp_all add: row_of_def in_pack_def)
    qed
    then show ?thesis by (cases seq) (fastforce simp: needed_contains_def n)+
  qed
  also have "\<dots> \<longleftrightarrow> (\<exists>s \<in> set seqs. \<exists>p. pack s = Some p \<and> in_pack de p seq)"
    using rows by (induction rule: list_all2_induct) (auto simp: row_of_def)
  finally show ?thesis .
qed

lemma object_count_exact:
  assumes "length (nd_commits n) + card (nd_trees n) + card (nd_blobs n) < 2 ^ 64"
  shows "unat (object_count n keep_trees keep_blobs) =
    length (nd_commits n) + (if keep_trees then card (nd_trees n) else 0) + (if keep_blobs then card (nd_blobs n) else 0)"
  using assms by (auto simp: object_count_def sat_add_def unat_of_nat unat_word_ariths)

text \<open>C25: The walk of a fetch always returns. It sends every commit the wants reach and the haves do not, each once,
  where the client's shallow commits are taken as parentless; each row carries the commit's own name, pack and counts;
  and the set answers for exactly the objects the packs of those commits hold. It fails only on a failed read, or on
  a commit of the seeds' histories whose facts are missing or unreadable.\<close>

theorem needed_commits_correct:
  assumes "history g node pack name" "policy_ok policy" "set (ws_wants seeds) \<union> set (ws_haves seeds) \<subseteq> {0..i64_max}"
    and "needed = painted node (set (ws_shallow seeds)) (set (ws_wants seeds)) - painted node (set (ws_shallow seeds)) (set (ws_haves seeds))"
  shows "\<exists>r. needed_commits g seeds policy = Some r \<and>
    (case r of Inr n \<Rightarrow> (\<exists>seqs. distinct seqs \<and> set seqs = needed \<and> gathered (rg_bitmap g) pack name seqs n) \<and>
        (\<forall>seq. needed_contains n seq \<longleftrightarrow> (\<exists>s \<in> needed. \<exists>p. pack s = Some p \<and> in_pack (rg_bitmap g) p seq))
     | Inl e \<Rightarrow> walk_failure g node pack name (set (ws_wants seeds) \<union> set (ws_haves seeds)) e)"
proof -
  obtain r where "needed_commits g seeds policy = Some r"
    and r: "case r of Inr n \<Rightarrow> \<exists>seqs. gathered (rg_bitmap g) pack name seqs n \<and> distinct seqs \<and> set seqs = needed
      | Inl e \<Rightarrow> walk_failure g node pack name (set (ws_wants seeds) \<union> set (ws_haves seeds)) e"
  proof (cases "ws_wants seeds = []")
    case True
    then have "needed = {}" by (simp add: assms(4) painted_def)
    then show thesis using that [of "Inr no_needed"] True gathered_Nil by (simp add: needed_commits_def)
  next
    case False
    then show thesis
      using that history.banded_paint_walk_total [OF assms(1,3,2) subset_refl, of "ws_shallow seeds"] assms(4)
      by (auto simp: needed_commits_def)
  qed
  moreover have "(\<forall>seq. needed_contains n seq \<longleftrightarrow> (\<exists>s \<in> needed. \<exists>p. pack s = Some p \<and> in_pack (rg_bitmap g) p seq))"
    if "gathered (rg_bitmap g) pack name seqs n" "set seqs = needed" for seqs n
    using gathered_contains [OF that(1)] that(2) by simp
  ultimately show ?thesis by (cases r) (simp, simp, blast)
qed

theorem needed_commits_correct_witness:
  "\<exists>r. needed_commits held_repo \<lparr>ws_wants = [7], ws_haves = [5], ws_shallow = []\<rparr> policy_production = Some r"
  using needed_commits_correct [OF held_history.history_axioms policy_production_ok, of "\<lparr>ws_wants = [7], ws_haves = [5], ws_shallow = []\<rparr>"]
  by (simp add: i64_max_def) blast

end
