(* ===== verification/Depth_Walk.thy ===== *)
theory Depth_Walk
  imports Paint_Walk
begin

text \<open>
  The depth walk of a shallow fetch, \<open>git/graph-store/src/walk.rs\<close>: the commits within a depth of the
  wants, and the boundary a deepening fetch reports and cuts at. The sent commits are a \<open>HashMap\<close>; the model
  keeps it as an association list in key order and iterates it so.

  Depths are followed as the least depths along parent edges. \<open>depth_band_least\<close> and \<open>depth_band_next\<close> show
  that one band settles the depths of its range and hands the rest on; \<open>least_from_depth\<close> that a settled
  depth is the distance from the nearest want.
\<close>

section \<open>The depth walk\<close>

record sent_commit =
  sc_oid :: oid
  sc_parent_seqs :: "int list"
  sc_depth :: int
  sc_root_tree_seq :: u64

record depth_classified =
  dc_sent :: "(int \<times> sent_commit) list"
  dc_needed :: needed

definition no_classified :: depth_classified where
  "no_classified = \<lparr>dc_sent = [], dc_needed = no_needed\<rparr>"

text \<open>The least depth held for a seq of the frontier.\<close>

definition min_entry :: "int \<Rightarrow> int \<Rightarrow> (int \<times> int) list \<Rightarrow> (int \<times> int) list" where
  "min_entry seq depth m = btree_insert seq (case map_of m seq of None \<Rightarrow> depth | Some held \<Rightarrow> min held depth) m"

fun record_reached ::
    "repo_graph \<Rightarrow> commit_index \<Rightarrow> bool \<Rightarrow> pack_facts \<Rightarrow> (int \<rightharpoonup> oid) \<Rightarrow> reached list \<Rightarrow> depth_classified \<Rightarrow> (walk_error, depth_classified) result" where
  "record_reached g index collect_bitmaps packs oids [] classified = Inr classified"
| "record_reached g index collect_bitmaps packs oids (one # rest) classified =
     rbind (ok_or (oids (rc_seq one)) (WUnnamed (rc_seq one))) (\<lambda>oid.
     rbind (if collect_bitmaps
            then rbind (ok_or (facts_get packs (rc_seq one)) (WUnpacked (rc_seq one))) (needed_push (rg_bitmap g) (dc_needed classified) oid)
            else Inr (dc_needed classified)) (\<lambda>needed.
     rbind (ok_or (ci_get index (rc_seq one)) (WMissing (rc_seq one))) (\<lambda>e.
     record_reached g index collect_bitmaps packs oids rest
       \<lparr>dc_sent = btree_insert (rc_seq one) \<lparr>sc_oid = oid, sc_parent_seqs = entry_parents e, sc_depth = rc_depth one,
            sc_root_tree_seq = rc_root_tree_seq one\<rparr> (dc_sent classified), dc_needed = needed\<rparr>)))"

definition walk_depth_band ::
    "repo_graph \<Rightarrow> int \<Rightarrow> int \<Rightarrow> bool \<Rightarrow> (int \<times> int) list \<Rightarrow> depth_classified \<Rightarrow> (walk_error, (int \<times> int) list \<times> depth_classified) result" where
  "walk_depth_band g band_width depth_limit collect_bitmaps frontier classified =
     (if frontier = [] then Inr (frontier, classified)
      else let ceil = fst (last frontier);
               floor = sat_i64 (ceil - (band_width - 1));
               seeds = filter (\<lambda>(seq, _). floor \<le> seq) frontier;
               kept = filter (\<lambda>(seq, _). seq < floor) frontier in
        rbind (walk_read (rg_index g floor (ceiling (map fst seeds) floor))) (\<lambda>index.
        rbind (walk_cover (expand_depth index (map fst seeds) (map snd seeds) floor depth_limit)) (\<lambda>band.
        let reached = map rc_seq (db_reached band) in
        rbind (if collect_bitmaps then walk_pack_facts g reached
               else rbind (walk_read (rg_oids_of g reached)) (\<lambda>oids. Inr ([], oids))) (\<lambda>(packs, oids).
        rbind (record_reached g index collect_bitmaps packs oids (db_reached band) classified) (\<lambda>classified.
        Inr (foldl (\<lambda>m (seq, depth). min_entry seq depth m) kept (db_below band), classified))))))"

partial_function (option) depth_classify_loop ::
    "repo_graph \<Rightarrow> int \<Rightarrow> bool \<Rightarrow> band_policy \<Rightarrow> (int \<times> int) list \<Rightarrow> depth_classified \<Rightarrow> (walk_error, depth_classified) result option" where
  "depth_classify_loop g depth_limit collect_bitmaps policy frontier classified =
     (if frontier = [] then Some (Inr classified)
      else case walk_depth_band g (bp_current policy) depth_limit collect_bitmaps frontier classified of
          Inl e \<Rightarrow> Some (Inl e)
        | Inr (frontier, classified) \<Rightarrow> depth_classify_loop g depth_limit collect_bitmaps (policy_grow policy) frontier classified)"

definition depth_classify ::
    "repo_graph \<Rightarrow> int list \<Rightarrow> int \<Rightarrow> bool \<Rightarrow> band_policy \<Rightarrow> (walk_error, depth_classified) result option" where
  "depth_classify g want_seqs depth_limit collect_bitmaps policy =
     depth_classify_loop g depth_limit collect_bitmaps policy (foldl (\<lambda>m seq. min_entry seq 1 m) [] want_seqs) no_classified"

record shallow_commits =
  sh_needed :: needed
  sh_shallow :: "oid list"
  sh_unshallow :: "oid list"
  sh_boundary_roots :: "u64 list"

definition no_shallow :: shallow_commits where
  "no_shallow = \<lparr>sh_needed = no_needed, sh_shallow = [], sh_unshallow = [], sh_boundary_roots = []\<rparr>"

definition needed_commits_shallow :: "repo_graph \<Rightarrow> walk_seeds \<Rightarrow> int \<Rightarrow> band_policy \<Rightarrow> (walk_error, shallow_commits) result option" where
  "needed_commits_shallow g seeds depth policy =
     (if depth \<le> 0 then Some (Inl WDepth)
      else if ws_wants seeds = [] then Some (Inr no_shallow)
      else let fast_path = (ws_haves seeds = []) in
        case depth_classify g (ws_wants seeds) depth fast_path policy of
          None \<Rightarrow> None
        | Some (Inl e) \<Rightarrow> Some (Inl e)
        | Some (Inr classified) \<Rightarrow>
            let sent = map_of (dc_sent classified);
                boundary_seqs = map fst (filter (\<lambda>(_, row). sc_depth row = depth) (dc_sent classified));
                client_shallow_set = set (ws_shallow seeds);
                shallow = map sc_oid (List.map_filter sent (filter (\<lambda>seq. seq \<notin> client_shallow_set) boundary_seqs));
                unshallowed_seqs = filter (\<lambda>seq. case sent seq of None \<Rightarrow> False | Some c \<Rightarrow> sc_depth c \<noteq> depth) (ws_shallow seeds);
                unshallow = map sc_oid (List.map_filter sent unshallowed_seqs);
                boundary_roots = map sc_root_tree_seq (List.map_filter sent boundary_seqs) in
            case (if fast_path then Some (Inr (dc_needed classified))
                  else banded_paint_walk g
                    (ws_wants seeds @ concat (map sc_parent_seqs (List.map_filter sent unshallowed_seqs)))
                    (ws_haves seeds) (boundary_seqs @ ws_shallow seeds) (ws_shallow seeds) policy) of
              None \<Rightarrow> None
            | Some (Inl e) \<Rightarrow> Some (Inl e)
            | Some (Inr needed) \<Rightarrow> Some (Inr \<lparr>sh_needed = needed, sh_shallow = shallow, sh_unshallow = unshallow,
                sh_boundary_roots = boundary_roots\<rparr>))"

section \<open>Depths along a graph\<close>

inductive depth_from :: "(int \<times> int) set \<Rightarrow> int \<Rightarrow> (int \<times> int) set \<Rightarrow> int \<Rightarrow> int \<Rightarrow> bool" for E limit seeds where
  seed: "(s, d) \<in> seeds \<Longrightarrow> depth_from E limit seeds s d"
| step: "depth_from E limit seeds s d \<Longrightarrow> d < limit \<Longrightarrow> (s, p) \<in> E \<Longrightarrow> depth_from E limit seeds p (sat_i64 (d + 1))"

lemma at_depth_from: "at_depth c floor limit seeds s d \<longleftrightarrow> depth_from (band_edges c floor) limit seeds s d"
proof
  show "depth_from (band_edges c floor) limit seeds s d" if "at_depth c floor limit seeds s d"
    using that by induction (auto intro: depth_from.intros)
  show "at_depth c floor limit seeds s d" if "depth_from (band_edges c floor) limit seeds s d"
    using that by induction (auto intro: at_depth.intros)
qed

lemma depth_from_agree:
  assumes "\<And>s p. s \<in> T \<Longrightarrow> (s, p) \<in> E \<longleftrightarrow> (s, p) \<in> F" "\<And>s p. s \<in> T \<Longrightarrow> (s, p) \<in> F \<Longrightarrow> p \<in> T" "fst ` seeds \<subseteq> T"
  shows "depth_from E limit seeds s d \<longleftrightarrow> depth_from F limit seeds s d"
proof
  have "depth_from F limit seeds s d \<and> s \<in> T" if "depth_from E limit seeds s d"
    using that
  proof induction
    case (step s d p)
    then show ?case using assms(1,2) by (auto intro: depth_from.step)
  qed (use assms(3) in \<open>force intro: depth_from.seed\<close>)
  then show "depth_from E limit seeds s d \<Longrightarrow> depth_from F limit seeds s d" by blast
  have "depth_from E limit seeds s d \<and> s \<in> T" if "depth_from F limit seeds s d"
    using that
  proof induction
    case (step s d p)
    then show ?case using assms(1,2) by (auto intro: depth_from.step)
  qed (use assms(3) in \<open>force intro: depth_from.seed\<close>)
  then show "depth_from F limit seeds s d \<Longrightarrow> depth_from E limit seeds s d" by blast
qed

lemma depth_from_mono: "depth_from E limit X s d \<Longrightarrow> E \<subseteq> F \<Longrightarrow> X \<subseteq> Y \<Longrightarrow> depth_from F limit Y s d"
  by (induction rule: depth_from.induct) (auto intro: depth_from.intros)

lemma depth_from_trans: "depth_from E limit X s d \<Longrightarrow> (\<And>a b. (a, b) \<in> X \<Longrightarrow> depth_from E limit Y a b) \<Longrightarrow> depth_from E limit Y s d"
  by (induction rule: depth_from.induct) (auto intro: depth_from.intros)

lemma depth_from_reach: "depth_from E limit X s d \<Longrightarrow> s \<in> E\<^sup>* `` (fst ` X)"
proof (induction rule: depth_from.induct)
  case (step s d p)
  then show ?case by (auto intro: rtrancl_into_rtrancl)
qed force

text \<open>Seeding a seq lower only lowers what it reaches.\<close>

lemma depth_from_lower:
  assumes "depth_from E limit X s d" "\<And>a b. (a, b) \<in> X \<Longrightarrow> \<exists>b' \<le> b. (a, b') \<in> Y"
  shows "\<exists>d' \<le> d. depth_from E limit Y s d'"
  using assms(1)
proof induction
  case (seed s d)
  then show ?case using assms(2) by (blast intro: depth_from.seed)
next
  case (step s d p)
  then obtain d' where "d' \<le> d" "depth_from E limit Y s d'" by blast
  moreover have "sat_i64 (d' + 1) \<le> sat_i64 (d + 1)" using \<open>d' \<le> d\<close> by (auto simp: sat_i64_def)
  ultimately show ?case using step(2,3) depth_from.step [of E limit Y s d' p] by force
qed

text \<open>A depth above the floor is found within the band; one below it is found from where the band was left.\<close>

lemma depth_within:
  assumes "descending E" "depth_from E limit X s d" "floor \<le> s"
  shows "depth_from (down E floor) limit {(a, b) \<in> X. floor \<le> a} s d"
  using assms(2,3)
proof induction
  case (step s d p)
  have "p < s" using step(3) assms(1) by (auto simp: descending_def)
  then show ?case using step by (intro depth_from.step [OF step.IH]) (auto simp: down_def)
qed (auto intro: depth_from.seed)

lemma depth_split:
  assumes "depth_from E limit X s d" "s < floor" "descending E"
  shows "depth_from E limit {(b, db). b < floor \<and> depth_from (down E floor) limit X b db} s d"
proof -
  have "(floor \<le> s \<longrightarrow> depth_from (down E floor) limit X s d) \<and>
    (s < floor \<longrightarrow> depth_from E limit {(b, db). b < floor \<and> depth_from (down E floor) limit X b db} s d)"
    using assms(1)
  proof induction
    case (seed s d)
    then show ?case by (auto intro: depth_from.seed)
  next
    case (step s d p)
    show ?case
    proof (cases "floor \<le> s")
      case True
      then have "depth_from (down E floor) limit X p (sat_i64 (d + 1))"
        using step by (intro depth_from.step) (auto simp: down_def)
      then show ?thesis by (auto intro: depth_from.seed)
    next
      case False
      moreover have "p < s" using step(3) assms(3) by (auto simp: descending_def)
      ultimately show ?thesis using step by (auto intro: depth_from.step)
    qed
  qed
  then show ?thesis using assms(2) by simp
qed

lemma down_seeds: "depth_from (down E floor) limit X s d \<Longrightarrow> (s, d) \<in> X \<or> depth_from (down E floor) limit {(a, b) \<in> X. floor \<le> a} s d"
proof (induction rule: depth_from.induct)
  case (step s d p)
  have "floor \<le> s" using step(3) by (simp add: down_def)
  then have "depth_from (down E floor) limit {(a, b) \<in> X. floor \<le> a} s d" using step.IH by (auto intro: depth_from.seed)
  then show ?case using step(2,3) by (auto intro: depth_from.step)
qed simp

definition least_from :: "(int \<times> int) set \<Rightarrow> int \<Rightarrow> (int \<times> int) set \<Rightarrow> int \<Rightarrow> int \<Rightarrow> bool" where
  "least_from E limit seeds s d \<longleftrightarrow> depth_from E limit seeds s d \<and> (\<forall>d'. depth_from E limit seeds s d' \<longrightarrow> d \<le> d')"

lemma least_fromD: "least_from E limit X s d \<Longrightarrow> depth_from E limit X s d" "least_from E limit X s d \<Longrightarrow> depth_from E limit X s d' \<Longrightarrow> d \<le> d'"
  by (simp_all add: least_from_def)

lemma least_from_unique: "least_from E limit X s d \<Longrightarrow> least_from E limit X s d' \<Longrightarrow> d = d'"
  by (meson least_fromD order_antisym)

lemma depth_positive: "depth_from E limit X s d \<Longrightarrow> snd ` X \<subseteq> {1..} \<Longrightarrow> 1 \<le> d"
  by (induction rule: depth_from.induct) (force simp: sat_i64_def i64_max_def)+

lemma least_exists:
  assumes "depth_from E limit X s d" "snd ` X \<subseteq> {1..}"
  shows "\<exists>d0 \<le> d. least_from E limit X s d0"
proof -
  define d0 where "d0 = (LEAST n. depth_from E limit X s (int n))"
  have pos: "depth_from E limit X s d' \<Longrightarrow> int (nat d') = d'" for d' using depth_positive [OF _ assms(2)] by fastforce
  then have "depth_from E limit X s (int d0)" unfolding d0_def using assms(1) by (metis LeastI)
  moreover have "int d0 \<le> d'" if "depth_from E limit X s d'" for d'
  proof -
    have "d0 \<le> nat d'" unfolding d0_def by (rule Least_le) (simp only: pos [OF that] that)
    then show ?thesis using pos [OF that] by linarith
  qed
  ultimately show ?thesis using assms(1) by (auto simp: least_from_def)
qed

text \<open>The frontier of a depth walk that has classified everything from \<open>P\<close> up.\<close>

definition depth_inv :: "(int \<times> int) set \<Rightarrow> int \<Rightarrow> (int \<times> int) set \<Rightarrow> int \<Rightarrow> (int \<times> int) set \<Rightarrow> bool" where
  "depth_inv E limit X P F \<longleftrightarrow> (\<forall>(s, d) \<in> F. s < P \<and> depth_from E limit X s d) \<and>
     (\<forall>s d. s < P \<longrightarrow> depth_from E limit X s d \<longrightarrow> (\<exists>d' \<le> d. depth_from E limit F s d'))"

lemma depth_invD:
  assumes "depth_inv E limit X P F"
  shows "(s, d) \<in> F \<Longrightarrow> s < P" "(s, d) \<in> F \<Longrightarrow> depth_from E limit X s d"
    and "s < P \<Longrightarrow> depth_from E limit X s d \<Longrightarrow> \<exists>d' \<le> d. depth_from E limit F s d'"
  using assms by (auto simp: depth_inv_def)

lemma depth_band_sound:
  assumes "depth_inv E limit X P F" "depth_from (down E floor) limit {(a, b) \<in> F. floor \<le> a} s d"
  shows "depth_from E limit X s d"
proof (rule depth_from_trans [OF depth_from_mono [OF assms(2) down_subset subset_refl]])
  show "depth_from E limit X a b" if "(a, b) \<in> {(a, b) \<in> F. floor \<le> a}" for a b
    using that assms(1) by (auto simp: depth_inv_def)
qed

lemma depth_band_least:
  assumes inv: "depth_inv E limit X P F" and E: "descending E" and "floor \<le> s"
  shows "least_from (down E floor) limit {(a, b) \<in> F. floor \<le> a} s d \<longleftrightarrow> least_from E limit X s d \<and> s < P"
proof -
  let ?band = "depth_from (down E floor) limit {(a, b) \<in> F. floor \<le> a} s"
  have found: "\<exists>d'' \<le> d'. ?band d''" if at: "depth_from E limit X s d'" "s < P" for d'
  proof -
    obtain d'' where "d'' \<le> d'" "depth_from E limit F s d''" using depth_invD(3) [OF inv at(2,1)] by blast
    then show ?thesis using depth_within [OF E _ assms(3)] by blast
  qed
  have below: "s < P" if at: "?band d'" for d'
  proof -
    obtain a where a: "a \<in> fst ` F" "(a, s) \<in> (down E floor)\<^sup>*" using depth_from_reach [OF at] by auto
    then have "a < P" using depth_invD(1) [OF inv] by auto
    moreover have "s \<le> a" by (rule reach_le [OF descending_mono [OF E down_subset] a(2)])
    ultimately show ?thesis by simp
  qed
  note sound = depth_band_sound [OF inv, of floor s]
  show ?thesis
  proof
    assume l: "least_from (down E floor) limit {(a, b) \<in> F. floor \<le> a} s d"
    then have "?band d" "s < P" using least_fromD(1) [OF l] below by simp_all
    moreover have "d \<le> d'" if "depth_from E limit X s d'" for d'
      using found [OF that \<open>s < P\<close>] least_fromD(2) [OF l] by fastforce
    ultimately show "least_from E limit X s d \<and> s < P" using sound by (simp add: least_from_def)
  next
    assume r: "least_from E limit X s d \<and> s < P"
    then obtain d' where d': "d' \<le> d" "?band d'" using found least_fromD(1) by blast
    then have "d' = d" using r sound least_fromD(2) by (meson order_antisym)
    then show "least_from (down E floor) limit {(a, b) \<in> F. floor \<le> a} s d"
      using d' r sound by (simp add: least_from_def)
  qed
qed

lemma depth_band_next:
  assumes inv: "depth_inv E limit X P F" and E: "descending E" and "floor < P"
    and sound: "\<And>s d. (s, d) \<in> F' \<Longrightarrow> s < floor \<and> ((s, d) \<in> F \<or> depth_from (down E floor) limit {(a, b) \<in> F. floor \<le> a} s d)"
    and kept: "\<And>s d. (s, d) \<in> F \<Longrightarrow> s < floor \<Longrightarrow> \<exists>d' \<le> d. (s, d') \<in> F'"
    and below: "\<And>s d. depth_from (down E floor) limit {(a, b) \<in> F. floor \<le> a} s d \<Longrightarrow> s < floor \<Longrightarrow> \<exists>d' \<le> d. (s, d') \<in> F'"
  shows "depth_inv E limit X floor F'"
proof -
  have "s < floor \<and> depth_from E limit X s d" if "(s, d) \<in> F'" for s d
    using sound [OF that] depth_band_sound [OF inv, of floor s d] depth_invD(2) [OF inv] by blast
  moreover have "\<exists>d' \<le> d. depth_from E limit F' s d'" if at: "s < floor" "depth_from E limit X s d" for s d
  proof -
    obtain d1 where d1: "d1 \<le> d" "depth_from E limit F s d1"
      using depth_invD(3) [OF inv _ at(2)] at(1) \<open>floor < P\<close> by auto
    have "\<exists>d' \<le> d1. depth_from E limit F' s d'"
      using depth_split [OF d1(2) at(1) E]
    proof (rule depth_from_lower)
      fix a b assume "(a, b) \<in> {(b, db). b < floor \<and> depth_from (down E floor) limit F b db}"
      then show "\<exists>b' \<le> b. (a, b') \<in> F'" using down_seeds [of E floor limit F a b] kept [of a b] below [of a b] by auto
    qed
    then show ?thesis using d1(1) by (meson order_trans)
  qed
  ultimately show ?thesis unfolding depth_inv_def by blast
qed

section \<open>Merging a band into the frontier\<close>

definition least_of :: "int option \<Rightarrow> int option \<Rightarrow> int option" where
  "least_of a b = (case (a, b) of (None, _) \<Rightarrow> b | (_, None) \<Rightarrow> a | (Some x, Some y) \<Rightarrow> Some (min x y))"

lemma min_merge:
  assumes "sorted_wrt (<) (map fst below)"
  shows "map_of (foldl (\<lambda>m (seq, depth). min_entry seq depth m) kept below) s = least_of (map_of kept s) (map_of below s)"
proof -
  have "distinct (map fst below)" using assms by (simp add: strict_sorted_iff)
  then show ?thesis
  proof (induction below arbitrary: kept)
    case (Cons x below)
    obtain seq d where x: "x = (seq, d)" by force
    have "map_of below seq = None" using Cons.prems by (simp add: x map_of_eq_None_iff)
    then show ?case using Cons.IH [of "min_entry seq d kept"] Cons.prems
      by (auto simp: x min_entry_def least_of_def split: option.splits)
  qed (simp add: least_of_def split: option.splits)
qed

lemma min_merge_sorted:
  "sorted_wrt (<) (map fst kept) \<Longrightarrow> sorted_wrt (<) (map fst (foldl (\<lambda>m (seq, depth). min_entry seq depth m) kept below))"
  by (induction below arbitrary: kept) (auto simp: min_entry_def btree_insert_sorted)

lemma seeded: "sorted_wrt (<) (map fst m) \<Longrightarrow> (\<And>s d. map_of m s = Some d \<Longrightarrow> d = 1) \<Longrightarrow>
  sorted_wrt (<) (map fst (foldl (\<lambda>m seq. min_entry seq 1 m) m wants)) \<and>
  map_of (foldl (\<lambda>m seq. min_entry seq 1 m) m wants) s = (if s \<in> set wants then Some 1 else map_of m s)"
proof (induction wants arbitrary: m)
  case (Cons w ws)
  have one: "map_of (min_entry w 1 m) s = (if s = w then Some 1 else map_of m s)" for s
    using Cons.prems(2) [of w] by (auto simp: min_entry_def split: option.splits)
  have "sorted_wrt (<) (map fst (min_entry w 1 m))" using Cons.prems(1) by (simp add: min_entry_def btree_insert_sorted)
  moreover have "map_of (min_entry w 1 m) s = Some d \<Longrightarrow> d = 1" for s d
    using Cons.prems(2) [of s d] by (auto simp: one split: if_splits)
  ultimately show ?case using Cons.IH [of "min_entry w 1 m"] by (simp add: one)
qed simp

section \<open>Recording what a band reached\<close>

lemma record_reached_sent:
  assumes "record_reached g index collect packs oids ones cl = Inr cl'" "distinct (map rc_seq ones)"
  shows "(sorted_wrt (<) (map fst (dc_sent cl)) \<longrightarrow> sorted_wrt (<) (map fst (dc_sent cl'))) \<and>
    (s \<notin> rc_seq ` set ones \<longrightarrow> map_of (dc_sent cl') s = map_of (dc_sent cl) s) \<and>
    (\<forall>one \<in> set ones. \<exists>oid e. oids (rc_seq one) = Some oid \<and> ci_get index (rc_seq one) = Some e \<and>
      map_of (dc_sent cl') (rc_seq one) = Some \<lparr>sc_oid = oid, sc_parent_seqs = entry_parents e, sc_depth = rc_depth one,
        sc_root_tree_seq = rc_root_tree_seq one\<rparr>)"
  using assms
proof (induction ones arbitrary: cl s)
  case (Cons one ones)
  obtain oid needed e where o: "oids (rc_seq one) = Some oid" "ci_get index (rc_seq one) = Some e"
    and rest: "record_reached g index collect packs oids ones
      \<lparr>dc_sent = btree_insert (rc_seq one) \<lparr>sc_oid = oid, sc_parent_seqs = entry_parents e, sc_depth = rc_depth one,
            sc_root_tree_seq = rc_root_tree_seq one\<rparr> (dc_sent cl), dc_needed = needed\<rparr> = Inr cl'"
    using Cons.prems(1) by (auto simp: rbind_eq_Inr_iff ok_or_eq_Inr_iff)
  have d: "distinct (map rc_seq ones)" "rc_seq one \<notin> rc_seq ` set ones" using Cons.prems(2) by auto
  show ?case using Cons.IH [OF rest d(1), of s] Cons.IH [OF rest d(1), of "rc_seq one"] o d(2)
    by (auto simp: btree_insert_sorted simp del: split_paired_Ex)
qed simp

lemma record_reached_needed:
  assumes "record_reached g index collect packs oids ones cl = Inr cl'"
  shows "\<not> collect \<longrightarrow> dc_needed cl' = dc_needed cl"
    and "collect \<Longrightarrow> gathered (rg_bitmap g) pack name before (dc_needed cl) \<Longrightarrow>
      (\<And>one. one \<in> set ones \<Longrightarrow> facts_get packs (rc_seq one) = pack (rc_seq one) \<and> oids (rc_seq one) = name (rc_seq one)) \<Longrightarrow>
      gathered (rg_bitmap g) pack name (before @ map rc_seq ones) (dc_needed cl')"
proof -
  show "\<not> collect \<longrightarrow> dc_needed cl' = dc_needed cl" using assms
  proof (induction ones arbitrary: cl)
    case (Cons one ones)
    then show ?case by (fastforce simp: rbind_eq_Inr_iff ok_or_eq_Inr_iff)
  qed simp
  show "gathered (rg_bitmap g) pack name (before @ map rc_seq ones) (dc_needed cl')"
    if "collect" "gathered (rg_bitmap g) pack name before (dc_needed cl)"
      "\<And>one. one \<in> set ones \<Longrightarrow> facts_get packs (rc_seq one) = pack (rc_seq one) \<and> oids (rc_seq one) = name (rc_seq one)"
    using assms that
  proof (induction ones arbitrary: cl before)
    case (Cons one ones)
    obtain oid p needed cl1 where o: "name (rc_seq one) = Some oid" "pack (rc_seq one) = Some p"
        "needed_push (rg_bitmap g) (dc_needed cl) oid p = Inr needed"
      and rest: "record_reached g index collect packs oids ones cl1 = Inr cl'" "dc_needed cl1 = needed"
      using Cons.prems by (auto simp: rbind_eq_Inr_iff ok_or_eq_Inr_iff)
    have "gathered (rg_bitmap g) pack name (before @ [rc_seq one]) (dc_needed cl1)"
      using gathered_push [OF Cons.prems(3) o] rest(2) by simp
    from Cons.IH [OF rest(1) Cons.prems(2) this] show ?case using Cons.prems(4) by simp
  qed simp
qed

lemma record_reached_error:
  assumes "record_reached g index collect packs oids ones cl = Inl e"
  shows "\<exists>one \<in> set ones. e = WUnnamed (rc_seq one) \<and> oids (rc_seq one) = None \<or> e = WMissing (rc_seq one) \<and> ci_get index (rc_seq one) = None \<or>
    collect \<and> (e = WUnpacked (rc_seq one) \<and> facts_get packs (rc_seq one) = None \<or>
      (\<exists>p m. facts_get packs (rc_seq one) = Some p \<and> e = WBitmap m \<and> (pe_trees (rg_bitmap g) p = Inl m \<or> pe_blobs (rg_bitmap g) p = Inl m)))"
  using assms
proof (induction ones arbitrary: cl)
  case (Cons one ones)
  consider (unnamed) "oids (rc_seq one) = None" "e = WUnnamed (rc_seq one)"
    | (unpacked) "collect" "facts_get packs (rc_seq one) = None" "e = WUnpacked (rc_seq one)"
    | (push) oid p where "collect" "facts_get packs (rc_seq one) = Some p" "needed_push (rg_bitmap g) (dc_needed cl) oid p = Inl e"
    | (missing) "ci_get index (rc_seq one) = None" "e = WMissing (rc_seq one)"
    | (rest) cl1 where "record_reached g index collect packs oids ones cl1 = Inl e"
    using Cons.prems
    by (auto simp: rbind_eq_Inl_iff ok_or_eq_Inl_iff ok_or_eq_Inr_iff simp del: split_paired_All split_paired_Ex not_None_eq split: if_splits)
  then show ?case
  proof cases
    case push
    then show ?thesis using needed_push_error [OF push(3)] by auto
  next
    case rest
    then show ?thesis using Cons.IH [OF rest] by auto
  qed simp_all
qed simp

section \<open>The depth walk over a history\<close>

definition sent_row :: "(int \<Rightarrow> node option) \<Rightarrow> (int \<rightharpoonup> oid) \<Rightarrow> int \<Rightarrow> sent_commit \<Rightarrow> bool" where
  "sent_row node name s row \<longleftrightarrow> name s = Some (sc_oid row) \<and>
     (\<exists>n. node s = Some n \<and> sc_parent_seqs row = node_parents n \<and> sc_root_tree_seq row = ucast (nd_root_tree n))"

definition classified_from ::
    "repo_graph \<Rightarrow> (int \<Rightarrow> node option) \<Rightarrow> (int \<Rightarrow> pack_node option) \<Rightarrow> (int \<rightharpoonup> oid) \<Rightarrow> int \<Rightarrow> (int \<times> int) set \<Rightarrow> bool \<Rightarrow> int \<Rightarrow> depth_classified \<Rightarrow> bool" where
  "classified_from g node pack name limit X collect P cl \<longleftrightarrow> sorted_wrt (<) (map fst (dc_sent cl)) \<and>
     (\<forall>s row. map_of (dc_sent cl) s = Some row \<longrightarrow> P \<le> s \<and> least_from (parent_edges node) limit X s (sc_depth row) \<and> sent_row node name s row) \<and>
     (\<forall>s d. P \<le> s \<and> least_from (parent_edges node) limit X s d \<longrightarrow> map_of (dc_sent cl) s \<noteq> None) \<and>
     (if collect then \<exists>seqs. gathered (rg_bitmap g) pack name seqs (dc_needed cl) \<and> distinct seqs \<and>
          set seqs = {s. P \<le> s \<and> (\<exists>d. least_from (parent_edges node) limit X s d)}
      else dc_needed cl = no_needed)"

context history
begin

lemma band_least_from:
  assumes "rg_index g floor ceil = Inr c" "ceil \<le> i64_max" "fst ` S \<subseteq> {..ceil}"
  shows "at_depth c floor limit S s d \<longleftrightarrow> depth_from (down G floor) limit S s d"
    and "least_at c floor limit S s d \<longleftrightarrow> least_from (down G floor) limit S s d"
proof -
  have edge: "at_depth c floor limit S s d \<longleftrightarrow> depth_from (down G floor) limit S s d" for s d
    unfolding at_depth_from
  proof (rule depth_from_agree [OF _ _ assms(3)])
    fix s p :: int assume s: "s \<in> {..ceil}"
    show "(s, p) \<in> band_edges c floor \<longleftrightarrow> (s, p) \<in> down G floor" using band_edge [OF assms(1,2)] s by simp
    show "p \<in> {..ceil}" if "(s, p) \<in> down G floor"
      using that s descending_G by (fastforce simp: descending_def down_def)
  qed
  then show "at_depth c floor limit S s d \<longleftrightarrow> depth_from (down G floor) limit S s d"
    "least_at c floor limit S s d \<longleftrightarrow> least_from (down G floor) limit S s d" by (simp_all add: least_at_def least_from_def)
qed

text \<open>One band: what it reads, and what it reaches and leaves below.\<close>

lemma depth_band_run:
  assumes "walk_depth_band g width limit collect m cl = Inr (m', cl')" "m \<noteq> []" "sorted_wrt (<) (map fst m)"
    and "floor = sat_i64 (Max (fst ` set m) - (width - 1))" "seeds = filter (\<lambda>(seq, _). floor \<le> seq) m"
  obtains c band packs oids where "rg_index g floor (ceiling (map fst seeds) floor) = Inr c"
    "expand_depth c (map fst seeds) (map snd seeds) floor limit = Inr band"
    "record_reached g c collect packs oids (db_reached band) cl = Inr cl'"
    "m' = foldl (\<lambda>m (seq, depth). min_entry seq depth m) (filter (\<lambda>(seq, _). seq < floor) m) (db_below band)"
    "\<And>s. s \<in> set (map rc_seq (db_reached band)) \<Longrightarrow> 0 \<le> s \<Longrightarrow> s \<le> i64_max \<Longrightarrow> oids s = name s \<and> (collect \<longrightarrow> facts_get packs s = pack s)"
proof -
  have last: "fst (last m) = Max (fst ` set m)" using strict_sorted_last [OF assms(3)] assms(2) by (simp add: last_map)
  obtain c band po where c: "rg_index g floor (ceiling (map fst seeds) floor) = Inr c"
    "expand_depth c (map fst seeds) (map snd seeds) floor limit = Inr band"
    "record_reached g c collect (fst po) (snd po) (db_reached band) cl = Inr cl'"
    "m' = foldl (\<lambda>m (seq, depth). min_entry seq depth m) (filter (\<lambda>(seq, _). seq < floor) m) (db_below band)"
    and po: "(if collect then walk_pack_facts g (map rc_seq (db_reached band))
      else rbind (walk_read (rg_oids_of g (map rc_seq (db_reached band)))) (\<lambda>oids. Inr ([], oids))) = Inr po"
    using assms(1,2) unfolding walk_depth_band_def last Let_def assms(4) [symmetric] assms(5) [symmetric]
    by (auto simp: rbind_eq_Inr_iff)
  have "snd po s = name s \<and> (collect \<longrightarrow> facts_get (fst po) s = pack s)"
    if "s \<in> set (map rc_seq (db_reached band))" "0 \<le> s" "s \<le> i64_max" for s
  proof (cases collect)
    case True
    then show ?thesis using pack_facts_ok [of _ "fst po" "snd po", OF _ that] po by simp
  next
    case False
    then show ?thesis using oids_read [OF _ that(1)] po by (auto simp: rbind_eq_Inr_iff)
  qed
  then show thesis using that [OF c] by blast
qed

lemma depth_band_spec:
  assumes c: "rg_index g floor (ceiling (map fst seeds) floor) = Inr c"
    and band: "expand_depth c (map fst seeds) (map snd seeds) floor limit = Inr band"
    and seeds: "seeds = filter (\<lambda>(seq, _). floor \<le> seq) m" "fst ` set m \<subseteq> {0..i64_max}" and "floor \<le> i64_max"
    and inv: "depth_inv G limit X P (set m)"
  shows "map_of (db_below band) s = Some d \<longleftrightarrow> s < floor \<and> least_from (down G floor) limit {(a, b) \<in> set m. floor \<le> a} s d"
    and "set (map rc_seq (db_reached band)) = {s. floor \<le> s \<and> s < P \<and> (\<exists>d. least_from G limit X s d)}"
    and "one \<in> set (db_reached band) \<Longrightarrow> least_from G limit X (rc_seq one) (rc_depth one) \<and>
      (\<exists>e. ci_get c (rc_seq one) = Some e \<and> rc_root_tree_seq one = entry_root_tree e \<and> node (rc_seq one) = Some (entry_node e))"
proof -
  note cs = ceiling_spec [where seeds = "map fst seeds" and floor = floor]
  have ceil: "ceiling (map fst seeds) floor \<le> i64_max" using cs(3) seeds assms(5) by auto
  have S: "set (zip (map fst seeds) (map snd seeds)) = {(a, b) \<in> set m. floor \<le> a}"
    unfolding zip_map_fst_snd seeds(1) by auto
  have top: "fst ` {(a, b) \<in> set m. floor \<le> a} \<subseteq> {..ceiling (map fst seeds) floor}"
    using cs(1) by (auto simp: seeds(1))
  note least = band_least_from(2) [OF c ceil top]
  note ok = expand_depth_ok [OF band S [symmetric], unfolded least]
  note in_band = depth_band_least [OF inv descending_G]
  show "map_of (db_below band) s = Some d \<longleftrightarrow> s < floor \<and> least_from (down G floor) limit {(a, b) \<in> set m. floor \<le> a} s d" by (rule ok(3))
  show "set (map rc_seq (db_reached band)) = {s. floor \<le> s \<and> s < P \<and> (\<exists>d. least_from G limit X s d)}" (is "?L = ?R")
  proof (intro equalityI subsetI)
    fix s assume "s \<in> ?L"
    then obtain one where "one \<in> set (db_reached band)" "s = rc_seq one" by auto
    then have "floor \<le> s" "least_from (down G floor) limit {(a, b) \<in> set m. floor \<le> a} s (rc_depth one)" using ok(1) by simp_all
    then show "s \<in> ?R" using in_band by blast
  next
    fix s assume "s \<in> ?R"
    then obtain d where s: "floor \<le> s" "least_from (down G floor) limit {(a, b) \<in> set m. floor \<le> a} s d" using in_band by blast
    then obtain e where "ci_get c s = Some e" using ok(5) by blast
    then have "\<lparr>rc_seq = s, rc_depth = d, rc_root_tree_seq = entry_root_tree e\<rparr> \<in> set (db_reached band)" using ok(1) s by (simp del: split_paired_Ex)
    then show "s \<in> ?L" by force
  qed
  show "least_from G limit X (rc_seq one) (rc_depth one) \<and>
      (\<exists>e. ci_get c (rc_seq one) = Some e \<and> rc_root_tree_seq one = entry_root_tree e \<and> node (rc_seq one) = Some (entry_node e))"
    if "one \<in> set (db_reached band)"
  proof -
    have one: "floor \<le> rc_seq one" "least_from (down G floor) limit {(a, b) \<in> set m. floor \<le> a} (rc_seq one) (rc_depth one)"
      using that ok(1) by simp_all
    obtain a where "a \<in> fst ` {(a, b) \<in> set m. floor \<le> a}" "(a, rc_seq one) \<in> (down G floor)\<^sup>*"
      using depth_from_reach [OF least_fromD(1) [OF one(2)]] by blast
    then have "rc_seq one \<le> ceiling (map fst seeds) floor"
      using top reach_le [OF descending_mono [OF descending_G down_subset]] by fastforce
    from index_reads [OF c one(1) this ceil] show ?thesis using that ok(1) one in_band by (auto simp del: split_paired_Ex)
  qed
qed

lemma least_ofD:
  "least_of a b = Some d \<Longrightarrow> a = Some d \<or> b = Some d" "a = Some x \<Longrightarrow> \<exists>d \<le> x. least_of a b = Some d" "b = Some x \<Longrightarrow> \<exists>d \<le> x. least_of a b = Some d"
  by (auto simp: least_of_def min_def split: option.splits if_splits)

lemma depth_band_frontier:
  assumes m': "m' = foldl (\<lambda>m (seq, depth). min_entry seq depth m) (filter (\<lambda>(seq, _). seq < floor) m) below"
    and below: "sorted_wrt (<) (map fst below)"
      "\<And>s d. map_of below s = Some d \<longleftrightarrow> s < floor \<and> least_from (down G floor) limit {(a, b) \<in> set m. floor \<le> a} s d"
    and m: "sorted_wrt (<) (map fst m)" "fst ` set m \<subseteq> {0..i64_max}"
    and inv: "depth_inv G limit X P (set m)" "snd ` X \<subseteq> {1..}" "floor < P"
  shows "sorted_wrt (<) (map fst m')" "fst ` set m' \<subseteq> {0..i64_max}" "depth_inv G limit X floor (set m')"
proof -
  show srt: "sorted_wrt (<) (map fst m')"
    unfolding m' using m(1) by (intro min_merge_sorted) (simp add: sorted_wrt_map sorted_wrt_filter)
  have dist: "distinct (map fst m')" "distinct (map fst m)" using srt m(1) by (simp_all add: strict_sorted_iff)
  let ?kept = "filter (\<lambda>(seq, _). seq < floor) m"
  have kept: "map_of ?kept s = Some d \<longleftrightarrow> (s, d) \<in> set m \<and> s < floor" for s d
    using map_of_eq_Some_iff [of ?kept s d] dist(2) by (auto simp: distinct_map_filter)
  have in_m': "(s, d) \<in> set m' \<longleftrightarrow> least_of (map_of ?kept s) (map_of below s) = Some d" for s d
    using map_of_eq_Some_iff [OF dist(1), of s d] min_merge [OF below(1), of ?kept s] by (simp add: m')
  have low: "s < floor \<and> ((s, d) \<in> set m \<or> depth_from (down G floor) limit {(a, b) \<in> set m. floor \<le> a} s d)"
    if "(s, d) \<in> set m'" for s d
    using least_ofD(1) [OF that [unfolded in_m']] unfolding kept below(2) least_from_def by blast
  have pos: "snd ` {(a, b) \<in> set m. floor \<le> a} \<subseteq> {1..}"
    using depth_invD(2) [OF inv(1)] depth_positive [OF _ inv(2)] by fastforce
  show "depth_inv G limit X floor (set m')"
  proof (rule depth_band_next [OF inv(1) descending_G inv(3) low])
    show "\<exists>d' \<le> d. (s, d') \<in> set m'" if "(s, d) \<in> set m" "s < floor" for s d
      using least_ofD(2) [of "map_of ?kept s" d "map_of below s"] that kept unfolding in_m' by blast
    show "\<exists>d' \<le> d. (s, d') \<in> set m'"
      if at: "depth_from (down G floor) limit {(a, b) \<in> set m. floor \<le> a} s d" "s < floor" for s d
    proof -
      obtain d0 where d0: "d0 \<le> d" "map_of below s = Some d0" using least_exists [OF at(1) pos] at(2) below(2) by blast
      then show ?thesis using least_ofD(3) [OF d0(2), of "map_of ?kept s"] unfolding in_m' by (meson order_trans)
    qed
  qed
  have "fst ` set m' \<subseteq> G\<^sup>* `` (fst ` set m)"
  proof
    fix s assume "s \<in> fst ` set m'"
    then obtain d where "(s, d) \<in> set m'" by auto
    from low [OF this] show "s \<in> G\<^sup>* `` (fst ` set m)"
    proof (elim conjE disjE)
      assume "depth_from (down G floor) limit {(a, b) \<in> set m. floor \<le> a} s d"
      then have "s \<in> (down G floor)\<^sup>* `` (fst ` {(a, b) \<in> set m. floor \<le> a})" by (rule depth_from_reach)
      then show ?thesis using down_reach by force
    qed force
  qed
  then show "fst ` set m' \<subseteq> {0..i64_max}" by (rule below_reach [OF m(2)])
qed

lemma depth_band_classified:
  assumes run: "record_reached g c collect packs oids (db_reached band) cl = Inr cl'"
    and reached: "set (map rc_seq (db_reached band)) = {s. floor \<le> s \<and> s < P \<and> (\<exists>d. least_from G limit X s d)}"
      "distinct (map rc_seq (db_reached band))"
      "\<And>one. one \<in> set (db_reached band) \<Longrightarrow> least_from G limit X (rc_seq one) (rc_depth one) \<and>
        (\<exists>e. ci_get c (rc_seq one) = Some e \<and> rc_root_tree_seq one = entry_root_tree e \<and> node (rc_seq one) = Some (entry_node e))"
    and read: "\<And>s. s \<in> set (map rc_seq (db_reached band)) \<Longrightarrow> oids s = name s \<and> (collect \<longrightarrow> facts_get packs s = pack s)"
    and before: "classified_from g node pack name limit X collect P cl" "floor < P"
  shows "classified_from g node pack name limit X collect floor cl'"
proof -
  note sent = record_reached_sent [OF run reached(2)]
  have prior: "P \<le> s \<and> least_from G limit X s (sc_depth row) \<and> sent_row node name s row" if "map_of (dc_sent cl) s = Some row" for s row
    using before(1) that unfolding classified_from_def by blast
  have there: "map_of (dc_sent cl) s \<noteq> None" if "P \<le> s" "least_from G limit X s d" for s d
    using before(1) that unfolding classified_from_def by blast
  have old: "map_of (dc_sent cl') s = map_of (dc_sent cl) s" if "s \<notin> set (map rc_seq (db_reached band))" for s
    using sent that by simp
  have row: "least_from G limit X s (sc_depth row) \<and> sent_row node name s row"
    if at: "map_of (dc_sent cl') s = Some row" "s \<in> set (map rc_seq (db_reached band))" for s row
  proof -
    obtain one where one: "one \<in> set (db_reached band)" "s = rc_seq one" using at(2) by auto
    then obtain oid e where e: "oids s = Some oid" "ci_get c s = Some e"
      "map_of (dc_sent cl') s = Some \<lparr>sc_oid = oid, sc_parent_seqs = entry_parents e, sc_depth = rc_depth one, sc_root_tree_seq = rc_root_tree_seq one\<rparr>"
      using sent by blast
    then show ?thesis using at(1) reached(3) [OF one(1)] one(2) read [OF at(2)]
      by (auto simp: sent_row_def entry_of_node)
  qed
  have new: "map_of (dc_sent cl') s \<noteq> None" if "s \<in> set (map rc_seq (db_reached band))" for s
    using sent that by force
  show ?thesis unfolding classified_from_def
  proof (intro conjI allI impI)
    show "sorted_wrt (<) (map fst (dc_sent cl'))" using sent before(1) by (simp add: classified_from_def)
    fix s row assume at: "map_of (dc_sent cl') s = Some row"
    have "floor \<le> s \<and> least_from G limit X s (sc_depth row) \<and> sent_row node name s row"
    proof (cases "s \<in> set (map rc_seq (db_reached band))")
      case True
      then show ?thesis using row [OF at True] reached(1) by blast
    next
      case False
      then show ?thesis using prior [OF at [unfolded old [OF False]]] before(2) by simp
    qed
    then show "floor \<le> s" "least_from G limit X s (sc_depth row)" "sent_row node name s row" by simp_all
  next
    fix s d assume at: "floor \<le> s \<and> least_from G limit X s d"
    show "map_of (dc_sent cl') s \<noteq> None"
    proof (cases "s < P")
      case True
      then show ?thesis using at reached(1) by (intro new) blast
    next
      case False
      then have "s \<notin> set (map rc_seq (db_reached band))" using reached(1) by simp
      then show ?thesis using old there [of s d] at False by simp
    qed
  next
    show "if collect then \<exists>seqs. gathered (rg_bitmap g) pack name seqs (dc_needed cl') \<and> distinct seqs \<and>
          set seqs = {s. floor \<le> s \<and> (\<exists>d. least_from G limit X s d)} else dc_needed cl' = no_needed"
    proof (cases collect)
      case True
      then obtain seqs where seqs: "gathered (rg_bitmap g) pack name seqs (dc_needed cl)" "distinct seqs"
        "set seqs = {s. P \<le> s \<and> (\<exists>d. least_from G limit X s d)}" using before(1) by (auto simp: classified_from_def)
      have "gathered (rg_bitmap g) pack name (seqs @ map rc_seq (db_reached band)) (dc_needed cl')"
        using record_reached_needed(2) [OF run True seqs(1)] read True by simp
      moreover have "distinct (seqs @ map rc_seq (db_reached band))" using seqs(2,3) reached(1,2) by auto
      moreover have "set (seqs @ map rc_seq (db_reached band)) = {s. floor \<le> s \<and> (\<exists>d. least_from G limit X s d)}"
        unfolding set_append seqs(3) reached(1) using before(2) by auto
      ultimately show ?thesis unfolding if_P [OF True] by blast
    next
      case False
      then show ?thesis using record_reached_needed(1) [OF run] before(1) by (simp add: classified_from_def)
    qed
  qed
qed

lemma depth_band_ok:
  assumes run: "walk_depth_band g width limit collect m cl = Inr (m', cl')"
    and m: "m \<noteq> []" "sorted_wrt (<) (map fst m)" "fst ` set m \<subseteq> {0..i64_max}"
    and floor: "floor = sat_i64 (Max (fst ` set m) - (width - 1))" "floor \<le> Max (fst ` set m)"
    and inv: "depth_inv G limit X P (set m)" "snd ` X \<subseteq> {1..}" "classified_from g node pack name limit X collect P cl"
  shows "sorted_wrt (<) (map fst m')" "fst ` set m' \<subseteq> {0..i64_max}" "depth_inv G limit X floor (set m')"
    "classified_from g node pack name limit X collect floor cl'" "floor < P"
proof -
  define seeds where "seeds = filter (\<lambda>(seq, _). floor \<le> seq) m"
  have top: "Max (fst ` set m) \<in> fst ` set m" using m(1) by (intro Max_in) auto
  then show "floor < P" using floor(2) depth_invD(1) [OF inv(1)] by force
  have le: "floor \<le> i64_max" using floor(2) m(3) top by auto
  obtain c band packs oids where c: "rg_index g floor (ceiling (map fst seeds) floor) = Inr c"
    "expand_depth c (map fst seeds) (map snd seeds) floor limit = Inr band"
    "record_reached g c collect packs oids (db_reached band) cl = Inr cl'"
    "m' = foldl (\<lambda>m (seq, depth). min_entry seq depth m) (filter (\<lambda>(seq, _). seq < floor) m) (db_below band)"
    and read: "\<And>s. s \<in> set (map rc_seq (db_reached band)) \<Longrightarrow> 0 \<le> s \<Longrightarrow> s \<le> i64_max \<Longrightarrow> oids s = name s \<and> (collect \<longrightarrow> facts_get packs s = pack s)"
    using depth_band_run [OF run m(1,2) floor(1) seeds_def] by metis
  note spec = depth_band_spec [OF c(1,2) seeds_def m(3) le inv(1)]
  note sorted = expand_depth_ok(2,4) [OF c(2) refl]
  from depth_band_frontier [OF c(4) sorted(2) spec(1) m(2,3) inv(1,2) \<open>floor < P\<close>]
  show "sorted_wrt (<) (map fst m')" "fst ` set m' \<subseteq> {0..i64_max}" "depth_inv G limit X floor (set m')" by simp_all
  have range: "0 \<le> s \<and> s \<le> i64_max" if at: "s \<in> set (map rc_seq (db_reached band))" for s
  proof -
    obtain d where d: "floor \<le> s" "s < P" "least_from G limit X s d" using at unfolding spec(2) by blast
    then have "least_from (down G floor) limit {(a, b) \<in> set m. floor \<le> a} s d" using depth_band_least [OF inv(1) descending_G d(1)] by simp
    from depth_from_reach [OF least_fromD(1) [OF this]]
    have "{s} \<subseteq> G\<^sup>* `` (fst ` set m)" using down_reach [of _ s G floor] by force
    from below_reach [OF m(3) this] show ?thesis by simp
  qed
  show "classified_from g node pack name limit X collect floor cl'"
    by (rule depth_band_classified [OF c(3) spec(2) _ spec(3) _ inv(3) \<open>floor < P\<close>])
      (use sorted(1) read range in \<open>simp_all add: strict_sorted_iff\<close>)
qed

lemma depth_band_error:
  assumes run: "walk_depth_band g width limit collect m cl = Inl e"
    and m: "m \<noteq> []" "sorted_wrt (<) (map fst m)" "fst ` set m \<subseteq> {0..i64_max}"
    and floor: "floor = sat_i64 (Max (fst ` set m) - (width - 1))" "floor \<le> Max (fst ` set m)"
  shows "fails (fst ` set m) e"
proof -
  define seeds where "seeds = filter (\<lambda>(seq, _). floor \<le> seq) m"
  have last: "fst (last m) = Max (fst ` set m)" using strict_sorted_last [OF m(2)] m(1) by (simp add: last_map)
  have "Max (fst ` set m) \<in> fst ` set m" using m(1) by (intro Max_in) auto
  then have le: "floor \<le> i64_max" using floor(2) m(3) by auto
  note cs = ceiling_spec [where seeds = "map fst seeds" and floor = floor]
  have ceil: "ceiling (map fst seeds) floor \<le> i64_max" using cs(3) m(3) le by (auto simp: seeds_def)
  have S: "set (zip (map fst seeds) (map snd seeds)) = {(a, b) \<in> set m. floor \<le> a}"
    unfolding zip_map_fst_snd seeds_def by auto
  have top: "fst ` {(a, b) \<in> set m. floor \<le> a} \<subseteq> {..ceiling (map fst seeds) floor}" using cs(1) by (auto simp: seeds_def)
  have reach: "s \<in> G\<^sup>* `` (fst ` set m) \<and> s \<le> ceiling (map fst seeds) floor"
    if at: "depth_from (down G floor) limit {(a, b) \<in> set m. floor \<le> a} s d" for s d
  proof -
    obtain a where a: "a \<in> fst ` {(a, b) \<in> set m. floor \<le> a}" "(a, s) \<in> (down G floor)\<^sup>*" using depth_from_reach [OF at] by blast
    then have "s \<le> a" "a \<le> ceiling (map fst seeds) floor"
      using top reach_le [OF descending_mono [OF descending_G down_subset]] by auto
    moreover have "s \<in> G\<^sup>* `` (fst ` set m)" using a down_reach [OF a(2)] by force
    ultimately show ?thesis by simp
  qed
  consider (read) er where "e = WRead er" "read_failed g er"
    | (expand) c nc where "rg_index g floor (ceiling (map fst seeds) floor) = Inr c"
        "expand_depth c (map fst seeds) (map snd seeds) floor limit = Inl nc" "e = WNotCovered nc"
    | (facts) seqs where "walk_pack_facts g seqs = Inl e"
    | (rec) c band packs oids where "rg_index g floor (ceiling (map fst seeds) floor) = Inr c"
        "expand_depth c (map fst seeds) (map snd seeds) floor limit = Inr band"
        "if collect then walk_pack_facts g (map rc_seq (db_reached band)) = Inr (packs, oids)
         else rg_oids_of g (map rc_seq (db_reached band)) = Inr oids"
        "record_reached g c collect packs oids (db_reached band) cl = Inl e"
    using run m(1) read_failedI unfolding walk_depth_band_def last Let_def floor(1) [symmetric] seeds_def [symmetric]
    by (auto simp: rbind_eq_Inl_iff rbind_eq_Inr_iff walk_read_def [of "rg_index _ _ _"] walk_read_def [of "rg_oids_of _ _"] walk_cover_def split: sum.splits if_splits)
  then show ?thesis
  proof cases
    case read
    then show ?thesis by (simp add: walk_failure_def)
  next
    case expand
    have miss: "\<exists>d. depth_from (down G floor) limit {(a, b) \<in> set m. floor \<le> a} (nv_seq nc) d" "floor \<le> nv_seq nc" "ci_get c (nv_seq nc) = None"
      using expand_depth_error [OF expand(2) S [symmetric], unfolded band_least_from(1) [OF expand(1) ceil top]] by simp_all
    then have "nv_seq nc \<in> G\<^sup>* `` (fst ` set m)" "nv_seq nc \<le> ceiling (map fst seeds) floor" using reach by blast+
    moreover have "node (nv_seq nc) = None" using index_reads [OF expand(1) miss(2) calculation(2) ceil] miss(3) by simp
    ultimately show ?thesis by (simp add: expand(3) walk_failure_def)
  next
    case facts
    then show ?thesis by (rule pack_facts_error)
  next
    case rec
    have one: "rc_seq one \<in> G\<^sup>* `` (fst ` set m) \<and> ci_get c (rc_seq one) \<noteq> None \<and> 0 \<le> rc_seq one \<and> rc_seq one \<le> i64_max"
      if at: "one \<in> set (db_reached band)" for one
    proof -
      have "least_from (down G floor) limit {(a, b) \<in> set m. floor \<le> a} (rc_seq one) (rc_depth one)" "ci_get c (rc_seq one) \<noteq> None"
        using expand_depth_ok(1) [OF rec(2) S [symmetric], unfolded band_least_from(2) [OF rec(1) ceil top]] at by auto
      then show ?thesis using reach [OF least_fromD(1)] below_reach [OF m(3), of "{rc_seq one}"] by auto
    qed
    have "oids s = name s \<and> (collect \<longrightarrow> facts_get packs s = pack s)" if "s \<in> rc_seq ` set (db_reached band)" for s
      using rec(3) that one pack_facts_ok [of "map rc_seq (db_reached band)" packs oids s] oids_read [of "map rc_seq (db_reached band)" oids s]
      by (cases collect) auto
    then show ?thesis using record_reached_error [OF rec(4)] one
      by (fastforce simp: walk_failure_def)
  qed
qed

lemma depth_from_none: "\<not> depth_from E limit {} s d"
proof
  assume "depth_from E limit {} s d"
  then show False by induction simp_all
qed

lemma depth_classify_loop_total:
  assumes "sorted_wrt (<) (map fst m)" "fst ` set m \<subseteq> {0..i64_max}" "policy_ok p" "fst ` set m \<subseteq> G\<^sup>* `` S"
    and "depth_inv G limit X P (set m)" "snd ` X \<subseteq> {1..}" "fst ` X \<subseteq> G\<^sup>* `` S" "classified_from g node pack name limit X collect P cl"
  shows "\<exists>r. depth_classify_loop g limit collect p m cl = Some r \<and>
    (case r of Inr cl' \<Rightarrow> \<exists>P. classified_from g node pack name limit X collect P cl' \<and> (\<forall>s d. depth_from G limit X s d \<longrightarrow> P \<le> s)
     | Inl e \<Rightarrow> fails S e)"
  using assms
proof (induction "nat P" arbitrary: P m cl p rule: less_induct)
  case less
  show ?case
  proof (cases "m = []")
    case True
    have "P \<le> s" if "depth_from G limit X s d" for s d
      using depth_invD(3) [OF less.prems(5) _ that] depth_from_none by (force simp: True not_less [symmetric])
    moreover have "depth_classify_loop g limit collect p m cl = Some (Inr cl)" using True by (subst depth_classify_loop.simps) simp
    ultimately show ?thesis using less.prems(8) by auto
  next
    case False
    define floor where "floor = sat_i64 (Max (fst ` set m) - (bp_current p - 1))"
    have top: "Max (fst ` set m) \<in> fst ` set m" using False by (intro Max_in) auto
    then have pos: "0 \<le> Max (fst ` set m)" using less.prems(2) by auto
    then have "i64_min \<le> Max (fst ` set m)" by (simp add: i64_min_def)
    then have le: "floor \<le> Max (fst ` set m)" using band_floor_le [OF less.prems(3)] by (simp add: floor_def band_floor_def)
    have step: "depth_classify_loop g limit collect p m cl = (case walk_depth_band g (bp_current p) limit collect m cl of Inl e \<Rightarrow> Some (Inl e)
        | Inr (m', cl') \<Rightarrow> depth_classify_loop g limit collect (policy_grow p) m' cl')"
      using False by (subst depth_classify_loop.simps) simp
    show ?thesis
    proof (cases "walk_depth_band g (bp_current p) limit collect m cl")
      case (Inl e)
      have "fails S e" using depth_band_error [OF Inl False less.prems(1,2) floor_def le] less.prems(4) by (rule walk_failure_mono)
      then show ?thesis unfolding step by (simp add: Inl)
    next
      case (Inr mc)
      obtain m' cl' where mc: "mc = (m', cl')" by force
      note ok = depth_band_ok [OF Inr [unfolded mc] False less.prems(1,2) floor_def le less.prems(5,6,8)]
      have "fst ` set m' \<subseteq> G\<^sup>* `` S"
      proof
        fix s assume "s \<in> fst ` set m'"
        then obtain d where "(s, d) \<in> set m'" by auto
        from depth_from_reach [OF depth_invD(2) [OF ok(3) this]] show "s \<in> G\<^sup>* `` S"
          using less.prems(7) by (auto intro: rtrancl_trans)
      qed
      moreover have "nat floor < nat P" using top pos ok(5) le depth_invD(1) [OF less.prems(5)] by force
      ultimately show ?thesis unfolding step
        using less.hyps [OF _ ok(1,2) policy_grow_ok [OF less.prems(3)] _ ok(3) less.prems(6,7) ok(4)] by (simp add: Inr mc)
    qed
  qed
qed

end

section \<open>Depths are distances\<close>

definition depth_of :: "(int \<Rightarrow> node option) \<Rightarrow> int set \<Rightarrow> int \<Rightarrow> int \<Rightarrow> bool" where
  "depth_of node wants s d \<longleftrightarrow> 1 \<le> d \<and> (\<exists>w \<in> wants. (w, s) \<in> parent_edges node ^^ nat (d - 1)) \<and>
     (\<forall>w \<in> wants. \<forall>k. (w, s) \<in> parent_edges node ^^ k \<longrightarrow> d \<le> int k + 1)"

lemma depth_from_path:
  assumes "limit \<le> i64_max"
  shows "depth_from E limit (W \<times> {1}) s d \<longleftrightarrow> 1 \<le> d \<and> (d = 1 \<or> d \<le> limit) \<and> (\<exists>w \<in> W. (w, s) \<in> E ^^ nat (d - 1))"
proof
  show "1 \<le> d \<and> (d = 1 \<or> d \<le> limit) \<and> (\<exists>w \<in> W. (w, s) \<in> E ^^ nat (d - 1))" if "depth_from E limit (W \<times> {1}) s d"
    using that
  proof induction
    case (step s d p)
    then obtain w where w: "w \<in> W" "(w, s) \<in> E ^^ nat (d - 1)" by blast
    have d: "sat_i64 (d + 1) = d + 1" using step assms by (auto simp: sat_i64_def i64_min_def)
    have "(w, p) \<in> E ^^ Suc (nat (d - 1))" using w(2) step.hyps(3) by auto
    moreover have "Suc (nat (d - 1)) = nat (d + 1 - 1)" using conjunct1 [OF step.IH] by linarith
    ultimately show ?case using step w(1) unfolding d by auto
  qed auto
  show "depth_from E limit (W \<times> {1}) s d" if at: "1 \<le> d \<and> (d = 1 \<or> d \<le> limit) \<and> (\<exists>w \<in> W. (w, s) \<in> E ^^ nat (d - 1))"
  proof -
    have walk: "depth_from E limit (W \<times> {1}) s (int k + 1)" if "w \<in> W" "(w, s) \<in> E ^^ k" "k = 0 \<or> int k + 1 \<le> limit" for k w s
      using that
    proof (induction k arbitrary: s)
      case (Suc k)
      then obtain b where b: "(w, b) \<in> E ^^ k" "(b, s) \<in> E" by auto
      have "depth_from E limit (W \<times> {1}) b (int k + 1)" using Suc b(1) by simp
      from depth_from.step [OF this _ b(2)] show ?case using Suc.prems assms by (simp add: sat_i64_def i64_min_def)
    qed (auto intro: depth_from.seed)
    from at obtain w where "w \<in> W" "(w, s) \<in> E ^^ nat (d - 1)" by blast
    from walk [OF this] show ?thesis using at by auto
  qed
qed

lemma least_from_depth:
  assumes "1 \<le> limit" "limit \<le> i64_max"
  shows "least_from (parent_edges node) limit (W \<times> {1}) s d \<longleftrightarrow> depth_of node W s d \<and> d \<le> limit"
proof
  note path = depth_from_path [OF assms(2), of "parent_edges node" W s]
  assume l: "least_from (parent_edges node) limit (W \<times> {1}) s d"
  then have d: "1 \<le> d" "d \<le> limit" "\<exists>w \<in> W. (w, s) \<in> parent_edges node ^^ nat (d - 1)"
    using least_fromD(1) [OF l] assms(1) by (auto simp: path)
  have "d \<le> int k + 1" if "w \<in> W" "(w, s) \<in> parent_edges node ^^ k" for w k
  proof (cases "int k + 1 \<le> limit")
    case True
    then have "depth_from (parent_edges node) limit (W \<times> {1}) s (int k + 1)" using that by (auto simp: path)
    then show ?thesis by (rule least_fromD(2) [OF l])
  qed (use d in simp)
  then show "depth_of node W s d \<and> d \<le> limit" using d by (simp add: depth_of_def)
next
  note path = depth_from_path [OF assms(2), of "parent_edges node" W s]
  assume r: "depth_of node W s d \<and> d \<le> limit"
  then have "depth_from (parent_edges node) limit (W \<times> {1}) s d" by (simp add: path depth_of_def)
  moreover have "d \<le> d'" if "depth_from (parent_edges node) limit (W \<times> {1}) s d'" for d'
    using that r by (fastforce simp: path depth_of_def)
  ultimately show "least_from (parent_edges node) limit (W \<times> {1}) s d" by (simp add: least_from_def)
qed

section \<open>A shallow fetch\<close>

text \<open>The commits within a depth of the wants, and the answer of a classification of them.\<close>

definition sent_within :: "(int \<Rightarrow> node option) \<Rightarrow> int set \<Rightarrow> int \<Rightarrow> int set" where
  "sent_within node wants limit = {s. \<exists>d \<le> limit. depth_of node wants s d}"

definition classified_ok ::
    "repo_graph \<Rightarrow> (int \<Rightarrow> node option) \<Rightarrow> (int \<Rightarrow> pack_node option) \<Rightarrow> (int \<rightharpoonup> oid) \<Rightarrow> int set \<Rightarrow> int \<Rightarrow> bool \<Rightarrow> depth_classified \<Rightarrow> bool" where
  "classified_ok g node pack name wants limit collect cl \<longleftrightarrow> sorted_wrt (<) (map fst (dc_sent cl)) \<and>
     (\<forall>s row. map_of (dc_sent cl) s = Some row \<longrightarrow> depth_of node wants s (sc_depth row) \<and> sc_depth row \<le> limit \<and> sent_row node name s row) \<and>
     fst ` set (dc_sent cl) = sent_within node wants limit \<and>
     (collect \<longrightarrow> (\<exists>seqs. gathered (rg_bitmap g) pack name seqs (dc_needed cl) \<and> distinct seqs \<and> set seqs = sent_within node wants limit))"

lemma depth_of_unique: "depth_of node W s d \<Longrightarrow> depth_of node W s d' \<Longrightarrow> d = d'"
proof -
  have "d \<le> d'" if a: "depth_of node W s d" "depth_of node W s d'" for d d'
  proof -
    obtain w where "w \<in> W" "(w, s) \<in> parent_edges node ^^ nat (d' - 1)" using a(2) by (auto simp: depth_of_def)
    then have "d \<le> int (nat (d' - 1)) + 1" using a(1) unfolding depth_of_def by blast
    then show ?thesis using a(2) by (simp add: depth_of_def)
  qed
  then show "depth_of node W s d \<Longrightarrow> depth_of node W s d' \<Longrightarrow> d = d'" by (meson order_antisym)
qed

lemma classified_row:
  assumes "classified_ok g node pack name W limit collect cl" "s \<in> sent_within node W limit"
  obtains row where "map_of (dc_sent cl) s = Some row" "depth_of node W s (sc_depth row)" "sent_row node name s row"
proof -
  have "s \<in> fst ` set (dc_sent cl)" using assms by (simp add: classified_ok_def)
  then obtain row where row: "map_of (dc_sent cl) s = Some row" by (metis map_of_eq_None_iff not_None_eq)
  then show thesis using that assms(1) unfolding classified_ok_def by blast
qed

lemma classified_boundary:
  assumes "classified_ok g node pack name W limit collect cl"
    and "bs = map fst (filter (\<lambda>(_, row). sc_depth row = limit) (dc_sent cl))"
  shows "sorted_wrt (<) bs" "set bs = {s. depth_of node W s limit}" "set bs \<subseteq> sent_within node W limit"
proof -
  have srt: "sorted_wrt (<) (map fst (dc_sent cl))" using assms(1) by (simp add: classified_ok_def)
  then show "sorted_wrt (<) bs" by (simp add: assms(2) sorted_wrt_map sorted_wrt_filter)
  have dist: "distinct (map fst (dc_sent cl))" using srt by (simp add: strict_sorted_iff)
  show eq: "set bs = {s. depth_of node W s limit}"
  proof (intro set_eqI iffI)
    fix s assume "s \<in> set bs"
    then obtain row where "(s, row) \<in> set (dc_sent cl)" "sc_depth row = limit" by (auto simp: assms(2))
    moreover have "map_of (dc_sent cl) s = Some row" using calculation(1) dist by simp
    ultimately show "s \<in> {s. depth_of node W s limit}" using assms(1) unfolding classified_ok_def by blast
  next
    fix s assume "s \<in> {s. depth_of node W s limit}"
    then have s: "depth_of node W s limit" by simp
    then have "s \<in> sent_within node W limit" by (auto simp: sent_within_def)
    from classified_row [OF assms(1) this] obtain row where row: "map_of (dc_sent cl) s = Some row" "depth_of node W s (sc_depth row)" by metis
    then have "sc_depth row = limit" "(s, row) \<in> set (dc_sent cl)" using depth_of_unique [OF s] map_of_SomeD by fastforce+
    then show "s \<in> set bs" by (force simp: assms(2))
  qed
  show "set bs \<subseteq> sent_within node W limit" unfolding eq by (auto simp: sent_within_def)
qed

text \<open>What the rows of sent commits carry.\<close>

lemma classified_rows:
  assumes "classified_ok g node pack name W limit collect cl" "set xs \<subseteq> sent_within node W limit"
  shows "map Some (map sc_oid (List.map_filter (map_of (dc_sent cl)) xs)) = map name xs"
    and "map Some (map sc_root_tree_seq (List.map_filter (map_of (dc_sent cl)) xs)) = map (\<lambda>s. map_option (\<lambda>n. ucast (nd_root_tree n)) (node s)) xs"
    and "concat (map sc_parent_seqs (List.map_filter (map_of (dc_sent cl)) xs)) = concat (map (parents_in node) xs)"
proof -
  have "map Some (map sc_oid (List.map_filter (map_of (dc_sent cl)) xs)) = map name xs \<and>
    map Some (map sc_root_tree_seq (List.map_filter (map_of (dc_sent cl)) xs)) = map (\<lambda>s. map_option (\<lambda>n. ucast (nd_root_tree n)) (node s)) xs \<and>
    concat (map sc_parent_seqs (List.map_filter (map_of (dc_sent cl)) xs)) = concat (map (parents_in node) xs)"
    using assms(2)
  proof (induction xs)
    case (Cons x xs)
    from Cons.prems have "x \<in> sent_within node W limit" by simp
    from classified_row [OF assms(1) this] obtain row where "map_of (dc_sent cl) x = Some row" "sent_row node name x row" by metis
    then show ?case using Cons by (auto simp: map_filter_simps sent_row_def parents_in_def)
  qed (simp add: map_filter_simps)
  then show "map Some (map sc_oid (List.map_filter (map_of (dc_sent cl)) xs)) = map name xs"
    "map Some (map sc_root_tree_seq (List.map_filter (map_of (dc_sent cl)) xs)) = map (\<lambda>s. map_option (\<lambda>n. ucast (nd_root_tree n)) (node s)) xs"
    "concat (map sc_parent_seqs (List.map_filter (map_of (dc_sent cl)) xs)) = concat (map (parents_in node) xs)" by simp_all
qed

lemma classified_inside:
  assumes "classified_ok g node pack name W limit collect cl"
  shows "(case map_of (dc_sent cl) s of None \<Rightarrow> False | Some c \<Rightarrow> sc_depth c \<noteq> limit) \<longleftrightarrow> s \<in> sent_within node W limit - {s. depth_of node W s limit}"
proof (cases "s \<in> sent_within node W limit")
  case True
  from classified_row [OF assms True] obtain row where row: "map_of (dc_sent cl) s = Some row" "depth_of node W s (sc_depth row)" by metis
  then show ?thesis using True depth_of_unique [OF row(2), of limit] by auto
next
  case False
  then have "map_of (dc_sent cl) s = None" using assms by (auto simp: classified_ok_def map_of_eq_None_iff)
  then show ?thesis using False by simp
qed

lemma within_reach: "sent_within node W limit \<subseteq> (parent_edges node)\<^sup>* `` W"
  by (auto simp: sent_within_def depth_of_def dest: relpow_imp_rtrancl)

text \<open>What a shallow fetch has to answer with: the boundary at the depth, the commits the client has to take as
  parentless from now on and those it no longer has to, and the commits to send.\<close>

definition shallow_answer ::
    "repo_graph \<Rightarrow> (int \<Rightarrow> node option) \<Rightarrow> (int \<Rightarrow> pack_node option) \<Rightarrow> (int \<rightharpoonup> oid) \<Rightarrow> walk_seeds \<Rightarrow> int \<Rightarrow> shallow_commits \<Rightarrow> bool" where
  "shallow_answer g node pack name seeds depth res \<longleftrightarrow>
     (let wants = set (ws_wants seeds); boundary = {s. depth_of node wants s depth};
          unshallowed = filter (\<lambda>s. s \<in> sent_within node wants depth - boundary) (ws_shallow seeds) in
      (\<exists>bs. sorted_wrt (<) bs \<and> set bs = boundary \<and>
         map Some (sh_shallow res) = map name (filter (\<lambda>s. s \<notin> set (ws_shallow seeds)) bs) \<and>
         map Some (sh_boundary_roots res) = map (\<lambda>s. map_option (\<lambda>n. ucast (nd_root_tree n)) (node s)) bs) \<and>
      map Some (sh_unshallow res) = map name unshallowed \<and>
      (\<exists>seqs. gathered (rg_bitmap g) pack name seqs (sh_needed res) \<and> distinct seqs \<and>
         set seqs = (if ws_haves seeds = [] then sent_within node wants depth
           else painted node (boundary \<union> set (ws_shallow seeds)) (wants \<union> parent_edges node `` set unshallowed) -
                painted node (set (ws_shallow seeds)) (set (ws_haves seeds)))))"

context history
begin

lemma classified_all:
  assumes "classified_from g node pack name limit (W \<times> {1}) collect P cl" "1 \<le> limit" "limit \<le> i64_max"
    and all: "\<And>s d. depth_from G limit (W \<times> {1}) s d \<Longrightarrow> P \<le> s"
  shows "classified_ok g node pack name W limit collect cl"
proof -
  note least = least_from_depth [OF assms(2,3), of node W]
  have within: "sent_within node W limit = {s. P \<le> s \<and> (\<exists>d. least_from G limit (W \<times> {1}) s d)}"
  proof -
    have "s \<in> sent_within node W limit \<longleftrightarrow> (\<exists>d. least_from G limit (W \<times> {1}) s d)" for s
      unfolding least sent_within_def by auto
    then show ?thesis using all least_fromD(1) by blast
  qed
  have rows: "P \<le> s \<and> least_from G limit (W \<times> {1}) s (sc_depth row) \<and> sent_row node name s row" if "map_of (dc_sent cl) s = Some row" for s row
    using assms(1) that unfolding classified_from_def by blast
  have there: "map_of (dc_sent cl) s \<noteq> None" if "P \<le> s" "least_from G limit (W \<times> {1}) s d" for s d
    using assms(1) that unfolding classified_from_def by blast
  have "fst ` set (dc_sent cl) = sent_within node W limit"
  proof (intro set_eqI iffI)
    fix s assume "s \<in> fst ` set (dc_sent cl)"
    then obtain row where "map_of (dc_sent cl) s = Some row" by (metis map_of_eq_None_iff not_None_eq)
    then show "s \<in> sent_within node W limit" using rows unfolding within by blast
  next
    fix s assume "s \<in> sent_within node W limit"
    then have "map_of (dc_sent cl) s \<noteq> None" unfolding within using there by blast
    then show "s \<in> fst ` set (dc_sent cl)" by (simp add: map_of_eq_None_iff)
  qed
  moreover have "depth_of node W s (sc_depth row) \<and> sc_depth row \<le> limit \<and> sent_row node name s row" if "map_of (dc_sent cl) s = Some row" for s row
    using rows [OF that] least by simp
  moreover have "\<exists>seqs. gathered (rg_bitmap g) pack name seqs (dc_needed cl) \<and> distinct seqs \<and> set seqs = sent_within node W limit" if collect
    using assms(1) that unfolding classified_from_def within by simp
  moreover have "sorted_wrt (<) (map fst (dc_sent cl))" using assms(1) by (simp add: classified_from_def)
  ultimately show ?thesis by (simp add: classified_ok_def)
qed

lemma depth_classify_total:
  assumes "set wants \<subseteq> {0..i64_max}" "policy_ok p" "1 \<le> limit" "limit \<le> i64_max"
  shows "\<exists>r. depth_classify g wants limit collect p = Some r \<and>
    (case r of Inr cl \<Rightarrow> classified_ok g node pack name (set wants) limit collect cl | Inl e \<Rightarrow> fails (set wants) e)"
proof -
  let ?m = "foldl (\<lambda>m seq. min_entry seq 1 m) [] wants" and ?X = "set wants \<times> {1}"
  have m: "sorted_wrt (<) (map fst ?m)" "map_of ?m s = (if s \<in> set wants then Some 1 else None)" for s
    using seeded [of "[]" wants s] by simp_all
  then have dist: "distinct (map fst ?m)" by (simp add: strict_sorted_iff)
  have "(a, b) \<in> set ?m \<longleftrightarrow> a \<in> set wants \<and> b = 1" for a b
    using map_of_eq_Some_iff [OF dist, of a b] m(2) [of a] by (auto split: if_splits)
  then have sm: "set ?m = ?X" by auto
  have keys: "fst ` set ?m = set wants" unfolding sm by force
  have high: "s < i64_max + 1" if "depth_from G limit ?X s d" for s d
  proof -
    have "{s} \<subseteq> G\<^sup>* `` set wants" using depth_from_reach [OF that] by auto
    from below_reach [OF assms(1) this] show ?thesis by simp
  qed
  have "depth_inv G limit ?X (i64_max + 1) (set ?m)"
    unfolding sm depth_inv_def using assms(1) by (auto intro: depth_from.seed)
  moreover have "classified_from g node pack name limit ?X collect (i64_max + 1) no_classified"
    using high gathered_Nil [of "rg_bitmap g" pack name]
    by (fastforce simp: classified_from_def no_classified_def least_from_def)
  ultimately obtain r where r: "depth_classify g wants limit collect p = Some r"
    "case r of Inr cl' \<Rightarrow> \<exists>P. classified_from g node pack name limit ?X collect P cl' \<and> (\<forall>s d. depth_from G limit ?X s d \<longrightarrow> P \<le> s)
     | Inl e \<Rightarrow> fails (set wants) e"
    using depth_classify_loop_total [of ?m p "set wants" limit ?X "i64_max + 1" collect no_classified] m(1) assms(1,2)
    unfolding keys depth_classify_def by fastforce
  then show ?thesis using classified_all [OF _ assms(3,4)] by (cases r) (simp, simp, blast)
qed

lemma needed_commits_shallow_total:
  assumes "set (ws_wants seeds) \<union> set (ws_haves seeds) \<subseteq> {0..i64_max}" "policy_ok p" "0 < depth" "depth \<le> i64_max" "ws_wants seeds \<noteq> []"
  shows "\<exists>r. needed_commits_shallow g seeds depth p = Some r \<and>
    (case r of Inr res \<Rightarrow> shallow_answer g node pack name seeds depth res
     | Inl e \<Rightarrow> fails (set (ws_wants seeds) \<union> set (ws_haves seeds)) e)"
proof -
  let ?W = "set (ws_wants seeds)" and ?fast = "ws_haves seeds = []"
  obtain r where r: "depth_classify g (ws_wants seeds) depth ?fast p = Some r"
    "case r of Inr cl \<Rightarrow> classified_ok g node pack name ?W depth ?fast cl | Inl e \<Rightarrow> fails ?W e"
    using depth_classify_total [of "ws_wants seeds" p depth ?fast] assms by auto
  show ?thesis
  proof (cases r)
    case (Inl e)
    then have "fails (?W \<union> set (ws_haves seeds)) e" using r(2) by (auto intro: walk_failure_mono)
    then show ?thesis using r(1) Inl assms by (simp add: needed_commits_shallow_def)
  next
    case (Inr cl)
    then have cl: "classified_ok g node pack name ?W depth ?fast cl" using r(2) by simp
    define bs where "bs = map fst (filter (\<lambda>(_, row). sc_depth row = depth) (dc_sent cl))"
    note b = classified_boundary [OF cl bs_def]
    define us where "us = filter (\<lambda>s. s \<in> sent_within node ?W depth - {s. depth_of node ?W s depth}) (ws_shallow seeds)"
    have us: "filter (\<lambda>seq. case map_of (dc_sent cl) seq of None \<Rightarrow> False | Some c \<Rightarrow> sc_depth c \<noteq> depth) (ws_shallow seeds) = us"
      unfolding us_def classified_inside [OF cl] ..
    have sub: "set us \<subseteq> sent_within node ?W depth" by (auto simp: us_def)
    define wants where "wants = ws_wants seeds @ concat (map (parents_in node) us)"
    have ws: "set wants = ?W \<union> G `` set us" by (auto simp: wants_def parent_edges_def)
    have "set us \<subseteq> G\<^sup>* `` ?W" using sub within_reach [of node ?W depth] by blast
    then have "G `` set us \<subseteq> G\<^sup>* `` ?W" by (auto intro: rtrancl_into_rtrancl)
    then have reach: "set wants \<union> set (ws_haves seeds) \<subseteq> G\<^sup>* `` (?W \<union> set (ws_haves seeds))" unfolding ws by blast
    define walk where "walk = (if ?fast then Some (Inr (dc_needed cl)) else banded_paint_walk g wants (ws_haves seeds) (bs @ ws_shallow seeds) (ws_shallow seeds) p)"
    have run: "needed_commits_shallow g seeds depth p = (case walk of None \<Rightarrow> None | Some (Inl e) \<Rightarrow> Some (Inl e)
        | Some (Inr needed) \<Rightarrow> Some (Inr \<lparr>sh_needed = needed,
            sh_shallow = map sc_oid (List.map_filter (map_of (dc_sent cl)) (filter (\<lambda>s. s \<notin> set (ws_shallow seeds)) bs)),
            sh_unshallow = map sc_oid (List.map_filter (map_of (dc_sent cl)) us),
            sh_boundary_roots = map sc_root_tree_seq (List.map_filter (map_of (dc_sent cl)) bs)\<rparr>))"
      unfolding needed_commits_shallow_def Let_def r(1) Inr option.case sum.case us classified_rows(3) [OF cl sub] bs_def [symmetric]
        walk_def wants_def using assms(3,5) by simp
    obtain w where w: "walk = Some w" "case w of Inr n \<Rightarrow> \<exists>seqs. gathered (rg_bitmap g) pack name seqs n \<and> distinct seqs \<and>
         set seqs = (if ?fast then sent_within node ?W depth
           else painted node ({s. depth_of node ?W s depth} \<union> set (ws_shallow seeds)) (?W \<union> G `` set us) -
                painted node (set (ws_shallow seeds)) (set (ws_haves seeds)))
      | Inl e \<Rightarrow> fails (?W \<union> set (ws_haves seeds)) e"
    proof (cases ?fast)
      case True
      then show thesis using that [of "Inr (dc_needed cl)"] cl by (simp add: walk_def classified_ok_def)
    next
      case False
      have "set wants \<union> set (ws_haves seeds) \<subseteq> {0..i64_max}" by (rule below_reach [OF assms(1) reach])
      from banded_paint_walk_total [OF this assms(2), of "ws_shallow seeds" "bs @ ws_shallow seeds"]
      obtain w where w: "walk = Some w" "case w of Inr n \<Rightarrow> \<exists>seqs. gathered (rg_bitmap g) pack name seqs n \<and> distinct seqs \<and>
          set seqs = painted node (set (bs @ ws_shallow seeds)) (set wants) - painted node (set (ws_shallow seeds)) (set (ws_haves seeds))
        | Inl e \<Rightarrow> fails (set wants \<union> set (ws_haves seeds)) e"
        using False by (auto simp: walk_def)
      then show thesis using that [of w] False walk_failure_mono [OF _ reach] by (cases w) (simp_all add: ws b(2))
    qed
    show ?thesis
    proof (cases w)
      case (Inl e)
      then show ?thesis using run w by simp
    next
      case needed: (Inr n)
      have "set (filter (\<lambda>s. s \<notin> set (ws_shallow seeds)) bs) \<subseteq> sent_within node ?W depth" using b(3) by auto
      note rows = classified_rows(1) [OF cl this] classified_rows(1) [OF cl sub] classified_rows(2) [OF cl b(3)]
      have "shallow_answer g node pack name seeds depth \<lparr>sh_needed = n,
            sh_shallow = map sc_oid (List.map_filter (map_of (dc_sent cl)) (filter (\<lambda>s. s \<notin> set (ws_shallow seeds)) bs)),
            sh_unshallow = map sc_oid (List.map_filter (map_of (dc_sent cl)) us),
            sh_boundary_roots = map sc_root_tree_seq (List.map_filter (map_of (dc_sent cl)) bs)\<rparr>"
        using w(2) b(1,2) rows unfolding shallow_answer_def Let_def needed us_def [symmetric] by auto
      then show ?thesis using run w(1) needed by simp
    qed
  qed
qed

end

text \<open>C26: A shallow fetch of a depth that is not positive is refused. Otherwise it always returns, and answers with the
  commits at exactly that depth from the nearest want that the client does not hold as shallow yet, with the client's shallow
  commits that are now inside the cut, with the root trees of the boundary, and with the commits to send: everything within
  the depth when the client has nothing, else what the wants and the parents of the commits no longer shallow reach above
  the new boundary and the client's shallow commits, less what the haves reach.\<close>

theorem needed_commits_shallow_correct:
  assumes "history g node pack name" "policy_ok policy" "set (ws_wants seeds) \<union> set (ws_haves seeds) \<subseteq> {0..i64_max}"
    "depth \<le> i64_max" "ws_wants seeds \<noteq> []"
  shows "if depth \<le> 0 then needed_commits_shallow g seeds depth policy = Some (Inl WDepth)
    else \<exists>r. needed_commits_shallow g seeds depth policy = Some r \<and>
      (case r of Inr res \<Rightarrow> shallow_answer g node pack name seeds depth res
       | Inl e \<Rightarrow> walk_failure g node pack name (set (ws_wants seeds) \<union> set (ws_haves seeds)) e)"
  using history.needed_commits_shallow_total [OF assms(1,3,2) _ assms(4,5)] by (simp add: needed_commits_shallow_def [of g seeds])

theorem needed_commits_shallow_correct_witness:
  "\<exists>r. needed_commits_shallow held_repo \<lparr>ws_wants = [7], ws_haves = [5], ws_shallow = [5]\<rparr> 1 policy_production = Some r"
  using needed_commits_shallow_correct [OF held_history.history_axioms policy_production_ok,
    of "\<lparr>ws_wants = [7], ws_haves = [5], ws_shallow = [5]\<rparr>" 1]
  by (simp add: i64_max_def) blast

end
