(* ===== verification/Object_Index.thy ===== *)
theory Object_Index
  imports Pack_Index
begin

text \<open>
  The object index, \<open>git/objects/src/index.rs\<close> and \<open>format.rs\<close>: for every object of one kind the packs it
  is stored in and, for a tree, what it names. The value is a list of pairs in ascending seq order. A
  roaring bitmap is the set it represents, and its codec a parameter; an object id is its bytes.
\<close>

section \<open>Locations\<close>

definition NO_BASE :: u64 where
  "NO_BASE = - 1"

datatype location = Location (lc_pack_seq: int) (lc_pack_oid: oid) (lc_segment: segment_location) (lc_offset: u64)
  (lc_entry_len: u64) (lc_base_seq: "u64 option")

text \<open>The derived order is lexicographic in the order of the fields, and \<open>None\<close> is below every \<open>Some\<close>.\<close>

definition location_key :: "location \<Rightarrow> int \<times> oid \<times> (u128 \<times> u64 \<times> u64) \<times> u64 \<times> u64 \<times> u64 option" where
  "location_key l = (lc_pack_seq l, lc_pack_oid l, (sl_id (lc_segment l), sl_base_offset (lc_segment l), sl_image_len (lc_segment l)),
     lc_offset l, lc_entry_len l, lc_base_seq l)"

lemma location_key_inject: "location_key a = location_key b \<longleftrightarrow> a = b"
  by (cases a; cases b) (auto simp: location_key_def)

instantiation location :: linorder
begin

definition less_eq_location :: "location \<Rightarrow> location \<Rightarrow> bool" where
  "less_eq_location a b \<longleftrightarrow> location_key a \<le> location_key b"

definition less_location :: "location \<Rightarrow> location \<Rightarrow> bool" where
  "less_location a b \<longleftrightarrow> location_key a < location_key b"

instance
  by standard (auto simp: less_eq_location_def less_location_def location_key_inject [symmetric] less_le)

end

lemma location_le_pack: "a \<le> b \<Longrightarrow> lc_pack_seq a \<le> lc_pack_seq b"
  by (auto simp: less_eq_location_def location_key_def less_eq_prod_def)

text \<open>\<open>dedup_by\<close>, whose closure overwrites the one it keeps with the later one of the same pack.\<close>

fun keep_newest_per_pack :: "location list \<Rightarrow> location list" where
  "keep_newest_per_pack (earlier # later # rest) =
     (if lc_pack_seq later \<noteq> lc_pack_seq earlier then earlier # keep_newest_per_pack (later # rest)
      else keep_newest_per_pack (later # rest))"
| "keep_newest_per_pack locations = locations"

record object =
  ob_locations :: "location list"
  ob_children :: object_seqs

definition no_object :: object where
  "no_object = \<lparr>ob_locations = [], ob_children = os_empty\<rparr>"

definition introducing :: "object \<Rightarrow> location option" where
  "introducing ob = (case ob_locations ob of [] \<Rightarrow> None | l # _ \<Rightarrow> Some l)"

definition ob_is_empty :: "object \<Rightarrow> bool" where
  "ob_is_empty ob \<longleftrightarrow> ob_locations ob = [] \<and> os_is_empty (ob_children ob)"

definition ob_absorb :: "object \<Rightarrow> object \<Rightarrow> object" where
  "ob_absorb self other =
     (let children = os_absorb (ob_children self) (ob_children other) in
      if ob_locations other = [] then self\<lparr>ob_children := children\<rparr>
      else \<lparr>ob_locations = keep_newest_per_pack (remdups_adj (sort (ob_locations self @ ob_locations other))),
            ob_children = children\<rparr>)"

section \<open>Building and reading\<close>

type_synonym object_index = "(u64 \<times> object) list"

text \<open>\<open>entry(seq).or_default()\<close> of a \<open>BTreeMap\<close>, updated in place.\<close>

definition entry_update :: "u64 \<Rightarrow> (object \<Rightarrow> object) \<Rightarrow> object_index \<Rightarrow> object_index" where
  "entry_update seq f m = btree_insert seq (f (case map_of m seq of None \<Rightarrow> no_object | Some ob \<Rightarrow> ob)) m"

definition locate :: "object_index \<Rightarrow> u64 \<Rightarrow> location \<Rightarrow> object_index" where
  "locate objects seq location = entry_update seq (\<lambda>ob.
     if location \<in> set (ob_locations ob) then ob
     else ob\<lparr>ob_locations := keep_newest_per_pack (sort (ob_locations ob @ [location]))\<rparr>) objects"

definition record_children :: "object_index \<Rightarrow> u64 \<Rightarrow> object_seqs \<Rightarrow> object_index" where
  "record_children objects seq children =
     (if os_is_empty children then objects
      else entry_update seq (\<lambda>ob. ob\<lparr>ob_children := os_absorb (ob_children ob) children\<rparr>) objects)"

definition objects_build :: "object_index \<Rightarrow> object_index" where
  "objects_build objects = filter (\<lambda>(_, ob). \<not> ob_is_empty ob) objects"

text \<open>A binary search of \<open>entries\<close> between two positions.\<close>

function binary_search :: "object_index \<Rightarrow> u64 \<Rightarrow> nat \<Rightarrow> nat \<Rightarrow> nat option" where
  "binary_search entries seq lo hi =
     (if hi \<le> lo then None
      else let mid = (lo + hi) div 2; held = fst (entries ! mid) in
        if held = seq then Some mid
        else if held < seq then binary_search entries seq (mid + 1) hi
        else binary_search entries seq lo mid)"
  by pat_completeness auto

termination
  by (relation "measure (\<lambda>(entries, seq, lo, hi). hi - lo)") auto

declare binary_search.simps [simp del]

definition oi_get :: "object_index \<Rightarrow> u64 \<Rightarrow> object option" where
  "oi_get entries seq = (case binary_search entries seq 0 (length entries) of None \<Rightarrow> None
     | Some at \<Rightarrow> map_option snd (get_at entries at))"

definition oi_join :: "object_index \<Rightarrow> object_index \<Rightarrow> object_index" where
  "oi_join self other =
     (if other = [] then self
      else if self = [] then other
      else foldl (\<lambda>merged (seq, ob). entry_update seq (\<lambda>held. ob_absorb held ob) merged)
        (foldl (\<lambda>m (seq, ob). btree_insert seq ob m) [] self) other)"

definition oi_range :: "object_index \<Rightarrow> key_range option" where
  "oi_range entries = (if entries = [] then None
     else (case key_range_new (fst (hd entries)) (fst (last entries)) of Inl _ \<Rightarrow> None | Inr r \<Rightarrow> Some r))"

section \<open>Encoding\<close>

definition ENTRY :: nat where
  "ENTRY = 20"

definition OBJECTS :: layout where
  "OBJECTS = \<lparr>lo_magic = [79, 73, 88, 49], lo_record = ENTRY, lo_unit = 1\<rparr>"

definition LOCATION :: nat where
  "LOCATION = 84"

datatype objects_malformed = OFrame frame | StrayHeap u32 | Unsorted nat | OBitmap

definition location_bytes :: "location \<Rightarrow> bytes" where
  "location_bytes l = to_le64 (of_int (lc_pack_seq l)) @ to_le64 (lc_offset l) @ to_le64 (lc_entry_len l) @
     to_le64 (case lc_base_seq l of None \<Rightarrow> NO_BASE | Some b \<Rightarrow> b) @ lc_pack_oid l @ to_le128 (sl_id (lc_segment l)) @
     to_le64 (sl_base_offset (lc_segment l)) @ to_le64 (sl_image_len (lc_segment l))"

definition stow_locations :: "location list \<Rightarrow> bytes \<Rightarrow> u32 \<times> bytes" where
  "stow_locations locations heap =
     (if locations = [] then (TAIL_NONE, heap)
      else (case try_u32 (length heap) of Some at \<Rightarrow> at | None \<Rightarrow> TAIL_NONE,
            heap @ to_le32 (case try_u32 (length locations) of Some n \<Rightarrow> n | None \<Rightarrow> 0) @ concat (map location_bytes locations)))"

definition read_location :: "u32 \<Rightarrow> bytes \<Rightarrow> (objects_malformed, location) result" where
  "read_location at r =
     (let base_seq = field64 r 24 in
      rbind (ok_or (slice r 32 52) (StrayHeap at)) (\<lambda>oid.
      Inr (Location (sint (field64 r 0)) oid
        \<lparr>sl_id = field128 r 52, sl_base_offset = field64 r 68, sl_image_len = field64 r 76\<rparr>
        (field64 r 8) (field64 r 16) (if base_seq \<noteq> NO_BASE then Some base_seq else None))))"

definition read_locations :: "u32 \<Rightarrow> bytes \<Rightarrow> (objects_malformed, location list) result" where
  "read_locations at heap =
     (if at = TAIL_NONE then Inr []
      else rbind (ok_or (tail_length at heap) (StrayHeap at)) (\<lambda>count.
        collect_results (map (\<lambda>index. let r = unat at + 4 + index * LOCATION in
          rbind (ok_or (if usize_max < r then None else slice heap r (r + LOCATION)) (StrayHeap at)) (read_location at))
          [0..<unat count])))"

definition stow_children :: "(u64 set \<Rightarrow> bytes option) \<Rightarrow> u64 set \<Rightarrow> bytes \<Rightarrow> u32 \<times> bytes" where
  "stow_children ser bitmap heap = (case stow_bitmap ser bitmap heap of None \<Rightarrow> (TAIL_NONE, heap) | Some r \<Rightarrow> r)"

definition read_children :: "(bytes \<Rightarrow> u64 set option) \<Rightarrow> u32 \<Rightarrow> bytes \<Rightarrow> (objects_malformed, u64 set) result" where
  "read_children de at heap =
     rbind (ok_or (fetch at heap) (StrayHeap at)) (\<lambda>encoded. ok_or (decode_bitmap de encoded) OBitmap)"

definition encode_object :: "(u64 set \<Rightarrow> bytes option) \<Rightarrow> bytes \<times> bytes \<Rightarrow> u64 \<times> object \<Rightarrow> bytes \<times> bytes" where
  "encode_object ser acc entry = (case acc of (entries, heap) \<Rightarrow> case entry of (seq, ob) \<Rightarrow>
     (case stow_locations (ob_locations ob) heap of (locations, heap) \<Rightarrow>
     (case stow_children ser (os_trees (ob_children ob)) heap of (trees, heap) \<Rightarrow>
     (case stow_children ser (os_blobs (ob_children ob)) heap of (blobs, heap) \<Rightarrow>
       (entries @ to_le64 seq @ to_le32 locations @ to_le32 trees @ to_le32 blobs, heap)))))"

definition oi_encode :: "(u64 set \<Rightarrow> bytes option) \<Rightarrow> object_index \<Rightarrow> bytes" where
  "oi_encode ser index = (case foldl (encode_object ser) ([], []) index of (entries, heap) \<Rightarrow>
     write_header \<lparr>fh_first = (case index of [] \<Rightarrow> 0 | (seq, _) # _ \<Rightarrow> seq), fh_records = length index,
       fh_tail = length heap\<rparr> OBJECTS [] @ entries @ heap)"

definition read_object ::
    "(bytes \<Rightarrow> u64 set option) \<Rightarrow> bytes \<Rightarrow> bytes \<Rightarrow> (objects_malformed, object) result" where
  "read_object de entry heap =
     rbind (read_locations (field32 entry 8) heap) (\<lambda>locations.
     rbind (read_children de (field32 entry 12) heap) (\<lambda>trees.
     rbind (read_children de (field32 entry 16) heap) (\<lambda>blobs.
     Inr \<lparr>ob_locations = locations, ob_children = \<lparr>os_trees = trees, os_blobs = blobs\<rparr>\<rparr>)))"

text \<open>The loop over the entries from position \<open>at\<close>, with the seq before it.\<close>

fun decode_entries ::
    "(bytes \<Rightarrow> u64 set option) \<Rightarrow> bytes \<Rightarrow> bytes \<Rightarrow> frame \<Rightarrow> key_range \<Rightarrow> nat list \<Rightarrow> u64 option \<Rightarrow> (objects_malformed, object_index) result" where
  "decode_entries de body heap truncated r [] previous = Inr []"
| "decode_entries de body heap truncated r (at # rest) previous =
     (let pos = sat_usize (at * ENTRY) in
      rbind (ok_or (slice body pos (pos + ENTRY)) (OFrame truncated)) (\<lambda>entry.
      let seq = field64 entry 0 in
      if (case previous of None \<Rightarrow> False | Some held \<Rightarrow> seq \<le> held) then Inl (Unsorted at)
      else if seq < kr_first r \<or> kr_last r < seq then decode_entries de body heap truncated r rest (Some seq)
      else rbind (read_object de entry heap) (\<lambda>ob.
           rbind (decode_entries de body heap truncated r rest (Some seq)) (\<lambda>more. Inr ((seq, ob) # more)))))"

definition oi_decode_range :: "(bytes \<Rightarrow> u64 set option) \<Rightarrow> bytes \<Rightarrow> key_range \<Rightarrow> (objects_malformed, object_index) result" where
  "oi_decode_range de bytes r =
     (case read_header bytes OBJECTS of Inl e \<Rightarrow> Inl (OFrame e)
      | Inr header \<Rightarrow>
          let body = drop HEADER bytes;
              heap = drop (sat_usize (fh_records header * ENTRY)) body in
          decode_entries de body heap (Truncated (HEADER + fh_records header * ENTRY) (length bytes)) r
            [0..<fh_records header] None)"

definition objects_ops :: "(u64 set \<Rightarrow> bytes option) \<Rightarrow> (bytes \<Rightarrow> u64 set option) \<Rightarrow> (object_index, objects_malformed) segment_ops" where
  "objects_ops ser de = \<lparr>so_join = oi_join, so_range = oi_range, so_encode = oi_encode ser, so_decode_range = oi_decode_range de\<rparr>"

lemma objects_ops_simps [simp]:
  "so_join (objects_ops ser de) = oi_join" "so_range (objects_ops ser de) = oi_range"
  "so_encode (objects_ops ser de) = oi_encode ser" "so_decode_range (objects_ops ser de) = oi_decode_range de"
  by (simp_all add: objects_ops_def)

section \<open>Locations by pack\<close>

text \<open>A reduced list of locations holds one per pack, in pack order; it is its answer for every pack.\<close>

definition reduced :: "location list \<Rightarrow> bool" where
  "reduced ls \<longleftrightarrow> sorted_wrt (\<lambda>a b. lc_pack_seq a < lc_pack_seq b) ls"

definition newest_of :: "location list \<Rightarrow> int \<Rightarrow> location option" where
  "newest_of ls p = (let S = {l \<in> set ls. lc_pack_seq l = p} in if S = {} then None else Some (Max S))"

lemma newest_of_Some: "newest_of ls p = Some l \<longleftrightarrow> l \<in> set ls \<and> lc_pack_seq l = p \<and> (\<forall>l' \<in> set ls. lc_pack_seq l' = p \<longrightarrow> l' \<le> l)"
  unfolding newest_of_def Let_def by (auto simp: Max_eq_iff)

lemma newest_of_None: "newest_of ls p = None \<longleftrightarrow> (\<forall>l \<in> set ls. lc_pack_seq l \<noteq> p)"
  unfolding newest_of_def Let_def by auto

lemma newest_of_ge:
  assumes "l \<in> set ls"
  shows "\<exists>m. newest_of ls (lc_pack_seq l) = Some m \<and> l \<le> m"
proof (cases "newest_of ls (lc_pack_seq l)")
  case None
  then show ?thesis using assms unfolding newest_of_None by blast
next
  case (Some m)
  then show ?thesis using assms unfolding newest_of_Some by blast
qed

lemma newest_of_append: "newest_of (a @ b) p = max (newest_of a p) (newest_of b p)"
proof -
  define A B where "A = {l \<in> set a. lc_pack_seq l = p}" and "B = {l \<in> set b. lc_pack_seq l = p}"
  have "{l \<in> set (a @ b). lc_pack_seq l = p} = A \<union> B" by (auto simp: A_def B_def)
  moreover have "A \<noteq> {} \<Longrightarrow> B \<noteq> {} \<Longrightarrow> Max (A \<union> B) = max (Max A) (Max B)" by (rule Max_Un) (auto simp: A_def B_def)
  moreover have "max (Some x) (Some y) = Some (max x y)" for x y :: location by (simp add: max_def)
  ultimately show ?thesis
    unfolding newest_of_def Let_def A_def [symmetric] B_def [symmetric] by (cases "A = {}"; cases "B = {}") simp_all
qed

lemma newest_of_set: "set a = set b \<Longrightarrow> newest_of a = newest_of b"
  by (simp add: newest_of_def fun_eq_iff)

lemma reduced_distinct: "reduced ls \<Longrightarrow> a \<in> set ls \<Longrightarrow> b \<in> set ls \<Longrightarrow> lc_pack_seq a = lc_pack_seq b \<Longrightarrow> a = b"
  unfolding reduced_def by (induction ls) auto

lemma reduced_newest:
  assumes "reduced ls"
  shows "newest_of ls p = Some l \<longleftrightarrow> l \<in> set ls \<and> lc_pack_seq l = p"
proof -
  have "l' \<le> l" if "l \<in> set ls" "l' \<in> set ls" "lc_pack_seq l' = lc_pack_seq l" for l'
    using reduced_distinct [OF assms that(2,1,3)] by simp
  then show ?thesis unfolding newest_of_Some by auto
qed

lemma location_less_pack: "lc_pack_seq a < lc_pack_seq b \<Longrightarrow> a < b"
  using location_le_pack [of b a] by (meson leD leI)

lemma reduced_sorted: "reduced ls \<Longrightarrow> sorted_wrt (<) ls"
  unfolding reduced_def by (erule sorted_wrt_mono_rel [rotated]) (rule location_less_pack)

lemma reduced_ext:
  assumes "reduced a" "reduced b" "newest_of a = newest_of b"
  shows "a = b"
proof -
  have "l \<in> set a \<longleftrightarrow> l \<in> set b" for l
    using reduced_newest [OF assms(1), of "lc_pack_seq l" l] reduced_newest [OF assms(2), of "lc_pack_seq l" l] assms(3) by simp
  then have "set a = set b" by blast
  then show ?thesis using reduced_sorted assms(1,2) by (intro strict_sorted_equal) auto
qed

lemma keep_newest_sub: "set (keep_newest_per_pack ls) \<subseteq> set ls"
  by (induction ls rule: keep_newest_per_pack.induct) auto

lemma keep_newest_reduced: "sorted ls \<Longrightarrow> reduced (keep_newest_per_pack ls)"
proof (induction ls rule: keep_newest_per_pack.induct)
  case (1 earlier later rest)
  then have IH: "reduced (keep_newest_per_pack (later # rest))" by auto
  have "lc_pack_seq earlier < lc_pack_seq x"
    if "x \<in> set (keep_newest_per_pack (later # rest))" "lc_pack_seq later \<noteq> lc_pack_seq earlier" for x
  proof -
    have "earlier \<le> later" "later \<le> x" using 1(3) that(1) keep_newest_sub [of "later # rest"] by auto
    then show ?thesis using that(2) location_le_pack [of earlier later] location_le_pack [of later x] by simp
  qed
  then show ?case using IH by (simp add: reduced_def)
qed (simp_all add: reduced_def)

lemma keep_newest_of: "sorted ls \<Longrightarrow> newest_of (keep_newest_per_pack ls) p = newest_of ls p"
proof (induction ls rule: keep_newest_per_pack.induct)
  case (1 earlier later rest)
  have one: "newest_of (earlier # ls) p = max (newest_of [earlier] p) (newest_of ls p)" for ls
    using newest_of_append [of "[earlier]" ls p] by simp
  show ?case
  proof (cases "lc_pack_seq later = lc_pack_seq earlier")
    case True
    have "newest_of [earlier] p \<le> newest_of (later # rest) p"
    proof (cases "lc_pack_seq earlier = p")
      case at: True
      obtain m where m: "newest_of (later # rest) p = Some m" "later \<le> m" using newest_of_ge [of later "later # rest"] True at by auto
      have "newest_of [earlier] p = Some earlier" using at by (simp add: newest_of_Some)
      moreover have "earlier \<le> m" using m(2) 1(3) by auto
      ultimately show ?thesis using m(1) by simp
    next
      case False
      then have "newest_of [earlier] p = None" by (simp add: newest_of_None)
      then show ?thesis by simp
    qed
    then have "newest_of (earlier # later # rest) p = newest_of (later # rest) p" unfolding one [of "later # rest"] by (rule max_absorb2)
    then show ?thesis using 1 True by simp
  next
    case False
    then show ?thesis using 1 one [of "later # rest"] one [of "keep_newest_per_pack (later # rest)"] by simp
  qed
qed simp_all

lemma settle_locations:
  assumes "ls = keep_newest_per_pack (remdups_adj (sort xs)) \<or> ls = keep_newest_per_pack (sort xs)"
  shows "reduced ls" "newest_of ls p = newest_of xs p" "set ls \<subseteq> set xs"
proof -
  have "sorted (remdups_adj (sort xs))" by (simp add: sorted_remdups_adj)
  then show "reduced ls" "newest_of ls p = newest_of xs p"
    using assms keep_newest_reduced keep_newest_of newest_of_set [of "remdups_adj (sort xs)" xs] newest_of_set [of "sort xs" xs] by auto
  show "set ls \<subseteq> set xs" using assms keep_newest_sub [of "remdups_adj (sort xs)"] keep_newest_sub [of "sort xs"] by auto
qed

section \<open>Objects as answers\<close>

text \<open>What a reader learns of an object: the newest location in each pack, and what it names.\<close>

type_synonym object_view = "(int \<Rightarrow> location option) \<times> u64 set \<times> u64 set"

definition ob_view :: "object \<Rightarrow> object_view" where
  "ob_view ob = (newest_of (ob_locations ob), os_trees (ob_children ob), os_blobs (ob_children ob))"

definition view_join :: "object_view \<Rightarrow> object_view \<Rightarrow> object_view" where
  "view_join a b = (case (a, b) of ((f, t, bl), (g, t', bl')) \<Rightarrow> (\<lambda>p. max (f p) (g p), t \<union> t', bl \<union> bl'))"

definition view_merge :: "object_view option \<Rightarrow> object_view option \<Rightarrow> object_view option" where
  "view_merge a b = (case (a, b) of (None, _) \<Rightarrow> b | (_, None) \<Rightarrow> a | (Some x, Some y) \<Rightarrow> Some (view_join x y))"

lemma view_join_laws:
  "view_join (view_join a b) c = view_join a (view_join b c)" "view_join a b = view_join b a" "view_join a a = a"
  by (simp_all add: view_join_def split_def max.assoc Un_assoc) (simp_all add: max.commute Un_commute)

lemma view_merge_laws [simp]:
  "view_merge (view_merge a b) c = view_merge a (view_merge b c)" "view_merge a a = a" "view_merge None a = a" "view_merge a None = a"
  by (auto simp: view_merge_def view_join_laws(1,3) split: option.splits)

lemma view_merge_comm: "view_merge a b = view_merge b a"
  by (auto simp: view_merge_def view_join_laws(2) split: option.splits)

lemma ob_absorb_view: "ob_view (ob_absorb a b) = view_join (ob_view a) (ob_view b)"
proof (cases "ob_locations b = []")
  case True
  then have "newest_of (ob_locations b) = (\<lambda>_. None)" by (simp add: newest_of_def fun_eq_iff)
  then show ?thesis using True by (simp add: ob_absorb_def ob_view_def view_join_def os_absorb_def)
next
  case False
  then show ?thesis
    using settle_locations(2) [of "ob_locations (ob_absorb a b)" "ob_locations a @ ob_locations b"]
    by (simp add: ob_absorb_def ob_view_def view_join_def os_absorb_def newest_of_append fun_eq_iff)
qed

lemma ob_absorb_reduced: "reduced (ob_locations a) \<Longrightarrow> reduced (ob_locations (ob_absorb a b))"
  using settle_locations(1) [OF disjI1 [OF refl], of "ob_locations a @ ob_locations b"] by (simp add: ob_absorb_def Let_def)

lemma ob_view_ext: "reduced (ob_locations a) \<Longrightarrow> reduced (ob_locations b) \<Longrightarrow> ob_view a = ob_view b \<Longrightarrow> a = b"
  using reduced_ext [of "ob_locations a" "ob_locations b"] by (cases a; cases b) (auto simp: ob_view_def intro: object_seqs.equality)

lemma ob_is_empty_view: "ob_is_empty ob \<longleftrightarrow> ob_view ob = ob_view no_object"
proof -
  have "newest_of ls = newest_of [] \<longleftrightarrow> ls = []" for ls
  proof
    assume "newest_of ls = newest_of []"
    then have "newest_of ls p = None" for p by (simp add: newest_of_None)
    then show "ls = []" using newest_of_None [of ls] by (cases ls) auto
  qed simp
  then show ?thesis by (auto simp: ob_is_empty_def ob_view_def no_object_def os_empty_def os_is_empty_def)
qed

section \<open>The index as a map\<close>

lemma sorted_keys_nth:
  assumes "sorted_wrt (<) (map fst m)" "i < j" "j < length m"
  shows "fst (m ! i) < fst (m ! j)"
  using assms sorted_wrt_nth_less [of "(<)" "map fst m" i j] by simp

lemma binary_search_spec:
  assumes "sorted_wrt (<) (map fst m)" "hi \<le> length m"
  shows "case binary_search m seq lo hi of None \<Rightarrow> \<forall>i. lo \<le> i \<and> i < hi \<longrightarrow> fst (m ! i) \<noteq> seq
    | Some i \<Rightarrow> lo \<le> i \<and> i < hi \<and> fst (m ! i) = seq"
  using assms
proof (induction m seq lo hi rule: binary_search.induct)
  case (1 m seq lo hi)
  define mid where "mid = (lo + hi) div 2"
  show ?case
  proof (cases "hi \<le> lo")
    case True
    then show ?thesis by (subst binary_search.simps) auto
  next
    case False
    then have mid: "lo \<le> mid" "mid < hi" by (simp_all add: mid_def)
    have step: "binary_search m seq lo hi = (if fst (m ! mid) = seq then Some mid
        else if fst (m ! mid) < seq then binary_search m seq (mid + 1) hi else binary_search m seq lo mid)"
      using False by (subst binary_search.simps) (simp add: Let_def mid_def)
    note lt = sorted_keys_nth [OF 1(3)]
    consider (hit) "fst (m ! mid) = seq" | (right) "fst (m ! mid) < seq" | (left) "seq < fst (m ! mid)" by (rule linorder_cases)
    then show ?thesis
    proof cases
      case hit
      then show ?thesis using mid by (simp add: step)
    next
      case right
      have IH: "case binary_search m seq (mid + 1) hi of None \<Rightarrow> \<forall>i. mid + 1 \<le> i \<and> i < hi \<longrightarrow> fst (m ! i) \<noteq> seq
        | Some i \<Rightarrow> mid + 1 \<le> i \<and> i < hi \<and> fst (m ! i) = seq"
        using 1(1) [OF False mid_def refl] 1(3,4) right by auto
      have out: "fst (m ! i) \<noteq> seq" if "i \<le> mid" for i
        using lt [of i mid] that right mid 1(4) by (cases "i = mid") auto
      have res: "binary_search m seq lo hi = binary_search m seq (mid + 1) hi" using right by (auto simp: step)
      show ?thesis
      proof (cases "binary_search m seq (mid + 1) hi")
        case None
        have "fst (m ! i) \<noteq> seq" if "lo \<le> i" "i < hi" for i
          using out [of i] IH [unfolded None option.case] that by (cases "i \<le> mid") simp_all
        then show ?thesis unfolding res None by simp
      qed (use IH mid in \<open>simp add: res\<close>)
    next
      case left
      have IH: "case binary_search m seq lo mid of None \<Rightarrow> \<forall>i. lo \<le> i \<and> i < mid \<longrightarrow> fst (m ! i) \<noteq> seq
        | Some i \<Rightarrow> lo \<le> i \<and> i < mid \<and> fst (m ! i) = seq"
        using 1(2) [OF False mid_def refl] 1(3,4) left mid by auto
      have out: "fst (m ! i) \<noteq> seq" if "mid \<le> i" "i < hi" for i
        using lt [of mid i] that left 1(4) by (cases "i = mid") auto
      have res: "binary_search m seq lo hi = binary_search m seq lo mid" using left by (auto simp: step)
      show ?thesis
      proof (cases "binary_search m seq lo mid")
        case None
        have "fst (m ! i) \<noteq> seq" if "lo \<le> i" "i < hi" for i
          using out [of i] IH [unfolded None option.case] that by (cases "i < mid") simp_all
        then show ?thesis unfolding res None by simp
      qed (use IH mid in \<open>simp add: res\<close>)
    qed
  qed
qed

lemma oi_get_map_of:
  assumes "sorted_wrt (<) (map fst m)"
  shows "oi_get m seq = map_of m seq"
proof -
  have d: "distinct (map fst m)" using assms by (simp add: strict_sorted_iff)
  show ?thesis
  proof (cases "binary_search m seq 0 (length m)")
    case None
    then have "seq \<notin> fst ` set m" using binary_search_spec [OF assms order_refl, where seq = seq and lo = 0] by (fastforce simp: in_set_conv_nth)
    then have "map_of m seq = None" by (simp add: map_of_eq_None_iff)
    then show ?thesis by (simp add: oi_get_def None)
  next
    case (Some i)
    then have i: "i < length m" "fst (m ! i) = seq" using binary_search_spec [OF assms order_refl, where seq = seq and lo = 0] by auto
    then have "(seq, snd (m ! i)) \<in> set m" by (metis nth_mem prod.collapse)
    then have "map_of m seq = Some (snd (m ! i))" using d by simp
    then show ?thesis using i by (simp add: oi_get_def Some get_at_def)
  qed
qed

definition index_ok :: "object_index \<Rightarrow> bool" where
  "index_ok m \<longleftrightarrow> sorted_wrt (<) (map fst m) \<and> (\<forall>(_, ob) \<in> set m. reduced (ob_locations ob) \<and> \<not> ob_is_empty ob)"

lemma index_okD:
  assumes "index_ok m"
  shows "sorted_wrt (<) (map fst m)" "map_of m seq = Some ob \<Longrightarrow> reduced (ob_locations ob)" "map_of m seq = Some ob \<Longrightarrow> \<not> ob_is_empty ob"
  using assms map_of_SomeD by (fastforce simp: index_ok_def)+

lemma map_ext:
  assumes "sorted_wrt (<) (map fst a)" "sorted_wrt (<) (map fst b)" "map_of a = map_of b"
  shows "a = (b :: (u64 \<times> 'v) list)"
proof -
  have d: "distinct (map fst a)" "distinct (map fst b)" using assms(1,2) by (simp_all add: strict_sorted_iff)
  then have s: "set a = set b" using assms(3) map_of_inject_set by blast
  show ?thesis
  proof (rule map_sorted_distinct_set_unique [of fst])
    show "inj_on fst (set a \<union> set b)" using d(1) s by (simp add: distinct_map)
  qed (use assms(1,2) d s in \<open>auto simp: strict_sorted_iff\<close>)
qed

definition oi_at :: "object_index \<Rightarrow> key \<Rightarrow> object_view option" where
  "oi_at m k = map_option ob_view (oi_get m k)"

lemma index_ext:
  assumes "index_ok a" "index_ok b" "oi_at a = oi_at b"
  shows "a = b"
proof (rule map_ext [OF index_okD(1) [OF assms(1)] index_okD(1) [OF assms(2)]], rule ext)
  fix k
  have "map_option ob_view (map_of a k) = map_option ob_view (map_of b k)"
    using fun_cong [OF assms(3), of k]
    unfolding oi_at_def oi_get_map_of [OF index_okD(1) [OF assms(1)]] oi_get_map_of [OF index_okD(1) [OF assms(2)]] .
  then show "map_of a k = map_of b k"
  proof (cases "map_of a k")
    case (Some x)
    then obtain y where y: "map_of b k = Some y" "ob_view x = ob_view y"
      using \<open>map_option ob_view (map_of a k) = map_option ob_view (map_of b k)\<close> by (cases "map_of b k") simp_all
    have "x = y" by (rule ob_view_ext [OF index_okD(2) [OF assms(1) Some] index_okD(2) [OF assms(2) y(1)] y(2)])
    then show ?thesis using Some y(1) by simp
  qed simp
qed

section \<open>The join\<close>

lemma entry_update_map [simp]:
  "map_of (entry_update seq f m) k = (if k = seq then Some (f (case map_of m seq of None \<Rightarrow> no_object | Some ob \<Rightarrow> ob)) else map_of m k)"
  by (simp add: entry_update_def)

lemma entry_update_sorted: "sorted_wrt (<) (map fst m) \<Longrightarrow> sorted_wrt (<) (map fst (entry_update seq f m))"
  by (simp add: entry_update_def btree_insert_sorted)

lemma foldl_btree_insert:
  "distinct (map fst xs) \<Longrightarrow> sorted_wrt (<) (map fst m) \<Longrightarrow>
     sorted_wrt (<) (map fst (foldl (\<lambda>m (k, v). btree_insert k v m) m xs)) \<and>
     map_of (foldl (\<lambda>m (k, v). btree_insert k v m) m xs) k = (case map_of xs k of None \<Rightarrow> map_of m k | Some v \<Rightarrow> Some v)"
proof (induction xs arbitrary: m)
  case (Cons x xs)
  obtain j v where x: "x = (j, v)" by force
  have "map_of xs j = None" using Cons.prems(1) by (simp add: x map_of_eq_None_iff)
  then show ?case using Cons by (auto simp: x btree_insert_sorted split: option.splits)
qed simp

lemma collect_sorted: "sorted_wrt (<) (map fst m) \<Longrightarrow> foldl (\<lambda>m (seq, ob). btree_insert seq ob m) [] m = (m :: object_index)"
  using foldl_btree_insert [of m "[]"] by (intro map_ext) (auto simp: strict_sorted_iff split: option.splits)

lemma merge_fold:
  "distinct (map fst other) \<Longrightarrow> sorted_wrt (<) (map fst m) \<Longrightarrow>
     sorted_wrt (<) (map fst (foldl (\<lambda>merged (seq, ob). entry_update seq (\<lambda>held. ob_absorb held ob) merged) m other)) \<and>
     map_of (foldl (\<lambda>merged (seq, ob). entry_update seq (\<lambda>held. ob_absorb held ob) merged) m other) k =
       (case map_of other k of None \<Rightarrow> map_of m k
        | Some ob \<Rightarrow> Some (ob_absorb (case map_of m k of None \<Rightarrow> no_object | Some held \<Rightarrow> held) ob))"
proof (induction other arbitrary: m)
  case (Cons x xs)
  obtain j v where x: "x = (j, v)" by force
  have "map_of xs j = None" using Cons.prems(1) by (simp add: x map_of_eq_None_iff)
  then show ?case using Cons by (auto simp: x entry_update_sorted split: option.splits)
qed simp

lemma view_of_default [simp]: "view_join (ob_view no_object) v = v" "view_join v (ob_view no_object) = v"
proof -
  have "newest_of [] = (\<lambda>_. None)" by (simp add: newest_of_def fun_eq_iff)
  then show "view_join (ob_view no_object) v = v" "view_join v (ob_view no_object) = v"
    by (simp_all add: ob_view_def view_join_def no_object_def os_empty_def split_def)
qed

lemma view_join_empty: "view_join a b = ob_view no_object \<Longrightarrow> b = ob_view no_object"
proof -
  assume "view_join a b = ob_view no_object"
  then have "view_join (ob_view no_object) b = ob_view no_object" by (metis view_join_laws)
  then show ?thesis by simp
qed

lemma absorb_default: "reduced (ob_locations ob) \<Longrightarrow> ob_absorb no_object ob = ob"
proof (rule ob_view_ext)
  have "reduced (ob_locations no_object)" by (simp add: no_object_def reduced_def)
  then show "reduced (ob_locations (ob_absorb no_object ob))" by (rule ob_absorb_reduced)
qed (simp_all add: ob_absorb_view)

lemma oi_join_get:
  assumes "index_ok a" "index_ok b"
  shows "sorted_wrt (<) (map fst (oi_join a b))"
    and "map_of (oi_join a b) k = (case map_of b k of None \<Rightarrow> map_of a k
      | Some ob \<Rightarrow> Some (case map_of a k of None \<Rightarrow> ob | Some held \<Rightarrow> ob_absorb held ob))"
proof -
  note sa = index_okD(1) [OF assms(1)] and sb = index_okD(1) [OF assms(2)]
  consider "b = []" | "a = []" | (both) "a \<noteq> []" "b \<noteq> []" by blast
  then have "sorted_wrt (<) (map fst (oi_join a b)) \<and> map_of (oi_join a b) k = (case map_of b k of None \<Rightarrow> map_of a k
      | Some ob \<Rightarrow> Some (case map_of a k of None \<Rightarrow> ob | Some held \<Rightarrow> ob_absorb held ob))"
  proof cases
    case both
    have "distinct (map fst b)" using sb by (simp add: strict_sorted_iff)
    note fold = merge_fold [OF this sa]
    have "oi_join a b = foldl (\<lambda>merged (seq, ob). entry_update seq (\<lambda>held. ob_absorb held ob) merged) a b"
      using both by (simp add: oi_join_def collect_sorted [OF sa])
    then show ?thesis using fold [of k] absorb_default index_okD(2) [OF assms(2), of k] by (auto split: option.splits)
  qed (use sa sb in \<open>auto simp: oi_join_def split: option.splits\<close>)
  then show "sorted_wrt (<) (map fst (oi_join a b))" "map_of (oi_join a b) k = (case map_of b k of None \<Rightarrow> map_of a k
      | Some ob \<Rightarrow> Some (case map_of a k of None \<Rightarrow> ob | Some held \<Rightarrow> ob_absorb held ob))" by simp_all
qed

text \<open>What holds of the entries of both and is kept by absorbing holds of the entries of the join.\<close>

lemma oi_join_all:
  assumes "index_ok a" "index_ok b" "\<forall>(k, ob) \<in> set a. P k ob" "\<forall>(k, ob) \<in> set b. P k ob"
    and "\<And>k x y. P k x \<Longrightarrow> P k y \<Longrightarrow> P k (ob_absorb x y)"
  shows "\<forall>(k, ob) \<in> set (oi_join a b). P k ob"
proof (intro ballI, clarify)
  fix k ob assume "(k, ob) \<in> set (oi_join a b)"
  then have ob: "map_of (oi_join a b) k = Some ob" using oi_join_get(1) [OF assms(1,2)] by (simp add: strict_sorted_iff)
  have P: "map_of a k = Some x \<Longrightarrow> P k x" "map_of b k = Some x \<Longrightarrow> P k x" for x
    using assms(3,4) map_of_SomeD by fastforce+
  show "P k ob" using ob oi_join_get(2) [OF assms(1,2), of k] P assms(5) by (auto split: option.splits)
qed

lemma oi_join_spec:
  assumes "index_ok a" "index_ok b"
  shows "index_ok (oi_join a b)" "oi_at (oi_join a b) k = view_merge (oi_at a k) (oi_at b k)"
proof -
  note srt = oi_join_get(1) [OF assms]
  have "reduced (ob_locations (ob_absorb x y)) \<and> \<not> ob_is_empty (ob_absorb x y)"
    if "reduced (ob_locations x) \<and> \<not> ob_is_empty x" "reduced (ob_locations y) \<and> \<not> ob_is_empty y" for x y
    using that ob_absorb_reduced view_join_empty [of "ob_view x" "ob_view y"] by (auto simp: ob_is_empty_view ob_absorb_view)
  then have "\<forall>(_, ob) \<in> set (oi_join a b). reduced (ob_locations ob) \<and> \<not> ob_is_empty ob"
    using assms by (intro oi_join_all [OF assms]) (auto simp: index_ok_def)
  then show "index_ok (oi_join a b)" using srt by (simp add: index_ok_def)
  show "oi_at (oi_join a b) k = view_merge (oi_at a k) (oi_at b k)"
    unfolding oi_at_def oi_get_map_of [OF srt] oi_get_map_of [OF index_okD(1) [OF assms(1)]] oi_get_map_of [OF index_okD(1) [OF assms(2)]]
      oi_join_get(2) [OF assms]
    by (auto simp: view_merge_def ob_absorb_view split: option.splits)
qed

section \<open>Building\<close>

lemma objects_build_spec:
  assumes "sorted_wrt (<) (map fst m)" "\<And>k ob. map_of m k = Some ob \<Longrightarrow> reduced (ob_locations ob)"
  shows "index_ok (objects_build m)"
    and "oi_at (objects_build m) k = (case map_of m k of None \<Rightarrow> None | Some ob \<Rightarrow> if ob_is_empty ob then None else Some (ob_view ob))"
proof -
  have srt: "sorted_wrt (<) (map fst (objects_build m))"
    using assms(1) by (simp add: objects_build_def sorted_wrt_map sorted_wrt_filter)
  have d: "distinct (map fst m)" using assms(1) by (simp add: strict_sorted_iff)
  have mem: "(k, ob) \<in> set m \<longleftrightarrow> map_of m k = Some ob" for k ob using d by simp
  show "index_ok (objects_build m)" using srt assms(2) mem by (auto simp: index_ok_def objects_build_def)
  have "map_of (objects_build m) k = (case map_of m k of None \<Rightarrow> None | Some ob \<Rightarrow> if ob_is_empty ob then None else Some ob)"
    using d unfolding objects_build_def by (induction m) (auto simp: map_of_eq_None_iff split: option.splits)
  then show "oi_at (objects_build m) k = (case map_of m k of None \<Rightarrow> None | Some ob \<Rightarrow> if ob_is_empty ob then None else Some (ob_view ob))"
    by (simp add: oi_at_def oi_get_map_of [OF srt] split: option.splits)
qed

section \<open>The heap reads back\<close>

definition location_ok :: "location \<Rightarrow> bool" where
  "location_ok l \<longleftrightarrow> length (lc_pack_oid l) = 20 \<and> i64_min \<le> lc_pack_seq l \<and> lc_pack_seq l \<le> i64_max \<and> lc_base_seq l \<noteq> Some NO_BASE"

lemma sint_of_i64: "i64_min \<le> x \<Longrightarrow> x \<le> i64_max \<Longrightarrow> sint (of_int x :: u64) = x"
  by (simp add: i64_min_def i64_max_def signed_of_int signed_take_bit_int_eq_self)

lemma length_location_bytes: "location_ok l \<Longrightarrow> length (location_bytes l) = LOCATION"
  by (simp add: location_bytes_def location_ok_def LOCATION_def)

lemma read_location_bytes:
  assumes "location_ok l"
  shows "read_location at (location_bytes l) = Inr l"
proof -
  let ?r = "location_bytes l"
  have len: "length (lc_pack_oid l) = 20" using assms by (simp add: location_ok_def)
  have f: "field64 ?r 0 = of_int (lc_pack_seq l)" "field64 ?r 8 = lc_offset l" "field64 ?r 16 = lc_entry_len l"
    "field64 ?r 24 = (case lc_base_seq l of None \<Rightarrow> NO_BASE | Some b \<Rightarrow> b)" "slice ?r 32 52 = Some (lc_pack_oid l)"
    "field128 ?r 52 = sl_id (lc_segment l)" "field64 ?r 68 = sl_base_offset (lc_segment l)" "field64 ?r 76 = sl_image_len (lc_segment l)"
    by (simp_all add: location_bytes_def field64_def field128_def slice_def len)
  show ?thesis unfolding read_location_def f Let_def using assms
    by (cases l; cases "lc_base_seq l") (auto simp: sint_of_i64 location_ok_def)
qed

lemma read_stowed_locations:
  assumes "stow_locations ls heap = (at, heap')" "length heap' < 2 ^ 32" "\<forall>l \<in> set ls. location_ok l"
  shows "read_locations at (heap' @ later) = Inr ls"
proof (cases "ls = []")
  case True
  then show ?thesis using assms(1) by (auto simp: stow_locations_def read_locations_def)
next
  case False
  have strides: "\<forall>l \<in> set ls. length (location_bytes l) = LOCATION" using assms(3) length_location_bytes by simp
  have len: "length (concat (map location_bytes ls)) = length ls * LOCATION" by (rule length_concat_stride [OF strides])
  have small: "length heap + 4 + length ls * LOCATION < 2 ^ 32"
    using assms(1,2) False by (auto simp: stow_locations_def len split: if_splits)
  then have ls: "length ls < 2 ^ 32" "length heap < 2 ^ 32 - 1" by (simp_all add: LOCATION_def)
  have at: "at = of_nat (length heap)" and heap': "heap' = heap @ to_le32 (of_nat (length ls)) @ concat (map location_bytes ls)"
    using assms(1) False ls by (auto simp: stow_locations_def try_u32_def)
  have uat: "unat at = length heap" using ls(2) by (simp add: at unat_of_nat)
  have some: "at \<noteq> TAIL_NONE"
  proof
    assume "at = TAIL_NONE"
    then have "unat at = 2 ^ 32 - 1" by (simp add: TAIL_NONE_def unsigned_minus_1_eq_mask mask_eq_exp_minus_1)
    then show False using uat ls(2) by simp
  qed
  have count: "tail_length at (heap' @ later) = Some (of_nat (length ls))"
    by (simp add: tail_length_def slice_from_def uat heap')
  have n: "unat (of_nat (length ls) :: u32) = length ls" using ls(1) by (simp add: unat_of_nat)
  define F where "F = (\<lambda>index. let r = unat at + 4 + index * LOCATION in
      rbind (ok_or (if usize_max < r then None else slice (heap' @ later) r (r + LOCATION)) (StrayHeap at)) (read_location at))"
  have F: "F index = Inr (ls ! index)" if "index < length ls" for index
  proof -
    have "slice (concat (map location_bytes ls) @ later) (index * LOCATION) (index * LOCATION + LOCATION) = Some (location_bytes (ls ! index))"
      by (rule slice_stride [OF strides that])
    then have "slice (heap' @ later) (unat at + 4 + index * LOCATION) (unat at + 4 + index * LOCATION + LOCATION) = Some (location_bytes (ls ! index))"
      by (auto simp: heap' uat slice_def split: if_splits)
    moreover have "index * LOCATION \<le> length ls * LOCATION" using that by simp
    then have "unat at + 4 + index * LOCATION < 2 ^ 32" using small unfolding uat by linarith
    then have "unat at + 4 + index * LOCATION \<le> usize_max" by (simp add: usize_max_def)
    moreover have "read_location at (location_bytes (ls ! index)) = Inr (ls ! index)" using assms(3) that by (simp add: read_location_bytes)
    ultimately show ?thesis by (simp add: F_def Let_def)
  qed
  have "map F [0..<length ls] = map (\<lambda>i. Inr (ls ! i)) [0..<length ls]" by (rule map_cong [OF refl]) (simp add: F)
  also have "\<dots> = map Inr (map ((!) ls) [0..<length ls])" by simp
  finally have "map F [0..<length ls] = map Inr ls" by (simp only: map_nth)
  then show ?thesis unfolding read_locations_def if_not_P [OF some] count ok_or_simps rbind_Inr n F_def [symmetric] by (simp only: collect_results_Inr)
qed

definition locations_len :: "location list \<Rightarrow> nat" where
  "locations_len ls = (if ls = [] then 0 else 4 + length ls * LOCATION)"

lemma stow_locations_grows:
  "stow_locations ls heap = (at, heap') \<Longrightarrow> \<forall>l \<in> set ls. location_ok l \<Longrightarrow> length heap' = length heap + locations_len ls \<and> (\<exists>w. heap' = heap @ w)"
  using length_concat_stride [of ls location_bytes LOCATION] length_location_bytes
  by (auto simp: stow_locations_def locations_len_def split: if_splits)

lemma stow_children_stow:
  assumes "encode_bitmap ser b = Some blob"
  shows "stow_children ser b heap = stow blob heap"
  using assms by (simp add: stow_children_def stow_bitmap_def)

lemma read_stowed_children:
  assumes "bitmap_codec ser de" "encode_bitmap ser b = Some blob" "fetch at heap = Some blob"
  shows "read_children de at heap = Inr b"
  using assms by (auto simp: read_children_def decode_bitmap_def encode_bitmap_def bitmap_codec_def split: if_splits)

section \<open>The encoding reads back\<close>

definition object_ok :: "(u64 set \<Rightarrow> bytes option) \<Rightarrow> object \<Rightarrow> bool" where
  "object_ok ser ob \<longleftrightarrow> (\<forall>l \<in> set (ob_locations ob). location_ok l) \<and> encode_bitmap ser (os_trees (ob_children ob)) \<noteq> None \<and>
     encode_bitmap ser (os_blobs (ob_children ob)) \<noteq> None"

definition object_len :: "(u64 set \<Rightarrow> bytes option) \<Rightarrow> object \<Rightarrow> nat" where
  "object_len ser ob = locations_len (ob_locations ob) + stow_len (the (encode_bitmap ser (os_trees (ob_children ob)))) +
     stow_len (the (encode_bitmap ser (os_blobs (ob_children ob))))"

lemma encode_object_step:
  assumes codec: "bitmap_codec ser de" and ok: "object_ok ser ob" and small: "length heap + object_len ser ob < 2 ^ 32"
  shows "\<exists>r w. encode_object ser (entries, heap) (seq, ob) = (entries @ r, heap @ w) \<and> length r = ENTRY \<and> field64 r 0 = seq \<and>
    length w = object_len ser ob \<and> (\<forall>later. read_object de r (heap @ w @ later) = Inr ob)"
proof -
  obtain tb bb where tb: "encode_bitmap ser (os_trees (ob_children ob)) = Some tb" and bb: "encode_bitmap ser (os_blobs (ob_children ob)) = Some bb"
    using ok by (auto simp: object_ok_def)
  have locs: "\<forall>l \<in> set (ob_locations ob). location_ok l" using ok by (simp add: object_ok_def)
  obtain l h1 t h2 b h3 where s: "stow_locations (ob_locations ob) heap = (l, h1)" "stow tb h1 = (t, h2)" "stow bb h2 = (b, h3)"
    by (metis surj_pair)
  define r where "r = to_le64 seq @ to_le32 l @ to_le32 t @ to_le32 b"
  have run: "encode_object ser (entries, heap) (seq, ob) = (entries @ r, h3)"
    by (simp add: encode_object_def s stow_children_stow [OF tb] stow_children_stow [OF bb] r_def)
  note g = stow_locations_grows [OF s(1) locs] stow_grows [OF s(2)] stow_grows [OF s(3)]
  obtain w1 w2 w3 where w: "h1 = heap @ w1" "h2 = h1 @ w2" "h3 = h2 @ w3" using g by blast
  have len: "length h3 = length heap + object_len ser ob" using g by (simp add: object_len_def tb bb)
  have lt: "length h1 < 2 ^ 32" "length h2 < 2 ^ 32" "length h3 < 2 ^ 32" using len small w by auto
  have fields: "field64 r 0 = seq" "field32 r 8 = l" "field32 r 12 = t" "field32 r 16 = b" "length r = ENTRY"
    by (simp_all add: r_def field64_def field32_def slice_def ENTRY_def)
  have "read_object de r (h3 @ later) = Inr ob" for later
  proof -
    have "read_locations l (h3 @ later) = Inr (ob_locations ob)"
      using read_stowed_locations [OF s(1) lt(1) locs, of "w2 @ w3 @ later"] w by simp
    moreover have "read_children de t (h3 @ later) = Inr (os_trees (ob_children ob))"
      using fetch_stowed [OF s(2) lt(2), of "w3 @ later"] w by (intro read_stowed_children [OF codec tb]) simp
    moreover have "read_children de b (h3 @ later) = Inr (os_blobs (ob_children ob))"
      using fetch_stowed [OF s(3) lt(3), of later] by (intro read_stowed_children [OF codec bb])
    ultimately show ?thesis by (simp add: read_object_def fields)
  qed
  then show ?thesis using run fields w len by (intro exI [of _ r] exI [of _ "w1 @ w2 @ w3"]) simp
qed

definition total_len :: "(u64 set \<Rightarrow> bytes option) \<Rightarrow> object_index \<Rightarrow> nat" where
  "total_len ser m = (\<Sum>(_, ob) \<leftarrow> m. object_len ser ob)"

lemma encode_objects_spec:
  assumes codec: "bitmap_codec ser de"
    and "foldl (encode_object ser) (entries, heap) m = (entries', heap')" "\<forall>(_, ob) \<in> set m. object_ok ser ob"
    and "length heap + total_len ser m < 2 ^ 32"
  shows "\<exists>rs w. entries' = entries @ concat rs \<and> heap' = heap @ w \<and> length w = total_len ser m \<and>
    list_all2 (\<lambda>r (seq, ob). length r = ENTRY \<and> field64 r 0 = seq \<and> (\<forall>later. read_object de r (heap' @ later) = Inr ob)) rs m"
  using assms(2-)
proof (induction m arbitrary: entries heap)
  case Nil
  then show ?case by (auto simp: total_len_def)
next
  case (Cons x m)
  obtain seq ob where x: "x = (seq, ob)" by force
  have small: "length heap + object_len ser ob < 2 ^ 32" "object_ok ser ob" using Cons.prems(2,3) by (auto simp: x total_len_def)
  obtain r w where one: "encode_object ser (entries, heap) (seq, ob) = (entries @ r, heap @ w)" "length r = ENTRY" "field64 r 0 = seq"
    "length w = object_len ser ob" "\<forall>later. read_object de r (heap @ w @ later) = Inr ob"
    using encode_object_step [OF codec small(2,1)] by blast
  obtain rs w' where rest: "entries' = (entries @ r) @ concat rs" "heap' = (heap @ w) @ w'" "length w' = total_len ser m"
    "list_all2 (\<lambda>r (seq, ob). length r = ENTRY \<and> field64 r 0 = seq \<and> (\<forall>later. read_object de r (heap' @ later) = Inr ob)) rs m"
    using Cons.IH [of "entries @ r" "heap @ w"] Cons.prems one(1,4) by (auto simp: x total_len_def)
  show ?case using rest one by (intro exI [of _ "r # rs"] exI [of _ "w @ w'"]) (simp add: x total_len_def)
qed

lemma decode_entries_spec:
  assumes rs: "list_all2 (\<lambda>r (seq, ob). length r = ENTRY \<and> field64 r 0 = seq \<and> read_object de r heap = Inr ob) rs m"
    and srt: "sorted_wrt (<) (map fst m)" and "length m < 2 ^ 32"
    and "i \<le> length m" "case previous of None \<Rightarrow> True | Some p \<Rightarrow> \<forall>x \<in> set (drop i m). p < fst x"
  shows "decode_entries de (concat rs @ heap) heap truncated r [i..<length m] previous = Inr (filter (\<lambda>(seq, _). contains r seq) (drop i m))"
  using assms(4,5)
proof (induction "length m - i" arbitrary: i previous)
  case 0
  then show ?case by simp
next
  case (Suc n)
  then have i: "i < length m" by simp
  obtain seq ob where mi: "m ! i = (seq, ob)" by force
  have len: "length rs = length m" using rs by (rule list_all2_lengthD)
  have ri: "length (rs ! i) = ENTRY" "field64 (rs ! i) 0 = seq" "read_object de (rs ! i) heap = Inr ob"
    using list_all2_nthD2 [OF rs i] by (simp_all add: mi)
  have all: "\<forall>r \<in> set rs. length (id r) = ENTRY" using list_all2_in_set [OF rs] by fastforce
  have "sat_usize (i * ENTRY) = i * ENTRY" using i assms(3) by (intro sat_usize_id) (simp add: usize_max_def ENTRY_def)
  moreover have "slice (concat rs @ heap) (i * ENTRY) (i * ENTRY + ENTRY) = Some (rs ! i)"
    using slice_stride [OF all, of i heap] i len by simp
  moreover have drop: "drop i m = (seq, ob) # drop (Suc i) m" using Cons_nth_drop_Suc [OF i] mi by simp
  moreover have "\<not> (case previous of None \<Rightarrow> False | Some held \<Rightarrow> seq \<le> held)" using Suc.prems(2) drop by (auto split: option.splits)
  moreover have "[i..<length m] = i # [Suc i..<length m]" using i by (rule upt_conv_Cons)
  moreover have "\<forall>x \<in> set (drop (Suc i) m). seq < fst x"
    using sorted_wrt_drop [of "(<)" "map fst m" i] srt by (simp add: drop_map drop)
  then have "decode_entries de (concat rs @ heap) heap truncated r [Suc i..<length m] (Some seq) =
      Inr (filter (\<lambda>(seq, _). contains r seq) (drop (Suc i) m))"
    using Suc.hyps(1) [of "Suc i" "Some seq"] Suc.hyps(2) i by simp
  ultimately show ?case using ri by (auto simp: contains_def not_le not_less)
qed

lemma oi_decode_encode:
  assumes codec: "bitmap_codec ser de" and ok: "index_ok m" "\<forall>(k, ob) \<in> set m. object_ok ser ob \<and> unat k < 2 ^ 63"
    and room: "length m < 2 ^ 32" "total_len ser m < 2 ^ 32"
  shows "oi_decode_range de (oi_encode ser m) r = Inr (filter (\<lambda>(seq, _). contains r seq) m)"
proof -
  obtain entries heap where run: "foldl (encode_object ser) ([], []) m = (entries, heap)" by force
  obtain rs where rs: "entries = concat rs" "length heap = total_len ser m"
    "list_all2 (\<lambda>r (seq, ob). length r = ENTRY \<and> field64 r 0 = seq \<and> (\<forall>later. read_object de r (heap @ later) = Inr ob)) rs m"
    using encode_objects_spec [OF codec run] ok(2) room(2) by fastforce
  have reads: "list_all2 (\<lambda>r (seq, ob). length r = ENTRY \<and> field64 r 0 = seq \<and> read_object de r heap = Inr ob) rs m"
    using rs(3) by (rule list_all2_mono) (auto, metis append_Nil2)
  define h where "h = \<lparr>fh_first = (case m of [] \<Rightarrow> 0 | (seq, _) # _ \<Rightarrow> seq), fh_records = length m, fh_tail = length heap\<rparr>"
  have enc: "oi_encode ser m = write_header h OBJECTS [] @ concat rs @ heap" by (simp add: oi_encode_def run h_def rs(1))
  have "unat (fh_first h) < 2 ^ 63" using ok(2) by (cases m) (auto simp: h_def)
  then have hok: "header_ok h OBJECTS" using room rs(2) by (simp add: header_ok_def OBJECTS_def h_def)
  have len: "length (concat rs) = length m * ENTRY"
    using length_concat_stride [of rs id ENTRY] list_all2_in_set [OF reads] list_all2_lengthD [OF reads] by fastforce
  have head: "read_header (oi_encode ser m) OBJECTS = Inr h" unfolding enc
    using hok room rs(2) by (intro read_header_write)
      (auto simp: body_length_def OBJECTS_def len h_def HEADER_def usize_max_def ENTRY_def)
  have body: "drop HEADER (oi_encode ser m) = concat rs @ heap" unfolding enc using hok by simp
  have "sat_usize (fh_records h * ENTRY) = length (concat rs)"
    using room(1) unfolding len h_def by (simp add: ENTRY_def usize_max_def)
  then have heap: "drop (sat_usize (fh_records h * ENTRY)) (concat rs @ heap) = heap" by simp
  have "decode_entries de (concat rs @ heap) heap tr r [0..<fh_records h] None = Inr (filter (\<lambda>(seq, _). contains r seq) m)" for tr
    using decode_entries_spec [OF reads index_okD(1) [OF ok(1)] room(1), of 0 None tr r] by (simp add: h_def)
  then show ?thesis unfolding oi_decode_range_def Let_def head sum.case body heap .
qed

section \<open>The object index as a segment\<close>

text \<open>
  An offset into the heap is 32 bits, so what a repository can ever record has to fit one: the objects, the packs each
  may be stored in, and what each may name, with a bound on every bitmap serialized. Every segment stays within it,
  however segments are joined.
\<close>

record object_room =
  rm_keys :: "u64 set"
  rm_packs :: "u64 \<Rightarrow> int set"
  rm_trees :: "u64 \<Rightarrow> u64 set"
  rm_blobs :: "u64 \<Rightarrow> u64 set"
  rm_tree_len :: "u64 \<Rightarrow> nat"
  rm_blob_len :: "u64 \<Rightarrow> nat"

definition fits_in :: "(u64 set \<Rightarrow> bytes option) \<Rightarrow> u64 set \<Rightarrow> nat \<Rightarrow> bool" where
  "fits_in ser bound len \<longleftrightarrow> (\<forall>b. b \<subseteq> bound \<longrightarrow> (\<exists>blob. encode_bitmap ser b = Some blob \<and> stow_len blob \<le> len))"

lemma fits_inD: "fits_in ser bound len \<Longrightarrow> b \<subseteq> bound \<Longrightarrow> \<exists>blob. encode_bitmap ser b = Some blob \<and> stow_len blob \<le> len"
  by (simp add: fits_in_def)

definition room_of :: "object_room \<Rightarrow> u64 \<Rightarrow> nat" where
  "room_of rm k = 4 + card (rm_packs rm k) * LOCATION + rm_tree_len rm k + rm_blob_len rm k"

definition room_ok :: "(u64 set \<Rightarrow> bytes option) \<Rightarrow> object_room \<Rightarrow> bool" where
  "room_ok ser rm \<longleftrightarrow> finite (rm_keys rm) \<and> (\<Sum>k \<in> rm_keys rm. room_of rm k) < 2 ^ 32 \<and>
     (\<forall>k \<in> rm_keys rm. unat k < 2 ^ 63 \<and> finite (rm_packs rm k) \<and> fits_in ser (rm_trees rm k) (rm_tree_len rm k) \<and>
       fits_in ser (rm_blobs rm k) (rm_blob_len rm k))"

definition within_room :: "object_room \<Rightarrow> u64 \<Rightarrow> object \<Rightarrow> bool" where
  "within_room rm k ob \<longleftrightarrow> k \<in> rm_keys rm \<and> (\<forall>l \<in> set (ob_locations ob). location_ok l \<and> lc_pack_seq l \<in> rm_packs rm k) \<and>
     os_trees (ob_children ob) \<subseteq> rm_trees rm k \<and> os_blobs (ob_children ob) \<subseteq> rm_blobs rm k"

definition oi_ok :: "object_room \<Rightarrow> object_index \<Rightarrow> bool" where
  "oi_ok rm m \<longleftrightarrow> index_ok m \<and> (\<forall>(k, ob) \<in> set m. within_room rm k ob)"

lemma within_room_absorb: "within_room rm k a \<Longrightarrow> within_room rm k b \<Longrightarrow> within_room rm k (ob_absorb a b)"
  using settle_locations(3) [OF disjI1 [OF refl], of "ob_locations a @ ob_locations b"]
  by (fastforce simp: within_room_def ob_absorb_def Let_def os_absorb_def)

lemma within_room_len:
  assumes "room_ok ser rm" "within_room rm k ob" "reduced (ob_locations ob)"
  shows "object_ok ser ob" "object_len ser ob \<le> room_of rm k" "unat k < 2 ^ 63"
proof -
  have k: "k \<in> rm_keys rm" using assms(2) by (simp add: within_room_def)
  then have rm: "finite (rm_packs rm k)" "fits_in ser (rm_trees rm k) (rm_tree_len rm k)" "fits_in ser (rm_blobs rm k) (rm_blob_len rm k)"
    "unat k < 2 ^ 63" using assms(1) by (auto simp: room_ok_def)
  obtain t b where tb: "encode_bitmap ser (os_trees (ob_children ob)) = Some t" "stow_len t \<le> rm_tree_len rm k"
    "encode_bitmap ser (os_blobs (ob_children ob)) = Some b" "stow_len b \<le> rm_blob_len rm k"
    using fits_inD [OF rm(2), of "os_trees (ob_children ob)"] fits_inD [OF rm(3), of "os_blobs (ob_children ob)"] assms(2)
    by (auto simp: within_room_def)
  have "sorted_wrt (<) (map lc_pack_seq (ob_locations ob))" using assms(3) by (simp add: reduced_def sorted_wrt_map)
  then have "distinct (map lc_pack_seq (ob_locations ob))" by (simp add: strict_sorted_iff)
  moreover have "set (map lc_pack_seq (ob_locations ob)) \<subseteq> rm_packs rm k" using assms(2) by (auto simp: within_room_def)
  ultimately have "length (ob_locations ob) \<le> card (rm_packs rm k)"
    using card_mono [OF rm(1), of "set (map lc_pack_seq (ob_locations ob))"] distinct_card [of "map lc_pack_seq (ob_locations ob)"] by simp
  then have "locations_len (ob_locations ob) \<le> 4 + card (rm_packs rm k) * LOCATION" by (simp add: locations_len_def)
  then show "object_len ser ob \<le> room_of rm k" using tb by (simp add: object_len_def room_of_def)
  show "object_ok ser ob" using tb assms(2) by (simp add: object_ok_def within_room_def)
  show "unat k < 2 ^ 63" by (fact rm(4))
qed

lemma oi_ok_room:
  assumes "room_ok ser rm" "oi_ok rm m"
  shows "\<forall>(k, ob) \<in> set m. object_ok ser ob \<and> unat k < 2 ^ 63" "length m < 2 ^ 32" "total_len ser m < 2 ^ 32"
proof -
  have each: "object_ok ser ob \<and> object_len ser ob \<le> room_of rm k \<and> unat k < 2 ^ 63 \<and> k \<in> rm_keys rm" if at: "(k, ob) \<in> set m" for k ob
  proof -
    have "within_room rm k ob" "reduced (ob_locations ob)" using assms(2) at by (auto simp: oi_ok_def index_ok_def)
    from within_room_len [OF assms(1) this] this(1) show ?thesis by (simp add: within_room_def)
  qed
  then show "\<forall>(k, ob) \<in> set m. object_ok ser ob \<and> unat k < 2 ^ 63" by blast
  have d: "distinct (map fst m)" using assms(2) by (simp add: oi_ok_def index_ok_def strict_sorted_iff)
  have keys: "set (map fst m) \<subseteq> rm_keys rm" "finite (rm_keys rm)" "(\<Sum>k \<in> rm_keys rm. room_of rm k) < 2 ^ 32"
    using each assms(1) by (auto simp: room_ok_def)
  have "total_len ser m \<le> (\<Sum>x \<leftarrow> m. room_of rm (fst x))"
    unfolding total_len_def using each by (intro sum_list_mono) auto
  also have "\<dots> = sum_list (map (room_of rm) (map fst m))" by (simp add: comp_def)
  also have "\<dots> = (\<Sum>k \<in> set (map fst m). room_of rm k)" using d by (rule sum_list_distinct_conv_sum_set)
  also have sub: "\<dots> \<le> (\<Sum>k \<in> rm_keys rm. room_of rm k)" using keys by (intro sum_mono2) auto
  finally show "total_len ser m < 2 ^ 32" using keys(3) by simp
  have "length m = card (set (map fst m))" using distinct_card [OF d] by simp
  also have "\<dots> \<le> (\<Sum>k \<in> set (map fst m). room_of rm k)"
    using sum_bounded_below [of "set (map fst m)" 1 "room_of rm"] by (simp add: room_of_def)
  finally show "length m < 2 ^ 32" using sub keys(3) by simp
qed

lemma oi_ok_filter:
  assumes "oi_ok rm m"
  shows "oi_ok rm (filter (\<lambda>(seq, _). contains r seq) m)"
    and "oi_at (filter (\<lambda>(seq, _). contains r seq) m) k = (if contains r k then oi_at m k else None)"
proof -
  have srt: "sorted_wrt (<) (map fst m)" using assms by (simp add: oi_ok_def index_ok_def)
  then have srt': "sorted_wrt (<) (map fst (filter (\<lambda>(seq, _). contains r seq) m))" by (simp add: sorted_wrt_map sorted_wrt_filter)
  then show "oi_ok rm (filter (\<lambda>(seq, _). contains r seq) m)" using assms by (auto simp: oi_ok_def index_ok_def)
  have "map_of (filter (\<lambda>(seq, _). contains r seq) m) k = (if contains r k then map_of m k else None)"
    by (induction m) auto
  then show "oi_at (filter (\<lambda>(seq, _). contains r seq) m) k = (if contains r k then oi_at m k else None)"
    by (simp add: oi_at_def oi_get_map_of [OF srt] oi_get_map_of [OF srt'])
qed

lemma sorted_hd_last: "sorted xs \<Longrightarrow> x \<in> set xs \<Longrightarrow> hd xs \<le> x \<and> x \<le> last (xs :: u64 list)"
  by (induction xs) auto

lemma oi_range_spec:
  assumes "index_ok m"
  shows "oi_at m k \<noteq> None \<Longrightarrow> \<exists>r. oi_range m = Some r \<and> contains r k" "oi_range m = Some r \<Longrightarrow> range_ok r"
proof -
  note srt = index_okD(1) [OF assms]
  show "range_ok r" if "oi_range m = Some r"
    using that by (auto simp: oi_range_def split: if_splits sum.splits dest: key_range_new_ok)
  assume "oi_at m k \<noteq> None"
  then obtain ob where "(k, ob) \<in> set m" by (auto simp: oi_at_def oi_get_map_of [OF srt] dest: map_of_SomeD)
  then have k: "k \<in> set (map fst m)" "m \<noteq> []" by force+
  have "sorted (map fst m)" using srt by (simp add: strict_sorted_iff)
  then have "hd (map fst m) \<le> k" "k \<le> last (map fst m)" using k(1) sorted_hd_last by blast+
  then have "fst (hd m) \<le> k" "k \<le> fst (last m)" using k(2) by (simp_all add: hd_map last_map)
  then show "\<exists>r. oi_range m = Some r \<and> contains r k"
    using k(2) by (auto simp: oi_range_def key_range_new_def contains_def)
qed

lemma segment_objects:
  assumes "bitmap_codec ser de" "room_ok ser rm"
  shows "segment (objects_ops ser de) (oi_ok rm) view_merge oi_at"
proof (unfold_locales; (unfold objects_ops_simps)?)
  fix a b c :: object_index and r :: key_range and k :: key and x y z :: "object_view option"
  have ok: "oi_ok rm m \<Longrightarrow> index_ok m" for m by (simp add: oi_ok_def)
  show join: "oi_ok rm (oi_join a b)" if "oi_ok rm a" "oi_ok rm b" for a b
    using that oi_join_spec(1) [of a b] oi_join_all [of a b "within_room rm"] within_room_absorb by (auto simp: oi_ok_def)
  have at: "oi_at (oi_join a b) k = view_merge (oi_at a k) (oi_at b k)" if "oi_ok rm a" "oi_ok rm b" for a b k
    by (rule oi_join_spec(2) [OF ok [OF that(1)] ok [OF that(2)]])
  show "oi_ok rm a \<Longrightarrow> oi_ok rm b \<Longrightarrow> oi_at (oi_join a b) k = view_merge (oi_at a k) (oi_at b k)" by (rule at)
  show "oi_join (oi_join a b) c = oi_join a (oi_join b c)" if "oi_ok rm a" "oi_ok rm b" "oi_ok rm c"
    using that by (intro index_ext ok join) (simp_all add: fun_eq_iff at join)
  show "oi_join a b = oi_join b a" if "oi_ok rm a" "oi_ok rm b"
    using that by (intro index_ext ok join) (simp_all add: fun_eq_iff at view_merge_comm)
  show "oi_join a a = a" if "oi_ok rm a" using that by (intro index_ext ok join) (simp_all add: fun_eq_iff at)
  have decode: "oi_decode_range de (oi_encode ser a) r = Inr (filter (\<lambda>(seq, _). contains r seq) a)" if "oi_ok rm a" for r
    using oi_ok_room [OF assms(2) that] by (intro oi_decode_encode [OF assms(1) ok [OF that]])
  show "oi_decode_range de (oi_encode ser a) EVERYTHING = Inr a" if "oi_ok rm a"
    using decode [OF that] by (simp add: split_def)
  show "\<exists>b. oi_decode_range de (oi_encode ser a) r = Inr b \<and> oi_ok rm b \<and> (\<forall>k. oi_at b k = (if contains r k then oi_at a k else None))"
    if "oi_ok rm a" using decode [OF that] oi_ok_filter [OF that] by blast
  show "\<exists>r. oi_range a = Some r \<and> contains r k" if "oi_ok rm a" "oi_at a k \<noteq> None"
    using oi_range_spec(1) [OF ok [OF that(1)] that(2)] .
  show "range_ok r" if "oi_ok rm a" "oi_range a = Some r" using oi_range_spec(2) [OF ok [OF that(1)] that(2)] .
  show "view_merge x y = view_merge y x" by (rule view_merge_comm)
qed simp_all

section \<open>An example\<close>

definition example_room :: object_room where
  "example_room = \<lparr>rm_keys = {5}, rm_packs = (\<lambda>_. {1}), rm_trees = (\<lambda>_. {7}), rm_blobs = (\<lambda>_. {}), rm_tree_len = (\<lambda>_. 5),
     rm_blob_len = (\<lambda>_. 0)\<rparr>"

definition example_location :: location where
  "example_location = Location 1 (replicate 20 0) \<lparr>sl_id = 3, sl_base_offset = 0, sl_image_len = 90\<rparr> 12 30 None"

definition example_objects :: object_index where
  "example_objects = [(5, \<lparr>ob_locations = [example_location], ob_children = \<lparr>os_trees = {7}, os_blobs = {}\<rparr>\<rparr>)]"

lemma example_objects_ok:
  "bitmap_codec example_ser example_de" "room_ok example_ser example_room" "oi_ok example_room example_objects"
proof -
  show "bitmap_codec example_ser example_de" by (auto simp: bitmap_codec_def example_ser_def example_de_def split: if_splits)
  have "fits_in example_ser {7} 5" "fits_in example_ser {} 0"
    by (auto simp: fits_in_def encode_bitmap_def example_ser_def stow_len_def subset_singleton_iff)
  then show "room_ok example_ser example_room" by (simp add: room_ok_def example_room_def room_of_def LOCATION_def)
  show "oi_ok example_room example_objects"
    by (simp add: oi_ok_def index_ok_def example_objects_def within_room_def example_room_def example_location_def location_ok_def
        i64_min_def i64_max_def reduced_def ob_is_empty_def)
qed

locale object_tier =
  fixes ser :: "u64 set \<Rightarrow> bytes option" and de :: "bytes \<Rightarrow> u64 set option" and rm :: object_room
  assumes codec: "bitmap_codec ser de" and enough: "room_ok ser rm"

sublocale object_tier \<subseteq> objects: segment "objects_ops ser de" "oi_ok rm" view_merge oi_at
  by (rule segment_objects [OF codec enough])

context object_tier
begin

lemma segment_objects_laws:
  "oi_ok rm a \<Longrightarrow> oi_ok rm b \<Longrightarrow> oi_ok rm (oi_join a b)"
  "oi_ok rm a \<Longrightarrow> oi_ok rm b \<Longrightarrow> oi_ok rm c \<Longrightarrow> oi_join (oi_join a b) c = oi_join a (oi_join b c)"
  "oi_ok rm a \<Longrightarrow> oi_ok rm b \<Longrightarrow> oi_join a b = oi_join b a" "oi_ok rm a \<Longrightarrow> oi_join a a = a"
  "oi_ok rm a \<Longrightarrow> oi_ok rm b \<Longrightarrow> oi_at (oi_join a b) k = view_merge (oi_at a k) (oi_at b k)"
  using objects.join_valid objects.join_assoc objects.join_comm objects.join_idem objects.at_join by simp_all

end

interpretation example_tier: object_tier example_ser example_de example_room
  by unfold_locales (rule example_objects_ok)+

section \<open>Properties of the object index\<close>

text \<open>C27: joining object indexes is associative, commutative and idempotent and stays within the room the repository has; the
  join answers a key with the newest location in each pack either knows and with everything either says the object names.\<close>

theorem object_index_join:
  assumes "bitmap_codec ser de" "room_ok ser rm" "oi_ok rm a" "oi_ok rm b" "oi_ok rm c"
  shows "oi_ok rm (oi_join a b) \<and> oi_join (oi_join a b) c = oi_join a (oi_join b c) \<and> oi_join a b = oi_join b a \<and> oi_join a a = a \<and>
    oi_at (oi_join a b) k = view_merge (oi_at a k) (oi_at b k)"
proof -
  have tier: "object_tier ser de rm" using assms(1,2) by (rule object_tier.intro)
  note laws = object_tier.segment_objects_laws [OF tier]
  show ?thesis using laws assms(3-5) by simp
qed

theorem object_index_join_witness:
  "oi_join example_objects example_objects = example_objects"
  using object_index_join [OF example_objects_ok example_objects_ok(3) example_objects_ok(3)] by simp

text \<open>C28: an object index survives its encoding: decoding everything gives it back, and decoding a range gives exactly the
  entries of the range.\<close>

theorem object_index_codec:
  assumes "bitmap_codec ser de" "room_ok ser rm" "oi_ok rm m"
  shows "oi_decode_range de (oi_encode ser m) EVERYTHING = Inr m \<and>
    oi_decode_range de (oi_encode ser m) r = Inr (filter (\<lambda>(seq, _). contains r seq) m)"
proof -
  have "index_ok m" using assms(3) by (simp add: oi_ok_def)
  note decode = oi_decode_encode [OF assms(1) this oi_ok_room [OF assms(2,3)]]
  show ?thesis by (simp add: decode split_def)
qed

theorem object_index_codec_witness:
  "oi_decode_range example_de (oi_encode example_ser example_objects) EVERYTHING = Inr example_objects"
  using object_index_codec [OF example_objects_ok] by simp

text \<open>C29: whatever the bytes, what decodes is in ascending seq order and within the range asked for, so the binary search of a
  lookup finds exactly what the bytes held; bytes out of order are refused rather than answered from.\<close>

theorem object_decode_sorted:
  assumes "oi_decode_range de bytes r = Inr m"
  shows "sorted_wrt (<) (map fst m) \<and> (\<forall>(seq, _) \<in> set m. contains r seq) \<and> oi_get m seq = map_of m seq"
proof -
  have "sorted_wrt (<) (map fst m) \<and> (\<forall>(seq, _) \<in> set m. contains r seq \<and> (\<forall>p. previous = Some p \<longrightarrow> p < seq))"
    if "decode_entries de body heap tr r ats previous = Inr m" for body heap tr ats previous
    using that
  proof (induction ats arbitrary: previous m)
    case (Cons at ats)
    obtain entry where e: "slice body (sat_usize (at * ENTRY)) (sat_usize (at * ENTRY) + ENTRY) = Some entry"
      using Cons.prems by (auto simp: Let_def rbind_eq_Inr_iff ok_or_eq_Inr_iff)
    define seq where "seq = field64 entry 0"
    have up: "\<forall>p. previous = Some p \<longrightarrow> p < seq" using Cons.prems e by (auto simp: Let_def seq_def not_le split: option.splits if_splits)
    consider (skip) "\<not> contains r seq" "decode_entries de body heap tr r ats (Some seq) = Inr m"
      | (take) ob more where "contains r seq" "decode_entries de body heap tr r ats (Some seq) = Inr more" "m = (seq, ob) # more"
      using Cons.prems e up
      by (auto simp: Let_def seq_def [symmetric] contains_def rbind_eq_Inr_iff not_le not_less split: option.splits if_splits)
    then show ?case
    proof cases
      case skip
      then show ?thesis using Cons.IH [OF skip(2)] up by fastforce
    next
      case take
      then show ?thesis using Cons.IH [OF take(2)] up by fastforce
    qed
  qed simp
  then have "sorted_wrt (<) (map fst m) \<and> (\<forall>(seq, _) \<in> set m. contains r seq)"
    using assms by (fastforce simp: oi_decode_range_def Let_def split: sum.splits)
  then show ?thesis using oi_get_map_of by simp
qed

theorem object_decode_sorted_witness:
  "oi_get example_objects 5 = map_of example_objects 5"
proof -
  have "oi_decode_range example_de (oi_encode example_ser example_objects) EVERYTHING = Inr example_objects"
    by (rule example_tier.objects.round_trip [simplified, OF example_objects_ok(3)])
  from object_decode_sorted [OF this, of 5] show ?thesis by simp
qed

definition builder_ok :: "object_index \<Rightarrow> bool" where
  "builder_ok m \<longleftrightarrow> sorted_wrt (<) (map fst m) \<and> (\<forall>k ob. map_of m k = Some ob \<longrightarrow> reduced (ob_locations ob))"

text \<open>An update of one entry, seen through the index built from it.\<close>

lemma builder_update:
  assumes "builder_ok m" "\<And>ob. reduced (ob_locations ob) \<Longrightarrow> reduced (ob_locations (f ob)) \<and> ob_view (f ob) = view_join (ob_view ob) v"
    and "v \<noteq> ob_view no_object"
  shows "builder_ok (entry_update seq f m)"
    and "oi_at (objects_build (entry_update seq f m)) k =
      (if k = seq then view_merge (oi_at (objects_build m) k) (Some v) else oi_at (objects_build m) k)"
proof -
  define held where "held = (case map_of m seq of None \<Rightarrow> no_object | Some ob \<Rightarrow> ob)"
  have held: "reduced (ob_locations held)" using assms(1) by (auto simp: held_def builder_ok_def no_object_def reduced_def split: option.splits)
  have m: "sorted_wrt (<) (map fst m)" "\<And>k ob. map_of m k = Some ob \<Longrightarrow> reduced (ob_locations ob)" using assms(1) by (auto simp: builder_ok_def)
  show ok: "builder_ok (entry_update seq f m)"
    using m assms(2) [OF held] by (auto simp: builder_ok_def entry_update_sorted held_def split: if_splits)
  then have u: "sorted_wrt (<) (map fst (entry_update seq f m))" "\<And>k ob. map_of (entry_update seq f m) k = Some ob \<Longrightarrow> reduced (ob_locations ob)"
    by (auto simp: builder_ok_def)
  have "\<not> ob_is_empty (f held)"
    using assms(2) [OF held] assms(3) view_join_empty [of "ob_view held" v] unfolding ob_is_empty_view by metis
  moreover have "ob_is_empty held \<Longrightarrow> ob_view (f held) = v" using assms(2) [OF held] by (simp add: ob_is_empty_view)
  ultimately show "oi_at (objects_build (entry_update seq f m)) k =
      (if k = seq then view_merge (oi_at (objects_build m) k) (Some v) else oi_at (objects_build m) k)"
    using objects_build_spec(2) [where k = k, OF u(1)] objects_build_spec(2) [where k = k, OF m(1)] u(2) m(2) assms(2) [OF held]
    by (cases "map_of m seq") (auto simp: view_merge_def held_def)
qed

lemma locate_view:
  assumes "reduced (ob_locations ob)"
    and "ob' = (if l \<in> set (ob_locations ob) then ob else ob\<lparr>ob_locations := keep_newest_per_pack (sort (ob_locations ob @ [l]))\<rparr>)"
  shows "reduced (ob_locations ob') \<and> ob_view ob' = view_join (ob_view ob) (newest_of [l], {}, {})"
proof (cases "l \<in> set (ob_locations ob)")
  case True
  then have "newest_of (ob_locations ob) = newest_of (ob_locations ob @ [l])" by (intro newest_of_set) auto
  then show ?thesis using True assms by (simp add: ob_view_def view_join_def fun_eq_iff newest_of_append)
next
  case False
  then show ?thesis using assms(2) settle_locations(1,2) [OF disjI2 [OF refl], of "ob_locations ob @ [l]"]
    by (simp add: ob_view_def view_join_def fun_eq_iff newest_of_append)
qed

text \<open>Recording into a builder keeps its objects reduced, and the built index answers for exactly what was recorded: a location
  joins what is known of its object, which keeps the newest of each pack, and a tree's entries are added to those it had.\<close>

lemma object_builder:
  assumes "builder_ok m"
  shows "builder_ok (locate m seq l) \<and> builder_ok (record_children m seq ch) \<and> index_ok (objects_build m) \<and>
    oi_at (objects_build (locate m seq l)) k =
      (if k = seq then view_merge (oi_at (objects_build m) k) (Some (newest_of [l], {}, {})) else oi_at (objects_build m) k) \<and>
    oi_at (objects_build (record_children m seq ch)) k =
      (if k = seq \<and> \<not> os_is_empty ch then view_merge (oi_at (objects_build m) k) (Some (\<lambda>_. None, os_trees ch, os_blobs ch))
       else oi_at (objects_build m) k)"
proof -
  have none: "newest_of [] = (\<lambda>_. None)" by (simp add: newest_of_def fun_eq_iff)
  have "newest_of [l] (lc_pack_seq l) = Some l" by (simp add: newest_of_Some)
  then have "newest_of [l] \<noteq> newest_of []" unfolding none by (metis option.distinct(1))
  then have new: "(newest_of [l], {}, {}) \<noteq> ob_view no_object" by (simp add: ob_view_def no_object_def)
  note loc = builder_update [OF assms locate_view [OF _ refl] new, folded locate_def]
  have children: "reduced (ob_locations (ob\<lparr>ob_children := os_absorb (ob_children ob) ch\<rparr>)) \<and>
      ob_view (ob\<lparr>ob_children := os_absorb (ob_children ob) ch\<rparr>) = view_join (ob_view ob) (\<lambda>_. None, os_trees ch, os_blobs ch)"
    if "reduced (ob_locations ob)" for ob
    using that by (simp add: ob_view_def view_join_def os_absorb_def)
  have "(\<lambda>_. None, os_trees ch, os_blobs ch) \<noteq> ob_view no_object" if "\<not> os_is_empty ch"
    using that by (auto simp: ob_view_def no_object_def os_empty_def os_is_empty_def none)
  note kids = builder_update [OF assms children this]
  have "index_ok (objects_build m)" using assms by (intro objects_build_spec(1)) (auto simp: builder_ok_def)
  then show ?thesis using loc kids assms by (simp add: record_children_def)
qed

end
