(* ===== verification/Rows_Steps.thy ===== *)
theory Rows_Steps
  imports Metadata
begin

text \<open>
  What the rows of \<open>Metadata\<close> promise. A batch of ref updates refines a sequence of compare-and-sets on one map.
  The calls of any number of callers are an inductive step relation, and an invariant of the reachable states
  ties the two directions of an object's numbering, the counters, the keys and the tips of the branches together.
\<close>

section \<open>One namespace of refs\<close>

definition ref_view :: "repo_rows \<Rightarrow> string \<rightharpoonup> oid" where
  "ref_view r name = map_option rr_oid (map_of (rp_table r (is_branch_refname name)) name)"

text \<open>One compare-and-set. A null \<open>old_id\<close> guards nothing when it deletes, and when it writes it creates: a name that is
  taken is not overwritten.\<close>

definition cas :: "(string \<Rightarrow> bool) \<Rightarrow> (oid \<Rightarrow> bool) \<Rightarrow> ref_update \<Rightarrow> (string \<rightharpoonup> oid) \<Rightarrow> (ref_rejection, string \<rightharpoonup> oid) result" where
  "cas valid commit u refs =
     (if is_funny_refname valid (ru_refname u) (ru_new u = null_oid) then Inl InvalidRefname
      else if ru_old u \<noteq> null_oid \<and> refs (ru_refname u) \<noteq> Some (ru_old u) then Inl NonFastForward
      else if ru_new u = null_oid then Inr (refs(ru_refname u := None))
      else if is_branch_refname (ru_refname u) \<and> \<not> commit (ru_new u) then Inl UnknownCommit
      else if ru_old u = null_oid \<and> refs (ru_refname u) \<noteq> None then Inl AlreadyExists
      else Inr (refs(ru_refname u \<mapsto> ru_new u)))"

fun cas_all :: "(string \<Rightarrow> bool) \<Rightarrow> (oid \<Rightarrow> bool) \<Rightarrow> ref_update list \<Rightarrow> (string \<rightharpoonup> oid) \<Rightarrow> ref_result list \<times> (string \<rightharpoonup> oid)" where
  "cas_all valid commit [] refs = ([], refs)"
| "cas_all valid commit (u # us) refs =
     (case cas valid commit u refs of
        Inl e \<Rightarrow> let (rest, refs) = cas_all valid commit us refs in ((ru_refname u, Inl e) # rest, refs)
      | Inr refs \<Rightarrow> let (rest, refs) = cas_all valid commit us refs in ((ru_refname u, Inr ()) # rest, refs))"

lemma map_of_btree_remove [simp]: "map_of (btree_remove k m) k' = (if k' = k then None else map_of m k')"
  by (induction m) (auto simp: btree_remove_def)

lemma set_table_simps [simp]:
  "rp_table (rp_set_table r b t) b' = (if b = b' then t else rp_table r b')"
  "rp_identities (rp_set_table r b t) = rp_identities r"
  "rp_by_seq (rp_set_table r b t) = rp_by_seq r"
  "rp_counters (rp_set_table r b t) = rp_counters r"
  "rp_key (rp_set_table r b t) = rp_key r"
  "rp_storage_key (rp_set_table r b t) = rp_storage_key r"
  "rp_deleted_at (rp_set_table r b t) = rp_deleted_at r"
  "numbers_commit (rp_set_table r b t) = numbers_commit r"
  by (auto simp: rp_set_table_def rp_table_def numbers_commit_def fun_eq_iff)

text \<open>The parts of the rows a ref update leaves alone.\<close>

definition same_but_refs :: "repo_rows \<Rightarrow> repo_rows \<Rightarrow> bool" where
  "same_but_refs r s \<longleftrightarrow> rp_identities s = rp_identities r \<and> rp_by_seq s = rp_by_seq r \<and> rp_counters s = rp_counters r \<and>
     rp_key s = rp_key r \<and> rp_storage_key s = rp_storage_key r \<and> rp_deleted_at s = rp_deleted_at r"

lemma same_but_refs_refl [simp]: "same_but_refs r r"
  by (simp add: same_but_refs_def)

lemma same_but_refs_trans: "same_but_refs r s \<Longrightarrow> same_but_refs s t \<Longrightarrow> same_but_refs r t"
  by (simp add: same_but_refs_def)

lemma same_but_refs_numbers: "same_but_refs r s \<Longrightarrow> numbers_commit s = numbers_commit r"
  by (simp add: same_but_refs_def numbers_commit_def fun_eq_iff)

lemma ref_view_set_table:
  "is_branch_refname name = b \<Longrightarrow> (\<And>k. k \<noteq> name \<Longrightarrow> map_of t k = map_of (rp_table r b) k) \<Longrightarrow>
    ref_view (rp_set_table r b t) = (ref_view r)(name := map_option rr_oid (map_of t name))"
  by (rule ext) (auto simp: ref_view_def)

lemma ref_apply_cas:
  "ref_apply valid now r u =
    (case cas valid (numbers_commit r) u (ref_view r) of
       Inl e \<Rightarrow> ((ru_refname u, Inl e), r)
     | Inr _ \<Rightarrow> ((ru_refname u, Inr ()), snd (ref_apply valid now r u)))"
  by (cases "map_of (rp_table r (is_branch_refname (ru_refname u))) (ru_refname u)")
     (auto simp: ref_apply_def cas_def ref_delete_def ref_write_def ref_view_def ok_result_def reject_result_def Let_def)

lemma ref_apply_view:
  "cas valid (numbers_commit r) u (ref_view r) = Inr refs \<Longrightarrow> ref_view (snd (ref_apply valid now r u)) = refs"
  by (auto simp: ref_apply_def cas_def ref_delete_def ref_write_def Let_def ref_view_set_table split: if_splits)
     (simp_all add: ref_view_def)

lemma ref_apply_same: "same_but_refs r (snd (ref_apply valid now r u))"
  by (auto simp: same_but_refs_def ref_apply_def ref_delete_def ref_write_def Let_def)

lemma apply_all_cas:
  "apply_all valid r us = (res, s) \<Longrightarrow>
    (res, ref_view s) = cas_all valid (numbers_commit r) (map snd us) (ref_view r) \<and> same_but_refs r s"
proof (induction valid r us arbitrary: res s rule: apply_all.induct)
  case (2 valid r now u us)
  obtain one mid where one: "ref_apply valid now r u = (one, mid)" by fastforce
  obtain rest where rest: "apply_all valid mid us = (rest, s)" "res = one # rest"
    using 2(2) one by (auto split: prod.splits)
  have mid: "same_but_refs r mid" using ref_apply_same [of r valid now u] one by simp
  note IH = 2(1) [OF one [symmetric] refl rest(1)]
  have "(res, ref_view s) = cas_all valid (numbers_commit r) (map snd ((now, u) # us)) (ref_view r)"
  proof (cases "cas valid (numbers_commit r) u (ref_view r)")
    case (Inl e)
    with ref_apply_cas [of valid now r u] one have "one = (ru_refname u, Inl e)" "mid = r" by simp_all
    with conjunct1 [OF IH, symmetric] Inl rest show ?thesis by simp
  next
    case (Inr refs)
    with ref_apply_cas [of valid now r u] ref_apply_view [OF Inr, of now] one
    have "one = (ru_refname u, Inr ())" "ref_view mid = refs" by simp_all
    with conjunct1 [OF IH, symmetric] Inr rest same_but_refs_numbers [OF mid] show ?thesis by simp
  qed
  with IH mid show ?case using same_but_refs_trans by blast
qed simp

section \<open>State lookups\<close>

lemma state_repo_set [simp]: "state_repo (set_repo i r st) j = (if j = i then r else state_repo st j)"
  by (simp add: state_repo_def set_repo_def)

lemma state_held_set [simp]: "state_held (set_repo i r st) j = (if j = i then Some r else state_held st j)"
  by (simp add: state_held_def set_repo_def)

lemma next_id_set [simp]: "rs_next_id (set_repo i r st) = rs_next_id st"
  by (simp add: set_repo_def)

text \<open>C31: a batch of ref updates is a sequence of compare-and-sets on one map of names to objects, although branches
  and other refs sit in two tables: it answers each update as the compare-and-set does and leaves the map the accepted
  ones lead to, and it touches neither what the objects are numbered as nor any other repository. The compare-and-set
  is the code's: a null \<open>old_id\<close> creates, and is refused with \<open>AlreadyExists\<close> where the name is taken. The comment on
  \<open>RefUpdate\<close> calls it an unguarded create or overwrite; nothing is overwritten.\<close>

theorem update_refs_refines:
  assumes "update_refs valid i us st = (res, st')"
  shows "(res, ref_view (state_repo st' i)) =
      cas_all valid (numbers_commit (state_repo st i)) (map snd us) (ref_view (state_repo st i)) \<and>
    rp_identities (state_repo st' i) = rp_identities (state_repo st i) \<and> (\<forall>j. j = i \<or> state_held st' j = state_held st j)"
proof -
  obtain r where r: "apply_all valid (state_repo st i) us = (res, r)" "st' = set_repo i r st"
    using assms by (auto simp: update_refs_def Let_def split: prod.splits)
  with apply_all_cas [OF r(1)] show ?thesis by (simp add: same_but_refs_def)
qed

section \<open>Interleaved callers\<close>

text \<open>
  Calls of any number of callers, one step each. The second component remembers the seqs an allocation handed out
  and no record has used yet: a caller records only objects under seqs it was handed. A repository is addressed by
  an id \<open>create\<close> has handed out, and the counters stay within a bigint; erasing a repository ends the pushes to it.
\<close>

type_synonym claims = "(repo_id \<times> kind \<times> int) set"

definition claims_of :: "repo_id \<Rightarrow> (oid \<times> identity) list \<Rightarrow> claims" where
  "claims_of i named = (\<lambda>(_, one). (i, id_kind one, id_seq one)) ` set named"

inductive rows_step :: "(string \<Rightarrow> bool) \<Rightarrow> rows_state \<times> claims \<Rightarrow> rows_state \<times> claims \<Rightarrow> bool" for valid where
  create: "rs_next_id st < i64_max \<Longrightarrow> rows_step valid (st, owed) (snd (md_create fresh b key st), owed)"
| create_counters: "i \<le> rs_next_id st \<Longrightarrow> rows_step valid (st, owed) (create_counters i st, owed)"
| allocate: "i \<le> rs_next_id st \<Longrightarrow> md_allocate i k count st = (Inr first, st') \<Longrightarrow> first + uint count \<le> i64_max \<Longrightarrow>
    rows_step valid (st, owed) (st', owed \<union> (\<lambda>seq. (i, k, seq)) ` {first ..< first + uint count})"
| refuse: "i \<le> rs_next_id st \<Longrightarrow> md_allocate i k count st = (Inl e, st') \<Longrightarrow> rows_step valid (st, owed) (st', owed)"
| name: "i \<le> rs_next_id st \<Longrightarrow> claims_of i named \<subseteq> owed \<Longrightarrow> distinct (map fst named) \<Longrightarrow> distinct (map snd named) \<Longrightarrow>
    md_record i named st = (Inr (), st') \<Longrightarrow> rows_step valid (st, owed) (st', owed - claims_of i named)"
| race: "i \<le> rs_next_id st \<Longrightarrow> md_record i named st = (Inl e, st') \<Longrightarrow> rows_step valid (st, owed) (st', owed)"
| refs: "i \<le> rs_next_id st \<Longrightarrow> rows_step valid (st, owed) (snd (update_refs valid i us st), owed)"
| delete: "i \<le> rs_next_id st \<Longrightarrow> rows_step valid (st, owed) (snd (mark_deleted now i st), owed)"
| register: "i \<le> rs_next_id st \<Longrightarrow> rows_step valid (st, owed) (register_segments i ids st, owed)"
| retire: "i \<le> rs_next_id st \<Longrightarrow> rows_step valid (st, owed) (retire_segments now i ids st, owed)"
| reap: "i \<le> rs_next_id st \<Longrightarrow> rows_step valid (st, owed) (snd (drop_retired_segments now i grace st), owed)"
| hold: "i \<le> rs_next_id st \<Longrightarrow> rows_step valid (st, owed) (snd (hold_maintenance i st), owed)"
| release: "i \<le> rs_next_id st \<Longrightarrow> rows_step valid (st, owed) (release_maintenance i st, owed)"
| erase: "rows_step valid (st, owed) (md_erase i st, {c \<in> owed. fst c \<noteq> i})"

definition numbered_ok :: "repo_rows \<Rightarrow> (kind \<times> int) set \<Rightarrow> bool" where
  "numbered_ok r owed \<longleftrightarrow>
     (\<forall>k seq oid. rp_by_seq r (kind_to_u8 k, seq) = Some oid \<longleftrightarrow> rp_identities r oid = Some \<lparr>id_seq = seq, id_kind = k\<rparr>) \<and>
     (\<forall>k seq. rp_by_seq r (kind_to_u8 k, seq) \<noteq> None \<or> (k, seq) \<in> owed \<longrightarrow>
        (\<exists>n. rp_counters r (kind_to_u8 k) = Some n \<and> 0 \<le> seq \<and> seq < n)) \<and>
     (\<forall>k seq. (k, seq) \<in> owed \<longrightarrow> rp_by_seq r (kind_to_u8 k, seq) = None) \<and>
     (\<forall>b n. rp_counters r b = Some n \<longrightarrow> 0 \<le> n \<and> n \<le> i64_max)"

definition refs_ok :: "(string \<Rightarrow> bool) \<Rightarrow> repo_rows \<Rightarrow> bool" where
  "refs_ok valid r \<longleftrightarrow> (\<forall>b name row. map_of (rp_table r b) name = Some row \<longrightarrow>
     is_branch_refname name = b \<and> \<not> is_funny_refname valid name False \<and> (b \<longrightarrow> numbers_commit r (rr_oid row))) \<and>
     (\<forall>b. sorted_wrt (<) (map fst (rp_table r b)))"

definition repo_ok :: "(string \<Rightarrow> bool) \<Rightarrow> repo_rows \<Rightarrow> (kind \<times> int) set \<Rightarrow> bool" where
  "repo_ok valid r owed \<longleftrightarrow> numbered_ok r owed \<and> refs_ok valid r \<and> (rp_key r \<noteq> None \<longrightarrow> rp_storage_key r \<noteq> None)"

definition live_key :: "repo_rows \<Rightarrow> external_key option" where
  "live_key r = (if rp_deleted_at r = None then rp_key r else None)"

definition rows_ok :: "(string \<Rightarrow> bool) \<Rightarrow> rows_state \<times> claims \<Rightarrow> bool" where
  "rows_ok valid s \<longleftrightarrow> (case s of (st, owed) \<Rightarrow>
     sorted_wrt (<) (map fst (rs_repos st)) \<and> 0 \<le> rs_next_id st \<and> rs_next_id st \<le> i64_max \<and>
     (\<forall>i. state_held st i \<noteq> None \<longrightarrow> i \<le> rs_next_id st) \<and>
     (\<forall>i. repo_ok valid (state_repo st i) (owed `` {i})) \<and>
     (\<forall>i j key. live_key (state_repo st i) = Some key \<and> live_key (state_repo st j) = Some key \<longrightarrow> i = j))"

lemma numbered_okD:
  assumes "numbered_ok r owed"
  shows "rp_by_seq r (kind_to_u8 k, seq) = Some oid \<longleftrightarrow> rp_identities r oid = Some \<lparr>id_seq = seq, id_kind = k\<rparr>"
    "rp_by_seq r (kind_to_u8 k, seq) \<noteq> None \<or> (k, seq) \<in> owed \<Longrightarrow> \<exists>n. rp_counters r (kind_to_u8 k) = Some n \<and> 0 \<le> seq \<and> seq < n"
    "(k, seq) \<in> owed \<Longrightarrow> rp_by_seq r (kind_to_u8 k, seq) = None"
    "rp_counters r b = Some n \<Longrightarrow> 0 \<le> n \<and> n \<le> i64_max"
  using assms unfolding numbered_ok_def by blast+

lemma numbered_okI:
  assumes "\<And>k seq oid. rp_by_seq r (kind_to_u8 k, seq) = Some oid \<longleftrightarrow> rp_identities r oid = Some \<lparr>id_seq = seq, id_kind = k\<rparr>"
    "\<And>k seq. rp_by_seq r (kind_to_u8 k, seq) \<noteq> None \<or> (k, seq) \<in> owed \<Longrightarrow> \<exists>n. rp_counters r (kind_to_u8 k) = Some n \<and> 0 \<le> seq \<and> seq < n"
    "\<And>k seq. (k, seq) \<in> owed \<Longrightarrow> rp_by_seq r (kind_to_u8 k, seq) = None"
    "\<And>b n. rp_counters r b = Some n \<Longrightarrow> 0 \<le> n \<and> n \<le> i64_max"
  shows "numbered_ok r owed"
  using assms unfolding numbered_ok_def by blast

lemma kind_to_u8_inj [simp]: "kind_to_u8 k = kind_to_u8 k' \<longleftrightarrow> k = k'"
  using kind_from_to by (metis option.inject)

lemma rows_okD:
  assumes "rows_ok valid (st, owed)"
  shows "repo_ok valid (state_repo st i) (owed `` {i})" "sorted_wrt (<) (map fst (rs_repos st))"
    "state_held st i \<noteq> None \<Longrightarrow> i \<le> rs_next_id st"
    "live_key (state_repo st i) = Some key \<Longrightarrow> live_key (state_repo st j) = Some key \<Longrightarrow> i = j"
    "0 \<le> rs_next_id st" "rs_next_id st \<le> i64_max"
  using assms unfolding rows_ok_def prod.case by blast+

lemma rows_okI:
  assumes "rows_ok valid (st, owed)" "i \<le> rs_next_id st" "repo_ok valid r (owed' `` {i})"
    "\<And>j. j \<noteq> i \<Longrightarrow> owed' `` {j} = owed `` {j}"
    and fresh: "\<And>j key. j \<noteq> i \<Longrightarrow> live_key r = Some key \<Longrightarrow> live_key (state_repo st j) \<noteq> Some key"
  shows "rows_ok valid (set_repo i r st, owed')"
  unfolding rows_ok_def prod.case
proof (intro conjI allI impI)
  show "sorted_wrt (<) (map fst (rs_repos (set_repo i r st)))"
    using rows_okD(2) [OF assms(1)] by (simp add: set_repo_def btree_insert_sorted)
  show "0 \<le> rs_next_id (set_repo i r st)" "rs_next_id (set_repo i r st) \<le> i64_max"
    using rows_okD(5,6) [OF assms(1)] by simp_all
  show "j \<le> rs_next_id (set_repo i r st)" if "state_held (set_repo i r st) j \<noteq> None" for j
    using that assms(2) rows_okD(3) [OF assms(1), of j] by (simp split: if_splits)
  show "repo_ok valid (state_repo (set_repo i r st) j) (owed' `` {j})" for j
    using assms(3) assms(4) [of j] rows_okD(1) [OF assms(1), of j] by simp
  show "j = l" if "live_key (state_repo (set_repo i r st) j) = Some key \<and> live_key (state_repo (set_repo i r st) l) = Some key" for j l key
    using that fresh [of j key] fresh [of l key] rows_okD(4) [OF assms(1), of j key l] by (simp split: if_splits)
qed

text \<open>A change of the parts the invariant does not read keeps it.\<close>

definition same_named :: "repo_rows \<Rightarrow> repo_rows \<Rightarrow> bool" where
  "same_named r s \<longleftrightarrow> same_but_refs r s \<and> rp_branches s = rp_branches r \<and> rp_others s = rp_others r"

lemma same_but_refs_numbered: "same_but_refs r s \<Longrightarrow> numbered_ok s owed = numbered_ok r owed"
  by (simp add: same_but_refs_def numbered_ok_def)

lemma same_named_repo: "same_named r s \<Longrightarrow> repo_ok valid s owed = repo_ok valid r owed"
  by (simp add: same_named_def repo_ok_def refs_ok_def rp_table_def same_but_refs_def numbered_ok_def numbers_commit_def)

lemma same_but_refs_live: "same_but_refs r s \<Longrightarrow> live_key s = live_key r"
  by (simp add: same_but_refs_def live_key_def)

lemma rows_ok_kept:
  assumes "rows_ok valid (st, owed)" "i \<le> rs_next_id st" "repo_ok valid r (owed' `` {i})"
    "\<And>j. j \<noteq> i \<Longrightarrow> owed' `` {j} = owed `` {j}" "live_key r = None \<or> live_key r = live_key (state_repo st i)"
  shows "rows_ok valid (set_repo i r st, owed')"
proof (rule rows_okI [OF assms(1-4)])
  fix j key assume at: "j \<noteq> i" "live_key r = Some key"
  from assms(5) at(2) have "live_key (state_repo st i) = Some key" by simp
  with at(1) rows_okD(4) [OF assms(1), of j key i] show "live_key (state_repo st j) \<noteq> Some key" by blast
qed

lemma rows_ok_same:
  assumes "rows_ok valid (st, owed)" "i \<le> rs_next_id st" "same_named (state_repo st i) r"
  shows "rows_ok valid (set_repo i r st, owed)"
proof (rule rows_ok_kept [OF assms(1,2)])
  show "repo_ok valid r (owed `` {i})" using same_named_repo [OF assms(3)] rows_okD(1) [OF assms(1)] by simp
  show "live_key r = None \<or> live_key r = live_key (state_repo st i)"
    using assms(3) same_but_refs_live by (simp add: same_named_def)
qed simp

lemma no_rows_repo: "repo_ok valid no_rows owed \<longleftrightarrow> owed = {}"
  by (auto simp: repo_ok_def no_rows_def numbered_ok_def refs_ok_def rp_table_def)

lemma state_repo_absent: "state_held st i = None \<Longrightarrow> state_repo st i = no_rows"
  by (simp add: state_held_def state_repo_def)

lemma refs_ok_mono:
  assumes "refs_ok valid r" "\<And>b. rp_table s b = rp_table r b" "\<And>oid. numbers_commit r oid \<Longrightarrow> numbers_commit s oid"
  shows "refs_ok valid s"
  using assms(1,3) unfolding refs_ok_def assms(2) by blast

text \<open>Counters\<close>

lemma md_counters_keep: "rp_counters r b = Some n \<Longrightarrow> rp_counters (md_counters r) b = Some n"
  by (auto simp: md_counters_def)

lemma md_counters_new: "rp_counters (md_counters r) b = Some n \<Longrightarrow> rp_counters r b = Some n \<or> n = 0"
  by (auto simp: md_counters_def split: if_splits)

lemma md_counters_fields [simp]:
  "rp_by_seq (md_counters r) = rp_by_seq r" "rp_identities (md_counters r) = rp_identities r"
  "rp_branches (md_counters r) = rp_branches r" "rp_others (md_counters r) = rp_others r"
  "rp_key (md_counters r) = rp_key r" "rp_storage_key (md_counters r) = rp_storage_key r"
  "rp_deleted_at (md_counters r) = rp_deleted_at r"
  by (simp_all add: md_counters_def)

lemma numbered_ok_counters:
  assumes "numbered_ok r owed" "rp_by_seq s = rp_by_seq r" "rp_identities s = rp_identities r"
    and grow: "\<And>b n. rp_counters r b = Some n \<Longrightarrow> \<exists>m. rp_counters s b = Some m \<and> n \<le> m"
    and "\<And>b n. rp_counters s b = Some n \<Longrightarrow> 0 \<le> n \<and> n \<le> i64_max"
  shows "numbered_ok s owed"
proof (rule numbered_okI)
  fix k seq
  show "rp_by_seq s (kind_to_u8 k, seq) = Some oid \<longleftrightarrow> rp_identities s oid = Some \<lparr>id_seq = seq, id_kind = k\<rparr>" for oid
    using numbered_okD(1) [OF assms(1), of k seq oid] assms(2,3) by simp
  show "\<exists>n. rp_counters s (kind_to_u8 k) = Some n \<and> 0 \<le> seq \<and> seq < n" if "rp_by_seq s (kind_to_u8 k, seq) \<noteq> None \<or> (k, seq) \<in> owed"
  proof -
    obtain n where n: "rp_counters r (kind_to_u8 k) = Some n" "0 \<le> seq" "seq < n"
      using numbered_okD(2) [OF assms(1), of k seq] \<open>rp_by_seq s (kind_to_u8 k, seq) \<noteq> None \<or> (k, seq) \<in> owed\<close> assms(2) by auto
    then show ?thesis using grow [OF n(1)] by fastforce
  qed
  show "rp_by_seq s (kind_to_u8 k, seq) = None" if "(k, seq) \<in> owed"
    using numbered_okD(3) [OF assms(1)] that assms(2) by simp
qed (fact assms(5))

lemma md_counters_repo: "repo_ok valid r owed \<Longrightarrow> repo_ok valid (md_counters r) owed"
proof -
  assume at: "repo_ok valid r owed"
  then have "numbered_ok r owed" by (simp add: repo_ok_def)
  then have "numbered_ok (md_counters r) owed"
  proof (rule numbered_ok_counters)
    show "\<exists>m. rp_counters (md_counters r) b = Some m \<and> n \<le> m" if "rp_counters r b = Some n" for b n
      using md_counters_keep [OF that] by simp
    show "0 \<le> n \<and> n \<le> i64_max" if "rp_counters (md_counters r) b = Some n" for b n
      using md_counters_new [OF that] numbered_okD(4) [OF \<open>numbered_ok r owed\<close>] by (auto simp: i64_max_def)
  qed simp_all
  moreover have "refs_ok valid (md_counters r)"
    by (rule refs_ok_mono [of valid r]) (use at in \<open>auto simp: repo_ok_def rp_table_def numbers_commit_def\<close>)
  ultimately show ?thesis using at by (simp add: repo_ok_def)
qed

text \<open>Allocation\<close>

lemma allocate_repo:
  assumes "repo_ok valid r owed" "rp_counters r (kind_to_u8 k) = Some first" "0 \<le> n" "first + n \<le> i64_max"
  shows "repo_ok valid (r\<lparr>rp_counters := (rp_counters r)(kind_to_u8 k \<mapsto> sat_i64 (first + n))\<rparr>) (owed \<union> Pair k ` {first ..< first + n})"
proof -
  define s where "s = r\<lparr>rp_counters := (rp_counters r)(kind_to_u8 k \<mapsto> first + n)\<rparr>"
  have num: "numbered_ok r owed" using assms(1) by (simp add: repo_ok_def)
  have first: "0 \<le> first" using numbered_okD(4) [OF num assms(2)] by simp
  then have sat: "sat_i64 (first + n) = first + n" using assms(3,4) by (simp add: i64_min_def)
  have old: "numbered_ok s owed"
  proof (rule numbered_ok_counters [OF num])
    show "\<exists>m. rp_counters s b = Some m \<and> c \<le> m" if "rp_counters r b = Some c" for b c
      using that assms(2,3) by (auto simp: s_def)
    show "0 \<le> c \<and> c \<le> i64_max" if "rp_counters s b = Some c" for b c
      using that numbered_okD(4) [OF num] first assms(3,4) by (auto simp: s_def split: if_splits)
  qed (simp_all add: s_def)
  have unused: "rp_by_seq s (kind_to_u8 k, seq) = None" if "first \<le> seq" for seq
    using numbered_okD(2) [OF num, of k seq] that assms(2)
    by (cases "rp_by_seq r (kind_to_u8 k, seq)") (auto simp: s_def)
  have "numbered_ok s (owed \<union> Pair k ` {first ..< first + n})"
  proof (rule numbered_okI)
    show "\<exists>m. rp_counters s (kind_to_u8 k') = Some m \<and> 0 \<le> seq \<and> seq < m"
      if "rp_by_seq s (kind_to_u8 k', seq) \<noteq> None \<or> (k', seq) \<in> owed \<union> Pair k ` {first ..< first + n}" for k' seq
      using that numbered_okD(2) [OF old, of k' seq] first by (auto simp: s_def)
    show "rp_by_seq s (kind_to_u8 k', seq) = None" if "(k', seq) \<in> owed \<union> Pair k ` {first ..< first + n}" for k' seq
      using that numbered_okD(3) [OF old, of k' seq] unused [of seq] by auto
  qed (fact numbered_okD(1,4) [OF old])+
  moreover have "refs_ok valid s"
    by (rule refs_ok_mono [of valid r]) (use assms(1) in \<open>auto simp: repo_ok_def rp_table_def numbers_commit_def s_def\<close>)
  moreover have "rp_key s \<noteq> None \<longrightarrow> rp_storage_key s \<noteq> None" using assms(1) by (simp add: repo_ok_def s_def)
  ultimately show ?thesis unfolding sat repo_ok_def s_def by blast
qed

text \<open>Naming\<close>

lemma name_one_numbered:
  assumes num: "numbered_ok r owed" and "(id_kind one, id_seq one) \<in> owed" "rp_identities r oid = None"
  shows "numbered_ok (name_one r (oid, one)) (owed - {(id_kind one, id_seq one)})"
proof (rule numbered_okI)
  have one: "one = \<lparr>id_seq = seq, id_kind = k\<rparr> \<longleftrightarrow> k = id_kind one \<and> seq = id_seq one" for seq k by (cases one) auto
  have free: "rp_by_seq r (kind_to_u8 (id_kind one), id_seq one) = None" using numbered_okD(3) [OF num assms(2)] .
  have other: "rp_by_seq r (kind_to_u8 k, seq) \<noteq> Some oid" for k seq
    using numbered_okD(1) [OF num, of k seq oid] assms(3) by simp
  fix k seq oid'
  show "rp_by_seq (name_one r (oid, one)) (kind_to_u8 k, seq) = Some oid' \<longleftrightarrow>
      rp_identities (name_one r (oid, one)) oid' = Some \<lparr>id_seq = seq, id_kind = k\<rparr>"
    using numbered_okD(1) [OF num, of k seq oid'] free other [of k seq] one [of seq k] by (auto simp: name_one_def)
next
  fix k seq
  assume "rp_by_seq (name_one r (oid, one)) (kind_to_u8 k, seq) \<noteq> None \<or> (k, seq) \<in> owed - {(id_kind one, id_seq one)}"
  then show "\<exists>n. rp_counters (name_one r (oid, one)) (kind_to_u8 k) = Some n \<and> 0 \<le> seq \<and> seq < n"
    using numbered_okD(2) [OF num, of k seq] assms(2) by (auto simp: name_one_def split: if_splits)
next
  fix k seq assume "(k, seq) \<in> owed - {(id_kind one, id_seq one)}"
  then show "rp_by_seq (name_one r (oid, one)) (kind_to_u8 k, seq) = None"
    using numbered_okD(3) [OF num, of k seq] by (auto simp: name_one_def)
next
  fix b n assume "rp_counters (name_one r (oid, one)) b = Some n"
  then show "0 \<le> n \<and> n \<le> i64_max" using numbered_okD(4) [OF num, of b n] by (simp add: name_one_def)
qed

lemma name_one_numbers:
  "rp_identities r oid = None \<Longrightarrow> numbers_commit r oid' \<Longrightarrow> numbers_commit (name_one r (oid, one)) oid'"
  by (auto simp: numbers_commit_def name_one_def)

lemma name_one_fields [simp]:
  "rp_table (name_one r one) b = rp_table r b" "rp_key (name_one r one) = rp_key r"
  "rp_storage_key (name_one r one) = rp_storage_key r" "rp_deleted_at (name_one r one) = rp_deleted_at r"
  "rp_identities (name_one r one) = (rp_identities r)(fst one \<mapsto> snd one)"
  by (auto simp: name_one_def rp_table_def split: prod.split)

lemma name_repo:
  "repo_ok valid r owed \<Longrightarrow> (\<lambda>(_, one). (id_kind one, id_seq one)) ` set named \<subseteq> owed \<Longrightarrow> distinct (map fst named) \<Longrightarrow>
    distinct (map snd named) \<Longrightarrow> (\<forall>oid \<in> fst ` set named. rp_identities r oid = None) \<Longrightarrow>
    repo_ok valid (foldl name_one r named) (owed - (\<lambda>(_, one). (id_kind one, id_seq one)) ` set named) \<and>
    live_key (foldl name_one r named) = live_key r"
proof (induction named arbitrary: r owed)
  case (Cons x named)
  obtain oid one where x: "x = (oid, one)" by fastforce
  define owed' where "owed' = owed - {(id_kind one, id_seq one)}"
  have "repo_ok valid (name_one r x) owed'"
    unfolding repo_ok_def x owed'_def
  proof (intro conjI)
    show "numbered_ok (name_one r (oid, one)) (owed - {(id_kind one, id_seq one)})"
      using Cons.prems by (intro name_one_numbered) (auto simp: repo_ok_def x)
    show "refs_ok valid (name_one r (oid, one))"
      by (rule refs_ok_mono [of valid r]) (use Cons.prems name_one_numbers in \<open>auto simp: repo_ok_def x\<close>)
  qed (use Cons.prems(1) in \<open>simp add: repo_ok_def\<close>)
  moreover have "one' \<noteq> one" if "(oid', one') \<in> set named" for oid' one'
    using Cons.prems(4) that by (force simp: x)
  then have "(\<lambda>(_, one). (id_kind one, id_seq one)) ` set named \<subseteq> owed'"
    using Cons.prems(2) by (fastforce simp: x owed'_def intro: identity.equality)
  moreover have "\<forall>oid' \<in> fst ` set named. rp_identities (name_one r x) oid' = None"
    using Cons.prems(3,5) by (auto simp: x)
  ultimately have "repo_ok valid (foldl name_one (name_one r x) named) (owed' - (\<lambda>(_, one). (id_kind one, id_seq one)) ` set named) \<and>
      live_key (foldl name_one (name_one r x) named) = live_key (name_one r x)"
    using Cons.prems(3,4) by (intro Cons.IH) simp_all
  moreover have "owed - (\<lambda>(_, one). (id_kind one, id_seq one)) ` set (x # named) = owed' - (\<lambda>(_, one). (id_kind one, id_seq one)) ` set named"
    by (auto simp: x owed'_def)
  moreover have "live_key (name_one r x) = live_key r" by (simp add: live_key_def)
  ultimately show ?case by (simp del: name_one_fields)
qed simp

text \<open>Ref updates\<close>

lemma funny_for_write: "\<not> is_funny_refname valid name False \<Longrightarrow> \<not> is_funny_refname valid name True"
  by (auto simp: is_funny_refname_def Let_def split: if_splits)

lemma refs_okD:
  assumes "refs_ok valid r" "map_of (rp_table r b) name = Some row"
  shows "is_branch_refname name = b" "\<not> is_funny_refname valid name False" "b \<Longrightarrow> numbers_commit r (rr_oid row)"
  using assms unfolding refs_ok_def by blast+

lemma set_table_refs_ok:
  assumes "refs_ok valid r" "sorted_wrt (<) (map fst t)"
    and "\<And>name row. map_of t name = Some row \<Longrightarrow> map_of (rp_table r b) name = Some row \<or>
      is_branch_refname name = b \<and> \<not> is_funny_refname valid name False \<and> (b \<longrightarrow> numbers_commit r (rr_oid row))"
  shows "refs_ok valid (rp_set_table r b t)"
  unfolding refs_ok_def
proof (intro conjI allI impI)
  fix b' name row assume at: "map_of (rp_table (rp_set_table r b t) b') name = Some row"
  have old: "map_of (rp_table r b') name = Some row \<or>
      is_branch_refname name = b' \<and> \<not> is_funny_refname valid name False \<and> (b' \<longrightarrow> numbers_commit r (rr_oid row))"
    using at assms(3) [of name row] by (simp split: if_splits)
  then show "is_branch_refname name = b'" "\<not> is_funny_refname valid name False"
    using refs_okD [OF assms(1)] by blast+
  show "numbers_commit (rp_set_table r b t) (rr_oid row)" if b'
    using old that refs_okD(3) [OF assms(1)] by auto
next
  fix b' show "sorted_wrt (<) (map fst (rp_table (rp_set_table r b t) b'))"
    using assms(1,2) by (simp add: refs_ok_def)
qed

lemma btree_remove_sorted: "sorted_wrt (<) (map fst m) \<Longrightarrow> sorted_wrt (<) (map fst (btree_remove k m))"
  by (induction m) (auto simp: btree_remove_def)

lemma ref_apply_refs_ok:
  assumes "refs_ok valid r"
  shows "refs_ok valid (snd (ref_apply valid now r u))"
proof -
  have sorted: "sorted_wrt (<) (map fst (rp_table r b))" for b using assms by (simp add: refs_ok_def)
  have gone: "refs_ok valid (rp_set_table r b (btree_remove name (rp_table r b)))" for b name
    by (rule set_table_refs_ok [OF assms]) (auto simp: btree_remove_sorted sorted split: if_splits)
  have put: "refs_ok valid (rp_set_table r b (btree_insert name row (rp_table r b)))"
    if "is_branch_refname name = b" "\<not> is_funny_refname valid name False" "b \<longrightarrow> numbers_commit r (rr_oid row)" for b name row
    by (rule set_table_refs_ok [OF assms]) (use that in \<open>auto simp: btree_insert_sorted sorted split: if_splits\<close>)
  show ?thesis
    using assms by (simp add: ref_apply_def ref_delete_def ref_write_def Let_def gone put)
qed

lemma apply_all_refs_ok: "refs_ok valid r \<Longrightarrow> refs_ok valid (snd (apply_all valid r us))"
proof (induction us arbitrary: r)
  case (Cons x us)
  then show ?case using ref_apply_refs_ok by (cases x) (simp split: prod.split, metis snd_conv)
qed simp

lemma update_refs_ok:
  assumes "rows_ok valid (st, owed)" "i \<le> rs_next_id st"
  shows "rows_ok valid (snd (update_refs valid i us st), owed)"
proof -
  obtain res r where r: "apply_all valid (state_repo st i) us = (res, r)" by fastforce
  have same: "same_but_refs (state_repo st i) r" using apply_all_cas [OF r] by blast
  have row: "repo_ok valid (state_repo st i) (owed `` {i})" using rows_okD(1) [OF assms(1)] .
  have "refs_ok valid r" using apply_all_refs_ok [of valid "state_repo st i" us] r row by (simp add: repo_ok_def)
  with row same have "repo_ok valid r (owed `` {i})"
    unfolding repo_ok_def same_but_refs_numbered [OF same] by (simp add: same_but_refs_def)
  then have "rows_ok valid (set_repo i r st, owed)"
    using same_but_refs_live [OF same] by (intro rows_ok_kept [OF assms]) simp_all
  then show ?thesis by (simp add: update_refs_def r)
qed

text \<open>Repositories\<close>

lemma find_SomeD: "find P xs = Some x \<Longrightarrow> x \<in> set xs \<and> P x"
  by (induction xs) (auto split: if_splits)

lemma live_key_held: "live_key (state_repo st i) = Some key \<Longrightarrow> state_held st i = Some (state_repo st i)"
  by (auto simp: state_held_def state_repo_def live_key_def no_rows_def split: option.splits)

lemma rows_key_of: "key_of st i = live_key (state_repo st i)"
  by (simp add: key_of_def live_key_def state_repo_def no_rows_def split: option.split)

lemma repos_distinct: "rows_ok valid (st, owed) \<Longrightarrow> distinct (map fst (rs_repos st))"
  using rows_okD(2) [of valid st owed] strict_sorted_iff by (metis)

lemma rows_in_repos: "rows_ok valid (st, owed) \<Longrightarrow> (i, r) \<in> set (rs_repos st) \<longleftrightarrow> state_held st i = Some r"
  using map_of_eq_Some_iff [OF repos_distinct] by (simp add: state_held_def)

lemma live_with_key_None:
  assumes "rows_ok valid (st, owed)" "live_with_key st key = None"
  shows "live_key (state_repo st j) \<noteq> Some key"
proof
  assume live: "live_key (state_repo st j) = Some key"
  then have "(j, state_repo st j) \<in> set (rs_repos st)" using rows_in_repos [OF assms(1)] live_key_held by blast
  moreover have "rp_deleted_at (state_repo st j) = None" "rp_key (state_repo st j) = Some key"
    using live by (simp_all add: live_key_def split: if_splits)
  ultimately obtain i r where at: "find (\<lambda>(_, r). rp_deleted_at r = None \<and> rp_key r = Some key) (rs_repos st) = Some (i, r)"
    by (cases "find (\<lambda>(_, r). rp_deleted_at r = None \<and> rp_key r = Some key) (rs_repos st)") (fastforce simp: find_None_iff)+
  from find_SomeD [OF at] have "(i, r) \<in> set (rs_repos st)" "rp_key r = Some key" by simp_all
  then have "r = state_repo st i" using rows_in_repos [OF assms(1)] by (simp add: state_held_def state_repo_def)
  with rows_okD(1) [OF assms(1), of i] \<open>rp_key r = Some key\<close> have "rp_storage_key r \<noteq> None" by (simp add: repo_ok_def)
  with assms(2) at show False by (auto simp: live_with_key_def rp_meta_def)
qed

lemma live_with_key_Some:
  assumes "rows_ok valid (st, owed)"
  shows "live_with_key st key = Some m \<longleftrightarrow> md_lookup st (rm_id m) = Some m \<and> key_of st (rm_id m) = Some key"
proof
  assume "live_with_key st key = Some m"
  then obtain i r where at: "find (\<lambda>(_, r). rp_deleted_at r = None \<and> rp_key r = Some key) (rs_repos st) = Some (i, r)" "rp_meta r i = Some m"
    by (auto simp: live_with_key_def split: option.splits)
  from find_SomeD [OF at(1)] have "(i, r) \<in> set (rs_repos st)" "rp_deleted_at r = None" "rp_key r = Some key" by simp_all
  moreover have "rm_id m = i" using at(2) by (auto simp: rp_meta_def)
  ultimately show "md_lookup st (rm_id m) = Some m \<and> key_of st (rm_id m) = Some key"
    using rows_in_repos [OF assms, of i r] at(2) by (simp add: state_held_def md_lookup_def key_of_def)
next
  assume at: "md_lookup st (rm_id m) = Some m \<and> key_of st (rm_id m) = Some key"
  then have live: "live_key (state_repo st (rm_id m)) = Some key" by (simp add: rows_key_of)
  with live_with_key_None [OF assms] obtain n where n: "live_with_key st key = Some n" by fastforce
  then obtain i r where r: "find (\<lambda>(_, r). rp_deleted_at r = None \<and> rp_key r = Some key) (rs_repos st) = Some (i, r)" "rp_meta r i = Some n"
    by (auto simp: live_with_key_def split: option.splits)
  from find_SomeD [OF r(1)] have ir: "(i, r) \<in> set (rs_repos st)" "rp_deleted_at r = None" "rp_key r = Some key" by simp_all
  then have held: "state_held st i = Some r" using rows_in_repos [OF assms] by blast
  then have repo: "state_repo st i = r" by (simp add: state_held_def state_repo_def)
  then have "live_key (state_repo st i) = Some key" using ir by (simp add: live_key_def)
  then have "i = rm_id m" using rows_okD(4) [OF assms _ live] by blast
  with held at r(2) ir(2) have "m = n" by (simp add: md_lookup_def state_held_def)
  with n show "live_with_key st key = Some m" by simp
qed

lemma wrap_next: "0 \<le> n \<Longrightarrow> n < i64_max \<Longrightarrow> wrap_i64 (n + 1) = n + 1"
  by (simp add: wrap_i64_def i64_max_def)

lemma rows_ok_next:
  assumes "rows_ok valid (st, owed)" "rs_next_id st \<le> n" "n \<le> i64_max"
  shows "rows_ok valid (st\<lparr>rs_next_id := n\<rparr>, owed)"
proof -
  have "state_held (st\<lparr>rs_next_id := n\<rparr>) = state_held st" "state_repo (st\<lparr>rs_next_id := n\<rparr>) = state_repo st"
    by (simp_all add: fun_eq_iff state_held_def state_repo_def)
  with assms rows_okD(5) [OF assms(1)] show ?thesis unfolding rows_ok_def by fastforce
qed

lemma create_ok:
  assumes ok: "rows_ok valid (st, owed)" and "rs_next_id st < i64_max"
  shows "rows_ok valid (snd (md_create fresh b key st), owed)"
proof (cases "live_with_key st key")
  case None
  define i where "i = rs_next_id st + 1"
  define d where "d = (case b of None \<Rightarrow> ''refs/heads/main'' | Some b \<Rightarrow> b)"
  define r where "r = md_counters (no_rows\<lparr>rp_storage_key := Some fresh, rp_key := Some key, rp_default_branch := d\<rparr>)"
  have "state_held st i = None" using rows_okD(3) [OF ok, of i] by (cases "state_held st i") (simp_all add: i_def)
  then have absent: "state_repo st i = no_rows" by (rule state_repo_absent)
  then have none: "owed `` {i} = {}" using rows_okD(1) [OF ok, of i] no_rows_repo by simp
  have ok': "rows_ok valid (st\<lparr>rs_next_id := i\<rparr>, owed)" using assms by (intro rows_ok_next) (simp_all add: i_def)
  have "repo_ok valid (no_rows\<lparr>rp_storage_key := Some fresh, rp_key := Some key, rp_default_branch := d\<rparr>) {}"
    by (simp add: repo_ok_def no_rows_def numbered_ok_def refs_ok_def rp_table_def)
  then have "repo_ok valid r (owed `` {i})" unfolding r_def none by (rule md_counters_repo)
  moreover have "live_key (state_repo (st\<lparr>rs_next_id := i\<rparr>) j) \<noteq> Some k" if "live_key r = Some k" for j k
  proof -
    have "k = key" using that by (simp add: r_def live_key_def no_rows_def)
    then show ?thesis using live_with_key_None [OF ok None, of j] by (simp add: state_repo_def)
  qed
  ultimately have "rows_ok valid (set_repo i r (st\<lparr>rs_next_id := i\<rparr>), owed)"
    by (intro rows_okI [OF ok']) simp_all
  moreover have "snd (md_create fresh b key st) = set_repo i r (st\<lparr>rs_next_id := i\<rparr>)"
    using None absent wrap_next [OF rows_okD(5) [OF ok] assms(2)]
    by (simp add: md_create_def Let_def i_def [symmetric] d_def [symmetric] r_def state_repo_def)
  ultimately show ?thesis by simp
qed (use ok in \<open>simp add: md_create_def\<close>)

lemma erase_repo: "state_repo (md_erase i st) j = (if j = i then no_rows else state_repo st j)"
  "state_held (md_erase i st) j = (if j = i then None else state_held st j)"
proof -
  have "map_of (filter (\<lambda>(k, _). k \<noteq> i) m) j = (if j = i then None else map_of m j)" for m :: "(repo_id \<times> repo_rows) list"
    by (induction m) auto
  then show "state_repo (md_erase i st) j = (if j = i then no_rows else state_repo st j)"
    "state_held (md_erase i st) j = (if j = i then None else state_held st j)"
    by (simp_all add: state_repo_def state_held_def md_erase_def)
qed

lemma erase_next [simp]: "rs_next_id (md_erase i st) = rs_next_id st"
  by (simp add: md_erase_def)

lemma erase_ok:
  assumes ok: "rows_ok valid (st, owed)"
  shows "rows_ok valid (md_erase i st, {c \<in> owed. fst c \<noteq> i})"
  unfolding rows_ok_def prod.case
proof (intro conjI allI impI)
  show "sorted_wrt (<) (map fst (rs_repos (md_erase i st)))"
    using btree_remove_sorted [OF rows_okD(2) [OF ok], of i] by (simp add: md_erase_def btree_remove_def)
  show "0 \<le> rs_next_id (md_erase i st)" "rs_next_id (md_erase i st) \<le> i64_max"
    using rows_okD(5,6) [OF ok] by simp_all
  show "j \<le> rs_next_id (md_erase i st)" if "state_held (md_erase i st) j \<noteq> None" for j
    using that rows_okD(3) [OF ok, of j] by (simp add: erase_repo split: if_splits)
  have "{c \<in> owed. fst c \<noteq> i} `` {j} = (if j = i then {} else owed `` {j})" for j by auto
  then show "repo_ok valid (state_repo (md_erase i st) j) ({c \<in> owed. fst c \<noteq> i} `` {j})" for j
    using rows_okD(1) [OF ok, of j] by (simp add: erase_repo no_rows_repo)
  have "live_key no_rows = None" by (simp add: live_key_def no_rows_def)
  then show "j = l" if "live_key (state_repo (md_erase i st) j) = Some key \<and> live_key (state_repo (md_erase i st) l) = Some key" for j l key
    using that rows_okD(4) [OF ok, of j key l] by (simp add: erase_repo split: if_splits)
qed

section \<open>Every step keeps the invariant\<close>

lemma allocate_ok:
  assumes ok: "rows_ok valid (st, owed)" "i \<le> rs_next_id st" and "md_allocate i k count st = (Inr first, st')" "first + uint count \<le> i64_max"
  shows "rows_ok valid (st', owed \<union> (\<lambda>seq. (i, k, seq)) ` {first ..< first + uint count})"
proof -
  let ?r = "state_repo st i"
  have at: "rp_counters ?r (kind_to_u8 k) = Some first"
    "st' = set_repo i (?r\<lparr>rp_counters := (rp_counters ?r)(kind_to_u8 k \<mapsto> sat_i64 (first + uint count))\<rparr>) st"
    using assms(3) by (auto simp: md_allocate_def Let_def split: if_splits option.splits)
  have owed: "(owed \<union> (\<lambda>seq. (i, k, seq)) ` {first ..< first + uint count}) `` {i} = owed `` {i} \<union> Pair k ` {first ..< first + uint count}"
    by auto
  show ?thesis unfolding at(2)
  proof (rule rows_ok_kept [OF ok])
    show "repo_ok valid (?r\<lparr>rp_counters := (rp_counters ?r)(kind_to_u8 k \<mapsto> sat_i64 (first + uint count))\<rparr>)
        ((owed \<union> (\<lambda>seq. (i, k, seq)) ` {first ..< first + uint count}) `` {i})"
      unfolding owed by (rule allocate_repo [OF rows_okD(1) [OF ok(1)] at(1) _ assms(4)]) simp
  qed (auto simp: live_key_def)
qed

lemma name_ok:
  assumes ok: "rows_ok valid (st, owed)" "i \<le> rs_next_id st"
    and "claims_of i named \<subseteq> owed" "distinct (map fst named)" "distinct (map snd named)" "md_record i named st = (Inr (), st')"
  shows "rows_ok valid (st', owed - claims_of i named)"
proof -
  let ?r = "state_repo st i" and ?c = "(\<lambda>(_, one). (id_kind one, id_seq one)) ` set named"
  have at: "\<forall>oid \<in> fst ` set named. rp_identities ?r oid = None" "st' = set_repo i (foldl name_one ?r named) st"
    using assms(6) by (auto simp: md_record_def Let_def split: if_splits)
  have "?c \<subseteq> owed `` {i}" using assms(3) by (auto simp: claims_of_def)
  from name_repo [OF rows_okD(1) [OF ok(1)] this assms(4,5) at(1)]
  have "repo_ok valid (foldl name_one ?r named) (owed `` {i} - ?c)" "live_key (foldl name_one ?r named) = live_key ?r" by simp_all
  moreover have "(owed - claims_of i named) `` {i} = owed `` {i} - ?c" by (auto simp: claims_of_def)
  moreover have "(owed - claims_of i named) `` {j} = owed `` {j}" if "j \<noteq> i" for j using that by (auto simp: claims_of_def)
  ultimately show ?thesis unfolding at(2) by (intro rows_ok_kept [OF ok]) simp_all
qed

lemma rows_step_ok: "rows_step valid s t \<Longrightarrow> rows_ok valid s \<Longrightarrow> rows_ok valid t"
proof (induction rule: rows_step.induct)
  case (create st owed fresh b key)
  then show ?case by (simp add: create_ok)
next
  case (create_counters i st owed)
  then show ?case unfolding create_counters_def
    by (intro rows_ok_kept) (auto simp: live_key_def intro: md_counters_repo rows_okD)
next
  case (allocate i st k count first st' owed)
  then show ?case by (simp add: allocate_ok)
next
  case (refuse i st k count e st' owed)
  then show ?case
    by (auto simp: md_allocate_def Let_def same_named_def intro!: rows_ok_same split: if_splits option.splits)
next
  case (name i st named owed st')
  then show ?case by (simp add: name_ok)
next
  case (race i st named e st' owed)
  then show ?case by (auto simp: md_record_def Let_def same_named_def intro!: rows_ok_same split: if_splits)
next
  case (refs i st owed us)
  then show ?case by (simp add: update_refs_ok)
next
  case (delete i st owed now)
  show ?case
  proof (cases "rp_deleted_at (state_repo st i)")
    case None
    let ?r = "(state_repo st i)\<lparr>rp_deleted_at := Some now\<rparr>"
    have "repo_ok valid ?r (owed `` {i}) = repo_ok valid (state_repo st i) (owed `` {i})"
      by (simp add: repo_ok_def numbered_ok_def refs_ok_def rp_table_def numbers_commit_def)
    with delete rows_okD(1) [OF delete(2), of i] have "rows_ok valid (set_repo i ?r st, owed)"
      by (intro rows_ok_kept) (simp_all add: live_key_def)
    with None show ?thesis by (simp add: mark_deleted_def Let_def)
  next
    case (Some at)
    with rows_ok_same [OF delete(2,1), of "state_repo st i"] show ?thesis by (simp add: mark_deleted_def Let_def same_named_def)
  qed
next
  case (erase st owed i)
  then show ?case by (rule erase_ok)
qed (auto simp: register_segments_def retire_segments_def drop_retired_segments_def hold_maintenance_def release_maintenance_def
  Let_def same_named_def same_but_refs_def intro!: rows_ok_same)

lemma no_state_ok: "rows_ok valid (no_state, {})"
  by (simp add: rows_ok_def no_state_def state_held_def state_repo_def no_rows_repo i64_max_def)
     (simp add: no_rows_def live_key_def)

lemma rows_reachable: "(rows_step valid)\<^sup>*\<^sup>* (no_state, {}) s \<Longrightarrow> rows_ok valid s"
  by (induction rule: rtranclp_induct) (auto simp: no_state_ok rows_step_ok)

section \<open>What callers read\<close>

lemma collect_map_one [simp]: "collect_map [] = []" "collect_map [x] = [x]"
  by (auto simp: collect_map_def split: prod.split)

lemma md_identify_one: "map_of (md_identify st i [oid]) oid = rp_identities (state_repo st i) oid"
  by (cases "rp_identities (state_repo st i) oid")
     (auto simp: md_identify_def state_held_def state_repo_def no_rows_def map_filter_simps split: option.splits)

lemma md_oids_of_one: "md_oids_of st i k [seq] = (case rp_by_seq (state_repo st i) (kind_to_u8 k, seq) of None \<Rightarrow> [] | Some oid \<Rightarrow> [(seq, oid)])"
  by (auto simp: md_oids_of_def state_held_def state_repo_def no_rows_def map_filter_simps split: option.splits)

lemma md_seqs_of_one:
  "numbers_commit (state_repo st i) oid \<Longrightarrow> \<exists>seq. md_seqs_of st i Commit [oid] = [(oid, seq)]"
  by (auto simp: md_seqs_of_def md_identify_def numbers_commit_def state_held_def state_repo_def no_rows_def map_filter_simps split: option.splits)

lemma listed_branch:
  assumes "rows_ok valid (st, owed)" "entry \<in> set (ref_listing st i)" "is_branch_refname (re_refname entry)"
  shows "numbers_commit (state_repo st i) (re_oid entry)"
proof -
  obtain r where r: "state_held st i = Some r" using assms(2) by (cases "state_held st i") (auto simp: ref_listing_def)
  then have repo: "state_repo st i = r" by (simp add: state_held_def state_repo_def)
  have ok: "refs_ok valid r" using rows_okD(1) [OF assms(1), of i] repo by (simp add: repo_ok_def)
  obtain row where "(re_refname entry, row) \<in> set (refs_chain r)" "re_oid entry = rr_oid row"
    using assms(2) r by (auto simp: ref_listing_def)
  then have "(re_refname entry, row) \<in> set (rp_table r True) \<or> (re_refname entry, row) \<in> set (rp_table r False)"
    by (simp add: refs_chain_def rp_table_def)
  then obtain b where b: "(re_refname entry, row) \<in> set (rp_table r b)" by blast
  have "distinct (map fst (rp_table r b))" using ok unfolding refs_ok_def strict_sorted_iff by blast
  with b have "map_of (rp_table r b) (re_refname entry) = Some row" by simp
  from refs_okD(1,3) [OF ok this] assms(3) \<open>re_oid entry = rr_oid row\<close> repo show ?thesis by simp
qed

text \<open>C30: however the calls of concurrent pushes, maintenance passes and deletions interleave, the two directions of an
  object's numbering agree, a key names at most one live repository, a fresh allocation starts past every seq in use, and
  every listed branch points at an object the repository numbers as a commit.\<close>

theorem rows_reachable_consistent:
  assumes "(rows_step valid)\<^sup>*\<^sup>* (no_state, {}) (st, owed)"
  shows "(map_of (md_oids_of st i k [seq]) seq = Some oid \<longleftrightarrow> map_of (md_identify st i [oid]) oid = Some \<lparr>id_seq = seq, id_kind = k\<rparr>) \<and>
    (by_key st key = Some m \<longleftrightarrow> md_lookup st (rm_id m) = Some m \<and> key_of st (rm_id m) = Some key) \<and>
    (fst (md_allocate i k n st) = Inr first \<and> first \<le> seq \<longrightarrow> md_oids_of st i k [seq] = []) \<and>
    (\<forall>entry \<in> set (ref_listing st i). is_branch_refname (re_refname entry) \<longrightarrow>
      (\<exists>seq. md_seqs_of st i Commit [re_oid entry] = [(re_oid entry, seq)]))"
proof -
  have ok: "rows_ok valid (st, owed)" using rows_reachable [OF assms] .
  have num: "numbered_ok (state_repo st i) (owed `` {i})" using rows_okD(1) [OF ok] by (simp add: repo_ok_def)
  have "md_oids_of st i k [seq] = []" if "fst (md_allocate i k n st) = Inr first" "first \<le> seq"
  proof -
    have "rp_counters (state_repo st i) (kind_to_u8 k) = Some first"
      using that(1) by (auto simp: md_allocate_def Let_def split: if_splits option.splits)
    with numbered_okD(2) [OF num, of k seq] that(2) show ?thesis
      by (cases "rp_by_seq (state_repo st i) (kind_to_u8 k, seq)") (auto simp: md_oids_of_one)
  qed
  then show ?thesis
    using numbered_okD(1) [OF num, of k seq oid] live_with_key_Some [OF ok, of key m] md_seqs_of_one listed_branch [OF ok]
    by (auto simp: md_identify_one md_oids_of_one by_key_def split: option.splits)
qed

section \<open>A push\<close>

text \<open>One repository, one commit numbered and a branch made of it.\<close>

definition example_oid :: oid where
  "example_oid = replicate 20 1"

definition example_update :: ref_update where
  "example_update = \<lparr>ru_refname = ''refs/heads/main'', ru_old = null_oid, ru_new = example_oid\<rparr>"

definition created_rows :: rows_state where
  "created_rows = snd (md_create 7 None ''one'' no_state)"

definition allocated_rows :: rows_state where
  "allocated_rows = snd (md_allocate 1 Commit 1 created_rows)"

definition named_rows :: rows_state where
  "named_rows = snd (md_record 1 [(example_oid, \<lparr>id_seq = 0, id_kind = Commit\<rparr>)] allocated_rows)"

definition pushed_rows :: rows_state where
  "pushed_rows = snd (update_refs (\<lambda>_. True) 1 [(5, example_update)] named_rows)"

definition created_repo :: repo_rows where
  "created_repo = md_counters (no_rows\<lparr>rp_storage_key := Some 7, rp_key := Some ''one'', rp_default_branch := ''refs/heads/main''\<rparr>)"

lemma created_rows_eq: "created_rows = \<lparr>rs_next_id = 1, rs_repos = [(1, created_repo)]\<rparr>"
  by (simp add: created_rows_def md_create_def live_with_key_def no_state_def wrap_i64_def Let_def state_repo_def set_repo_def created_repo_def)

lemma created_repo_counters: "rp_counters created_repo (kind_to_u8 Commit) = Some 0"
  by (simp add: created_repo_def md_counters_def no_rows_def kind_to_u8_def)

lemma allocated_rows_eq: "md_allocate 1 Commit 1 created_rows = (Inr 0, allocated_rows)"
  "allocated_rows = \<lparr>rs_next_id = 1, rs_repos = [(1, created_repo\<lparr>rp_counters := (rp_counters created_repo)(1 \<mapsto> 1)\<rparr>)]\<rparr>"
proof -
  have "md_allocate 1 Commit 1 created_rows = (Inr 0, \<lparr>rs_next_id = 1, rs_repos = [(1, created_repo\<lparr>rp_counters := (rp_counters created_repo)(1 \<mapsto> 1)\<rparr>)]\<rparr>)"
    using created_repo_counters
    by (simp add: md_allocate_def created_rows_eq Let_def state_repo_def set_repo_def i64_max_def sat_i64_def i64_min_def kind_to_u8_def)
  then show "md_allocate 1 Commit 1 created_rows = (Inr 0, allocated_rows)"
    "allocated_rows = \<lparr>rs_next_id = 1, rs_repos = [(1, created_repo\<lparr>rp_counters := (rp_counters created_repo)(1 \<mapsto> 1)\<rparr>)]\<rparr>"
    by (simp_all add: allocated_rows_def)
qed

lemma named_rows_eq: "md_record 1 [(example_oid, \<lparr>id_seq = 0, id_kind = Commit\<rparr>)] allocated_rows = (Inr (), named_rows)"
  "rs_next_id named_rows = 1"
  by (simp_all add: named_rows_def md_record_def allocated_rows_eq(2) Let_def state_repo_def created_repo_def no_rows_def)

lemma pushed_reachable: "(rows_step (\<lambda>_. True))\<^sup>*\<^sup>* (no_state, {}) (pushed_rows, {})"
proof -
  let ?R = "rows_step (\<lambda>_. True)"
  have 1: "?R (no_state, {}) (created_rows, {})"
    unfolding created_rows_def by (rule rows_step.create) (simp add: no_state_def i64_max_def)
  have 2: "?R (created_rows, {}) (allocated_rows, {} \<union> (\<lambda>seq. (1, Commit, seq)) ` {0 ..< 0 + uint (1 :: u64)})"
    by (rule rows_step.allocate [OF _ allocated_rows_eq(1)]) (simp_all add: created_rows_eq i64_max_def)
  let ?named = "[(example_oid, \<lparr>id_seq = 0, id_kind = Commit\<rparr>)]"
  have owed: "{} \<union> (\<lambda>seq. (1, Commit, seq)) ` {0 ..< 0 + uint (1 :: u64)} = claims_of 1 ?named"
    by (auto simp: claims_of_def)
  have 3: "?R (allocated_rows, claims_of 1 ?named) (named_rows, claims_of 1 ?named - claims_of 1 ?named)"
    by (rule rows_step.name [OF _ _ _ _ named_rows_eq(1)]) (simp_all add: allocated_rows_eq(2))
  have 4: "?R (named_rows, {}) (pushed_rows, {})"
    unfolding pushed_rows_def by (rule rows_step.refs) (simp add: named_rows_eq(2))
  from 1 2 3 4 show ?thesis unfolding owed by (simp add: rtranclp.rtrancl_into_rtrancl)
qed

theorem update_refs_refines_witness:
  "ref_view (state_repo pushed_rows 1) ''refs/heads/main'' = Some example_oid"
proof -
  obtain res st' where "update_refs (\<lambda>_. True) 1 [(5, example_update)] named_rows = (res, st')" by fastforce
  moreover from this have "st' = pushed_rows" by (simp add: pushed_rows_def)
  ultimately have "(res, ref_view (state_repo pushed_rows 1)) =
      cas_all (\<lambda>_. True) (numbers_commit (state_repo named_rows 1)) [example_update] (ref_view (state_repo named_rows 1))"
    using update_refs_refines by fastforce
  then show ?thesis
    by (simp add: cas_def example_update_def is_funny_refname_def starts_with_def is_branch_refname_def null_oid_def example_oid_def
      numbers_commit_def named_rows_def md_record_def allocated_rows_eq(2) Let_def state_repo_def created_repo_def no_rows_def
      set_repo_def name_one_def ref_view_def rp_table_def md_counters_def)
qed

theorem rows_reachable_consistent_witness:
  "md_oids_of pushed_rows 1 Commit [0] = [(0, example_oid)] \<longleftrightarrow>
    map_of (md_identify pushed_rows 1 [example_oid]) example_oid = Some \<lparr>id_seq = 0, id_kind = Commit\<rparr>"
  using rows_reachable_consistent [OF pushed_reachable, of 1 Commit 0 example_oid]
  by (auto simp: md_oids_of_one split: option.splits)

end
