(* ===== verification/Journal.thy ===== *)
theory Journal
  imports Store_Answers Rows_Steps
begin

text \<open>
  The write as a value (\<open>git/journal/src/journal.rs\<close>) and the ledger that lands it against four catalogs and the
  rows (\<open>git/journal/src/memory.rs\<close>). The four catalogs are a quadruple in the order of \<open>Index::ALL\<close>, with the
  operations of each beside its state; a ledger whose catalogs are all in memory never fails.
\<close>

section \<open>Lists\<close>

datatype index = CommitGraph | CommitPacks | Trees | Blobs

definition INDEX_ALL :: "index list" where
  "INDEX_ALL = [CommitGraph, CommitPacks, Trees, Blobs]"

type_synonym 'a each = "'a \<times> 'a \<times> 'a \<times> 'a"

definition index_of :: "index \<Rightarrow> 'a each \<Rightarrow> 'a" where
  "index_of i each = (case each of (commit_graph, commit_packs, trees, blobs) \<Rightarrow>
     case i of CommitGraph \<Rightarrow> commit_graph | CommitPacks \<Rightarrow> commit_packs | Trees \<Rightarrow> trees | Blobs \<Rightarrow> blobs)"

definition set_index :: "index \<Rightarrow> 'a \<Rightarrow> 'a each \<Rightarrow> 'a each" where
  "set_index i x each = (case each of (commit_graph, commit_packs, trees, blobs) \<Rightarrow>
     case i of CommitGraph \<Rightarrow> (x, commit_packs, trees, blobs) | CommitPacks \<Rightarrow> (commit_graph, x, trees, blobs)
     | Trees \<Rightarrow> (commit_graph, commit_packs, x, blobs) | Blobs \<Rightarrow> (commit_graph, commit_packs, trees, x))"

lemma index_of_set [simp]: "index_of i (set_index j x each) = (if i = j then x else index_of i each)"
  by (cases i; cases j) (simp_all add: index_of_def set_index_def split: prod.split)

lemma INDEX_ALL_all [simp]: "i \<in> set INDEX_ALL" "distinct INDEX_ALL"
  by (cases i) (simp_all add: INDEX_ALL_def)

section \<open>Journals\<close>

record listing =
  ls_index :: index
  ls_scope :: scope
  ls_segment :: written

record journal =
  jn_listed :: "listing list"
  jn_registered :: "u128 list"
  jn_retired :: "u128 list"

definition journal_new :: journal where
  "journal_new = \<lparr>jn_listed = [], jn_registered = [], jn_retired = []\<rparr>"

definition journal_list :: "index \<Rightarrow> scope \<Rightarrow> written \<Rightarrow> journal \<Rightarrow> journal" where
  "journal_list i scope row j = j\<lparr>jn_listed := jn_listed j @ [\<lparr>ls_index = i, ls_scope = scope, ls_segment = row\<rparr>]\<rparr>"

definition journal_register :: "u128 list \<Rightarrow> journal \<Rightarrow> journal" where
  "journal_register ids j = j\<lparr>jn_registered := jn_registered j @ ids\<rparr>"

definition journal_retire :: "u128 list \<Rightarrow> journal \<Rightarrow> journal" where
  "journal_retire ids j = j\<lparr>jn_retired := jn_retired j @ ids\<rparr>"

definition journal_is_empty :: "journal \<Rightarrow> bool" where
  "journal_is_empty j \<longleftrightarrow> jn_listed j = [] \<and> jn_registered j = [] \<and> jn_retired j = []"

section \<open>The ledger\<close>

record 'c ledger =
  ld_lists :: "'c each"
  ld_rows :: rows_state

datatype ledger_error = EListingRow index catalog_error | EPurging index catalog_error

definition ledger_in_memory :: "rows_state \<Rightarrow> memory_catalog ledger" where
  "ledger_in_memory rows = \<lparr>ld_lists = (Map.empty, Map.empty, Map.empty, Map.empty), ld_rows = rows\<rparr>"

definition memory_each :: "memory_catalog catalog_ops each" where
  "memory_each = (memory_ops, memory_ops, memory_ops, memory_ops)"

definition ledger_catalog :: "'c ledger \<Rightarrow> index \<Rightarrow> 'c" where
  "ledger_catalog l i = index_of i (ld_lists l)"

fun land_listed :: "'c catalog_ops each \<Rightarrow> listing list \<Rightarrow> 'c each \<Rightarrow> (ledger_error, unit) result \<times> 'c each" where
  "land_listed ops [] cats = (Inr (), cats)"
| "land_listed ops (one # rest) cats =
     (case co_insert (index_of (ls_index one) ops) (ls_scope one) (ls_segment one) (index_of (ls_index one) cats) of
        (Inl e, c) \<Rightarrow> (Inl (EListingRow (ls_index one) e), set_index (ls_index one) c cats)
      | (Inr _, c) \<Rightarrow> land_listed ops rest (set_index (ls_index one) c cats))"

definition ledger_commit ::
    "'c catalog_ops each \<Rightarrow> int \<Rightarrow> repo_id \<Rightarrow> journal \<Rightarrow> 'c ledger \<Rightarrow> (ledger_error, unit) result \<times> 'c ledger" where
  "ledger_commit ops now repo j l =
     (if journal_is_empty j then (Inr (), l)
      else case land_listed ops (jn_listed j) (ld_lists l) of
        (Inl e, cats) \<Rightarrow> (Inl e, l\<lparr>ld_lists := cats\<rparr>)
      | (Inr _, cats) \<Rightarrow> (Inr (), \<lparr>ld_lists = cats,
          ld_rows = retire_segments now repo (jn_retired j) (register_segments repo (jn_registered j) (ld_rows l))\<rparr>))"

definition ledger_commit_held ::
    "'c catalog_ops each \<Rightarrow> int \<Rightarrow> repo_metadata \<Rightarrow> journal \<Rightarrow> 'c ledger \<Rightarrow> (ledger_error, bool) result \<times> 'c ledger" where
  "ledger_commit_held ops now repo j l =
     (case hold_maintenance (rm_id repo) (ld_rows l) of
        (False, rows) \<Rightarrow> (Inr False, l\<lparr>ld_rows := rows\<rparr>)
      | (True, rows) \<Rightarrow>
          (case ledger_commit ops now (rm_id repo) j (l\<lparr>ld_rows := rows\<rparr>) of (landed, l) \<Rightarrow>
             (rbind landed (\<lambda>_. Inr True), l\<lparr>ld_rows := release_maintenance (rm_id repo) (ld_rows l)\<rparr>)))"

fun purge_lists :: "'c catalog_ops each \<Rightarrow> repo_id \<Rightarrow> index list \<Rightarrow> 'c each \<Rightarrow> (ledger_error, unit) result \<times> 'c each" where
  "purge_lists ops repo [] cats = (Inr (), cats)"
| "purge_lists ops repo (i # is) cats =
     (case co_purge (index_of i ops) repo (index_of i cats) of
        (Inl e, c) \<Rightarrow> (Inl (EPurging i e), set_index i c cats)
      | (Inr _, c) \<Rightarrow> purge_lists ops repo is (set_index i c cats))"

definition ledger_erase :: "'c catalog_ops each \<Rightarrow> repo_id \<Rightarrow> 'c ledger \<Rightarrow> (ledger_error, unit) result \<times> 'c ledger" where
  "ledger_erase ops repo l =
     (case purge_lists ops repo INDEX_ALL (ld_lists l) of
        (Inl e, cats) \<Rightarrow> (Inl e, l\<lparr>ld_lists := cats\<rparr>)
      | (Inr _, cats) \<Rightarrow> (Inr (), \<lparr>ld_lists = cats, ld_rows = md_erase repo (ld_rows l)\<rparr>))"

section \<open>What lands\<close>

text \<open>The rows a journal cats in one list for one scope, in the order it cats them.\<close>

definition listed_in :: "index \<Rightarrow> int \<Rightarrow> listing list \<Rightarrow> written list" where
  "listed_in i s ls = map ls_segment (filter (\<lambda>one. ls_index one = i \<and> sc_id (ls_scope one) = s) ls)"

lemma index_of_memory [simp]: "index_of i memory_each = memory_ops"
  by (cases i) (simp_all add: index_of_def memory_each_def)

lemma land_listed_memory:
  "land_listed memory_each ls cats = (res, cats') \<Longrightarrow>
    res = Inr () \<and> scope_rows (index_of i cats') s = scope_rows (index_of i cats) s @ listed_in i s ls"
proof (induction ls arbitrary: cats)
  case (Cons one ls)
  let ?i = "ls_index one" and ?s = "sc_id (ls_scope one)"
  let ?c = "(index_of ?i cats)(?s := Some (scope_rows (index_of ?i cats) ?s @ [ls_segment one]))"
  have "land_listed memory_each ls (set_index ?i ?c cats) = (res, cats')"
    using Cons.prems by (simp add: memory_ops_def memory_insert_def)
  from Cons.IH [OF this] show ?case by (simp add: scope_rows_def listed_in_def)
qed (simp add: listed_in_def)

lemma purge_lists_memory:
  "purge_lists memory_each repo is cats = (res, cats') \<Longrightarrow>
    res = Inr () \<and> scope_rows (index_of i cats') s = (if s = repo \<and> i \<in> set is then [] else scope_rows (index_of i cats) s)"
proof (induction "is" arbitrary: cats)
  case (Cons x "is")
  have "purge_lists memory_each repo is (set_index x ((index_of x cats)(repo := None)) cats) = (res, cats')"
    using Cons.prems by (simp add: memory_ops_def memory_purge_def)
  from Cons.IH [OF this] show ?case by (auto simp: scope_rows_def)
qed simp

text \<open>What becomes of one pack image.\<close>

definition segment_row :: "rows_state \<Rightarrow> repo_id \<Rightarrow> u128 \<Rightarrow> int option option" where
  "segment_row st i s = map_of (rp_segments (state_repo st i)) s"

lemma foldl_entry_or_default:
  "map_of (foldl entry_or_default m ids) s = (if map_of m s = None \<and> s \<in> set ids then Some None else map_of m s)"
  by (induction ids arbitrary: m) (auto simp: entry_or_default_def)

lemma foldl_stamp:
  "map_of (foldl (stamp now) m ids) s = (if map_of m s = Some None \<and> s \<in> set ids then Some (Some now) else map_of m s)"
  by (induction ids arbitrary: m) (auto simp: stamp_def)

lemma register_row: "segment_row (register_segments i ids st) j s =
    (if j = i \<and> segment_row st i s = None \<and> s \<in> set ids then Some None else segment_row st j s)"
  by (simp add: segment_row_def register_segments_def Let_def foldl_entry_or_default)

lemma retire_row: "segment_row (retire_segments now i ids st) j s =
    (if j = i \<and> segment_row st i s = Some None \<and> s \<in> set ids then Some (Some now) else segment_row st j s)"
  by (simp add: segment_row_def retire_segments_def Let_def foldl_stamp)

definition landed_segment :: "int \<Rightarrow> journal \<Rightarrow> u128 \<Rightarrow> int option option \<Rightarrow> int option option" where
  "landed_segment now j s old =
     (let held = (if old = None \<and> s \<in> set (jn_registered j) then Some None else old) in
      if held = Some None \<and> s \<in> set (jn_retired j) then Some (Some now) else held)"

lemma commit_memory:
  assumes "ledger_commit memory_each now repo j l = (res, l')"
  shows "res = Inr ()" "scope_rows (ledger_catalog l' i) s = scope_rows (ledger_catalog l i) s @ listed_in i s (jn_listed j)"
    "segment_row (ld_rows l') r seg = (if r = repo then landed_segment now j seg (segment_row (ld_rows l) r seg) else segment_row (ld_rows l) r seg)"
proof -
  obtain lres cats where land: "land_listed memory_each (jn_listed j) (ld_lists l) = (lres, cats)" by (rule prod.exhaust)
  note lands = land_listed_memory [OF land]
  have "res = Inr () \<and> (scope_rows (ledger_catalog l' i) s = scope_rows (ledger_catalog l i) s @ listed_in i s (jn_listed j)) \<and>
      segment_row (ld_rows l') r seg = (if r = repo then landed_segment now j seg (segment_row (ld_rows l) r seg) else segment_row (ld_rows l) r seg)"
  proof (cases "journal_is_empty j")
    case True
    then show ?thesis
      using assms by (simp add: ledger_commit_def journal_is_empty_def listed_in_def landed_segment_def)
  next
    case False
    then show ?thesis
      using assms land lands [of i s]
      by (auto simp: ledger_commit_def ledger_catalog_def retire_row register_row landed_segment_def Let_def)
  qed
  then show "res = Inr ()" "scope_rows (ledger_catalog l' i) s = scope_rows (ledger_catalog l i) s @ listed_in i s (jn_listed j)"
    "segment_row (ld_rows l') r seg = (if r = repo then landed_segment now j seg (segment_row (ld_rows l) r seg) else segment_row (ld_rows l) r seg)"
    by simp_all
qed

lemma hold_release_row [simp]:
  "segment_row (snd (hold_maintenance i st)) r s = segment_row st r s"
  "segment_row (release_maintenance i st) r s = segment_row st r s"
  by (simp_all add: segment_row_def hold_maintenance_def release_maintenance_def Let_def)

text \<open>C36: a maintenance pass lands its journal exactly when no other pass holds the repository, and lands all of it: every
  listed segment is appended to its list and scope in order, a registered image that was not named becomes live, and a
  retired one is stamped once. A refused pass changes no list and no image and leaves the other's lock held; one that
  landed has given its own back.\<close>

theorem commit_held_lands:
  assumes "ledger_commit_held memory_each now repo j l = (res, l')"
  shows "res = Inr (\<not> rp_gathering (state_repo (ld_rows l) (rm_id repo))) \<and>
    rp_gathering (state_repo (ld_rows l') (rm_id repo)) = rp_gathering (state_repo (ld_rows l) (rm_id repo)) \<and>
    (if res = Inr True
     then scope_rows (ledger_catalog l' i) s = scope_rows (ledger_catalog l i) s @ listed_in i s (jn_listed j) \<and>
       segment_row (ld_rows l') (rm_id repo) seg = landed_segment now j seg (segment_row (ld_rows l) (rm_id repo) seg)
     else ledger_catalog l' i = ledger_catalog l i \<and> segment_row (ld_rows l') (rm_id repo) seg = segment_row (ld_rows l) (rm_id repo) seg)"
proof (cases "rp_gathering (state_repo (ld_rows l) (rm_id repo))")
  case True
  then have "res = Inr False" "l' = l\<lparr>ld_rows := snd (hold_maintenance (rm_id repo) (ld_rows l))\<rparr>"
    using assms by (auto simp: ledger_commit_held_def hold_maintenance_def Let_def)
  with True show ?thesis by (simp add: ledger_catalog_def) (simp add: hold_maintenance_def Let_def)
next
  case False
  let ?held = "l\<lparr>ld_rows := snd (hold_maintenance (rm_id repo) (ld_rows l))\<rparr>"
  obtain landed m where com: "ledger_commit memory_each now (rm_id repo) j ?held = (landed, m)" by (rule prod.exhaust)
  then have "landed = Inr ()" using commit_memory(1) by blast
  with False com assms have "res = Inr True" "l' = m\<lparr>ld_rows := release_maintenance (rm_id repo) (ld_rows m)\<rparr>"
    by (auto simp: ledger_commit_held_def hold_maintenance_def Let_def)
  moreover have "scope_rows (ledger_catalog m i) s = scope_rows (ledger_catalog ?held i) s @ listed_in i s (jn_listed j)"
    "segment_row (ld_rows m) (rm_id repo) seg = landed_segment now j seg (segment_row (ld_rows l) (rm_id repo) seg)"
    using commit_memory(2,3) [OF com] by simp_all
  ultimately show ?thesis using False by (simp add: ledger_catalog_def) (simp add: release_maintenance_def)
qed

text \<open>Erasing takes the repository out of every list and out of the rows, and nothing else.\<close>

lemma erase_memory:
  assumes "ledger_erase memory_each repo l = (res, l')"
  shows "res = Inr ()" "scope_rows (ledger_catalog l' i) s = (if s = repo then [] else scope_rows (ledger_catalog l i) s)"
    "state_held (ld_rows l') r = (if r = repo then None else state_held (ld_rows l) r)"
proof -
  obtain lres cats where purge: "purge_lists memory_each repo INDEX_ALL (ld_lists l) = (lres, cats)" by (rule prod.exhaust)
  note gone = purge_lists_memory [OF purge]
  show "res = Inr ()" "scope_rows (ledger_catalog l' i) s = (if s = repo then [] else scope_rows (ledger_catalog l i) s)"
    "state_held (ld_rows l') r = (if r = repo then None else state_held (ld_rows l) r)"
    using assms purge gone [of i s] by (auto simp: ledger_erase_def ledger_catalog_def erase_repo)
qed

text \<open>
  A ledger over catalogs that can fail keeps the listings before the one that failed, although a ledger is to land
  all of a journal or none of it: here the trees of a push are listed and its blobs are not.
\<close>

definition refusing_ops :: "memory_catalog catalog_ops" where
  "refusing_ops = memory_ops\<lparr>co_insert := \<lambda>_ _ m. (Inl ''down'', m)\<rparr>"

lemma failed_commit_keeps_listings:
  "ledger_commit (memory_ops, memory_ops, memory_ops, refusing_ops) now repo
      (journal_list Blobs scope blobs (journal_list Trees scope trees journal_new)) (ledger_in_memory rows) = (res, l') \<Longrightarrow>
    res = Inl (EListingRow Blobs ''down'') \<and> scope_rows (ledger_catalog l' Trees) (sc_id scope) = [trees]"
  by (auto simp: ledger_commit_def journal_list_def journal_new_def journal_is_empty_def ledger_in_memory_def index_of_def
    set_index_def memory_ops_def refusing_ops_def memory_insert_def ledger_catalog_def scope_rows_def)

section \<open>A pass\<close>

definition example_journal :: journal where
  "example_journal = journal_register [9] (journal_list Trees \<lparr>sc_id = 7, sc_prefix = []\<rparr>
     \<lparr>wr_id = 1, wr_range = \<lparr>kr_first = 0, kr_last = 0\<rparr>, wr_tier = 0, wr_body = BInline [], wr_bytes = 0\<rparr> journal_new)"

definition example_ledger :: "memory_catalog ledger" where
  "example_ledger = ledger_in_memory no_state"

definition example_meta :: repo_metadata where
  "example_meta = \<lparr>rm_id = 7, rm_storage_key = 0, rm_default_branch = []\<rparr>"

theorem commit_held_lands_witness:
  "\<exists>l'. ledger_commit_held memory_each 5 example_meta example_journal example_ledger = (Inr True, l') \<and>
    map wr_id (scope_rows (ledger_catalog l' Trees) 7) = [1] \<and> segment_row (ld_rows l') 7 9 = Some None"
proof -
  obtain res l' where run: "ledger_commit_held memory_each 5 example_meta example_journal example_ledger = (res, l')"
    by (rule prod.exhaust)
  have "\<not> rp_gathering (state_repo (ld_rows example_ledger) (rm_id example_meta))"
    by (simp add: example_ledger_def ledger_in_memory_def no_state_def state_repo_def no_rows_def)
  with commit_held_lands [OF run, of Trees 7 9]
  have "res = Inr True" and lands: "scope_rows (ledger_catalog l' Trees) 7 = scope_rows (ledger_catalog example_ledger Trees) 7 @ listed_in Trees 7 (jn_listed example_journal)"
    "segment_row (ld_rows l') (rm_id example_meta) 9 = landed_segment 5 example_journal 9 (segment_row (ld_rows example_ledger) (rm_id example_meta) 9)"
    by simp_all
  moreover have "scope_rows (ledger_catalog example_ledger Trees) 7 = []" "segment_row (ld_rows example_ledger) (rm_id example_meta) 9 = None"
    by (simp_all add: example_ledger_def ledger_in_memory_def ledger_catalog_def index_of_def scope_rows_def segment_row_def no_state_def state_repo_def no_rows_def)
  moreover have "map wr_id (listed_in Trees 7 (jn_listed example_journal)) = [1]" "landed_segment 5 example_journal 9 None = Some None" "rm_id example_meta = 7"
    by (simp_all add: listed_in_def landed_segment_def example_journal_def journal_register_def journal_list_def journal_new_def example_meta_def)
  ultimately show ?thesis using run by simp
qed

end
