(* ===== verification/Object_Store.thy ===== *)
theory Object_Store
  imports Object_Index Journal Graph_Store
begin

text \<open>
  The object index of a repository as a reader asks it (\<open>git/objects/src/store.rs\<close> and \<open>read.rs\<close>): two shelves of
  segments and the numbering of the rows. A repository is a record of the three reads everything else is built
  on; \<open>objects_repo\<close> is the one over the segment store and the rows. A \<open>HashMap\<close> is an association list in key
  order. The closure over trees is a partial function, where not returning is \<open>None\<close>, and is shown to return.
\<close>

section \<open>Shelves\<close>

datatype shelf = Trees | Blobs

definition BOTH :: "shelf list" where
  "BOTH = [Trees, Blobs]"

definition for_kind :: "kind \<Rightarrow> shelf option" where
  "for_kind k = (case k of Tree \<Rightarrow> Some Trees | Blob \<Rightarrow> Some Blobs | Commit \<Rightarrow> None | Tag \<Rightarrow> None)"

definition shelf_kind :: "shelf \<Rightarrow> kind" where
  "shelf_kind s = (case s of Trees \<Rightarrow> Tree | Blobs \<Rightarrow> Blob)"

lemma for_kind_shelf [simp]: "for_kind (shelf_kind s) = Some s"
  by (cases s) (simp_all add: for_kind_def shelf_kind_def)

lemma for_kind_iff: "for_kind k = Some s \<longleftrightarrow> k = shelf_kind s"
  by (cases k; cases s) (simp_all add: for_kind_def shelf_kind_def)

record ('c, 'b) objects =
  ob_trees :: "(object_index, objects_malformed, 'c, 'b) segments"
  ob_blobs :: "(object_index, objects_malformed, 'c, 'b) segments"

definition shelf_segments :: "('c, 'b) objects \<Rightarrow> shelf \<Rightarrow> (object_index, objects_malformed, 'c, 'b) segments" where
  "shelf_segments objs held = (case held of Trees \<Rightarrow> ob_trees objs | Blobs \<Rightarrow> ob_blobs objs)"

definition objects_scope :: "repo_id \<Rightarrow> shelf \<Rightarrow> scope" where
  "objects_scope repo held = \<lparr>sc_id = repo,
     sc_prefix = [''objects'', show_int repo, case held of Trees \<Rightarrow> ''trees'' | Blobs \<Rightarrow> ''blobs'']\<rparr>"

section \<open>Objects held\<close>

datatype objects_error = OStore "objects_malformed store_error" | OBelowZero | OPastBigint

record held_object =
  hl_seq :: u64
  hl_kind :: kind

definition held_of :: "identity \<Rightarrow> (objects_error, held_object) result" where
  "held_of i = rbind (ok_or (try_u64 (id_seq i)) OBelowZero) (\<lambda>seq. Inr \<lparr>hl_seq = seq, hl_kind = id_kind i\<rparr>)"

definition held_shelf :: "held_object \<Rightarrow> shelf option" where
  "held_shelf h = for_kind (hl_kind h)"

definition held_numbered :: "held_object \<Rightarrow> object_seq option" where
  "held_numbered h = seq_of (hl_kind h) (hl_seq h)"

definition as_i64 :: "u64 list \<Rightarrow> (objects_error, int list) result" where
  "as_i64 seqs = collect_results (map (\<lambda>seq. if uint seq \<le> i64_max then Inr (uint seq) else Inl OPastBigint) seqs)"

section \<open>One repository\<close>

record repo_objects =
  ro_read :: "shelf \<Rightarrow> u64 list \<Rightarrow> (objects_error, object_index) result"
  ro_identify :: "oid list \<Rightarrow> (objects_error, (oid \<times> identity) list) result"
  ro_oids :: "kind \<Rightarrow> int list \<Rightarrow> (objects_error, (int \<times> oid) list) result"

definition objects_read ::
    "('c, 'b) objects \<Rightarrow> repo_id \<Rightarrow> (shelf \<Rightarrow> ('c, 'b) world) \<Rightarrow> shelf \<Rightarrow> u64 list \<Rightarrow> (objects_error, object_index) result" where
  "objects_read objs repo w held seqs =
     (case seg_read_at (shelf_segments objs held) (objects_scope repo held) seqs (w held) of
        Inl e \<Rightarrow> Inl (OStore e)
      | Inr parts \<Rightarrow> Inr (case compose oi_join parts of None \<Rightarrow> [] | Some index \<Rightarrow> index))"

definition objects_repo :: "('c, 'b) objects \<Rightarrow> repo_id \<Rightarrow> (shelf \<Rightarrow> ('c, 'b) world) \<Rightarrow> rows_state \<Rightarrow> repo_objects" where
  "objects_repo objs repo w rows = \<lparr>ro_read = objects_read objs repo w,
     ro_identify = (\<lambda>oids. Inr (md_identify rows repo oids)), ro_oids = (\<lambda>k seqs. Inr (md_oids_of rows repo k seqs))\<rparr>"

definition objects_identify :: "repo_objects \<Rightarrow> oid list \<Rightarrow> (objects_error, (oid \<times> held_object) list) result" where
  "objects_identify g oids =
     rbind (ro_identify g oids) (\<lambda>found.
     collect_results (map (\<lambda>(oid, i). rbind (held_of i) (\<lambda>h. Inr (oid, h))) (filter (\<lambda>(_, i). id_kind i \<noteq> Commit) found)))"

definition objects_oids_of :: "repo_objects \<Rightarrow> shelf \<Rightarrow> u64 list \<Rightarrow> (objects_error, (u64 \<times> oid) list) result" where
  "objects_oids_of g held seqs =
     rbind (as_i64 seqs) (\<lambda>wanted.
     rbind (ro_oids g (shelf_kind held) wanted) (\<lambda>found.
     collect_results (map (\<lambda>(seq, oid). rbind (ok_or (try_u64 seq) OBelowZero) (\<lambda>seq. Inr (seq, oid))) found)))"

section \<open>Locations\<close>

definition resolved :: "location \<Rightarrow> (u64 \<times> oid) list \<Rightarrow> commit_pack_location" where
  "resolved l base_oids = \<lparr>cp_image = \<lparr>pi_pack_sha = lc_pack_oid l, pi_offset = lc_offset l, pi_entry_len = lc_entry_len l,
     pi_base = (case lc_base_seq l of None \<Rightarrow> None | Some base \<Rightarrow> map_of base_oids base)\<rparr>, cp_segment = lc_segment l\<rparr>"

definition shelved :: "object_seq list \<Rightarrow> shelf \<Rightarrow> u64 list" where
  "shelved seqs s = map seq_number (filter (\<lambda>seq. for_kind (seq_kind seq) = Some s) seqs)"

definition held_on :: "(oid \<times> held_object) list \<Rightarrow> shelf \<Rightarrow> u64 list" where
  "held_on named s = map (\<lambda>(_, h). hl_seq h) (filter (\<lambda>(_, h). held_shelf h = Some s) named)"

definition index_introducing :: "object_index \<Rightarrow> u64 \<Rightarrow> location option" where
  "index_introducing index seq = (case oi_get index seq of None \<Rightarrow> None | Some ob \<Rightarrow> introducing ob)"

record shelf_read =
  sr_index :: object_index
  sr_base_oids :: "(u64 \<times> oid) list"

definition read_shelf :: "repo_objects \<Rightarrow> (oid \<times> held_object) list \<Rightarrow> shelf \<Rightarrow> (objects_error, shelf_read option) result" where
  "read_shelf g named s =
     (let wanted = held_on named s in
      if wanted = [] then Inr None
      else rbind (ro_read g s wanted) (\<lambda>index.
        let bases = List.map_filter (\<lambda>seq. case index_introducing index seq of None \<Rightarrow> None | Some l \<Rightarrow> lc_base_seq l) wanted in
        rbind (objects_oids_of g s bases) (\<lambda>base_oids. Inr (Some \<lparr>sr_index = index, sr_base_oids = base_oids\<rparr>))))"

definition assemble_metas :: "repo_objects \<Rightarrow> (oid \<times> held_object) list \<Rightarrow> (objects_error, (oid \<times> object_meta) list) result" where
  "assemble_metas g named =
     rbind (read_shelf g named Trees) (\<lambda>trees.
     rbind (read_shelf g named Blobs) (\<lambda>blobs.
     Inr (map (\<lambda>(oid, h).
       let read = (case held_shelf h of None \<Rightarrow> None | Some Trees \<Rightarrow> trees | Some Blobs \<Rightarrow> blobs);
           location = (case read of None \<Rightarrow> None | Some r \<Rightarrow>
             map_option (\<lambda>l. resolved l (sr_base_oids r)) (index_introducing (sr_index r) (hl_seq h)))
       in (oid, \<lparr>om_kind = hl_kind h, om_location = location, om_object_seq = held_numbered h\<rparr>)) named)))"

definition objects_lookup :: "repo_objects \<Rightarrow> (oid \<times> identity) list \<Rightarrow> (objects_error, (oid \<times> object_meta) list) result" where
  "objects_lookup g named =
     rbind (collect_results (map (\<lambda>(oid, i). rbind (held_of i) (\<lambda>h. Inr (oid, h))) (filter (\<lambda>(_, i). id_kind i \<noteq> Commit) named)))
       (assemble_metas g)"

definition named_on :: "repo_objects \<Rightarrow> object_seq list \<Rightarrow> shelf \<Rightarrow> (objects_error, (oid \<times> held_object) list) result" where
  "named_on g seqs s =
     (let wanted = shelved seqs s in
      if wanted = [] then Inr []
      else rbind (objects_oids_of g s wanted) (\<lambda>oids.
        Inr (map (\<lambda>(seq, oid). (oid, \<lparr>hl_seq = seq, hl_kind = shelf_kind s\<rparr>)) oids)))"

definition locations_by_seq :: "repo_objects \<Rightarrow> object_seq list \<Rightarrow> (objects_error, (oid \<times> object_meta) list) result" where
  "locations_by_seq g seqs =
     rbind (named_on g seqs Trees) (\<lambda>trees. rbind (named_on g seqs Blobs) (\<lambda>blobs. assemble_metas g (trees @ blobs)))"

section \<open>Trees\<close>

definition found_children :: "object_index \<Rightarrow> (u64 \<times> object_seqs) list \<Rightarrow> u64 \<Rightarrow> (u64 \<times> object_seqs) list" where
  "found_children index found seq = (case oi_get index seq of
     Some ob \<Rightarrow> if os_is_empty (ob_children ob) then found else btree_insert seq (ob_children ob) found
   | None \<Rightarrow> found)"

definition children_of :: "repo_objects \<Rightarrow> u64 list \<Rightarrow> (objects_error, (u64 \<times> object_seqs) list) result" where
  "children_of g seqs = rbind (ro_read g Trees seqs) (\<lambda>index. Inr (foldl (found_children index) [] seqs))"

text \<open>A bitmap is iterated in ascending order; an insert answers whether the seq was new.\<close>

definition closure_step :: "object_seqs \<times> u64 list \<Rightarrow> object_seqs \<Rightarrow> object_seqs \<times> u64 list" where
  "closure_step acc children = (case acc of (seen, frontier) \<Rightarrow>
     let fresh = filter (\<lambda>seq. seq \<notin> os_trees seen) (sorted_list_of_set (os_trees children)) in
     (\<lparr>os_trees = os_trees seen \<union> set fresh, os_blobs = os_blobs seen \<union> os_blobs children\<rparr>, frontier @ fresh))"

partial_function (option) closure_loop ::
    "repo_objects \<Rightarrow> object_seqs \<Rightarrow> u64 list \<Rightarrow> (objects_error, object_seqs) result option" where
  "closure_loop g seen frontier =
     (if frontier = [] then Some (Inr seen)
      else case children_of g frontier of
        Inl e \<Rightarrow> Some (Inl e)
      | Inr batch \<Rightarrow>
          (case foldl closure_step (seen, []) (map snd batch) of (seen, frontier) \<Rightarrow> closure_loop g seen frontier))"

definition tree_closure :: "repo_objects \<Rightarrow> u64 list \<Rightarrow> (objects_error, object_seqs) result option" where
  "tree_closure g roots = closure_loop g \<lparr>os_trees = set roots, os_blobs = {}\<rparr> roots"

section \<open>Packs\<close>

definition packs_of :: "repo_objects \<Rightarrow> oid \<Rightarrow> (objects_error, oid list) result" where
  "packs_of g oid =
     rbind (objects_identify g [oid]) (\<lambda>found.
     case map_of found oid of None \<Rightarrow> Inr []
     | Some h \<Rightarrow> (case held_shelf h of None \<Rightarrow> Inr []
       | Some s \<Rightarrow> rbind (ro_read g s [hl_seq h]) (\<lambda>index.
           Inr (case oi_get index (hl_seq h) of None \<Rightarrow> [] | Some ob \<Rightarrow> map lc_pack_oid (ob_locations ob)))))"

definition index_on :: "repo_objects \<Rightarrow> (oid \<times> held_object) list \<Rightarrow> shelf \<Rightarrow> (objects_error, object_index option) result" where
  "index_on g named s =
     (let wanted = held_on named s in if wanted = [] then Inr None else rbind (ro_read g s wanted) (\<lambda>index. Inr (Some index)))"

definition first_packs :: "repo_objects \<Rightarrow> oid list \<Rightarrow> (objects_error, (oid \<times> int) list) result" where
  "first_packs g oids =
     rbind (objects_identify g oids) (\<lambda>named.
     rbind (index_on g named Trees) (\<lambda>trees.
     rbind (index_on g named Blobs) (\<lambda>blobs.
     Inr (foldl (\<lambda>found (oid, h).
       case (case held_shelf h of None \<Rightarrow> None | Some Trees \<Rightarrow> trees | Some Blobs \<Rightarrow> blobs) of
         None \<Rightarrow> found
       | Some index \<Rightarrow> (case index_introducing index (hl_seq h) of None \<Rightarrow> found
           | Some l \<Rightarrow> btree_insert oid (lc_pack_seq l) found)) [] named))))"

section \<open>Delta chains\<close>

function chain_loop ::
    "repo_objects \<Rightarrow> shelf \<Rightarrow> nat \<Rightarrow> object_index \<Rightarrow> u64 option \<Rightarrow> location list \<Rightarrow> (objects_error, location list) result" where
  "chain_loop g s max_hops index at hops =
     (if max_hops < length hops then Inr hops
      else case at of None \<Rightarrow> Inr hops
      | Some seq \<Rightarrow>
          rbind (if oi_get index seq = None then ro_read g s [seq] else Inr index) (\<lambda>index.
          case index_introducing index seq of None \<Rightarrow> Inr hops
          | Some l \<Rightarrow> chain_loop g s max_hops index (lc_base_seq l) (hops @ [l])))"
  by pat_completeness auto

termination
  by (relation "measure (\<lambda>(g, s, max_hops, index, at, hops). Suc max_hops - length hops)") auto

declare chain_loop.simps [simp del]

definition hop_location :: "location \<Rightarrow> commit_pack_location" where
  "hop_location l = \<lparr>cp_image = \<lparr>pi_pack_sha = lc_pack_oid l, pi_offset = lc_offset l, pi_entry_len = lc_entry_len l, pi_base = None\<rparr>,
     cp_segment = lc_segment l\<rparr>"

definition chain :: "repo_objects \<Rightarrow> oid \<Rightarrow> u32 \<Rightarrow> (objects_error, commit_pack_location list) result" where
  "chain g oid max_hops =
     rbind (objects_identify g [oid]) (\<lambda>found.
     case map_of found oid of None \<Rightarrow> Inr []
     | Some h \<Rightarrow> (case held_shelf h of None \<Rightarrow> Inr []
       | Some s \<Rightarrow>
           rbind (ro_read g s [hl_seq h]) (\<lambda>index.
           rbind (chain_loop g s (unat max_hops) index (Some (hl_seq h)) []) (\<lambda>hops. Inr (map hop_location hops)))))"

text \<open>The walks run concurrently; the model makes them in order, which decides only which error is reported.\<close>

definition chain_depths :: "repo_objects \<Rightarrow> oid list \<Rightarrow> u32 \<Rightarrow> (objects_error, (oid \<times> u32) list) result" where
  "chain_depths g oids max_hops =
     rbind (collect_results (map (\<lambda>oid. rbind (chain g oid max_hops) (\<lambda>hops.
       Inr (if hops = [] then None else Some (oid, case try_u32 (length hops - 1) of None \<Rightarrow> - 1 | Some deltas \<Rightarrow> deltas)))) oids)) (\<lambda>walked.
     Inr (collect_map (List.map_filter id walked)))"

section \<open>What a reader relies on\<close>

definition kids :: "(shelf \<Rightarrow> u64 \<Rightarrow> object option) \<Rightarrow> u64 \<Rightarrow> object_seqs" where
  "kids obj seq = (case obj Trees seq of None \<Rightarrow> os_empty | Some ob \<Rightarrow> ob_children ob)"

definition tree_edges :: "(shelf \<Rightarrow> u64 \<Rightarrow> object option) \<Rightarrow> (u64 \<times> u64) set" where
  "tree_edges obj = {(seq, child). child \<in> os_trees (kids obj seq)}"

definition entry_at :: "(shelf \<Rightarrow> u64 \<Rightarrow> object option) \<Rightarrow> shelf \<Rightarrow> u64 \<Rightarrow> location option" where
  "entry_at obj s seq = (case obj s seq of None \<Rightarrow> None | Some ob \<Rightarrow> introducing ob)"

primrec base_chain :: "(u64 \<Rightarrow> location option) \<Rightarrow> nat \<Rightarrow> u64 option \<Rightarrow> location list" where
  "base_chain entry 0 at = []"
| "base_chain entry (Suc n) at = (case at of None \<Rightarrow> [] | Some seq \<Rightarrow>
     (case entry seq of None \<Rightarrow> [] | Some l \<Rightarrow> l # base_chain entry n (lc_base_seq l)))"

definition held_as :: "identity \<Rightarrow> held_object option" where
  "held_as i = (if id_kind i = Commit then None else Some \<lparr>hl_seq = of_int (id_seq i), hl_kind = id_kind i\<rparr>)"

text \<open>Where an object is, with its delta base named.\<close>

definition object_location :: "(shelf \<Rightarrow> u64 \<Rightarrow> object option) \<Rightarrow> (kind \<Rightarrow> int \<rightharpoonup> oid) \<Rightarrow> held_object \<Rightarrow> commit_pack_location option" where
  "object_location obj name h = (case held_shelf h of None \<Rightarrow> None | Some s \<Rightarrow>
     map_option (\<lambda>l. \<lparr>cp_image = \<lparr>pi_pack_sha = lc_pack_oid l, pi_offset = lc_offset l, pi_entry_len = lc_entry_len l,
       pi_base = (case lc_base_seq l of None \<Rightarrow> None | Some base \<Rightarrow> name (shelf_kind s) (uint base))\<rparr>, cp_segment = lc_segment l\<rparr>)
     (entry_at obj s (hl_seq h)))"

text \<open>A read answers for what it was asked for, and says nothing wrong of anything else it happens to cover.\<close>

locale object_reads =
  fixes g :: repo_objects and obj :: "shelf \<Rightarrow> u64 \<Rightarrow> object option" and ident :: "oid \<rightharpoonup> identity" and name :: "kind \<Rightarrow> int \<rightharpoonup> oid"
  assumes read_asked: "ro_read g s seqs = Inr index \<Longrightarrow> seq \<in> set seqs \<Longrightarrow> oi_get index seq = obj s seq"
    and read_other: "ro_read g s seqs = Inr index \<Longrightarrow> oi_get index seq = None \<or> oi_get index seq = obj s seq"
    and identify_asked: "ro_identify g oids = Inr found \<Longrightarrow> map_of found oid = (if oid \<in> set oids then ident oid else None)"
    and identify_distinct: "ro_identify g oids = Inr found \<Longrightarrow> distinct (map fst found)"
    and oids_asked: "ro_oids g k wanted = Inr names \<Longrightarrow> map_of names n = (if n \<in> set wanted then name k n else None)"
begin

subsection \<open>Children\<close>

lemma found_children_fold:
  assumes "\<And>seq. seq \<in> set seqs \<Longrightarrow> oi_get index seq = obj Trees seq"
  shows "map_of (foldl (found_children index) m seqs) seq =
      (if seq \<in> set seqs \<and> \<not> os_is_empty (kids obj seq) then Some (kids obj seq) else map_of m seq)"
    and "sorted_wrt (<) (map fst m) \<Longrightarrow> sorted_wrt (<) (map fst (foldl (found_children index) m seqs))"
proof -
  have one: "found_children index m x = (if os_is_empty (kids obj x) then m else btree_insert x (kids obj x) m)" if "x \<in> set seqs" for x m
    using assms [OF that] by (auto simp: found_children_def kids_def os_empty_def os_is_empty_def split: option.split)
  have "set xs \<subseteq> set seqs \<Longrightarrow> map_of (foldl (found_children index) m xs) seq =
      (if seq \<in> set xs \<and> \<not> os_is_empty (kids obj seq) then Some (kids obj seq) else map_of m seq) \<and>
      (sorted_wrt (<) (map fst m) \<longrightarrow> sorted_wrt (<) (map fst (foldl (found_children index) m xs)))" for xs m
    by (induction xs arbitrary: m) (auto simp: one btree_insert_sorted)
  then show "map_of (foldl (found_children index) m seqs) seq =
      (if seq \<in> set seqs \<and> \<not> os_is_empty (kids obj seq) then Some (kids obj seq) else map_of m seq)"
    "sorted_wrt (<) (map fst m) \<Longrightarrow> sorted_wrt (<) (map fst (foldl (found_children index) m seqs))" by blast+
qed

lemma children_of_spec:
  assumes "children_of g seqs = Inr batch"
  shows "map_of batch seq = (if seq \<in> set seqs \<and> \<not> os_is_empty (kids obj seq) then Some (kids obj seq) else None)"
    and "set (map snd batch) = kids obj ` {seq \<in> set seqs. \<not> os_is_empty (kids obj seq)}"
proof -
  obtain index where r: "ro_read g Trees seqs = Inr index" "batch = foldl (found_children index) [] seqs"
    using assms by (auto simp: children_of_def rbind_eq_Inr_iff)
  note fold = found_children_fold [OF read_asked [OF r(1)], of seqs]
  show m: "map_of batch seq = (if seq \<in> set seqs \<and> \<not> os_is_empty (kids obj seq) then Some (kids obj seq) else None)" for seq
    using fold(1) [of "[]" seq] by (simp add: r(2))
  have "distinct (map fst batch)" using fold(2) [of "[]"] by (simp add: r(2) strict_sorted_iff)
  then have "(seq, c) \<in> set batch \<longleftrightarrow> map_of batch seq = Some c" for seq c by simp
  then have "snd ` set batch = {c. \<exists>seq. map_of batch seq = Some c}" by force
  then show "set (map snd batch) = kids obj ` {seq \<in> set seqs. \<not> os_is_empty (kids obj seq)}" by (auto simp: m)
qed

lemma closure_step_fold:
  "foldl closure_step (seen, frontier) cs = (seen', frontier') \<Longrightarrow>
    os_trees seen' = os_trees seen \<union> \<Union> (os_trees ` set cs) \<and> os_blobs seen' = os_blobs seen \<union> \<Union> (os_blobs ` set cs) \<and>
    set frontier' = set frontier \<union> (os_trees seen' - os_trees seen)"
proof (induction cs arbitrary: seen frontier)
  case (Cons c cs)
  define mid where "mid = closure_step (seen, frontier) c"
  obtain s f where sf: "mid = (s, f)" by fastforce
  then have step: "os_trees s = os_trees seen \<union> os_trees c" "os_blobs s = os_blobs seen \<union> os_blobs c"
    "set f = set frontier \<union> (os_trees c - os_trees seen)"
    unfolding mid_def closure_step_def by (auto simp: Let_def)
  from Cons.prems sf have "foldl closure_step (s, f) cs = (seen', frontier')" by (simp add: mid_def)
  from Cons.IH [OF this] step show ?case by auto
qed simp

text \<open>The trees of the closure and what is known while it is computed.\<close>

definition closure_inv :: "u64 list \<Rightarrow> object_seqs \<Rightarrow> u64 list \<Rightarrow> bool" where
  "closure_inv roots seen frontier \<longleftrightarrow>
     set roots \<subseteq> os_trees seen \<and> os_trees seen \<subseteq> (tree_edges obj)\<^sup>* `` set roots \<and> set frontier \<subseteq> os_trees seen \<and>
     (\<forall>seq \<in> os_trees seen - set frontier. os_trees (kids obj seq) \<subseteq> os_trees seen) \<and>
     os_blobs seen = (\<Union>seq \<in> os_trees seen - set frontier. os_blobs (kids obj seq))"

lemma closure_inv_step:
  assumes "closure_inv roots seen frontier" "children_of g frontier = Inr batch"
    and "foldl closure_step (seen, []) (map snd batch) = (seen', frontier')"
  shows "closure_inv roots seen' frontier'" "set frontier' = os_trees seen' - os_trees seen" "os_trees seen \<subseteq> os_trees seen'"
proof -
  have empty: "os_trees (kids obj seq) = {} \<and> os_blobs (kids obj seq) = {}" if "os_is_empty (kids obj seq)" for seq
    using that by (simp add: os_is_empty_def)
  have union: "\<Union> (os_trees ` set (map snd batch)) = (\<Union>seq \<in> set frontier. os_trees (kids obj seq))"
    "\<Union> (os_blobs ` set (map snd batch)) = (\<Union>seq \<in> set frontier. os_blobs (kids obj seq))"
    unfolding children_of_spec(2) [OF assms(2)] using empty by fastforce+
  have trees: "os_trees seen' = os_trees seen \<union> (\<Union>seq \<in> set frontier. os_trees (kids obj seq))"
    and blobs: "os_blobs seen' = os_blobs seen \<union> (\<Union>seq \<in> set frontier. os_blobs (kids obj seq))"
    and more: "set frontier' = os_trees seen' - os_trees seen"
    using closure_step_fold [OF assms(3), unfolded union] by simp_all
  have inv: "set roots \<subseteq> os_trees seen" "os_trees seen \<subseteq> (tree_edges obj)\<^sup>* `` set roots" "set frontier \<subseteq> os_trees seen"
    "\<And>seq. seq \<in> os_trees seen \<Longrightarrow> seq \<notin> set frontier \<Longrightarrow> os_trees (kids obj seq) \<subseteq> os_trees seen"
    "os_blobs seen = (\<Union>seq \<in> os_trees seen - set frontier. os_blobs (kids obj seq))"
    using assms(1) by (auto simp: closure_inv_def)
  show new: "set frontier' = os_trees seen' - os_trees seen" "os_trees seen \<subseteq> os_trees seen'" using trees more by auto
  have "child \<in> (tree_edges obj)\<^sup>* `` set roots" if "seq \<in> set frontier" "child \<in> os_trees (kids obj seq)" for seq child
  proof -
    have "(seq, child) \<in> tree_edges obj" using that by (simp add: tree_edges_def)
    moreover have "seq \<in> (tree_edges obj)\<^sup>* `` set roots" using that inv(2,3) by blast
    ultimately show ?thesis by (auto intro: rtrancl_into_rtrancl)
  qed
  then have "os_trees seen' \<subseteq> (tree_edges obj)\<^sup>* `` set roots" unfolding trees using inv(2) by (intro Un_least UN_least subsetI) auto
  moreover have "os_trees seen' - set frontier' = os_trees seen" using new by auto
  moreover have "os_trees (kids obj seq) \<subseteq> os_trees seen'" if "seq \<in> os_trees seen" for seq
    using inv(4) [OF that] that unfolding trees by (cases "seq \<in> set frontier") auto
  moreover have "os_blobs seen' = (\<Union>seq \<in> os_trees seen. os_blobs (kids obj seq))"
    unfolding blobs inv(5) using inv(3) by auto
  ultimately show "closure_inv roots seen' frontier'"
    using inv(1) new unfolding closure_inv_def by auto
qed

lemma closure_inv_done:
  assumes "closure_inv roots seen []"
  shows "os_trees seen = (tree_edges obj)\<^sup>* `` set roots" "os_blobs seen = (\<Union>seq \<in> (tree_edges obj)\<^sup>* `` set roots. os_blobs (kids obj seq))"
proof -
  have "b \<in> os_trees seen" if "(a, b) \<in> (tree_edges obj)\<^sup>*" "a \<in> os_trees seen" for a b
    using that by (induction rule: rtrancl_induct) (use assms in \<open>auto simp: closure_inv_def tree_edges_def\<close>)
  then show t: "os_trees seen = (tree_edges obj)\<^sup>* `` set roots" using assms by (auto simp: closure_inv_def)
  show "os_blobs seen = (\<Union>seq \<in> (tree_edges obj)\<^sup>* `` set roots. os_blobs (kids obj seq))"
    using assms t by (simp add: closure_inv_def)
qed

lemma closure_loop_returns:
  assumes "closure_inv roots seen frontier"
  shows "\<exists>res. closure_loop g seen frontier = Some res \<and>
    (case res of Inl e \<Rightarrow> \<exists>seqs. ro_read g Trees seqs = Inl e | Inr out \<Rightarrow> closure_inv roots out [])"
  using assms
proof (induction "card (- os_trees seen)" arbitrary: seen frontier rule: less_induct)
  case less
  show ?case
  proof (cases "frontier = []")
    case True
    then show ?thesis using less.prems by (subst closure_loop.simps) simp
  next
    case False
    show ?thesis
    proof (cases "children_of g frontier")
      case (Inl e)
      then have "ro_read g Trees frontier = Inl e"
        by (cases "ro_read g Trees frontier") (simp_all add: children_of_def)
      then show ?thesis using False Inl by (subst closure_loop.simps) auto
    next
      case (Inr batch)
      obtain seen' frontier' where step: "foldl closure_step (seen, []) (map snd batch) = (seen', frontier')" by (rule prod.exhaust)
      note next_inv = closure_inv_step [OF less.prems Inr step]
      have loop: "closure_loop g seen frontier = closure_loop g seen' frontier'"
        using False Inr step by (subst closure_loop.simps) simp
      show ?thesis
      proof (cases "frontier' = []")
        case True
        then show ?thesis using next_inv(1) unfolding loop by (subst closure_loop.simps) simp
      next
        case False
        then have "os_trees seen \<subset> os_trees seen'" using next_inv(2,3) by auto
        then have "card (- os_trees seen') < card (- os_trees seen)" by (intro psubset_card_mono) auto
        from less.hyps [OF this next_inv(1)] show ?thesis unfolding loop .
      qed
    qed
  qed
qed

lemma tree_closure_spec:
  "\<exists>res. tree_closure g roots = Some res \<and>
    (case res of Inl e \<Rightarrow> \<exists>seqs. ro_read g Trees seqs = Inl e
     | Inr out \<Rightarrow> os_trees out = (tree_edges obj)\<^sup>* `` set roots \<and>
         os_blobs out = (\<Union>seq \<in> (tree_edges obj)\<^sup>* `` set roots. os_blobs (kids obj seq)))"
proof -
  have "closure_inv roots \<lparr>os_trees = set roots, os_blobs = {}\<rparr> roots" by (auto simp: closure_inv_def)
  from closure_loop_returns [OF this] show ?thesis
    unfolding tree_closure_def using closure_inv_done by (fastforce split: sum.splits)
qed

subsection \<open>Delta chains\<close>

lemma introducing_asked: "ro_read g s seqs = Inr index \<Longrightarrow> seq \<in> set seqs \<Longrightarrow> index_introducing index seq = entry_at obj s seq"
  by (simp add: index_introducing_def entry_at_def read_asked)

lemma chain_loop_spec:
  "chain_loop g s max_hops index at hops = Inr out \<Longrightarrow> (\<And>seq. oi_get index seq = None \<or> oi_get index seq = obj s seq) \<Longrightarrow>
    length hops + n = Suc max_hops \<Longrightarrow> out = hops @ base_chain (entry_at obj s) n at"
proof (induction n arbitrary: index at hops)
  case 0
  then show ?case by (subst (asm) chain_loop.simps) simp
next
  case (Suc n)
  have more: "\<not> max_hops < length hops" using Suc.prems(3) by simp
  show ?case
  proof (cases at)
    case None
    then show ?thesis using Suc.prems(1) more by (subst (asm) chain_loop.simps) simp
  next
    case (Some seq)
    obtain index' where index': "(if oi_get index seq = None then ro_read g s [seq] else Inr index) = Inr index'"
      and run: "(case index_introducing index' seq of None \<Rightarrow> Inr hops
        | Some l \<Rightarrow> chain_loop g s max_hops index' (lc_base_seq l) (hops @ [l])) = Inr out"
      using Suc.prems(1) more Some by (subst (asm) chain_loop.simps) (auto simp: rbind_eq_Inr_iff)
    have other: "oi_get index' x = None \<or> oi_get index' x = obj s x" for x
      using index' read_other [of s "[seq]" index' x] Suc.prems(2) [of x] by (auto split: if_splits)
    have "oi_get index' seq = obj s seq"
      using index' read_asked [of s "[seq]" index' seq] Suc.prems(2) [of seq] by (auto split: if_splits)
    then have "index_introducing index' seq = entry_at obj s seq" by (simp add: index_introducing_def entry_at_def)
    then show ?thesis
      using run Suc.IH [OF _ other, of _ "hops @ [l]" for l] Suc.prems(3) Some by (cases "entry_at obj s seq") auto
  qed
qed

lemma held_of_Inr: "held_of i = Inr h \<longleftrightarrow> 0 \<le> id_seq i \<and> id_seq i < 2 ^ 64 \<and> h = \<lparr>hl_seq = of_int (id_seq i), hl_kind = id_kind i\<rparr>"
  by (auto simp: held_of_def try_u64_def)

lemma held_results:
  assumes "collect_results (map (\<lambda>(oid, i). rbind (held_of i) (\<lambda>h. Inr (oid, h))) found) = Inr named"
  shows "named = map (\<lambda>(oid, i). (oid, \<lparr>hl_seq = of_int (id_seq i), hl_kind = id_kind i\<rparr>)) found"
  using assms
  by (induction found arbitrary: named) (auto simp: rbind_eq_Inr_iff held_of_Inr)

lemma map_of_filter_value: "distinct (map fst m) \<Longrightarrow> map_of (filter (\<lambda>(_, v). P v) m) k = (case map_of m k of None \<Rightarrow> None | Some v \<Rightarrow> if P v then Some v else None)"
  by (induction m) (auto split: option.split simp: map_of_eq_None_iff rev_image_eqI)

lemma objects_identify_spec:
  assumes "objects_identify g oids = Inr named"
  shows "map_of named oid = (if oid \<in> set oids then Option.bind (ident oid) held_as else None)" "distinct (map fst named)"
    "set named \<subseteq> {(oid, h). oid \<in> set oids \<and> Option.bind (ident oid) held_as = Some h}"
proof -
  obtain found where f: "ro_identify g oids = Inr found"
    "named = map (\<lambda>(oid, i). (oid, \<lparr>hl_seq = of_int (id_seq i), hl_kind = id_kind i\<rparr>)) (filter (\<lambda>(_, i). id_kind i \<noteq> Commit) found)"
    using assms held_results by (auto simp: objects_identify_def rbind_eq_Inr_iff)
  note d = identify_distinct [OF f(1)]
  have "map_of named oid = map_option (\<lambda>i. \<lparr>hl_seq = of_int (id_seq i), hl_kind = id_kind i\<rparr>) (map_of (filter (\<lambda>(_, i). id_kind i \<noteq> Commit) found) oid)" for oid
    unfolding f(2) by (simp add: map_of_map [of "\<lambda>i. \<lparr>hl_seq = of_int (id_seq i), hl_kind = id_kind i\<rparr>", unfolded split_def] split_def)
  then show m: "map_of named oid = (if oid \<in> set oids then Option.bind (ident oid) held_as else None)" for oid
    using map_of_filter_value [OF d, of "\<lambda>i. id_kind i \<noteq> Commit" oid] identify_asked [OF f(1), of oid]
    by (auto simp: held_as_def split: option.split)
  have "map fst named = map fst (filter (\<lambda>(_, i). id_kind i \<noteq> Commit) found)" unfolding f(2) by (induction found) auto
  then show dn: "distinct (map fst named)" using d distinct_map_filter [of fst found] by simp
  show "set named \<subseteq> {(oid, h). oid \<in> set oids \<and> Option.bind (ident oid) held_as = Some h}"
  proof (clarify)
    fix oid h assume "(oid, h) \<in> set named"
    then have "map_of named oid = Some h" using dn by simp
    then show "oid \<in> set oids \<and> Option.bind (ident oid) held_as = Some h" using m [of oid] by (simp split: if_splits)
  qed
qed

lemma uint_results:
  assumes "collect_results (map (\<lambda>(seq, oid). rbind (ok_or (try_u64 seq) OBelowZero) (\<lambda>seq. Inr (seq, oid))) found) = Inr names"
  shows "map_of names (b :: u64) = map_of found (uint b)"
  using assms
proof (induction found arbitrary: names)
  case (Cons x found)
  obtain seq oid where x: "x = (seq, oid)" by fastforce
  obtain rest where "0 \<le> seq" "seq < 2 ^ 64" "names = (of_int seq, oid) # rest" "map_of rest b = map_of found (uint b)"
    using Cons by (auto simp: x rbind_eq_Inr_iff ok_or_eq_Inr_iff try_u64_def split: if_splits)
  moreover from this have "(of_int seq :: u64) = b \<longleftrightarrow> seq = uint b" by (auto simp: word_of_int_inverse uint_word_of_int)
  ultimately show ?case by (auto simp: x)
qed simp

lemma oids_of_spec:
  assumes "objects_oids_of g s seqs = Inr names"
  shows "map_of names b = (if b \<in> set seqs then name (shelf_kind s) (uint b) else None)"
proof -
  obtain wanted found where w: "as_i64 seqs = Inr wanted" "ro_oids g (shelf_kind s) wanted = Inr found"
    "collect_results (map (\<lambda>(seq, oid). rbind (ok_or (try_u64 seq) OBelowZero) (\<lambda>seq. Inr (seq, oid))) found) = Inr names"
    using assms by (auto simp: objects_oids_of_def rbind_eq_Inr_iff)
  have "wanted = map uint seqs" using w(1) unfolding as_i64_def
    by (induction seqs arbitrary: wanted) (auto simp: rbind_eq_Inr_iff split: if_splits)
  then have "uint b \<in> set wanted \<longleftrightarrow> b \<in> set seqs" by (auto dest: word_uint_eq_iff [THEN iffD2])
  then show ?thesis using uint_results [OF w(3), of b] oids_asked [OF w(2), of "uint b"] by simp
qed

lemma held_on_in: "(oid, h) \<in> set named \<Longrightarrow> held_shelf h = Some s \<Longrightarrow> hl_seq h \<in> set (held_on named s)"
  by (force simp: held_on_def)

lemma read_shelf_location:
  assumes "read_shelf g named s = Inr res" "(oid, h) \<in> set named" "held_shelf h = Some s"
  shows "(case res of None \<Rightarrow> None | Some r \<Rightarrow>
      map_option (\<lambda>l. resolved l (sr_base_oids r)) (index_introducing (sr_index r) (hl_seq h))) = object_location obj name h"
proof -
  let ?w = "held_on named s"
  have in_w: "hl_seq h \<in> set ?w" by (rule held_on_in [OF assms(2,3)])
  then have "?w \<noteq> []" by auto
  then obtain index base_oids where r: "ro_read g s ?w = Inr index" "res = Some \<lparr>sr_index = index, sr_base_oids = base_oids\<rparr>"
    and bases: "objects_oids_of g s (List.map_filter (\<lambda>seq. case index_introducing index seq of None \<Rightarrow> None | Some l \<Rightarrow> lc_base_seq l) ?w) = Inr base_oids"
    using assms(1) by (auto simp: read_shelf_def Let_def rbind_eq_Inr_iff)
  have entry: "index_introducing index (hl_seq h) = entry_at obj s (hl_seq h)" by (rule introducing_asked [OF r(1) in_w])
  have "map_of base_oids base = name (shelf_kind s) (uint base)" if "entry_at obj s (hl_seq h) = Some l" "lc_base_seq l = Some base" for l base
  proof -
    have "base \<in> set (List.map_filter (\<lambda>seq. case index_introducing index seq of None \<Rightarrow> None | Some l \<Rightarrow> lc_base_seq l) ?w)"
      using in_w entry that by (auto simp: set_map_filter intro!: bexI [of _ "hl_seq h"])
    then show ?thesis using oids_of_spec [OF bases, of base] by simp
  qed
  then show ?thesis
    by (cases "entry_at obj s (hl_seq h)") (auto simp: r(2) entry object_location_def assms(3) resolved_def split: option.split)
qed

lemma assemble_metas_spec:
  assumes "assemble_metas g named = Inr out"
  shows "out = map (\<lambda>(oid, h). (oid, \<lparr>om_kind = hl_kind h, om_location = object_location obj name h, om_object_seq = held_numbered h\<rparr>)) named"
proof -
  obtain trees blobs where t: "read_shelf g named Trees = Inr trees" and b: "read_shelf g named Blobs = Inr blobs"
    and out: "out = map (\<lambda>(oid, h).
       let read = (case held_shelf h of None \<Rightarrow> None | Some Trees \<Rightarrow> trees | Some Blobs \<Rightarrow> blobs);
           location = (case read of None \<Rightarrow> None | Some r \<Rightarrow>
             map_option (\<lambda>l. resolved l (sr_base_oids r)) (index_introducing (sr_index r) (hl_seq h)))
       in (oid, \<lparr>om_kind = hl_kind h, om_location = location, om_object_seq = held_numbered h\<rparr>)) named"
    using assms by (auto simp: assemble_metas_def rbind_eq_Inr_iff)
  show ?thesis unfolding out
  proof (rule map_cong [OF refl], clarify)
    fix oid h assume at: "(oid, h) \<in> set named"
    show "(let read = (case held_shelf h of None \<Rightarrow> None | Some Trees \<Rightarrow> trees | Some Blobs \<Rightarrow> blobs);
           location = (case read of None \<Rightarrow> None | Some r \<Rightarrow>
             map_option (\<lambda>l. resolved l (sr_base_oids r)) (index_introducing (sr_index r) (hl_seq h)))
       in (oid, \<lparr>om_kind = hl_kind h, om_location = location, om_object_seq = held_numbered h\<rparr>)) =
      (oid, \<lparr>om_kind = hl_kind h, om_location = object_location obj name h, om_object_seq = held_numbered h\<rparr>)"
      using read_shelf_location [OF t at] read_shelf_location [OF b at]
      by (cases "held_shelf h") (auto simp: object_location_def split: shelf.splits)
  qed
qed

lemma chain_spec:
  assumes "chain g oid max_hops = Inr out"
  shows "out = (case Option.bind (ident oid) held_as of None \<Rightarrow> [] | Some h \<Rightarrow> (case held_shelf h of None \<Rightarrow> []
    | Some s \<Rightarrow> map hop_location (base_chain (entry_at obj s) (Suc (unat max_hops)) (Some (hl_seq h)))))"
proof -
  obtain found where f: "objects_identify g [oid] = Inr found" using assms by (auto simp: chain_def rbind_eq_Inr_iff)
  have m: "map_of found oid = Option.bind (ident oid) held_as" using objects_identify_spec(1) [OF f, of oid] by simp
  show ?thesis
  proof (cases "Option.bind (ident oid) held_as")
    case None
    then show ?thesis using assms f m by (simp add: chain_def)
  next
    case (Some h)
    show ?thesis
    proof (cases "held_shelf h")
      case None
      then show ?thesis using assms f m Some by (simp add: chain_def)
    next
      case s: (Some s)
      obtain index hops where r: "ro_read g s [hl_seq h] = Inr index"
        "chain_loop g s (unat max_hops) index (Some (hl_seq h)) [] = Inr hops" "out = map hop_location hops"
        using assms f m Some s by (auto simp: chain_def rbind_eq_Inr_iff)
      then show ?thesis
        using chain_loop_spec [OF r(2) read_other [OF r(1)], of "Suc (unat max_hops)"] Some s by simp
    qed
  qed
qed

end

section \<open>The reads of the segment store\<close>

definition objects_laws ::
    "(u64 set \<Rightarrow> bytes option) \<Rightarrow> (bytes \<Rightarrow> u64 set option) \<Rightarrow> ('b \<Rightarrow> path \<Rightarrow> bytes option) \<Rightarrow>
       (object_index, objects_malformed, memory_catalog, 'b) segments \<Rightarrow> bool" where
  "objects_laws ser de view env \<longleftrightarrow> ss_value env = objects_ops ser de \<and> ss_catalog env = memory_ops \<and>
     bucket_laws (ss_bucket env) view \<and> ulid_laws (ss_ulid env) \<and> inj_on (ss_fresh env) {..<ID_SPACE} \<and> 1 \<le> ss_clusters env"

definition shelf_ok ::
    "object_room \<Rightarrow> ('b \<Rightarrow> path \<Rightarrow> bytes option) \<Rightarrow> (object_index, objects_malformed, memory_catalog, 'b) segments \<Rightarrow>
       (memory_catalog, 'b) world \<Rightarrow> bool" where
  "shelf_ok rm view env w \<longleftrightarrow> store_inv (ss_value env) (oi_ok rm) oi_at (ss_ulid env) (ss_fresh env) (scope_rows (w_catalog w))
     (view (w_bucket w)) (w_made w)"

text \<open>Everything the segments of a repository say of its objects.\<close>

definition stored_index ::
    "('b \<Rightarrow> path \<Rightarrow> bytes option) \<Rightarrow> (object_index, objects_malformed, memory_catalog, 'b) segments \<Rightarrow>
       (memory_catalog, 'b) world \<Rightarrow> repo_id \<Rightarrow> object_index" where
  "stored_index view env w repo =
     (case compose oi_join (List.map_filter (row_value (ss_value env) (view (w_bucket w))) (scope_rows (w_catalog w) repo)) of
        None \<Rightarrow> [] | Some index \<Rightarrow> index)"

lemma objects_storeI:
  "bitmap_codec ser de \<Longrightarrow> room_ok ser rm \<Longrightarrow> objects_laws ser de view env \<Longrightarrow>
    segment_store env (oi_ok rm) view_merge oi_at scope_rows view"
  using segment_objects [of ser de rm] memory.catalog_axioms
  by (auto simp: segment_store_def segment_store_axioms_def objects_laws_def)

lemma objects_eqI:
  assumes "index_ok a" "index_ok b" "oi_at a k = oi_at b k"
  shows "oi_get a k = oi_get b k"
proof (cases "oi_get a k")
  case None
  then show ?thesis using assms(3) by (cases "oi_get b k") (simp_all add: oi_at_def)
next
  case (Some x)
  then obtain y where y: "oi_get b k = Some y" "ob_view x = ob_view y" using assms(3) by (cases "oi_get b k") (simp_all add: oi_at_def)
  have "reduced (ob_locations x)" "reduced (ob_locations y)"
    using Some y(1) index_okD(2) [OF assms(1)] index_okD(2) [OF assms(2)] oi_get_map_of [OF index_okD(1) [OF assms(1)]]
      oi_get_map_of [OF index_okD(1) [OF assms(2)]] by simp_all
  then show ?thesis using ob_view_ext [of x y] y Some by simp
qed

lemma oi_at_empty [simp]: "oi_at [] k = None" "index_ok []" "oi_get [] k = None"
proof -
  show "oi_get [] k = None" using oi_get_map_of [of "[]" k] by simp
  then show "oi_at [] k = None" by (simp add: oi_at_def)
qed (simp add: index_ok_def)

text \<open>A composition of valid indexes, empty or not.\<close>

lemma composed_index:
  assumes "segment ops (oi_ok rm) view_merge oi_at" "so_join ops = oi_join" "\<forall>m \<in> set vs. oi_ok rm m"
  defines "c \<equiv> (case compose oi_join vs of None \<Rightarrow> [] | Some index \<Rightarrow> index)"
  shows "index_ok c" "oi_at c k = answer view_merge oi_at vs k"
proof -
  have "index_ok c \<and> oi_at c k = answer view_merge oi_at vs k"
  proof (cases "compose oi_join vs")
    case None
    then show ?thesis by (simp add: c_def answer_def)
  next
    case (Some m)
    have "oi_ok rm m" using segment.axioms(1) [OF assms(1)] join_laws.compose_valid [of oi_join "oi_ok rm" vs m] assms(2,3) Some by simp
    moreover have "oi_at m k = answer view_merge oi_at vs k" using segment.at_compose [OF assms(1,3), of m k] Some assms(2) by simp
    ultimately show ?thesis using Some by (simp add: c_def oi_ok_def)
  qed
  then show "index_ok c" "oi_at c k = answer view_merge oi_at vs k" by simp_all
qed

lemma objects_read_spec:
  assumes laws: "bitmap_codec ser de" "room_ok ser rm" "objects_laws ser de view (shelf_segments objs s)"
    and ok: "shelf_ok rm view (shelf_segments objs s) (w s)" and read: "objects_read objs repo w s seqs = Inr index"
  shows "seq \<in> set seqs \<Longrightarrow> oi_get index seq = oi_get (stored_index view (shelf_segments objs s) (w s) repo) seq"
    and "oi_get index seq = None \<or> oi_get index seq = oi_get (stored_index view (shelf_segments objs s) (w s) repo) seq"
proof -
  let ?env = "shelf_segments objs s" and ?all = "stored_index view (shelf_segments objs s) (w s) repo"
  note store = objects_storeI [OF laws] and inv = ok [unfolded shelf_ok_def]
  have env: "ss_value ?env = objects_ops ser de" "1 \<le> ss_clusters ?env" using laws(3) by (simp_all add: objects_laws_def)
  have seg: "segment (ss_value ?env) (oi_ok rm) view_merge oi_at" "so_join (ss_value ?env) = oi_join"
    using segment_objects [OF laws(1,2)] by (simp_all add: env)
  obtain parts where parts: "seg_read_at ?env (objects_scope repo s) seqs (w s) = Inr parts"
    "index = (case compose oi_join parts of None \<Rightarrow> [] | Some index \<Rightarrow> index)"
    using read by (auto simp: objects_read_def split: sum.splits)
  note one = composed_index [OF seg segment_store.read_at_valid [OF store inv env(2) parts(1)], folded parts(2)]
    and all = composed_index [OF seg segment_store.rows_valid [OF store inv, of repo], folded stored_index_def]
  have sc: "sc_id (objects_scope repo s) = repo" by (simp add: objects_scope_def)
  show "oi_get index seq = oi_get ?all seq" if "seq \<in> set seqs"
    using segment_store.read_at_answer [OF store inv env(2) parts(1) that] one(2) [of seq] all(2) [of seq]
    by (intro objects_eqI one(1) all(1)) (simp add: sc rows_answer_def)
  have "oi_at index seq = None \<or> oi_at index seq = oi_at ?all seq"
    using segment_store.read_at_other [OF store inv env(2) parts(1), of seq] one(2) [of seq] all(2) [of seq]
    by (simp add: sc rows_answer_def)
  then show "oi_get index seq = None \<or> oi_get index seq = oi_get ?all seq"
    using objects_eqI [OF one(1) all(1)] by (auto simp: oi_at_def)
qed

lemma collect_map_spec:
  "map_of (foldl (\<lambda>m (k, v). btree_insert k v m) m ps) k = (case map_of (rev ps) k of None \<Rightarrow> map_of m k | Some v \<Rightarrow> Some v)"
  by (induction ps arbitrary: m) (auto simp: map_add_def split: option.splits)

lemma collect_map_sorted: "sorted_wrt (<) (map fst m) \<Longrightarrow> sorted_wrt (<) (map fst (foldl (\<lambda>m (k, v). btree_insert k v m) m ps))"
  by (induction ps arbitrary: m) (auto simp: btree_insert_sorted split: prod.split)

lemma collect_map_filter:
  "map_of (collect_map (List.map_filter (\<lambda>x. map_option (Pair x) (f x)) xs)) x = (if x \<in> set xs then f x else None)"
proof -
  have "map_of (rev (List.map_filter (\<lambda>x. map_option (Pair x) (f x)) xs)) x = (if x \<in> set xs then f x else None)"
    by (induction xs) (auto simp: map_filter_simps map_add_def split: option.splits if_splits)
  then show ?thesis by (simp add: collect_map_def collect_map_spec split: option.split)
qed

lemma objects_repo_reads:
  assumes laws: "bitmap_codec ser de" "\<And>s. room_ok ser (rm s)" "\<And>s. objects_laws ser de view (shelf_segments objs s)"
    and ok: "\<And>s. shelf_ok (rm s) view (shelf_segments objs s) (w s)"
  shows "object_reads (objects_repo objs repo w rows) (\<lambda>s. oi_get (stored_index view (shelf_segments objs s) (w s) repo))
    (rp_identities (state_repo rows repo)) (\<lambda>k seq. rp_by_seq (state_repo rows repo) (kind_to_u8 k, seq))"
proof
  fix s seqs index seq oids found oid k wanted names n
  let ?g = "objects_repo objs repo w rows"
  note spec = objects_read_spec [where s = s and w = w and objs = objs, OF laws(1) laws(2) laws(3) ok]
  show "oi_get index seq = oi_get (stored_index view (shelf_segments objs s) (w s) repo) seq"
    if "ro_read ?g s seqs = Inr index" "seq \<in> set seqs" using spec(1) that by (simp add: objects_repo_def)
  show "oi_get index seq = None \<or> oi_get index seq = oi_get (stored_index view (shelf_segments objs s) (w s) repo) seq"
    if "ro_read ?g s seqs = Inr index" using spec(2) that by (simp add: objects_repo_def)
  show "map_of found oid = (if oid \<in> set oids then rp_identities (state_repo rows repo) oid else None)" if "ro_identify ?g oids = Inr found"
    using that by (auto simp: objects_repo_def md_identify_def collect_map_filter state_held_def state_repo_def no_rows_def split: option.splits)
  show "distinct (map fst found)" if "ro_identify ?g oids = Inr found"
    using that collect_map_sorted [of "[]"]
    by (auto simp: objects_repo_def md_identify_def collect_map_def strict_sorted_iff split: option.splits)
  show "map_of names n = (if n \<in> set wanted then rp_by_seq (state_repo rows repo) (kind_to_u8 k, n) else None)"
    if "ro_oids ?g k wanted = Inr names"
    using that by (auto simp: objects_repo_def md_oids_of_def collect_map_filter state_held_def state_repo_def no_rows_def split: option.splits)
qed

section \<open>Example repositories\<close>

definition example_object_env :: "(object_index, objects_malformed, memory_catalog, list_bucket) segments" where
  "example_object_env = \<lparr>ss_value = objects_ops example_ser example_de, ss_catalog = memory_ops, ss_bucket = list_bucket_ops,
     ss_ulid = bit_ulid_ops, ss_fresh = of_nat, ss_policy = example_policy, ss_clusters = 8\<rparr>"

definition example_shelves :: "(memory_catalog, list_bucket) objects" where
  "example_shelves = \<lparr>ob_trees = example_object_env, ob_blobs = example_object_env\<rparr>"

lemma example_shelves_laws: "objects_laws example_ser example_de map_of (shelf_segments example_shelves s)"
  using list_bucket_laws bit_ulid_laws
  by (cases s) (simp_all add: objects_laws_def shelf_segments_def example_shelves_def example_object_env_def inj_on_def ID_SPACE_def
    word_of_nat_eq_iff take_bit_nat_eq_self)

definition shelved_world :: "shelf \<Rightarrow> (memory_catalog, list_bucket) world" where
  "shelved_world s = (case s of Trees \<Rightarrow> snd (seg_write example_object_env (objects_scope 7 Trees) example_objects empty_world) | Blobs \<Rightarrow> empty_world)"

lemma shelved_world_ok: "shelf_ok example_room map_of (shelf_segments example_shelves s) (shelved_world s)"
proof -
  have laws: "objects_laws example_ser example_de map_of example_object_env" using example_shelves_laws [of Trees]
    by (simp add: shelf_segments_def example_shelves_def)
  have empty: "shelf_ok example_room map_of example_object_env empty_world"
    by (simp add: shelf_ok_def store_inv_def empty_world_def scope_rows_def)
  have "shelf_ok example_room map_of example_object_env (snd (seg_write example_object_env (objects_scope 7 Trees) example_objects empty_world))"
    using segment_store.write_spec [OF objects_storeI [OF example_objects_ok(1,2) laws] empty [unfolded shelf_ok_def] example_objects_ok(3) prod.collapse [symmetric]]
    by (simp add: shelf_ok_def empty_world_def ID_SPACE_def)
  with empty show ?thesis by (cases s) (simp_all add: shelved_world_def shelf_segments_def example_shelves_def)
qed

interpretation example_reads: object_reads "objects_repo example_shelves 7 shelved_world pushed_rows"
  "\<lambda>s. oi_get (stored_index map_of (shelf_segments example_shelves s) (shelved_world s) 7)"
  "rp_identities (state_repo pushed_rows 7)" "\<lambda>k seq. rp_by_seq (state_repo pushed_rows 7) (kind_to_u8 k, seq)"
  by (rule objects_repo_reads [OF example_objects_ok(1,2) example_shelves_laws shelved_world_ok])

text \<open>An index held whole in memory, whose reads can be worked out: the tree 5 names the tree 7, which is not recorded.\<close>

definition held_objects :: repo_objects where
  "held_objects = \<lparr>ro_read = (\<lambda>s _. Inr (case s of Trees \<Rightarrow> example_objects | Blobs \<Rightarrow> [])),
     ro_identify = (\<lambda>oids. Inr (if [5] \<in> set oids then [([5], \<lparr>id_seq = 5, id_kind = Tree\<rparr>)] else [])),
     ro_oids = (\<lambda>k seqs. Inr (if k = Tree \<and> 5 \<in> set seqs then [(5, [5])] else []))\<rparr>"

definition held_object_at :: "shelf \<Rightarrow> u64 \<Rightarrow> object option" where
  "held_object_at s = (case s of Trees \<Rightarrow> map_of example_objects | Blobs \<Rightarrow> Map.empty)"

definition held_ident :: "oid \<rightharpoonup> identity" where
  "held_ident = [[5] \<mapsto> \<lparr>id_seq = 5, id_kind = Tree\<rparr>]"

definition held_names :: "kind \<Rightarrow> int \<rightharpoonup> oid" where
  "held_names k = (if k = Tree then [5 \<mapsto> [5]] else Map.empty)"

lemma example_objects_get: "oi_get example_objects seq = map_of example_objects seq"
  by (rule oi_get_map_of) (simp add: example_objects_def)

interpretation held_reads: object_reads held_objects held_object_at held_ident held_names
  by unfold_locales (auto simp: held_objects_def held_object_at_def held_ident_def held_names_def example_objects_get split: shelf.splits if_splits)

section \<open>Properties of the reads\<close>

text \<open>C33: the closure over trees returns for every repository, cyclic or not: with an error only when a read of the tree shelf
  failed, and otherwise with exactly the trees the roots reach and the blobs those trees name.\<close>

theorem tree_closure_correct:
  assumes "object_reads g obj ident name"
  shows "\<exists>res. tree_closure g roots = Some res \<and>
    (case res of Inl e \<Rightarrow> \<exists>seqs. ro_read g Trees seqs = Inl e
     | Inr out \<Rightarrow> os_trees out = (tree_edges obj)\<^sup>* `` set roots \<and>
         os_blobs out = (\<Union>seq \<in> (tree_edges obj)\<^sup>* `` set roots. os_blobs (kids obj seq)))"
  by (rule object_reads.tree_closure_spec [OF assms])

lemma held_edges: "tree_edges held_object_at = {(5, 7)}"
  by (auto simp: tree_edges_def kids_def held_object_at_def example_objects_def os_empty_def split: if_splits)

theorem tree_closure_correct_witness: "tree_closure held_objects [5] = Some (Inr \<lparr>os_trees = {5, 7}, os_blobs = {}\<rparr>)"
proof -
  obtain res where res: "tree_closure held_objects [5] = Some res"
    "case res of Inl e \<Rightarrow> \<exists>seqs. ro_read held_objects Trees seqs = Inl e
     | Inr out \<Rightarrow> os_trees out = (tree_edges held_object_at)\<^sup>* `` set [5] \<and>
         os_blobs out = (\<Union>seq \<in> (tree_edges held_object_at)\<^sup>* `` set [5]. os_blobs (kids held_object_at seq))"
    using tree_closure_correct [OF held_reads.object_reads_axioms, of "[5]"] by blast
  have reach: "(tree_edges held_object_at)\<^sup>* `` {5} = {5, 7}"
    unfolding held_edges by (auto elim: rtranclE)
  have "os_blobs (kids held_object_at seq) = {}" for seq
    by (simp add: kids_def held_object_at_def example_objects_def os_empty_def)
  with res(2) reach obtain out where "res = Inr out" "os_trees out = {5, 7}" "os_blobs out = {}"
    by (cases res) (simp_all add: held_objects_def)
  with res(1) show ?thesis by (simp add: object_seqs.equality)
qed

text \<open>C34: a delta chain is the introducing entry of the object and of each base in turn, as far as entries name a base and at
  most one more than the hops allowed: it ends on every repository, one whose bases form a cycle included.\<close>

theorem chain_correct:
  assumes "object_reads g obj ident name" "chain g oid max_hops = Inr out"
  shows "out = (case Option.bind (ident oid) held_as of None \<Rightarrow> [] | Some h \<Rightarrow> (case held_shelf h of None \<Rightarrow> []
      | Some s \<Rightarrow> map hop_location (base_chain (entry_at obj s) (Suc (unat max_hops)) (Some (hl_seq h))))) \<and>
    length out \<le> Suc (unat max_hops)"
proof -
  have "length (base_chain entry n at) \<le> n" for entry n at
    by (induction n arbitrary: at) (auto split: option.split)
  then show ?thesis
    using object_reads.chain_spec [OF assms] by (auto simp del: base_chain.simps split: option.split)
qed

theorem chain_correct_witness: "chain held_objects [5] 1 = Inr [hop_location example_location]"
proof -
  have run: "chain held_objects [5] 1 = Inr out \<Longrightarrow> out = [hop_location example_location]" for out
    using chain_correct [OF held_reads.object_reads_axioms, of "[5]" 1 out]
    by (simp add: held_ident_def held_as_def held_shelf_def for_kind_def entry_at_def held_object_at_def example_objects_def
      introducing_def example_location_def numeral_2_eq_2)
  have "\<exists>out. chain held_objects [5] 1 = Inr out"
    by (simp add: chain_def objects_identify_def held_objects_def held_of_def try_u64_def held_shelf_def for_kind_def
      chain_loop.simps example_objects_get index_introducing_def) (simp add: example_objects_def introducing_def example_location_def chain_loop.simps)
  with run show ?thesis by blast
qed

text \<open>C35: a lookup answers for every object it was given, in order, commits left out: its kind, its number in the space of that
  kind, and, for a tree or blob a pack holds, the entry that introduced it with its delta base named.\<close>

theorem lookup_correct:
  assumes "object_reads g obj ident name" "objects_lookup g found = Inr out"
  shows "out = map (\<lambda>(oid, i). let h = \<lparr>hl_seq = of_int (id_seq i), hl_kind = id_kind i\<rparr> in
      (oid, \<lparr>om_kind = id_kind i, om_location = object_location obj name h, om_object_seq = seq_of (id_kind i) (of_int (id_seq i))\<rparr>))
    (filter (\<lambda>(_, i). id_kind i \<noteq> Commit) found)"
proof -
  obtain held where h: "collect_results (map (\<lambda>(oid, i). rbind (held_of i) (\<lambda>h. Inr (oid, h))) (filter (\<lambda>(_, i). id_kind i \<noteq> Commit) found)) = Inr held"
    "assemble_metas g held = Inr out" using assms(2) by (auto simp: objects_lookup_def rbind_eq_Inr_iff)
  show ?thesis
    unfolding object_reads.assemble_metas_spec [OF assms(1) h(2)] object_reads.held_results [OF assms(1) h(1)]
    by (simp add: Let_def held_numbered_def split_def)
qed

theorem lookup_correct_witness:
  "objects_lookup held_objects [([5], \<lparr>id_seq = 5, id_kind = Tree\<rparr>)] =
    Inr [([5], \<lparr>om_kind = Tree, om_location = Some (hop_location example_location), om_object_seq = Some (TreeSeq 5)\<rparr>)]"
proof -
  have run: "objects_lookup held_objects [([5], \<lparr>id_seq = 5, id_kind = Tree\<rparr>)] = Inr out \<Longrightarrow>
      out = [([5], \<lparr>om_kind = Tree, om_location = Some (hop_location example_location), om_object_seq = Some (TreeSeq 5)\<rparr>)]" for out
    using lookup_correct [OF held_reads.object_reads_axioms, of "[([5], \<lparr>id_seq = 5, id_kind = Tree\<rparr>)]" out]
    by (simp add: object_location_def held_shelf_def for_kind_def entry_at_def held_object_at_def example_objects_def introducing_def
      example_location_def hop_location_def seq_of_def)
  have entry: "index_introducing example_objects 5 = Some example_location"
    by (simp add: index_introducing_def example_objects_get) (simp add: example_objects_def introducing_def)
  have "\<exists>out. objects_lookup held_objects [([5], \<lparr>id_seq = 5, id_kind = Tree\<rparr>)] = Inr out"
    by (simp add: objects_lookup_def held_of_def try_u64_def assemble_metas_def read_shelf_def held_on_def held_shelf_def for_kind_def
      Let_def held_objects_def objects_oids_of_def as_i64_def entry map_filter_simps example_location_def)
  with run show ?thesis by blast
qed

end
