(* ===== verification/Store_Engine.thy ===== *)
theory Store_Engine
  imports Journal
begin

text \<open>
  What the segment stores of one deployment share: the four catalogs the ledger holds, one bucket and one supply of
  names. A writer prepares a segment of one index and lists its row in the journal; here is what that does to the index
  once the journal lands, and that it leaves the other indexes alone.
\<close>

section \<open>Shared state\<close>

record ('c, 'b) engine =
  en_lists :: "'c each"
  en_bucket :: 'b
  en_made :: nat

definition engine_world :: "('c, 'b) engine \<Rightarrow> index \<Rightarrow> ('c, 'b) world" where
  "engine_world e i = \<lparr>w_catalog = index_of i (en_lists e), w_bucket = en_bucket e, w_made = en_made e\<rparr>"

definition set_world :: "index \<Rightarrow> ('c, 'b) world \<Rightarrow> ('c, 'b) engine \<Rightarrow> ('c, 'b) engine" where
  "set_world i w e = e\<lparr>en_lists := set_index i (w_catalog w) (en_lists e), en_bucket := w_bucket w, en_made := w_made w\<rparr>"

text \<open>Encoded, and put if it is large enough, before the row that names it is listed.\<close>

definition list_segment ::
    "('s, 'e, 'c, 'b) segments \<Rightarrow> index \<Rightarrow> scope \<Rightarrow> 's \<Rightarrow> journal \<times> ('c, 'b) engine \<Rightarrow>
       ('e store_error, unit) result \<times> journal \<times> ('c, 'b) engine" where
  "list_segment env i scope v st = (case st of (j, e) \<Rightarrow>
     (case seg_prepare env scope v (engine_world e i) of
        (Inl err, w) \<Rightarrow> (Inl err, j, set_world i w e)
      | (Inr None, w) \<Rightarrow> (Inr (), j, set_world i w e)
      | (Inr (Some row), w) \<Rightarrow> (Inr (), journal_list i scope row j, set_world i w e)))"

section \<open>Putting beside other stores\<close>

definition only_named :: "ulid_ops \<Rightarrow> segment_id \<Rightarrow> (path \<Rightarrow> bytes option) \<Rightarrow> (path \<Rightarrow> bytes option) \<Rightarrow> bool" where
  "only_named u i stored stored' \<longleftrightarrow> (\<forall>q. (\<forall>pre. q \<noteq> pre @ [uo_name u i]) \<longrightarrow> stored' q = stored q)"

lemma only_named_refl [simp]: "only_named u i stored stored"
  by (simp add: only_named_def)

lemma put_only_named:
  assumes "bucket_laws (ss_bucket env) view" "seg_put env scope r t v w = (res, w')"
  shows "only_named (ss_ulid env) (ss_fresh env (w_made w)) (view (w_bucket w)) (view (w_bucket w'))"
proof -
  let ?p = "scope_key (ss_ulid env) scope (ss_fresh env (w_made w))"
  obtain res1 b where put: "bo_put (ss_bucket env) ?p (so_encode (ss_value env) v) (w_bucket w) = (res1, b)" by (rule prod.exhaust)
  have "w_bucket w' = w_bucket w \<or> w_bucket w' = b"
    using assms(2) put by (auto simp: seg_put_def Let_def split: residence.splits sum.splits)
  then show ?thesis
    using bucket_putD(1) [OF assms(1) put] by (fastforce simp: only_named_def scope_key_def)
qed

context segment_store
begin

lemma other_put:
  assumes "inv w" "w_made w < ID_SPACE" "only_named (ss_ulid env) (ss_fresh env (w_made w)) (view (w_bucket w)) (view b)"
  shows "inv (w\<lparr>w_bucket := b, w_made := Suc (w_made w)\<rparr>)" "held (w\<lparr>w_bucket := b, w_made := Suc (w_made w)\<rparr>) i k = held w i k"
proof -
  have same: "row_bytes (view b) row = row_bytes (view (w_bucket w)) row" if row: "row \<in> set (rows (w_catalog w) i)" for row i
  proof (cases "wr_body row")
    case (BBucket p)
    have "wr_id row \<noteq> ss_fresh env (w_made w)" using store_invD(2) [OF assms(1) row] next_fresh [OF assms(2)] by metis
    moreover have "uo_parse (ss_ulid env) (last p) = Some (wr_id row)" using ok_path [OF store_invD(1) [OF assms(1) row] BBucket] by blast
    ultimately have "p \<noteq> pre @ [uo_name (ss_ulid env) (ss_fresh env (w_made w))]" for pre
      using ulid by (auto simp: ulid_laws_def)
    then show ?thesis using assms(3) BBucket by (simp add: row_bytes_def only_named_def)
  qed (simp add: row_bytes_def)
  show "inv (w\<lparr>w_bucket := b, w_made := Suc (w_made w)\<rparr>)" using store_inv_stored [OF assms(1) _ same] by simp
  show "held (w\<lparr>w_bucket := b, w_made := Suc (w_made w)\<rparr>) i k = held w i k" using rows_answer_cong [OF same] by simp
qed

text \<open>Preparing a value and listing its row, if it has one, adds the value to what its scope holds.\<close>

lemma prepared:
  assumes "inv w" "valid v" "seg_prepare env scope v w = (Inr row, w')" "w_made w < ID_SPACE"
    and rows: "\<And>i. set (rows c i) = set (rows (w_catalog w) i) \<union> (if i = sc_id scope then set_option row else {})"
  shows "inv (w'\<lparr>w_catalog := c\<rparr>)"
    and "held (w'\<lparr>w_catalog := c\<rparr>) i k = (if i = sc_id scope then merge (held w i k) (at v k) else held w i k)"
proof -
  have "inv (w'\<lparr>w_catalog := c\<rparr>) \<and> held (w'\<lparr>w_catalog := c\<rparr>) i k = (if i = sc_id scope then merge (held w i k) (at v k) else held w i k)"
  proof (cases "so_range (ss_value env) v")
    case None
    then have none: "row = None" "w' = w" "at v k = None" for k
      using assms(3) at_range [OF assms(2)] by (fastforce simp: seg_prepare_def)+
    have same: "set (rows c i) = set (rows (w_catalog w) i)" for i using rows [of i] none(1) by simp
    have "store_inv (ss_value env) valid at (ss_ulid env) (ss_fresh env) (rows c) (view (w_bucket w)) (w_made w)"
      using assms(1) unfolding store_inv_def same .
    moreover have "rows_answer (ss_value env) merge at (view (w_bucket w)) (rows c i) k = held w i k"
      by (rule rows_answer_set [OF same])
    ultimately show ?thesis by (simp add: none merge_None_right)
  next
    case (Some r)
    then obtain new where put: "seg_put env scope r 0 v w = (Inr new, w')" "row = Some new"
      using assms(3) by (auto simp: seg_prepare_def split: prod.splits sum.splits)
    have in_r: "\<forall>k. at v k \<noteq> None \<longrightarrow> contains r k" using at_range [OF assms(2)] Some by fastforce
    have "\<forall>i. set (rows c i) = (if i = sc_id scope then insert new {x \<in> set (rows (w_catalog w) i). True} else set (rows (w_catalog w) i))"
      using rows put(2) by simp
    note new = recorded [OF assms(1,2) in_r put(1) assms(4) this]
    from new(1) new(2) [of i k] new(3) [of k] show ?thesis by simp
  qed
  then show "inv (w'\<lparr>w_catalog := c\<rparr>)"
    "held (w'\<lparr>w_catalog := c\<rparr>) i k = (if i = sc_id scope then merge (held w i k) (at v k) else held w i k)" by simp_all
qed

lemma prepare_frame:
  assumes "seg_prepare env scope v w = (res, w')"
  shows "w_catalog w' = w_catalog w"
    and "w' = w \<or> w_made w' = Suc (w_made w) \<and> only_named (ss_ulid env) (ss_fresh env (w_made w)) (view (w_bucket w)) (view (w_bucket w'))"
proof -
  have put: "w_catalog w'' = w_catalog w" "w_made w'' = Suc (w_made w)" if "seg_put env scope r 0 v w = (res', w'')" for r res' w''
    using that by (auto simp: seg_put_def Let_def split: residence.splits prod.splits sum.splits)
  consider "w' = w" | r res' where "seg_put env scope r 0 v w = (res', w')"
    using assms by (cases "so_range (ss_value env) v") (auto simp: seg_prepare_def split: prod.splits sum.splits)
  then show "w_catalog w' = w_catalog w"
    "w' = w \<or> w_made w' = Suc (w_made w) \<and> only_named (ss_ulid env) (ss_fresh env (w_made w)) (view (w_bucket w)) (view (w_bucket w'))"
    using put put_only_named [OF bucket] by (cases; blast)+
qed

end

section \<open>Landing it\<close>

text \<open>The engine once the listings of a journal have landed.\<close>

definition landed :: "journal \<Rightarrow> (memory_catalog, 'b) engine \<Rightarrow> (memory_catalog, 'b) engine" where
  "landed j e = e\<lparr>en_lists := snd (land_listed memory_each (jn_listed j) (en_lists e))\<rparr>"

lemma landed_simps [simp]: "en_bucket (landed j e) = en_bucket e" "en_made (landed j e) = en_made e"
  by (simp_all add: landed_def)

text \<open>Whether an index of the engine is as its store keeps it, and what the index says of a key.\<close>

definition kept ::
    "('s, 'e, 'c, 'b) segments \<Rightarrow> ('s \<Rightarrow> bool) \<Rightarrow> ('s \<Rightarrow> key \<Rightarrow> 'v option) \<Rightarrow> ('b \<Rightarrow> path \<Rightarrow> bytes option) \<Rightarrow> (memory_catalog, 'b) engine \<Rightarrow> index \<Rightarrow> bool" where
  "kept env valid at view e i \<longleftrightarrow>
     store_inv (ss_value env) valid at (ss_ulid env) (ss_fresh env) (scope_rows (index_of i (en_lists e))) (view (en_bucket e)) (en_made e)"

definition answers ::
    "('s, 'e, 'c, 'b) segments \<Rightarrow> ('v option \<Rightarrow> 'v option \<Rightarrow> 'v option) \<Rightarrow> ('s \<Rightarrow> key \<Rightarrow> 'v option) \<Rightarrow> ('b \<Rightarrow> path \<Rightarrow> bytes option) \<Rightarrow>
       (memory_catalog, 'b) engine \<Rightarrow> index \<Rightarrow> int \<Rightarrow> key \<Rightarrow> 'v option" where
  "answers env merge at view e i r k = rows_answer (ss_value env) merge at (view (en_bucket e)) (scope_rows (index_of i (en_lists e)) r) k"

lemma land_listed_append:
  "snd (land_listed memory_each (ls @ [one]) cats) =
    (let cats = snd (land_listed memory_each ls cats); i = ls_index one in
     set_index i (snd (memory_insert (ls_scope one) (ls_segment one) (index_of i cats))) cats)"
  by (induction ls arbitrary: cats) (auto simp: memory_ops_def memory_insert_def Let_def split: sum.splits)

lemma prepare_catalog:
  "seg_prepare env scope v w = (res, w') \<Longrightarrow> seg_prepare env scope v (w\<lparr>w_catalog := c\<rparr>) = (res, w'\<lparr>w_catalog := c\<rparr>)"
  by (auto simp: seg_prepare_def seg_put_def Let_def split: option.splits residence.splits prod.splits sum.splits)

lemma set_append_option: "set (xs @ (if b then (case x of None \<Rightarrow> [] | Some y \<Rightarrow> [y]) else [])) = set xs \<union> (if b then set_option x else {})"
  by (cases x; cases b; simp)

lemma list_segment_worlds:
  assumes store: "segment_store env valid merge at scope_rows view"
    and run: "list_segment env i scope v (j, e) = (Inr (), j', e')"
  obtains row w' c where "seg_prepare env scope v (engine_world (landed j e) i) = (Inr row, w')"
    "en_bucket e' = w_bucket w'" "en_made e' = w_made w'" "index_of i (en_lists (landed j' e')) = c"
    "\<And>i'. i' \<noteq> i \<Longrightarrow> index_of i' (en_lists (landed j' e')) = index_of i' (en_lists (landed j e))"
    "\<And>r. set (scope_rows c r) = set (scope_rows (index_of i (en_lists (landed j e))) r) \<union> (if r = sc_id scope then set_option row else {})"
proof -
  let ?w = "engine_world (landed j e) i"
  obtain row w0 where prep0: "seg_prepare env scope v (engine_world e i) = (Inr row, w0)"
    and j': "j' = (case row of None \<Rightarrow> j | Some new \<Rightarrow> journal_list i scope new j)" and e': "e' = set_world i w0 e"
    using run by (auto simp: list_segment_def split: prod.splits sum.splits option.splits)
  have w: "(engine_world e i)\<lparr>w_catalog := w_catalog ?w\<rparr> = ?w" by (simp add: engine_world_def landed_def)
  define w' where "w' = w0\<lparr>w_catalog := w_catalog ?w\<rparr>"
  have prep: "seg_prepare env scope v ?w = (Inr row, w')"
    using prepare_catalog [OF prep0, of "w_catalog ?w"] unfolding w w'_def .
  have cat0: "w_catalog w0 = w_catalog (engine_world e i)" by (rule segment_store.prepare_frame(1) [OF store prep0])
  have lists: "en_lists e' = en_lists e" "en_bucket e' = w_bucket w'" "en_made e' = w_made w'"
    unfolding e' set_world_def w'_def using cat0 by (cases e; cases "en_lists e"; cases i; simp add: engine_world_def index_of_def set_index_def)+
  define c where "c = index_of i (en_lists (landed j' e'))"
  have others: "index_of i' (en_lists (landed j' e')) = index_of i' (en_lists (landed j e))" if "i' \<noteq> i" for i'
    using lists(1) that by (auto simp: landed_def j' journal_list_def land_listed_append Let_def split: option.split)
  have rows: "scope_rows c r = scope_rows (index_of i (en_lists (landed j e))) r @ (if r = sc_id scope then (case row of None \<Rightarrow> [] | Some new \<Rightarrow> [new]) else [])" for r
    unfolding c_def using lists(1)
    by (auto simp: landed_def j' journal_list_def land_listed_append Let_def memory_insert_def scope_rows_def split: option.split)
  have "set (scope_rows c r) = set (scope_rows (index_of i (en_lists (landed j e))) r) \<union> (if r = sc_id scope then set_option row else {})" for r
    unfolding rows by (rule set_append_option)
  from that [OF prep lists(2,3) c_def [symmetric] others this] show thesis .
qed

text \<open>The index written to says what it did, with the new value merged in under its scope.\<close>

lemma list_segment_spec:
  assumes store: "segment_store env valid merge at scope_rows view"
    and ok: "kept env valid at view (landed j e) i" "en_made e < ID_SPACE" "valid v"
    and run: "list_segment env i scope v (j, e) = (Inr (), j', e')"
  shows "kept env valid at view (landed j' e') i" "en_made e' \<le> Suc (en_made e)"
    and "answers env merge at view (landed j' e') i r k =
      (if r = sc_id scope then merge (answers env merge at view (landed j e) i r k) (at v k) else answers env merge at view (landed j e) i r k)"
    and "i' \<noteq> i \<Longrightarrow> index_of i' (en_lists (landed j' e')) = index_of i' (en_lists (landed j e))"
    and "en_bucket e' = en_bucket e \<and> en_made e' = en_made e \<or> en_made e' = Suc (en_made e) \<and>
      only_named (ss_ulid env) (ss_fresh env (en_made e)) (view (en_bucket e)) (view (en_bucket e'))"
proof -
  let ?w = "engine_world (landed j e) i"
  obtain row w' c where prep: "seg_prepare env scope v ?w = (Inr row, w')" and e': "en_bucket e' = w_bucket w'" "en_made e' = w_made w'"
    and c: "index_of i (en_lists (landed j' e')) = c"
    and others: "\<And>i'. i' \<noteq> i \<Longrightarrow> index_of i' (en_lists (landed j' e')) = index_of i' (en_lists (landed j e))"
    and rows: "\<And>r. set (scope_rows c r) = set (scope_rows (index_of i (en_lists (landed j e))) r) \<union> (if r = sc_id scope then set_option row else {})"
    using list_segment_worlds [OF store run] by metis
  have w: "w_catalog ?w = index_of i (en_lists (landed j e))" "w_bucket ?w = en_bucket e" "w_made ?w = en_made e"
    by (simp_all add: engine_world_def landed_def)
  have inv: "store_inv (ss_value env) valid at (ss_ulid env) (ss_fresh env) (scope_rows (w_catalog ?w)) (view (w_bucket ?w)) (w_made ?w)"
    using ok(1) by (simp add: kept_def w)
  have rows': "set (scope_rows c r) = set (scope_rows (w_catalog ?w) r) \<union> (if r = sc_id scope then set_option row else {})" for r
    using rows [of r] by (simp add: w)
  note mine = segment_store.prepared [OF store inv ok(3) prep, unfolded w(3), OF ok(2), of c, OF rows']
  note frame = segment_store.prepare_frame(2) [OF store prep]
  show "kept env valid at view (landed j' e') i" using mine(1) by (simp add: kept_def c e')
  show "answers env merge at view (landed j' e') i r k =
      (if r = sc_id scope then merge (answers env merge at view (landed j e) i r k) (at v k) else answers env merge at view (landed j e) i r k)"
    using mine(2) [of r k] by (simp add: answers_def c e' w)
  show step: "en_bucket e' = en_bucket e \<and> en_made e' = en_made e \<or> en_made e' = Suc (en_made e) \<and>
      only_named (ss_ulid env) (ss_fresh env (en_made e)) (view (en_bucket e)) (view (en_bucket e'))"
    using frame by (auto simp: w e')
  then show "en_made e' \<le> Suc (en_made e)" by auto
  show "index_of i' (en_lists (landed j' e')) = index_of i' (en_lists (landed j e))" if "i' \<noteq> i" by (rule others [OF that])
qed

text \<open>An index whose store names its segments from the supply says what it did.\<close>

lemma list_segment_other:
  assumes wrote: "segment_store env valid merge at scope_rows view"
    and store: "segment_store env2 valid2 merge2 at2 scope_rows view" "ss_ulid env2 = ss_ulid env" "ss_fresh env2 = ss_fresh env"
    and ok: "kept env valid at view (landed j e) i" "kept env2 valid2 at2 view (landed j e) i'" "en_made e < ID_SPACE" "valid v" "i' \<noteq> i"
    and run: "list_segment env i scope v (j, e) = (Inr (), j', e')"
  shows "kept env2 valid2 at2 view (landed j' e') i'"
    "answers env2 merge2 at2 view (landed j' e') i' r k = answers env2 merge2 at2 view (landed j e) i' r k"
proof -
  let ?w = "engine_world (landed j e) i'"
  note spec = list_segment_spec [OF wrote ok(1,3,4) run]
  have w: "w_catalog ?w = index_of i' (en_lists (landed j e))" "w_bucket ?w = en_bucket e" "w_made ?w = en_made e"
    by (simp_all add: engine_world_def)
  have inv: "store_inv (ss_value env2) valid2 at2 (ss_ulid env2) (ss_fresh env2) (scope_rows (w_catalog ?w)) (view (w_bucket ?w)) (w_made ?w)"
    using ok(2) by (simp add: kept_def w)
  have lists: "index_of i' (en_lists (landed j' e')) = index_of i' (en_lists (landed j e))" by (rule spec(4) [OF ok(5)])
  have room: "w_made ?w < ID_SPACE" using ok(3) by (simp add: w)
  note put = segment_store.other_put [OF store(1) inv room, of "en_bucket e'"]
  have "kept env2 valid2 at2 view (landed j' e') i' \<and>
    answers env2 merge2 at2 view (landed j' e') i' r k = answers env2 merge2 at2 view (landed j e) i' r k"
    using spec(5)
  proof
    assume "en_bucket e' = en_bucket e \<and> en_made e' = en_made e"
    then show ?thesis using ok(2) by (simp add: kept_def answers_def lists)
  next
    assume new: "en_made e' = Suc (en_made e) \<and> only_named (ss_ulid env) (ss_fresh env (en_made e)) (view (en_bucket e)) (view (en_bucket e'))"
    then show ?thesis using put(1) put(2) [of r k] by (simp add: kept_def answers_def lists w store(2,3))
  qed
  then show "kept env2 valid2 at2 view (landed j' e') i'"
    "answers env2 merge2 at2 view (landed j' e') i' r k = answers env2 merge2 at2 view (landed j e) i' r k" by blast+
qed

lemma landed_elsewhere:
  assumes "\<forall>one \<in> set (jn_listed j). ls_index one \<noteq> i"
  shows "index_of i (en_lists (landed j e)) = index_of i (en_lists e)"
proof -
  have "index_of i (snd (land_listed memory_each ls cats)) = index_of i cats" if "\<forall>one \<in> set ls. ls_index one \<noteq> i" for ls cats
    using that by (induction ls arbitrary: cats) (auto simp: memory_ops_def memory_insert_def)
  from this [OF assms] show ?thesis by (simp add: landed_def)
qed

lemma commit_lists:
  "ledger_commit memory_each now repo j l = (res, l') \<Longrightarrow> ld_lists l' = snd (land_listed memory_each (jn_listed j) (ld_lists l))"
  by (auto simp: ledger_commit_def journal_is_empty_def split: prod.splits sum.splits if_splits)

end
