(* ===== verification/Object_Write.thy ===== *)
theory Object_Write
  imports Object_Store Store_Engine
begin

text \<open>
  The push path of the object index (\<open>git/objects/src/write.rs\<close>): what a push records is built into one segment per
  shelf, put, and listed in the journal the push lands.
\<close>

section \<open>Shelves of the engine\<close>

text \<open>The list a writer journals a shelf's segments under, and the ledger's list the shelf's catalog was made from when
  the storage was assembled (\<open>Storage::assemble\<close> in \<open>git/retrieve/src/storage.rs\<close>), which is the one it reads and merges.\<close>

definition shelf_index :: "shelf \<Rightarrow> index" where
  "shelf_index s = (case s of Trees \<Rightarrow> index.Trees | Blobs \<Rightarrow> index.Blobs)"

definition shelf_catalog :: "shelf \<Rightarrow> index" where
  "shelf_catalog s = (case s of Trees \<Rightarrow> index.Trees | Blobs \<Rightarrow> index.Blobs)"

lemma shelf_catalog_index: "shelf_catalog s = shelf_index s"
  by (simp add: shelf_catalog_def shelf_index_def)

definition shelf_world :: "('c, 'b) engine \<Rightarrow> shelf \<Rightarrow> ('c, 'b) world" where
  "shelf_world e s = engine_world e (shelf_catalog s)"

definition set_shelf :: "shelf \<Rightarrow> ('c, 'b) world \<Rightarrow> ('c, 'b) engine \<Rightarrow> ('c, 'b) engine" where
  "set_shelf s = set_world (shelf_catalog s)"

section \<open>Recording\<close>

record recorded_object =
  rc_seq :: u64
  rc_oid :: oid
  rc_kind :: kind
  rc_locations :: "location list"
  rc_children :: object_seqs

definition shelve :: "object_index \<Rightarrow> recorded_object \<Rightarrow> object_index" where
  "shelve builder one =
     (let builder = foldl (\<lambda>b l. locate b (rc_seq one) l) builder (rc_locations one) in
      if os_is_empty (rc_children one) then builder else record_children builder (rc_seq one) (rc_children one))"

definition list_built ::
    "('c, 'b) objects \<Rightarrow> repo_id \<Rightarrow> shelf \<Rightarrow> object_index \<Rightarrow> journal \<times> ('c, 'b) engine \<Rightarrow>
       (objects_error, unit) result \<times> journal \<times> ('c, 'b) engine" where
  "list_built objs repo s index st =
     (case list_segment (shelf_segments objs s) (shelf_index s) (objects_scope repo s) index st of
        (Inl err, st) \<Rightarrow> (Inl (OStore err), st)
      | (Inr _, st) \<Rightarrow> (Inr (), st))"

definition recorded_on :: "recorded_object list \<Rightarrow> shelf \<Rightarrow> recorded_object list" where
  "recorded_on objects s = filter (\<lambda>one. for_kind (rc_kind one) = Some s) objects"

definition record_shelf ::
    "('c, 'b) objects \<Rightarrow> repo_id \<Rightarrow> recorded_object list \<Rightarrow> shelf \<Rightarrow> journal \<times> ('c, 'b) engine \<Rightarrow>
       (objects_error, unit) result \<times> journal \<times> ('c, 'b) engine" where
  "record_shelf objs repo objects s st =
     (let mine = recorded_on objects s in
      if mine = [] then (Inr (), st) else list_built objs repo s (objects_build (foldl shelve [] mine)) st)"

text \<open>A step per shelf, stopping at the first that fails.\<close>

fun each_shelf :: "(shelf \<Rightarrow> 's \<Rightarrow> ('e, unit) result \<times> 's) \<Rightarrow> shelf list \<Rightarrow> 's \<Rightarrow> ('e, unit) result \<times> 's" where
  "each_shelf f [] st = (Inr (), st)"
| "each_shelf f (s # ss) st = (case f s st of (Inl e, st) \<Rightarrow> (Inl e, st) | (Inr _, st) \<Rightarrow> each_shelf f ss st)"

definition objects_record ::
    "('c, 'b) objects \<Rightarrow> repo_id \<Rightarrow> recorded_object list \<Rightarrow> journal \<times> ('c, 'b) engine \<Rightarrow>
       (objects_error, unit) result \<times> journal \<times> ('c, 'b) engine" where
  "objects_record objs repo objects st =
     (if objects = [] then (Inr (), st) else each_shelf (record_shelf objs repo objects) BOTH st)"

section \<open>Relocating\<close>

definition relocate_shelf ::
    "('c, 'b) objects \<Rightarrow> repo_id \<Rightarrow> (u64 \<times> kind \<times> location) list \<Rightarrow> shelf \<Rightarrow> journal \<times> ('c, 'b) engine \<Rightarrow>
       (objects_error, unit) result \<times> journal \<times> ('c, 'b) engine" where
  "relocate_shelf objs repo added s st =
     (let mine = filter (\<lambda>(_, k, _). for_kind k = Some s) added in
      if mine = [] then (Inr (), st)
      else list_built objs repo s (objects_build (foldl (\<lambda>b (seq, _, l). locate b seq l) [] mine)) st)"

definition objects_relocate ::
    "('c, 'b) objects \<Rightarrow> repo_id \<Rightarrow> (u64 \<times> kind \<times> location) list \<Rightarrow> journal \<times> ('c, 'b) engine \<Rightarrow>
       (objects_error, unit) result \<times> journal \<times> ('c, 'b) engine" where
  "objects_relocate objs repo added st = each_shelf (relocate_shelf objs repo added) BOTH st"

definition move_location :: "location \<Rightarrow> u128 \<times> u64 \<Rightarrow> location" where
  "move_location l to = (case to of (into, shift) \<Rightarrow>
     Location (lc_pack_seq l) (lc_pack_oid l)
       \<lparr>sl_id = into, sl_base_offset = sat_add (sl_base_offset (lc_segment l)) shift, sl_image_len = sl_image_len (lc_segment l)\<rparr>
       (lc_offset l) (lc_entry_len l) (lc_base_seq l))"

definition moved_on ::
    "repo_objects \<Rightarrow> object_seqs \<Rightarrow> (u128 \<rightharpoonup> u128 \<times> u64) \<Rightarrow> shelf \<Rightarrow> (objects_error, (u64 \<times> kind \<times> location) list) result" where
  "moved_on g objects moved s =
     (let wanted = sorted_list_of_set (case s of Trees \<Rightarrow> os_trees objects | Blobs \<Rightarrow> os_blobs objects) in
      if wanted = [] then Inr []
      else rbind (ro_read g s wanted) (\<lambda>index.
        Inr (List.map_filter (\<lambda>(seq, l). map_option (\<lambda>to. (seq, shelf_kind s, move_location l to)) (moved (sl_id (lc_segment l))))
          (concat (map (\<lambda>(seq, ob). map (Pair seq) (ob_locations ob))
            (List.map_filter (\<lambda>seq. map_option (Pair seq) (oi_get index seq)) wanted))))))"

definition moved_locations ::
    "repo_objects \<Rightarrow> object_seqs \<Rightarrow> (u128 \<rightharpoonup> u128 \<times> u64) \<Rightarrow> (objects_error, (u64 \<times> kind \<times> location) list) result" where
  "moved_locations g objects moved =
     rbind (moved_on g objects moved Trees) (\<lambda>trees. rbind (moved_on g objects moved Blobs) (\<lambda>blobs. Inr (trees @ blobs)))"

section \<open>Maintenance\<close>

text \<open>An operation on each shelf in turn, whose outcomes add up.\<close>

fun total_shelves ::
    "(shelf \<Rightarrow> ('c, 'b) world \<Rightarrow> (objects_malformed store_error, 'r) result \<times> ('c, 'b) world) \<Rightarrow> ('r \<Rightarrow> 'r \<Rightarrow> 'r) \<Rightarrow> shelf list \<Rightarrow>
       'r \<Rightarrow> ('c, 'b) engine \<Rightarrow> (objects_error, 'r) result \<times> ('c, 'b) engine" where
  "total_shelves f add [] sum_so_far e = (Inr sum_so_far, e)"
| "total_shelves f add (s # ss) sum_so_far e =
     (case f s (shelf_world e s) of
        (Inl err, w) \<Rightarrow> (Inl (OStore err), set_shelf s w e)
      | (Inr one, w) \<Rightarrow> total_shelves f add ss (add sum_so_far one) (set_shelf s w e))"

definition objects_compact :: "('c, 'b) objects \<Rightarrow> repo_id \<Rightarrow> ('c, 'b) engine \<Rightarrow> (objects_error, report) result \<times> ('c, 'b) engine" where
  "objects_compact objs repo =
     total_shelves (\<lambda>s. seg_compact (shelf_segments objs s) (objects_scope repo s)) report_plus BOTH report_default"

definition objects_purge_bucket ::
    "('c, 'b) objects \<Rightarrow> repo_id \<Rightarrow> ('c, 'b) engine \<Rightarrow> (objects_error, reclaimed) result \<times> ('c, 'b) engine" where
  "objects_purge_bucket objs repo =
     total_shelves (\<lambda>s. purge_bucket (shelf_segments objs s) (objects_scope repo s)) reclaimed_plus BOTH
       \<lparr>re_objects = 0, re_bytes = 0, re_orphaned = 0\<rparr>"

definition objects_sweep_bucket ::
    "('c, 'b) objects \<Rightarrow> repo_id \<Rightarrow> sweep \<Rightarrow> ('c, 'b) engine \<Rightarrow> (objects_error, swept) result \<times> ('c, 'b) engine" where
  "objects_sweep_bucket objs repo sw =
     total_shelves (\<lambda>s. sweep_bucket (shelf_segments objs s) (objects_scope repo s) sw) swept_plus BOTH
       \<lparr>sp_scanned = 0, sp_orphans = 0, sp_bytes = 0\<rparr>"

section \<open>What a push records\<close>

definition record_view :: "recorded_object \<Rightarrow> object_view option" where
  "record_view one = (if rc_locations one = [] \<and> os_is_empty (rc_children one) then None
     else Some (newest_of (rc_locations one), os_trees (rc_children one), os_blobs (rc_children one)))"

definition recorded_view :: "recorded_object list \<Rightarrow> shelf \<Rightarrow> key \<Rightarrow> object_view option" where
  "recorded_view objects s k = foldl view_merge None (map record_view (filter (\<lambda>one. rc_seq one = k) (recorded_on objects s)))"

definition built_index :: "recorded_object list \<Rightarrow> shelf \<Rightarrow> object_index" where
  "built_index objects s = objects_build (foldl shelve [] (recorded_on objects s))"

lemma locate_all_view:
  "builder_ok m \<Longrightarrow> builder_ok (foldl (\<lambda>b l. locate b seq l) m ls) \<and>
    oi_at (objects_build (foldl (\<lambda>b l. locate b seq l) m ls)) k =
      view_merge (oi_at (objects_build m) k) (if k = seq \<and> ls \<noteq> [] then Some (newest_of ls, {}, {}) else None)"
proof (induction ls arbitrary: m)
  case (Cons l ls)
  note one = object_builder [OF Cons.prems, of seq l os_empty k]
  have join: "view_merge (Some (newest_of [l], {}, {})) (Some (newest_of ls, {}, {})) = Some (newest_of (l # ls), {}, {})"
    using newest_of_append [of "[l]" ls] by (simp add: view_merge_def view_join_def fun_eq_iff)
  show ?case
    using Cons.IH [of "locate m seq l"] one join by (cases "ls = []") auto
qed simp

lemma shelve_view:
  assumes "builder_ok m"
  shows "builder_ok (shelve m one) \<and> oi_at (objects_build (shelve m one)) k =
    view_merge (oi_at (objects_build m) k) (if k = rc_seq one then record_view one else None)"
proof -
  let ?m = "foldl (\<lambda>b l. locate b (rc_seq one) l) m (rc_locations one)"
  note locs = locate_all_view [OF assms, of "rc_seq one" "rc_locations one" k]
  note kids = object_builder [OF conjunct1 [OF locs], of "rc_seq one" undefined "rc_children one" k]
  have none: "newest_of [] = (\<lambda>_. None)" by (simp add: newest_of_def fun_eq_iff)
  have join: "view_merge (if rc_locations one \<noteq> [] then Some (newest_of (rc_locations one), {}, {}) else None)
      (if os_is_empty (rc_children one) then None else Some (\<lambda>_. None, os_trees (rc_children one), os_blobs (rc_children one))) = record_view one"
    by (auto simp: record_view_def view_merge_def view_join_def none os_is_empty_def)
  show ?thesis
    using locs kids join by (auto simp: shelve_def Let_def record_view_def)
qed

lemma built_index_view:
  "builder_ok (foldl shelve [] (recorded_on objects s)) \<and> oi_at (built_index objects s) k = recorded_view objects s k"
proof -
  have fold: "builder_ok m \<Longrightarrow> builder_ok (foldl shelve m os) \<and> oi_at (objects_build (foldl shelve m os)) k =
      foldl view_merge (oi_at (objects_build m) k) (map record_view (filter (\<lambda>one. rc_seq one = k) os))" for m os
    by (induction os arbitrary: m) (simp_all add: shelve_view)
  have "builder_ok []" "objects_build [] = []" by (simp_all add: builder_ok_def objects_build_def)
  with fold [of "[]" "recorded_on objects s"] show ?thesis by (simp add: built_index_def recorded_view_def)
qed

section \<open>Landing it\<close>

definition shelves_ok ::
    "(shelf \<Rightarrow> object_room) \<Rightarrow> ('b \<Rightarrow> path \<Rightarrow> bytes option) \<Rightarrow> (memory_catalog, 'b) objects \<Rightarrow> (memory_catalog, 'b) engine \<Rightarrow> bool" where
  "shelves_ok rm view objs e \<longleftrightarrow> (\<forall>s. shelf_ok (rm s) view (shelf_segments objs s) (shelf_world e s))"

definition shelves_laws ::
    "(u64 set \<Rightarrow> bytes option) \<Rightarrow> (bytes \<Rightarrow> u64 set option) \<Rightarrow> ('b \<Rightarrow> path \<Rightarrow> bytes option) \<Rightarrow> (memory_catalog, 'b) objects \<Rightarrow> bool" where
  "shelves_laws ser de view objs \<longleftrightarrow> (\<forall>s. objects_laws ser de view (shelf_segments objs s)) \<and>
     ss_ulid (ob_trees objs) = ss_ulid (ob_blobs objs) \<and> ss_fresh (ob_trees objs) = ss_fresh (ob_blobs objs)"

definition stored_view ::
    "('b \<Rightarrow> path \<Rightarrow> bytes option) \<Rightarrow> (memory_catalog, 'b) objects \<Rightarrow> (memory_catalog, 'b) engine \<Rightarrow> repo_id \<Rightarrow> shelf \<Rightarrow> key \<Rightarrow> object_view option" where
  "stored_view view objs e repo s k = oi_at (stored_index view (shelf_segments objs s) (shelf_world e s) repo) k"

lemma shelf_index_inj [simp]: "shelf_index s = shelf_index t \<longleftrightarrow> s = t"
  by (cases s; cases t) (simp_all add: shelf_index_def)

lemma shelves_kept:
  "shelves_ok rm view objs e \<longleftrightarrow> (\<forall>s. kept (shelf_segments objs s) (oi_ok (rm s)) oi_at view e (shelf_index s))"
  by (simp add: shelves_ok_def shelf_ok_def kept_def shelf_world_def shelf_catalog_index engine_world_def)

lemma stored_view_answer:
  assumes "bitmap_codec ser de" "room_ok ser (rm s)" "shelves_laws ser de view objs" "shelves_ok rm view objs e"
  shows "stored_view view objs e repo s k = answers (shelf_segments objs s) view_merge oi_at view e (shelf_index s) repo k"
proof -
  have laws: "objects_laws ser de view (shelf_segments objs s)" using assms(3) by (simp add: shelves_laws_def)
  note store = objects_storeI [OF assms(1,2) laws]
  have inv: "shelf_ok (rm s) view (shelf_segments objs s) (shelf_world e s)" using assms(4) by (simp add: shelves_ok_def)
  have seg: "segment (ss_value (shelf_segments objs s)) (oi_ok (rm s)) view_merge oi_at" "so_join (ss_value (shelf_segments objs s)) = oi_join"
    using segment_objects [OF assms(1,2)] laws by (simp_all add: objects_laws_def)
  show ?thesis
    using composed_index(2) [OF seg segment_store.rows_valid [OF store inv [unfolded shelf_ok_def], of repo], folded stored_index_def, of k]
    by (simp add: stored_view_def answers_def rows_answer_def shelf_world_def shelf_catalog_index engine_world_def)
qed

lemma list_built_spec:
  assumes laws: "bitmap_codec ser de" "\<And>s. room_ok ser (rm s)" "shelves_laws ser de view objs"
    and ok: "shelves_ok rm view objs (landed j e)" "en_made e < ID_SPACE" "oi_ok (rm s) index"
    and run: "list_built objs repo s index (j, e) = (Inr (), j', e')"
  shows "shelves_ok rm view objs (landed j' e')" "en_made e' \<le> Suc (en_made e)"
    and "stored_view view objs (landed j' e') r t k = (if r = repo \<and> t = s then view_merge (stored_view view objs (landed j e) r t k) (oi_at index k)
      else stored_view view objs (landed j e) r t k)"
proof -
  have env: "objects_laws ser de view (shelf_segments objs t)" for t using laws(3) by (simp add: shelves_laws_def)
  have store: "segment_store (shelf_segments objs t) (oi_ok (rm t)) view_merge oi_at scope_rows view" for t
    by (rule objects_storeI [OF laws(1,2) env])
  have kept: "kept (shelf_segments objs t) (oi_ok (rm t)) oi_at view (landed j e) (shelf_index t)" for t
    using ok(1) by (simp add: shelves_kept)
  have shared: "ss_ulid (shelf_segments objs t) = ss_ulid (shelf_segments objs s)" "ss_fresh (shelf_segments objs t) = ss_fresh (shelf_segments objs s)" for t
    using laws(3) by (cases s; cases t; simp add: shelves_laws_def shelf_segments_def)+
  have list: "list_segment (shelf_segments objs s) (shelf_index s) (objects_scope repo s) index (j, e) = (Inr (), j', e')"
    using run by (auto simp: list_built_def split: prod.splits sum.splits)
  note mine = list_segment_spec [OF store kept ok(2,3) list]
  note other = list_segment_other [OF store store shared kept kept ok(2,3) _ list]
  show "en_made e' \<le> Suc (en_made e)" by (rule mine(2))
  have "kept (shelf_segments objs t) (oi_ok (rm t)) oi_at view (landed j' e') (shelf_index t)" for t
    using mine(1) other(1) [of t] by (cases "t = s") simp_all
  then show ok': "shelves_ok rm view objs (landed j' e')" by (simp add: shelves_kept)
  show "stored_view view objs (landed j' e') r t k = (if r = repo \<and> t = s then view_merge (stored_view view objs (landed j e) r t k) (oi_at index k)
      else stored_view view objs (landed j e) r t k)"
    unfolding stored_view_answer [OF laws(1,2,3) ok'] stored_view_answer [OF laws(1,2,3) ok(1)]
    using mine(3) [of r k] other(2) [of t r k] by (cases "t = s") (simp_all add: objects_scope_def)
qed

lemma record_shelf_spec:
  assumes laws: "bitmap_codec ser de" "\<And>s. room_ok ser (rm s)" "shelves_laws ser de view objs"
    and ok: "shelves_ok rm view objs (landed j e)" "en_made e < ID_SPACE" "oi_ok (rm s) (built_index objects s)"
    and run: "record_shelf objs repo objects s (j, e) = (Inr (), j', e')"
  shows "shelves_ok rm view objs (landed j' e')" "en_made e' \<le> Suc (en_made e)"
    and "stored_view view objs (landed j' e') r t k = (if r = repo \<and> t = s
      then view_merge (stored_view view objs (landed j e) r t k) (recorded_view objects s k) else stored_view view objs (landed j e) r t k)"
proof -
  have "shelves_ok rm view objs (landed j' e') \<and> en_made e' \<le> Suc (en_made e) \<and>
    stored_view view objs (landed j' e') r t k = (if r = repo \<and> t = s
      then view_merge (stored_view view objs (landed j e) r t k) (recorded_view objects s k) else stored_view view objs (landed j e) r t k)"
  proof (cases "recorded_on objects s = []")
    case True
    then have "j' = j" "e' = e" using run by (simp_all add: record_shelf_def)
    moreover have "recorded_view objects s k = None" using True by (simp add: recorded_view_def)
    ultimately show ?thesis using ok(1) by simp
  next
    case False
    then have "list_built objs repo s (built_index objects s) (j, e) = (Inr (), j', e')"
      using run by (simp add: record_shelf_def built_index_def)
    note built = list_built_spec [OF laws ok this]
    from built(1,2) built(3) [of r t k] conjunct2 [OF built_index_view [of objects s k]] show ?thesis by simp
  qed
  then show "shelves_ok rm view objs (landed j' e')" "en_made e' \<le> Suc (en_made e)"
    "stored_view view objs (landed j' e') r t k = (if r = repo \<and> t = s
      then view_merge (stored_view view objs (landed j e) r t k) (recorded_view objects s k) else stored_view view objs (landed j e) r t k)"
    by blast+
qed

lemma landed_shelf:
  assumes "\<forall>one \<in> set (jn_listed j). ls_index one \<noteq> index.Trees \<and> ls_index one \<noteq> index.Blobs"
  shows "shelf_world (landed j e) s = shelf_world e s"
  using landed_elsewhere [of j "shelf_index s" e] assms by (cases s) (simp_all add: shelf_world_def shelf_catalog_index engine_world_def shelf_index_def)

text \<open>C32: what a push records is what reads find once its journal has landed, whatever other lists it also writes: each object of
  the repository is known by everything recorded of it beside everything that was, on its own shelf and under its own
  seq, and nothing else of the repository or of any other changes.\<close>

theorem recorded_objects_land:
  assumes laws: "bitmap_codec ser de" "\<And>s. room_ok ser (rm s)" "shelves_laws ser de view objs"
    and ok: "shelves_ok rm view objs e" "en_made e + 1 < ID_SPACE" "\<And>s. oi_ok (rm s) (built_index objects s)"
    and others: "\<forall>one \<in> set (jn_listed j). ls_index one \<noteq> index.Trees \<and> ls_index one \<noteq> index.Blobs"
    and run: "objects_record objs repo objects (j, e) = (Inr (), j', e')"
    and commit: "ledger_commit memory_each now repo j' \<lparr>ld_lists = en_lists e', ld_rows = rows\<rparr> = (res, l')"
  shows "shelves_ok rm view objs (e'\<lparr>en_lists := ld_lists l'\<rparr>) \<and>
    stored_view view objs (e'\<lparr>en_lists := ld_lists l'\<rparr>) r s k =
      (if r = repo then view_merge (stored_view view objs e r s k) (recorded_view objects s k) else stored_view view objs e r s k)"
proof -
  have final: "e'\<lparr>en_lists := ld_lists l'\<rparr> = landed j' e'" using commit_lists [OF commit] by (simp add: landed_def)
  have same: "stored_view view objs (landed j e) r s k = stored_view view objs e r s k" for r s k
    by (simp add: stored_view_def landed_shelf [OF others])
  have start: "shelves_ok rm view objs (landed j e)" using ok(1) by (simp add: shelves_ok_def landed_shelf [OF others])
  show ?thesis
  proof (cases "objects = []")
    case True
    then have "j' = j" "e' = e" using run by (simp_all add: objects_record_def)
    then show ?thesis using start same [of r s k] True unfolding final by (simp add: recorded_view_def recorded_on_def)
  next
    case False
    then obtain j1 e1 where one: "record_shelf objs repo objects Trees (j, e) = (Inr (), j1, e1)"
      and two: "record_shelf objs repo objects Blobs (j1, e1) = (Inr (), j', e')"
      using run by (auto simp: objects_record_def BOTH_def split: prod.splits sum.splits)
    have room: "en_made e < ID_SPACE" using ok(2) by simp
    note trees = record_shelf_spec [OF laws start room ok(3) one]
    have room1: "en_made e1 < ID_SPACE" using trees(2) ok(2) by simp
    note blobs = record_shelf_spec [OF laws trees(1) room1 ok(3) two]
    show ?thesis
      using blobs(1) blobs(3) [of r s k] trees(3) [of r s k] same [of r s k] unfolding final by (cases s; cases "r = repo"; simp)
  qed
qed

section \<open>A push of one tree\<close>

definition pushed_tree :: recorded_object where
  "pushed_tree = \<lparr>rc_seq = 5, rc_oid = [5], rc_kind = Tree, rc_locations = [example_location],
     rc_children = \<lparr>os_trees = {7}, os_blobs = {}\<rparr>\<rparr>"

definition empty_engine :: "(memory_catalog, list_bucket) engine" where
  "empty_engine = \<lparr>en_lists = (Map.empty, Map.empty, Map.empty, Map.empty), en_bucket = [], en_made = 0\<rparr>"

lemma empty_engine_ok: "shelves_laws example_ser example_de map_of example_shelves"
  "shelves_ok (\<lambda>_. example_room) map_of example_shelves empty_engine" "oi_ok example_room (built_index [pushed_tree] s)"
proof -
  show "shelves_laws example_ser example_de map_of example_shelves"
    using example_shelves_laws by (simp add: shelves_laws_def example_shelves_def)
  have "scope_rows (w_catalog (shelf_world empty_engine s)) i = []" for s i
    by (cases s) (simp_all add: shelf_world_def engine_world_def empty_engine_def shelf_catalog_def index_of_def scope_rows_def)
  then show "shelves_ok (\<lambda>_. example_room) map_of example_shelves empty_engine"
    by (simp add: shelves_ok_def shelf_ok_def store_inv_def)
  have "built_index [pushed_tree] Trees = example_objects" "built_index [pushed_tree] Blobs = []"
    by (simp_all add: built_index_def recorded_on_def pushed_tree_def for_kind_def shelve_def os_is_empty_def locate_def record_children_def
      entry_update_def no_object_def os_absorb_def os_empty_def objects_build_def ob_is_empty_def example_objects_def)
  then show "oi_ok example_room (built_index [pushed_tree] s)"
    using example_objects_ok(3) by (cases s) (simp_all add: oi_ok_def example_room_def)
qed

theorem recorded_objects_land_witness:
  "\<exists>j' e' l'. objects_record example_shelves 7 [pushed_tree] (journal_new, empty_engine) = (Inr (), j', e') \<and>
    ledger_commit memory_each 0 7 j' \<lparr>ld_lists = en_lists e', ld_rows = no_state\<rparr> = (Inr (), l') \<and>
    stored_view map_of example_shelves (e'\<lparr>en_lists := ld_lists l'\<rparr>) 7 Trees 5 = Some (newest_of [example_location], {7}, {})"
proof -
  obtain res j' e' where run: "objects_record example_shelves 7 [pushed_tree] (journal_new, empty_engine) = (res, j', e')"
    by (metis prod.exhaust)
  obtain cres l' where commit: "ledger_commit memory_each 0 7 j' \<lparr>ld_lists = en_lists e', ld_rows = no_state\<rparr> = (cres, l')"
    by (rule prod.exhaust)
  have "res = Inr ()" using run
    by (auto simp: objects_record_def BOTH_def record_shelf_def recorded_on_def pushed_tree_def for_kind_def list_built_def list_segment_def seg_prepare_def seg_put_def
      shelf_segments_def example_shelves_def example_object_env_def list_bucket_ops_def Let_def
      split: prod.splits sum.splits option.splits residence.splits)
  then have ok: "objects_record example_shelves 7 [pushed_tree] (journal_new, empty_engine) = (Inr (), j', e')" using run by simp
  have none: "stored_view map_of example_shelves empty_engine 7 Trees 5 = None"
    by (simp add: stored_view_def stored_index_def shelf_world_def engine_world_def empty_engine_def shelf_catalog_def index_of_def scope_rows_def map_filter_simps)
  have "stored_view map_of example_shelves (e'\<lparr>en_lists := ld_lists l'\<rparr>) 7 Trees 5 = recorded_view [pushed_tree] Trees 5"
    using recorded_objects_land [OF example_objects_ok(1,2) empty_engine_ok(1,2) _ empty_engine_ok(3) _ ok commit, of 7 Trees 5] none
    by (simp add: journal_new_def empty_engine_def ID_SPACE_def)
  also have "\<dots> = Some (newest_of [example_location], {7}, {})"
    by (simp add: recorded_view_def recorded_on_def pushed_tree_def for_kind_def record_view_def)
  finally have "stored_view map_of example_shelves (e'\<lparr>en_lists := ld_lists l'\<rparr>) 7 Trees 5 = Some (newest_of [example_location], {7}, {})" .
  then show ?thesis using ok commit commit_memory(1) [OF commit] by blast
qed

end
