(* ===== verification/Graph_Write.thy ===== *)
theory Graph_Write
  imports Object_Write Repo_Graph
begin

text \<open>
  The push path of the commit graph (\<open>git/graph-store/src/write.rs\<close>): commits are ranked against the generations of the
  parents the push does not hold, built into one segment of each tier, put, and listed in the journal the push lands.
  Also here: the scan that gathers the images kept in some segments, the move of images into another segment, and the
  maintenance of both tiers. The bitmap codec is a parameter, and the two tiers share one bucket and one supply of names.
\<close>

section \<open>The store and what a push records\<close>

record ('c, 'b) commit_graph =
  cg_graph :: "(commit_index, malformed, 'c, 'b) segments"
  cg_packs :: "(pack_index, malformed, 'c, 'b) segments"

record recorded_commit =
  rd_seq :: int
  rd_oid :: oid
  rd_parents :: "int list"
  rd_root_tree_seq :: u64
  rd_committer_date :: int
  rd_pack :: pack

type_synonym ranks = "(int \<times> u32) list"

datatype graph_write_error =
    WStore "malformed store_error" | WBuild unwritable | WPack malformed | WParent int | WListing catalog_error

definition write_result :: "(malformed store_error, 'a) result \<Rightarrow> (graph_write_error, 'a) result" where
  "write_result r = (case r of Inl e \<Rightarrow> Inl (WStore e) | Inr a \<Rightarrow> Inr a)"

lemma write_result_Inr [simp]: "write_result r = Inr a \<longleftrightarrow> r = Inr a"
  by (cases r) (simp_all add: write_result_def)

section \<open>Ranking\<close>

fun found_generations :: "commit_index \<Rightarrow> int list \<Rightarrow> ranks \<Rightarrow> (graph_write_error, ranks) result" where
  "found_generations index [] found = Inr found"
| "found_generations index (seq # seqs) found =
     rbind (ok_or (ci_get index seq) (WParent seq)) (\<lambda>entry.
     found_generations index seqs (btree_insert seq (entry_generation entry) found))"

definition generations_of ::
    "('c, 'b) commit_graph \<Rightarrow> repo_id \<Rightarrow> ('c, 'b) engine \<Rightarrow> int list \<Rightarrow> (graph_write_error, ranks) result" where
  "generations_of cg repo e seqs =
     (if seqs = [] then Inr []
      else rbind (write_result (graph_index (cg_graph cg) repo (engine_world e CommitGraph) (Min (set seqs)) (Max (set seqs)))) (\<lambda>index.
           found_generations index seqs []))"

definition ranks_of ::
    "('c, 'b) commit_graph \<Rightarrow> repo_id \<Rightarrow> ('c, 'b) engine \<Rightarrow> int list \<Rightarrow> int list \<Rightarrow> (graph_write_error, ranks) result" where
  "ranks_of cg repo e mine parents = generations_of cg repo e (filter (\<lambda>parent. parent \<notin> set mine) parents)"

fun tiers_loop ::
    "(u64 set \<Rightarrow> bytes option) \<Rightarrow> recorded_commit list \<Rightarrow> builder \<Rightarrow> pack_builder \<Rightarrow> (graph_write_error, builder \<times> pack_builder) result" where
  "tiers_loop ser [] graph packs = Inr (graph, packs)"
| "tiers_loop ser (commit # rest) graph packs =
     (case insert_dated graph (rd_seq commit) \<lparr>dc_parents = rd_parents commit, dc_root_tree = rd_root_tree_seq commit,
          dc_committer_date = rd_committer_date commit\<rparr> of
        Inl e \<Rightarrow> Inl (WBuild e)
      | Inr (graph, _) \<Rightarrow>
          (case pack_insert ser packs (rd_seq commit) (rd_pack commit) of
             Inl e \<Rightarrow> Inl (WPack e)
           | Inr packs \<Rightarrow> tiers_loop ser rest graph packs))"

definition build_tiers ::
    "(u64 set \<Rightarrow> bytes option) \<Rightarrow> recorded_commit list \<Rightarrow> ranks \<Rightarrow> (graph_write_error, commit_index \<times> pack_index) result" where
  "build_tiers ser commits ranks =
     rbind (tiers_loop ser (sort_key rd_seq commits) (foldl (\<lambda>b (seq, generation). builder_know b seq generation) builder_new ranks) [])
       (\<lambda>(graph, packs). Inr (builder_build graph, pack_build packs))"

section \<open>Recording\<close>

definition graph_record ::
    "(u64 set \<Rightarrow> bytes option) \<Rightarrow> ('c, 'b) commit_graph \<Rightarrow> repo_id \<Rightarrow> recorded_commit list \<Rightarrow> ranks \<Rightarrow> journal \<times> ('c, 'b) engine \<Rightarrow>
       (graph_write_error, unit) result \<times> journal \<times> ('c, 'b) engine" where
  "graph_record ser cg repo commits ranks st =
     (if commits = [] then (Inr (), st)
      else case build_tiers ser commits ranks of
        Inl e \<Rightarrow> (Inl e, st)
      | Inr (graph, packs) \<Rightarrow>
          (case list_segment (cg_graph cg) CommitGraph (graph_scope repo) graph st of
             (Inl e, st) \<Rightarrow> (Inl (WStore e), st)
           | (Inr _, st) \<Rightarrow>
               (case list_segment (cg_packs cg) CommitPacks (pack_scope repo) packs st of
                  (Inl e, st) \<Rightarrow> (Inl (WStore e), st)
                | (Inr _, st) \<Rightarrow> (Inr (), st))))"

section \<open>Gathering and moving images\<close>

definition SCAN_BAND :: u64 where
  "SCAN_BAND = 25000"

definition absorb_range :: "(u64 \<times> u64) list \<Rightarrow> u64 \<times> u64 \<Rightarrow> (u64 \<times> u64) list" where
  "absorb_range bands range' = (case range' of (first, last') \<Rightarrow>
     if bands \<noteq> [] \<and> (first \<le> snd (last bands) \<or> sat_sub (snd (last bands)) (fst (last bands)) < SCAN_BAND)
     then butlast bands @ [(fst (last bands), max (snd (last bands)) last')]
     else bands @ [(first, last')])"

definition scan_bands :: "catalog_entry list \<Rightarrow> key_range list" where
  "scan_bands entries =
     List.map_filter (\<lambda>(first, last'). case key_range_new first last' of Inl _ \<Rightarrow> None | Inr r \<Rightarrow> Some r)
       (foldl absorb_range [] (sort (map (\<lambda>entry. (kr_first (ce_range entry), kr_last (ce_range entry))) entries)))"

definition pack_image :: "(bytes \<Rightarrow> u64 set option) \<Rightarrow> pack_node \<Rightarrow> (malformed, pack) result" where
  "pack_image de n =
     rbind (pe_trees de n) (\<lambda>trees. rbind (pe_blobs de n) (\<lambda>blobs.
     Inr \<lparr>pk_entry_len = pn_entry_len n, pk_blob_offset = pn_blob_offset n, pk_segment = pe_segment n, pk_trees = trees, pk_blobs = blobs\<rparr>))"

definition band_images ::
    "(bytes \<Rightarrow> u64 set option) \<Rightarrow> u128 set \<Rightarrow> pack_index option \<Rightarrow> (graph_write_error, (int \<times> pack) list) result" where
  "band_images de segments read =
     collect_results (map (\<lambda>(seq, n). case pack_image de n of Inl e \<Rightarrow> Inl (WPack e) | Inr p \<Rightarrow> Inr (seq, p))
       (filter (\<lambda>(_, n). sl_id (pe_segment n) \<in> segments) (case read of None \<Rightarrow> [] | Some index \<Rightarrow> pi_entries index)))"

definition gather_band ::
    "(bytes \<Rightarrow> u64 set option) \<Rightarrow> ('c, 'b) commit_graph \<Rightarrow> repo_id \<Rightarrow> ('c, 'b) engine \<Rightarrow> u128 set \<Rightarrow> key_range \<Rightarrow> (graph_write_error, (int \<times> pack) list) result" where
  "gather_band de cg repo e segments band =
     rbind (write_result (seg_read (cg_packs cg) (pack_scope repo) band (engine_world e CommitPacks))) (band_images de segments)"

definition images_in ::
    "(bytes \<Rightarrow> u64 set option) \<Rightarrow> ('c, 'b) commit_graph \<Rightarrow> repo_id \<Rightarrow> ('c, 'b) engine \<Rightarrow> u128 set \<Rightarrow> (graph_write_error, (int \<times> pack) list) result" where
  "images_in de cg repo e segments =
     (case co_entries (ss_catalog (cg_packs cg)) (pack_scope repo) (w_catalog (engine_world e CommitPacks)) of
        Inl err \<Rightarrow> Inl (WListing err)
      | Inr entries \<Rightarrow>
          rbind (collect_results (map (gather_band de cg repo e segments) (scan_bands entries))) (\<lambda>found. Inr (concat found)))"

definition RELOCATION_GAP :: int where
  "RELOCATION_GAP = 1024"

definition add_to_runs :: "(int \<times> 'p) list list \<times> (int \<times> 'p) list \<Rightarrow> int \<times> 'p \<Rightarrow> (int \<times> 'p) list list \<times> (int \<times> 'p) list" where
  "add_to_runs acc img = (case acc of (runs, run) \<Rightarrow>
     if run \<noteq> [] \<and> sat_i64 (fst img - fst (last run)) > RELOCATION_GAP then (runs @ [run], [img]) else (runs, run @ [img]))"

definition image_runs :: "(int \<times> 'p) list \<Rightarrow> (int \<times> 'p) list list" where
  "image_runs ordered = (case foldl add_to_runs ([], []) ordered of (runs, run) \<Rightarrow> if run = [] then runs else runs @ [run])"

fun insert_run :: "(u64 set \<Rightarrow> bytes option) \<Rightarrow> (int \<times> pack) list \<Rightarrow> pack_builder \<Rightarrow> (graph_write_error, pack_builder) result" where
  "insert_run ser [] builder = Inr builder"
| "insert_run ser ((seq, pack) # run) builder =
     (case pack_insert ser builder seq pack of Inl e \<Rightarrow> Inl (WPack e) | Inr builder \<Rightarrow> insert_run ser run builder)"

fun relocate_runs ::
    "(u64 set \<Rightarrow> bytes option) \<Rightarrow> ('c, 'b) commit_graph \<Rightarrow> repo_id \<Rightarrow> (int \<times> pack) list list \<Rightarrow> journal \<times> ('c, 'b) engine \<Rightarrow>
       (graph_write_error, unit) result \<times> journal \<times> ('c, 'b) engine" where
  "relocate_runs ser cg repo [] st = (Inr (), st)"
| "relocate_runs ser cg repo (run # rest) st =
     (case insert_run ser run [] of
        Inl e \<Rightarrow> (Inl e, st)
      | Inr builder \<Rightarrow>
          (case list_segment (cg_packs cg) CommitPacks (pack_scope repo) (pack_build builder) st of
             (Inl e, st) \<Rightarrow> (Inl (WStore e), st)
           | (Inr _, st) \<Rightarrow> relocate_runs ser cg repo rest st))"

definition relocate_images ::
    "(u64 set \<Rightarrow> bytes option) \<Rightarrow> ('c, 'b) commit_graph \<Rightarrow> repo_id \<Rightarrow> (int \<times> pack) list \<Rightarrow> journal \<times> ('c, 'b) engine \<Rightarrow>
       (graph_write_error, unit) result \<times> journal \<times> ('c, 'b) engine" where
  "relocate_images ser cg repo moved st =
     (if moved = [] then (Inr (), st) else relocate_runs ser cg repo (image_runs (sort_key fst moved)) st)"

section \<open>Maintenance\<close>

text \<open>An operation on the two tiers in turn, whose outcomes add up.\<close>

definition both_tiers ::
    "('c, 'b) commit_graph \<Rightarrow> repo_id \<Rightarrow> ('r \<Rightarrow> 'r \<Rightarrow> 'r) \<Rightarrow>
       ((commit_index, malformed, 'c, 'b) segments \<Rightarrow> scope \<Rightarrow> ('c, 'b) world \<Rightarrow> (malformed store_error, 'r) result \<times> ('c, 'b) world) \<Rightarrow>
       ((pack_index, malformed, 'c, 'b) segments \<Rightarrow> scope \<Rightarrow> ('c, 'b) world \<Rightarrow> (malformed store_error, 'r) result \<times> ('c, 'b) world) \<Rightarrow>
       ('c, 'b) engine \<Rightarrow> (graph_write_error, 'r) result \<times> ('c, 'b) engine" where
  "both_tiers cg repo add on_graph on_packs e =
     (case on_graph (cg_graph cg) (graph_scope repo) (engine_world e CommitGraph) of
        (Inl err, w) \<Rightarrow> (Inl (WStore err), set_world CommitGraph w e)
      | (Inr graph, w) \<Rightarrow>
          let e = set_world CommitGraph w e in
          (case on_packs (cg_packs cg) (pack_scope repo) (engine_world e CommitPacks) of
             (Inl err, w) \<Rightarrow> (Inl (WStore err), set_world CommitPacks w e)
           | (Inr packs, w) \<Rightarrow> (Inr (add graph packs), set_world CommitPacks w e)))"

definition graph_compact :: "('c, 'b) commit_graph \<Rightarrow> repo_id \<Rightarrow> ('c, 'b) engine \<Rightarrow> (graph_write_error, report) result \<times> ('c, 'b) engine" where
  "graph_compact cg repo = both_tiers cg repo report_plus seg_compact seg_compact"

definition graph_purge_bucket :: "('c, 'b) commit_graph \<Rightarrow> repo_id \<Rightarrow> ('c, 'b) engine \<Rightarrow> (graph_write_error, reclaimed) result \<times> ('c, 'b) engine" where
  "graph_purge_bucket cg repo = both_tiers cg repo reclaimed_plus purge_bucket purge_bucket"

definition graph_sweep_bucket ::
    "('c, 'b) commit_graph \<Rightarrow> repo_id \<Rightarrow> sweep \<Rightarrow> ('c, 'b) engine \<Rightarrow> (graph_write_error, swept) result \<times> ('c, 'b) engine" where
  "graph_sweep_bucket cg repo sw =
     both_tiers cg repo swept_plus (\<lambda>env scope. sweep_bucket env scope sw) (\<lambda>env scope. sweep_bucket env scope sw)"

section \<open>What is built\<close>

text \<open>Whether a commit's extra parents and its serialized bitmaps are within what the two tiers can hold.\<close>

definition fits_tiers :: "(u64 set \<Rightarrow> bytes option) \<Rightarrow> (nat \<Rightarrow> nat) \<Rightarrow> (nat \<Rightarrow> nat) \<Rightarrow> recorded_commit \<Rightarrow> bool" where
  "fits_tiers ser cap pcap c \<longleftrightarrow>
     (length (rd_parents c) \<le> 2 \<or> length (rd_parents c) - 1 \<le> cap (nat (rd_seq c))) \<and>
     (\<forall>trees blobs. serialize ser (pk_trees (rd_pack c)) = Inr trees \<longrightarrow> serialize ser (pk_blobs (rd_pack c)) = Inr blobs \<longrightarrow>
        stow_len trees + stow_len blobs \<le> pcap (nat (rd_seq c)))"

definition ranked_above :: "u32 \<Rightarrow> u32 \<Rightarrow> bool" where
  "ranked_above pg g \<longleftrightarrow> (if pg = - 1 then g = - 1 else pg < g)"

text \<open>A node that records a commit, and a pack node that records its pack.\<close>

definition node_of :: "recorded_commit \<Rightarrow> node \<Rightarrow> bool" where
  "node_of c n \<longleftrightarrow> node_parents n = rd_parents c \<and> ucast (nd_root_tree n) = rd_root_tree_seq c"

definition packs_within :: "(nat \<Rightarrow> nat) \<Rightarrow> pack_builder \<Rightarrow> bool" where
  "packs_within pcap packs \<longleftrightarrow> sorted_wrt (<) (map fst packs) \<and>
     (\<forall>(seq, n) \<in> set packs. 0 \<le> seq \<and> seq < int MAX_SEQ \<and> heap_weight n \<le> pcap (nat seq))"

lemma packs_within_nodes: "packs_within pcap packs \<Longrightarrow> nodes_ok packs"
  by (fastforce simp: packs_within_def nodes_ok_def MAX_SEQ_def i64_max_def)

lemma pack_build_ok:
  assumes "packs_within pcap packs"
  shows "pi_ok pcap (pack_build packs)" "pi_get (pack_build packs) seq = map_of packs seq"
  using laid_out_spec [OF packs_within_nodes [OF assms]] assms
  by (fastforce simp: within_by_def packs_within_def pack_build_def pi_get_def dest: map_of_SomeD)+

lemma pack_insert_node:
  assumes "bitmap_codec ser de" "pack_insert ser packs seq pack = Inr packs'"
  obtains n where "packs' = btree_insert seq n packs" "pack_image de n = Inr pack"
    "\<exists>trees blobs. serialize ser (pk_trees pack) = Inr trees \<and> serialize ser (pk_blobs pack) = Inr blobs \<and> heap_weight n = stow_len trees + stow_len blobs"
proof -
  obtain trees blobs where sb: "serialize ser (pk_trees pack) = Inr trees" "serialize ser (pk_blobs pack) = Inr blobs"
    and p: "packs' = btree_insert seq (PackNode (pk_entry_len pack) (pk_blob_offset pack) (sl_id (pk_segment pack))
       (sl_base_offset (pk_segment pack)) (sl_image_len (pk_segment pack)) trees blobs) packs"
    using assms(2) by (auto simp: pack_insert_def result_simps)
  from that [OF p] show thesis
    using sb serialize_Inr [OF assms(1) sb(1)] serialize_Inr [OF assms(1) sb(2)]
    by (simp add: pack_image_def pe_trees_def pe_blobs_def pe_segment_def heap_weight_def)
qed

lemma packs_within_insert:
  assumes "packs_within pcap packs" "0 \<le> seq" "seq < int MAX_SEQ" "heap_weight n \<le> pcap (nat seq)"
  shows "packs_within pcap (btree_insert seq n packs)"
  using assms set_btree_insert [of seq n packs] by (auto simp: packs_within_def btree_insert_sorted)

lemma insert_dated_node:
  assumes "insert_dated b seq commit = Inr (b', g)"
  obtains n where "b' = b\<lparr>bl_commits := btree_insert seq n (bl_commits b)\<rparr>" "node_ok n" "node_parents n = dc_parents commit"
    "ucast (nd_root_tree n) = dc_root_tree commit" "length (nd_extra n) = length (dc_parents commit) - 2" "0 \<le> seq" "seq < int MAX_SEQ"
    "\<forall>p \<in> set (dc_parents commit). \<exists>pg. generation_of b p = Some pg \<and> ranked_above pg (nd_generation n)"
proof -
  obtain gs where gs: "parent_generations b seq (dc_parents commit) = Inr gs"
    using assms by (cases "parent_generations b seq (dc_parents commit)") (auto simp: insert_dated_def)
  define c where "c = \<lparr>nc_parents = dc_parents commit, nc_root_tree = dc_root_tree commit,
    nc_generation = corrected_date (dc_committer_date commit) gs\<rparr>"
  have ins: "builder_insert b seq c = Inr b'"
    using assms gs by (cases "builder_insert b seq c") (auto simp: insert_dated_def c_def)
  obtain n where n: "b' = b\<lparr>bl_commits := btree_insert seq n (bl_commits b)\<rparr>" "node_ok n" "node_parents n = dc_parents commit"
    "ucast (nd_root_tree n) = dc_root_tree commit" "nd_generation n = corrected_date (dc_committer_date commit) gs"
    "length (nd_extra n) = length (dc_parents commit) - 2" "0 \<le> seq" "seq < int MAX_SEQ"
    by (rule builder_insert_node [OF ins, unfolded c_def new_commit.simps])
  have "\<exists>pg. generation_of b p = Some pg \<and> ranked_above pg (nd_generation n)" if p: "p \<in> set (dc_parents commit)" for p
  proof -
    from list_all2_in_set [OF parent_generations_Inr [OF gs] p] obtain pg
      where "pg \<in> set gs" "generation_of b p = Some pg" by auto
    then show ?thesis using below_ceiling [OF corrected_date_parents, of pg gs] by (auto simp: ranked_above_def n(5))
  qed
  then show thesis using that [OF n(1-4,6-8)] by blast
qed

lemma tiers_loop_spec:
  assumes "bitmap_codec ser de" "Commit_Index.builder_ok cap g" "packs_within pcap p" "distinct (map rd_seq cs)"
    "\<forall>c \<in> set cs. rd_seq c \<notin> fst ` set (bl_commits g) \<and> rd_seq c \<notin> fst ` set (bl_known g) \<and> rd_seq c \<notin> fst ` set p \<and> fits_tiers ser cap pcap c"
    "tiers_loop ser cs g p = Inr (g', p')"
  shows "Commit_Index.builder_ok cap g' \<and> packs_within pcap p' \<and> bl_known g' = bl_known g \<and>
    (\<forall>s. s \<notin> rd_seq ` set cs \<longrightarrow> map_of (bl_commits g') s = map_of (bl_commits g) s \<and> map_of p' s = map_of p s) \<and>
    (\<forall>c \<in> set cs. (\<exists>n. map_of (bl_commits g') (rd_seq c) = Some n \<and> node_of c n \<and>
        (\<forall>q \<in> set (rd_parents c). \<exists>pg. generation_of g' q = Some pg \<and> ranked_above pg (nd_generation n))) \<and>
      (\<exists>n. map_of p' (rd_seq c) = Some n \<and> pack_image de n = Inr (rd_pack c)))"
  using assms(2-)
proof (induction cs arbitrary: g p)
  case (Cons c cs)
  let ?d = "\<lparr>dc_parents = rd_parents c, dc_root_tree = rd_root_tree_seq c, dc_committer_date = rd_committer_date c\<rparr>"
  obtain g1 gen p1 where ins: "insert_dated g (rd_seq c) ?d = Inr (g1, gen)" and pin: "pack_insert ser p (rd_seq c) (rd_pack c) = Inr p1"
    and rest: "tiers_loop ser cs g1 p1 = Inr (g', p')"
    using Cons.prems(5) by (auto split: sum.splits prod.splits)
  obtain n where n: "g1 = g\<lparr>bl_commits := btree_insert (rd_seq c) n (bl_commits g)\<rparr>" "node_ok n" "node_parents n = rd_parents c"
      "ucast (nd_root_tree n) = rd_root_tree_seq c" "length (nd_extra n) = length (rd_parents c) - 2" "0 \<le> rd_seq c" "rd_seq c < int MAX_SEQ"
    and gens: "\<forall>q \<in> set (rd_parents c). \<exists>pg. generation_of g q = Some pg \<and> ranked_above pg (nd_generation n)"
    by (rule insert_dated_node [OF ins, unfolded dated_commit.simps])
  obtain m where m: "p1 = btree_insert (rd_seq c) m p" "pack_image de m = Inr (rd_pack c)"
    "\<exists>trees blobs. serialize ser (pk_trees (rd_pack c)) = Inr trees \<and> serialize ser (pk_blobs (rd_pack c)) = Inr blobs \<and> heap_weight m = stow_len trees + stow_len blobs"
    by (rule pack_insert_node [OF assms(1) pin])
  have fits: "length (rd_parents c) \<le> 2 \<or> length (rd_parents c) - 1 \<le> cap (nat (rd_seq c))" "heap_weight m \<le> pcap (nat (rd_seq c))"
    using Cons.prems(4) m(3) by (auto simp: fits_tiers_def)
  have ok1: "Commit_Index.builder_ok cap g1" unfolding n(1)
    by (rule builder_ok_insert [OF Cons.prems(1) n(2) few_parents [OF n(5) fits(1)] n(6,7)])
  have pok1: "packs_within pcap p1" unfolding m(1) by (rule packs_within_insert [OF Cons.prems(2) n(6,7) fits(2)])
  have fresh: "\<forall>c' \<in> set cs. rd_seq c' \<notin> fst ` set (bl_commits g1) \<and> rd_seq c' \<notin> fst ` set (bl_known g1) \<and> rd_seq c' \<notin> fst ` set p1 \<and> fits_tiers ser cap pcap c'"
    using Cons.prems(3,4) by (auto simp: n(1) m(1) rev_image_eqI)
  note IH = Cons.IH [OF ok1 pok1 _ fresh rest]
  have later: "generation_of g' q = Some pg" if "generation_of g q = Some pg" for q pg
  proof -
    have "q \<in> fst ` set (bl_commits g) \<or> q \<in> fst ` set (bl_known g)"
      using that by (force simp: generation_of_def split: option.splits dest: map_of_SomeD)
    then have "q \<notin> rd_seq ` set (c # cs)" using Cons.prems(4) by (metis (no_types, lifting) imageE)
    then have "map_of (bl_commits g') q = map_of (bl_commits g) q" "bl_known g' = bl_known g"
      using IH Cons.prems(3) by (auto simp: n(1))
    with that show ?thesis by (simp add: generation_of_def split: option.splits)
  qed
  have mine: "rd_seq c \<notin> rd_seq ` set cs" using Cons.prems(3) by auto
  have "\<exists>pg. generation_of g' q = Some pg \<and> ranked_above pg (nd_generation n)" if "q \<in> set (rd_parents c)" for q
    using gens that later by blast
  then show ?case
    using IH mine Cons.prems(3) n(3,4) m(2) by (auto simp: n(1) m(1) node_of_def)
qed simp

lemma known_ranks:
  "bl_commits (foldl (\<lambda>b (seq, generation). builder_know b seq generation) b ranks) = bl_commits b"
  "distinct (map fst ranks) \<Longrightarrow> map_of (bl_known (foldl (\<lambda>b (seq, generation). builder_know b seq generation) b ranks)) =
    map_of (bl_known b) ++ map_of ranks"
  by (induction ranks arbitrary: b) (auto simp: builder_know_def map_add_def fun_eq_iff split: option.splits dest: map_of_SomeD intro: rev_image_eqI)

lemma known_keys: "fst ` set (bl_known (foldl (\<lambda>b (seq, generation). builder_know b seq generation) b ranks)) = fst ` set (bl_known b) \<union> fst ` set ranks"
  by (induction ranks arbitrary: b) (simp_all add: builder_know_def split_beta)

text \<open>What the index built for a push or, failing that, the ranks read before it say a commit ranks at.\<close>

definition push_rank :: "commit_index \<Rightarrow> ranks \<Rightarrow> int \<Rightarrow> u32 option" where
  "push_rank graph ranks seq = (case ci_get graph seq of Some entry \<Rightarrow> Some (entry_generation entry) | None \<Rightarrow> map_of ranks seq)"

lemma build_tiers_spec:
  assumes codec: "bitmap_codec ser de" "capacity cap"
    and push: "distinct (map rd_seq commits)" "distinct (map fst ranks)" "\<forall>c \<in> set commits. rd_seq c \<notin> fst ` set ranks \<and> fits_tiers ser cap pcap c"
    and build: "build_tiers ser commits ranks = Inr (graph, packs)"
  shows "ci_ok cap graph" "pi_ok pcap packs"
    "s \<notin> rd_seq ` set commits \<Longrightarrow> ci_get graph s = None \<and> pi_get packs s = None"
    "c \<in> set commits \<Longrightarrow> \<exists>e. ci_get graph (rd_seq c) = Some e \<and> node_of c (entry_node e) \<and>
      (\<forall>q \<in> set (rd_parents c). \<exists>pg. push_rank graph ranks q = Some pg \<and> ranked_above pg (entry_generation e))"
    "c \<in> set commits \<Longrightarrow> \<exists>n. pi_get packs (rd_seq c) = Some n \<and> pack_image de n = Inr (rd_pack c)"
proof -
  let ?b = "foldl (\<lambda>b (seq, generation). builder_know b seq generation) builder_new ranks"
  obtain g p where loop: "tiers_loop ser (sort_key rd_seq commits) ?b [] = Inr (g, p)" and gp: "graph = builder_build g" "packs = pack_build p"
    using build by (auto simp: build_tiers_def result_simps)
  have start: "Commit_Index.builder_ok cap ?b" "packs_within pcap []"
    by (simp_all add: Commit_Index.builder_ok_def known_ranks(1) builder_new_def packs_within_def)
  have distinct: "distinct (map rd_seq (sort_key rd_seq commits))"
    using push(1) by (simp add: distinct_map)
  have fresh: "\<forall>c \<in> set (sort_key rd_seq commits). rd_seq c \<notin> fst ` set (bl_commits ?b) \<and> rd_seq c \<notin> fst ` set (bl_known ?b) \<and>
      rd_seq c \<notin> fst ` set ([] :: pack_builder) \<and> fits_tiers ser cap pcap c"
    using push(3) by (simp add: known_ranks(1) known_keys builder_new_def)
  note spec = tiers_loop_spec [OF codec(1) start distinct fresh loop]
  note get = builder_build_get [OF codec(2) conjunct1 [OF spec], folded gp(1)]
  note pget = pack_build_ok [OF conjunct1 [OF conjunct2 [OF spec]], folded gp(2)]
  have known: "map_of (bl_known g) = map_of ranks" using spec known_ranks(2) [OF push(2), of builder_new] by (simp add: builder_new_def)
  have rank: "generation_of g q = push_rank graph ranks q" for q
    using get(2) [of q] by (auto simp: generation_of_def push_rank_def known entry_of_node split: option.splits)
  show "ci_ok cap graph" "pi_ok pcap packs" by (rule get(1), rule pget(1))
  show "ci_get graph s = None \<and> pi_get packs s = None" if "s \<notin> rd_seq ` set commits"
    using spec that get(2) [of s] pget(2) [of s] by (simp add: known_ranks(1) builder_new_def)
  show "\<exists>e. ci_get graph (rd_seq c) = Some e \<and> node_of c (entry_node e) \<and>
      (\<forall>q \<in> set (rd_parents c). \<exists>pg. push_rank graph ranks q = Some pg \<and> ranked_above pg (entry_generation e))" if mem: "c \<in> set commits"
  proof -
    obtain n where n: "map_of (bl_commits g) (rd_seq c) = Some n" "node_of c n"
        "\<forall>q \<in> set (rd_parents c). \<exists>pg. push_rank graph ranks q = Some pg \<and> ranked_above pg (nd_generation n)"
      using spec mem unfolding rank set_sort by blast
    moreover obtain e where "ci_get graph (rd_seq c) = Some e" "entry_node e = n" using get(2) [of "rd_seq c"] n(1) by auto
    ultimately show ?thesis by (auto simp: entry_of_node)
  qed
  show "\<exists>n. pi_get packs (rd_seq c) = Some n \<and> pack_image de n = Inr (rd_pack c)" if "c \<in> set commits"
    using spec that pget(2) [of "rd_seq c"] by simp
qed

section \<open>What the ranks are\<close>

definition graph_laws ::
    "(u64 set \<Rightarrow> bytes option) \<Rightarrow> (bytes \<Rightarrow> u64 set option) \<Rightarrow> (nat \<Rightarrow> nat) \<Rightarrow> (nat \<Rightarrow> nat) \<Rightarrow> ('b \<Rightarrow> path \<Rightarrow> bytes option) \<Rightarrow> (memory_catalog, 'b) commit_graph \<Rightarrow> bool" where
  "graph_laws ser de cap pcap view cg \<longleftrightarrow> bitmap_codec ser de \<and> capacity cap \<and> capacity pcap \<and>
     ss_value (cg_graph cg) = commit_ops \<and> ss_catalog (cg_graph cg) = memory_ops \<and> ss_value (cg_packs cg) = pack_ops \<and> ss_catalog (cg_packs cg) = memory_ops \<and>
     bucket_laws (ss_bucket (cg_graph cg)) view \<and> bucket_laws (ss_bucket (cg_packs cg)) view \<and>
     ulid_laws (ss_ulid (cg_graph cg)) \<and> inj_on (ss_fresh (cg_graph cg)) {..<ID_SPACE} \<and>
     ss_ulid (cg_packs cg) = ss_ulid (cg_graph cg) \<and> ss_fresh (cg_packs cg) = ss_fresh (cg_graph cg)"

lemma graph_lawsD:
  assumes "graph_laws ser de cap pcap view cg"
  shows "bitmap_codec ser de" "capacity cap" "capacity pcap"
    "segment_store (cg_graph cg) (ci_ok cap) max ci_at scope_rows view" "segment_store (cg_packs cg) (pi_ok pcap) max pi_at scope_rows view"
    "ss_ulid (cg_packs cg) = ss_ulid (cg_graph cg)" "ss_fresh (cg_packs cg) = ss_fresh (cg_graph cg)"
  using assms by (auto simp: graph_laws_def intro: commit_storeI pack_storeI)

definition graph_kept ::
    "(nat \<Rightarrow> nat) \<Rightarrow> (nat \<Rightarrow> nat) \<Rightarrow> ('b \<Rightarrow> path \<Rightarrow> bytes option) \<Rightarrow> (memory_catalog, 'b) commit_graph \<Rightarrow> (memory_catalog, 'b) engine \<Rightarrow> bool" where
  "graph_kept cap pcap view cg e \<longleftrightarrow>
     kept (cg_graph cg) (ci_ok cap) ci_at view e CommitGraph \<and> kept (cg_packs cg) (pi_ok pcap) pi_at view e CommitPacks"

definition graph_node ::
    "('b \<Rightarrow> path \<Rightarrow> bytes option) \<Rightarrow> (memory_catalog, 'b) commit_graph \<Rightarrow> (memory_catalog, 'b) engine \<Rightarrow> repo_id \<Rightarrow> int \<Rightarrow> node option" where
  "graph_node view cg e repo seq = node_at (cg_graph cg) view (engine_world e CommitGraph) repo seq"

definition graph_pack ::
    "('b \<Rightarrow> path \<Rightarrow> bytes option) \<Rightarrow> (memory_catalog, 'b) commit_graph \<Rightarrow> (memory_catalog, 'b) engine \<Rightarrow> repo_id \<Rightarrow> int \<Rightarrow> pack_node option" where
  "graph_pack view cg e repo seq = pack_at (cg_packs cg) view (engine_world e CommitPacks) repo seq"

lemma graph_answers:
  "graph_node view cg e repo seq = (if 0 \<le> seq \<and> seq \<le> i64_max then answers (cg_graph cg) max ci_at view e CommitGraph repo (of_int seq) else None)"
  "graph_pack view cg e repo seq = (if 0 \<le> seq \<and> seq \<le> i64_max then answers (cg_packs cg) max pi_at view e CommitPacks repo (of_int seq) else None)"
  by (simp_all add: graph_node_def graph_pack_def node_at_def pack_at_def commit_at_def answers_def engine_world_def)

lemma found_generations_spec:
  "found_generations index seqs found = Inr found' \<Longrightarrow> sorted_wrt (<) (map fst found) \<Longrightarrow>
    sorted_wrt (<) (map fst found') \<and> fst ` set found' = fst ` set found \<union> set seqs \<and>
    map_of found' s = (if s \<in> set seqs then map_option entry_generation (ci_get index s) else map_of found s)"
proof (induction seqs arbitrary: found)
  case (Cons seq seqs)
  then obtain entry where e: "ci_get index seq = Some entry" "found_generations index seqs (btree_insert seq (entry_generation entry) found) = Inr found'"
    by (auto simp: result_simps)
  from Cons.IH [OF e(2) btree_insert_sorted [OF Cons.prems(2)]] e(1) show ?case by simp
qed simp

lemma ranks_of_spec:
  assumes laws: "graph_laws ser de cap pcap view cg" and kept: "graph_kept cap pcap view cg e"
    and ranks: "ranks_of cg repo e mine parents = Inr ranks" and small: "\<forall>p \<in> set parents. p \<le> i64_max"
  shows "distinct (map fst ranks)" "fst ` set ranks = set parents - set mine"
    "p \<in> set parents - set mine \<Longrightarrow> map_of ranks p = map_option nd_generation (graph_node view cg e repo p)"
proof -
  define outside where "outside = filter (\<lambda>parent. parent \<notin> set mine) parents"
  have "distinct (map fst ranks) \<and> fst ` set ranks = set parents - set mine \<and>
    (p \<in> set parents - set mine \<longrightarrow> map_of ranks p = map_option nd_generation (graph_node view cg e repo p))"
  proof (cases "outside = []")
    case True
    then have "ranks = []" using ranks by (simp add: ranks_of_def generations_of_def outside_def)
    moreover have "set parents - set mine = {}" using True by (auto simp: outside_def filter_empty_conv)
    ultimately show ?thesis by auto
  next
    case False
    let ?w = "engine_world e CommitGraph"
    obtain index where index: "graph_index (cg_graph cg) repo ?w (Min (set outside)) (Max (set outside)) = Inr index"
      and found: "found_generations index outside [] = Inr ranks"
      using ranks False by (auto simp: ranks_of_def generations_of_def result_simps simp flip: outside_def)
    note found_spec = found_generations_spec [OF found, simplified]
    note spec = found_spec [THEN conjunct1] found_spec [THEN conjunct2, THEN conjunct1] found_spec [THEN conjunct2, THEN conjunct2]
    have ok: "commits_ok cap (cg_graph cg) view ?w"
      using kept by (simp add: graph_kept_def kept_def commits_ok_def engine_world_def)
    have "Max (set outside) \<in> set outside" using False by (intro Max_in) simp_all
    then have top: "Max (set outside) \<le> i64_max" using small by (simp add: outside_def)
    have "map_of ranks s = map_option nd_generation (graph_node view cg e repo s)" if s: "s \<in> set outside" for s
    proof -
      have "graph_node view cg e repo s = map_option entry_node (ci_get index s)"
        unfolding graph_node_def
        using graph_index_read [OF _ _ _ _ _ _ ok index _ _ top, of s] laws s by (simp add: graph_laws_def)
      then show ?thesis using spec(3) [of s] s by (cases "ci_get index s") (simp_all add: entry_of_node)
    qed
    then show ?thesis using spec(1,2) by (auto simp: outside_def strict_sorted_iff)
  qed
  then show "distinct (map fst ranks)" "fst ` set ranks = set parents - set mine"
    "p \<in> set parents - set mine \<Longrightarrow> map_of ranks p = map_option nd_generation (graph_node view cg e repo p)" by blast+
qed

section \<open>What a push records\<close>

lemma at_of_seq:
  assumes "0 \<le> seq" "seq \<le> i64_max"
  shows "ci_at c (of_int seq) = map_option entry_node (ci_get c seq)" "pi_at p (of_int seq) = pi_get p seq"
  unfolding ci_at_def pi_at_def uint_of_seq [OF assms] by (rule refl)+

text \<open>Listing a segment of either tier merges it into what the repository's graph says and leaves the other tier alone.\<close>

lemma listed_graph:
  assumes laws: "graph_laws ser de cap pcap view cg" and ok: "graph_kept cap pcap view cg (landed j e)" "en_made e < ID_SPACE" "ci_ok cap graph"
    and run: "list_segment (cg_graph cg) CommitGraph (graph_scope repo) graph (j, e) = (Inr (), j', e')"
  shows "graph_kept cap pcap view cg (landed j' e')" "en_made e' \<le> Suc (en_made e)"
    "graph_node view cg (landed j' e') r seq = (if r = repo \<and> 0 \<le> seq \<and> seq \<le> i64_max
      then max (graph_node view cg (landed j e) r seq) (map_option entry_node (ci_get graph seq)) else graph_node view cg (landed j e) r seq)"
    "graph_pack view cg (landed j' e') r seq = graph_pack view cg (landed j e) r seq"
proof -
  note law = graph_lawsD [OF laws]
  have k: "kept (cg_graph cg) (ci_ok cap) ci_at view (landed j e) CommitGraph" "kept (cg_packs cg) (pi_ok pcap) pi_at view (landed j e) CommitPacks"
    using ok(1) by (simp_all add: graph_kept_def)
  note mine = list_segment_spec [OF law(4) k(1) ok(2,3) run]
  note other = list_segment_other [OF law(4,5,6,7) k ok(2,3) _ run, simplified]
  show "graph_kept cap pcap view cg (landed j' e')" "en_made e' \<le> Suc (en_made e)"
    using mine(1,2) other(1) by (simp_all add: graph_kept_def)
  show "graph_node view cg (landed j' e') r seq = (if r = repo \<and> 0 \<le> seq \<and> seq \<le> i64_max
      then max (graph_node view cg (landed j e) r seq) (map_option entry_node (ci_get graph seq)) else graph_node view cg (landed j e) r seq)"
    using mine(3) [of r "of_int seq"] by (cases "0 \<le> seq \<and> seq \<le> i64_max") (auto simp: graph_answers graph_scope_def tier_scope_def at_of_seq)
  show "graph_pack view cg (landed j' e') r seq = graph_pack view cg (landed j e) r seq"
    using other(2) by (simp add: graph_answers)
qed

lemma listed_packs:
  assumes laws: "graph_laws ser de cap pcap view cg" and ok: "graph_kept cap pcap view cg (landed j e)" "en_made e < ID_SPACE" "pi_ok pcap packs"
    and run: "list_segment (cg_packs cg) CommitPacks (pack_scope repo) packs (j, e) = (Inr (), j', e')"
  shows "graph_kept cap pcap view cg (landed j' e')" "en_made e' \<le> Suc (en_made e)"
    "graph_pack view cg (landed j' e') r seq = (if r = repo \<and> 0 \<le> seq \<and> seq \<le> i64_max
      then max (graph_pack view cg (landed j e) r seq) (pi_get packs seq) else graph_pack view cg (landed j e) r seq)"
    "graph_node view cg (landed j' e') r seq = graph_node view cg (landed j e) r seq"
proof -
  note law = graph_lawsD [OF laws]
  have k: "kept (cg_packs cg) (pi_ok pcap) pi_at view (landed j e) CommitPacks" "kept (cg_graph cg) (ci_ok cap) ci_at view (landed j e) CommitGraph"
    using ok(1) by (simp_all add: graph_kept_def)
  note mine = list_segment_spec [OF law(5) k(1) ok(2,3) run]
  note other = list_segment_other [OF law(5,4) law(6) [symmetric] law(7) [symmetric] k ok(2,3) _ run, simplified]
  show "graph_kept cap pcap view cg (landed j' e')" "en_made e' \<le> Suc (en_made e)"
    using mine(1,2) other(1) by (simp_all add: graph_kept_def)
  show "graph_pack view cg (landed j' e') r seq = (if r = repo \<and> 0 \<le> seq \<and> seq \<le> i64_max
      then max (graph_pack view cg (landed j e) r seq) (pi_get packs seq) else graph_pack view cg (landed j e) r seq)"
    using mine(3) [of r "of_int seq"] by (cases "0 \<le> seq \<and> seq \<le> i64_max") (auto simp: graph_answers pack_scope_def tier_scope_def at_of_seq)
  show "graph_node view cg (landed j' e') r seq = graph_node view cg (landed j e) r seq"
    using other(2) by (simp add: graph_answers)
qed

lemma landed_graph:
  assumes "\<forall>one \<in> set (jn_listed j). ls_index one \<noteq> CommitGraph \<and> ls_index one \<noteq> CommitPacks"
  shows "graph_kept cap pcap view cg (landed j e) = graph_kept cap pcap view cg e"
    "graph_node view cg (landed j e) = graph_node view cg e" "graph_pack view cg (landed j e) = graph_pack view cg e"
proof -
  have "index_of CommitGraph (en_lists (landed j e)) = index_of CommitGraph (en_lists e)"
    "index_of CommitPacks (en_lists (landed j e)) = index_of CommitPacks (en_lists e)"
    using assms by (intro landed_elsewhere; blast)+
  then show "graph_kept cap pcap view cg (landed j e) = graph_kept cap pcap view cg e"
    "graph_node view cg (landed j e) = graph_node view cg e" "graph_pack view cg (landed j e) = graph_pack view cg e"
    by ((intro ext)?, simp add: graph_kept_def kept_def graph_answers answers_def)+
qed

definition generations_ranked :: "(int \<Rightarrow> node option) \<Rightarrow> bool" where
  "generations_ranked node \<longleftrightarrow> (\<forall>seq n p. node seq = Some n \<longrightarrow> p \<in> set (node_parents n) \<longrightarrow>
     (\<exists>m. node p = Some m \<and> ranked_above (nd_generation m) (nd_generation n)))"

text \<open>What the graph of the repository says after a push of commits under new seqs, from what it said before and what was built.\<close>

lemma pushed_ranked:
  assumes old: "generations_ranked node" and fresh: "\<And>seq. seq \<in> S \<Longrightarrow> node seq = None"
    and new: "\<And>seq. node' seq = (if seq \<in> S then built seq else node seq)"
    and ranked: "\<And>seq n p. seq \<in> S \<Longrightarrow> built seq = Some n \<Longrightarrow> p \<in> set (node_parents n) \<Longrightarrow>
      \<exists>pg. (if p \<in> S then map_option nd_generation (built p) else map_option nd_generation (node p)) = Some pg \<and> ranked_above pg (nd_generation n)"
  shows "generations_ranked node'"
  unfolding generations_ranked_def
proof (intro allI impI)
  fix seq n p
  assume n: "node' seq = Some n" and p: "p \<in> set (node_parents n)"
  show "\<exists>m. node' p = Some m \<and> ranked_above (nd_generation m) (nd_generation n)"
  proof (cases "seq \<in> S")
    case True
    with n new have "built seq = Some n" by simp
    from ranked [OF True this p] show ?thesis by (auto simp: new split: if_splits)
  next
    case False
    with n new have "node seq = Some n" by simp
    with old p obtain m where "node p = Some m" "ranked_above (nd_generation m) (nd_generation n)"
      unfolding generations_ranked_def by blast
    moreover from this fresh have "p \<notin> S" by force
    ultimately show ?thesis by (simp add: new)
  qed
qed

lemma recorded_graph:
  assumes laws: "graph_laws ser de cap pcap view cg" and ok: "graph_kept cap pcap view cg (landed j e)" "en_made e + 1 < ID_SPACE"
    and tiers: "ci_ok cap graph" "pi_ok pcap packs" "commits \<noteq> []" "build_tiers ser commits ranks = Inr (graph, packs)"
    and run: "graph_record ser cg repo commits ranks (j, e) = (Inr (), j', e')"
  shows "graph_kept cap pcap view cg (landed j' e')"
    "graph_node view cg (landed j' e') r seq = (if r = repo \<and> 0 \<le> seq \<and> seq \<le> i64_max
      then max (graph_node view cg (landed j e) r seq) (map_option entry_node (ci_get graph seq)) else graph_node view cg (landed j e) r seq)"
    "graph_pack view cg (landed j' e') r seq = (if r = repo \<and> 0 \<le> seq \<and> seq \<le> i64_max
      then max (graph_pack view cg (landed j e) r seq) (pi_get packs seq) else graph_pack view cg (landed j e) r seq)"
proof -
  obtain j1 e1 where one: "list_segment (cg_graph cg) CommitGraph (graph_scope repo) graph (j, e) = (Inr (), j1, e1)"
    and two: "list_segment (cg_packs cg) CommitPacks (pack_scope repo) packs (j1, e1) = (Inr (), j', e')"
    using run tiers(3,4) by (auto simp: graph_record_def split: prod.splits sum.splits)
  have room: "en_made e < ID_SPACE" using ok(2) by simp
  note g = listed_graph [OF laws ok(1) room tiers(1) one]
  have room1: "en_made e1 < ID_SPACE" using g(2) ok(2) by simp
  note p = listed_packs [OF laws g(1) room1 tiers(2) two]
  show "graph_kept cap pcap view cg (landed j' e')" by (rule p(1))
  show "graph_node view cg (landed j' e') r seq = (if r = repo \<and> 0 \<le> seq \<and> seq \<le> i64_max
      then max (graph_node view cg (landed j e) r seq) (map_option entry_node (ci_get graph seq)) else graph_node view cg (landed j e) r seq)"
    unfolding p(4) by (rule g(3))
  show "graph_pack view cg (landed j' e') r seq = (if r = repo \<and> 0 \<le> seq \<and> seq \<le> i64_max
      then max (graph_pack view cg (landed j e) r seq) (pi_get packs seq) else graph_pack view cg (landed j e) r seq)"
    using p(3) [of r seq] unfolding g(4) .
qed

lemma pi_get_seq: "pi_ok pcap packs \<Longrightarrow> pi_get packs seq = Some n \<Longrightarrow> 0 \<le> seq \<and> seq \<le> i64_max"
  by (fastforce simp: within_by_def pi_get_def MAX_SEQ_def i64_max_def)

lemma built_ranked:
  assumes built: "\<And>c. c \<in> set commits \<Longrightarrow> \<exists>e. ci_get graph (rd_seq c) = Some e \<and> node_of c (entry_node e) \<and>
      (\<forall>q \<in> set (rd_parents c). \<exists>pg. push_rank graph ranks q = Some pg \<and> ranked_above pg (entry_generation e))"
    and none: "\<And>s. s \<notin> rd_seq ` set commits \<Longrightarrow> ci_get graph s = None"
    and rank: "\<And>c p. c \<in> set commits \<Longrightarrow> p \<in> set (rd_parents c) \<Longrightarrow> p \<notin> rd_seq ` set commits \<Longrightarrow> map_of ranks p = map_option nd_generation (node p)"
    and s: "s \<in> rd_seq ` set commits" "map_option entry_node (ci_get graph s) = Some n" "p \<in> set (node_parents n)"
  shows "\<exists>pg. (if p \<in> rd_seq ` set commits then map_option nd_generation (map_option entry_node (ci_get graph p)) else map_option nd_generation (node p)) = Some pg \<and>
    ranked_above pg (nd_generation n)"
proof -
  obtain c where c: "c \<in> set commits" "s = rd_seq c" using s(1) by blast
  from built [OF c(1)] obtain entry where entry: "ci_get graph s = Some entry" "node_of c (entry_node entry)"
      "\<forall>q \<in> set (rd_parents c). \<exists>pg. push_rank graph ranks q = Some pg \<and> ranked_above pg (entry_generation entry)"
    unfolding c(2) by blast
  then have n: "n = entry_node entry" "p \<in> set (rd_parents c)" using s(2,3) by (simp_all add: node_of_def)
  with entry(3) obtain pg where pg: "push_rank graph ranks p = Some pg" "ranked_above pg (nd_generation n)"
    unfolding entry_of_node by blast
  show ?thesis
  proof (cases "p \<in> rd_seq ` set commits")
    case True
    then obtain e where "ci_get graph p = Some e" using built by blast
    with pg True show ?thesis by (simp add: push_rank_def entry_of_node)
  next
    case False
    with pg none [OF False] rank [OF c(1) n(2) False] show ?thesis by (auto simp: push_rank_def)
  qed
qed

text \<open>C37: commits pushed under new seqs and ranked against what the graph holds are, once the journal has landed, in the graph
  under those seqs with their parents in order and their root trees, and their packs are found there with the very facts
  and bitmaps recorded. Every other commit of the repository and of every other is as it was, and if every commit
  ranked above its parents before, short of the ceiling of the numbering, every commit does after.\<close>

theorem recorded_commits_land:
  assumes laws: "graph_laws ser de cap pcap view cg"
    and ok: "graph_kept cap pcap view cg e" "en_made e + 1 < ID_SPACE" "distinct (map rd_seq commits)"
      "\<forall>c \<in> set commits. fits_tiers ser cap pcap c \<and> (\<forall>p \<in> set (rd_parents c). p \<le> i64_max) \<and>
        graph_node view cg e repo (rd_seq c) = None \<and> graph_pack view cg e repo (rd_seq c) = None"
    and others: "\<forall>one \<in> set (jn_listed j). ls_index one \<noteq> CommitGraph \<and> ls_index one \<noteq> CommitPacks"
    and ranks: "ranks_of cg repo e (map rd_seq commits) (concat (map rd_parents commits)) = Inr ranks"
    and run: "graph_record ser cg repo commits ranks (j, e) = (Inr (), j', e')"
    and commit: "ledger_commit memory_each now repo j' \<lparr>ld_lists = en_lists e', ld_rows = rows\<rparr> = (res, l')"
    and e2: "e2 = e'\<lparr>en_lists := ld_lists l'\<rparr>"
  shows "graph_kept cap pcap view cg e2 \<and>
    (\<forall>c \<in> set commits. (\<exists>n. graph_node view cg e2 repo (rd_seq c) = Some n \<and> node_of c n) \<and>
      (\<exists>n. graph_pack view cg e2 repo (rd_seq c) = Some n \<and> pack_image de n = Inr (rd_pack c))) \<and>
    (\<forall>r seq. r \<noteq> repo \<or> seq \<notin> rd_seq ` set commits \<longrightarrow>
      graph_node view cg e2 r seq = graph_node view cg e r seq \<and> graph_pack view cg e2 r seq = graph_pack view cg e r seq) \<and>
    (generations_ranked (graph_node view cg e repo) \<longrightarrow> generations_ranked (graph_node view cg e2 repo))"
proof (cases "commits = []")
  case True
  then have "j' = j" "e' = e" using run by (simp_all add: graph_record_def)
  then show ?thesis using True ok(1) commit_lists [OF commit] by (simp add: e2 landed_graph [OF others, unfolded landed_def])
next
  case False
  then obtain graph packs where build: "build_tiers ser commits ranks = Inr (graph, packs)"
    using run by (cases "build_tiers ser commits ranks") (auto simp: graph_record_def)
  have small: "\<forall>p \<in> set (concat (map rd_parents commits)). p \<le> i64_max" using ok(4) by auto
  note rank = ranks_of_spec [OF laws ok(1) ranks small]
  have new: "\<forall>c \<in> set commits. rd_seq c \<notin> fst ` set ranks \<and> fits_tiers ser cap pcap c"
    unfolding rank(2) using ok(4) by auto
  note built = build_tiers_spec [OF graph_lawsD(1,2) [OF laws] ok(3) rank(1) new build]
  have final: "e2 = landed j' e'" using commit_lists [OF commit] by (simp add: landed_def e2)
  note same = landed_graph [OF others]
  have kept: "graph_kept cap pcap view cg (landed j e)" by (simp add: same ok(1))
  note rec = recorded_graph [OF laws kept ok(2) built(1,2) False build run, unfolded same, folded final]
  let ?S = "rd_seq ` set commits"
  have seq: "0 \<le> s \<and> s \<le> i64_max" if "s \<in> ?S" for s using built(5) pi_get_seq [OF built(2)] that by blast
  have node: "graph_node view cg e2 repo s = (if s \<in> ?S then map_option entry_node (ci_get graph s) else graph_node view cg e repo s)"
    and pack: "graph_pack view cg e2 repo s = (if s \<in> ?S then pi_get packs s else graph_pack view cg e repo s)" for s
    using seq [of s] built(3) [of s] ok(4) by (auto simp: rec(2,3))
  have fresh: "graph_node view cg e repo s = None" if "s \<in> ?S" for s using ok(4) that by auto
  have outside: "map_of ranks p = map_option nd_generation (graph_node view cg e repo p)" if "c \<in> set commits" "p \<in> set (rd_parents c)" "p \<notin> ?S" for c p
    using that by (intro rank(3)) auto
  have "generations_ranked (graph_node view cg e2 repo)" if "generations_ranked (graph_node view cg e repo)"
    by (rule pushed_ranked [OF that fresh node built_ranked [OF built(4) _ outside]]) (simp_all add: built(3))
  moreover have "\<forall>c \<in> set commits. (\<exists>n. graph_node view cg e2 repo (rd_seq c) = Some n \<and> node_of c n) \<and>
      (\<exists>n. graph_pack view cg e2 repo (rd_seq c) = Some n \<and> pack_image de n = Inr (rd_pack c))"
    using built(4,5) by (fastforce simp: node pack)
  moreover have "graph_node view cg e2 r s = graph_node view cg e r s \<and> graph_pack view cg e2 r s = graph_pack view cg e r s"
    if "r \<noteq> repo \<or> s \<notin> ?S" for r s
    using that node [of s] pack [of s] by (cases "r = repo") (simp_all add: rec(2,3))
  ultimately show ?thesis using rec(1) by blast
qed

section \<open>Gathering images\<close>

text \<open>The entries of a pack index are its nodes, once each.\<close>

lemma pi_entries_spec:
  assumes "pi_ok pcap p"
  shows "(seq, n) \<in> set (pi_entries p) \<longleftrightarrow> pi_get p seq = Some n" "distinct (map fst (pi_entries p))"
proof -
  have ok: "st_ok p" using assms by (simp add: within_by_def)
  define f where "f = (\<lambda>(at, slot). if int at \<le> i64_max then map_option (\<lambda>node :: pack_node. (sat_i64 (st_first p + int at), node)) slot else None)"
  have small: "sat_i64 (st_first p + int at) = st_first p + int at" "int at \<le> i64_max" if "at < length (st_slots p)" for at
    using ok that by (auto simp: st_ok_def sat_i64_def i64_max_def i64_min_def split: if_splits)
  have "(seq, n) \<in> set (pi_entries p) \<longleftrightarrow> (\<exists>at < length (st_slots p). st_slots p ! at = Some n \<and> seq = st_first p + int at)"
  proof
    assume "\<exists>at < length (st_slots p). st_slots p ! at = Some n \<and> seq = st_first p + int at"
    then obtain at where at: "at < length (st_slots p)" "st_slots p ! at = Some n" "seq = st_first p + int at" by blast
    then have "(at, Some n) \<in> set (enumerate 0 (st_slots p))" by (simp add: in_set_enumerate_eq)
    moreover have "f (at, Some n) = Some (seq, n)" using at small [OF at(1)] by (simp add: f_def)
    ultimately show "(seq, n) \<in> set (pi_entries p)"
      unfolding pi_entries_def st_iter_def set_map_filter f_def by blast
  qed (auto simp: pi_entries_def st_iter_def set_map_filter in_set_enumerate_eq small split: if_splits)
  also have "\<dots> \<longleftrightarrow> pi_get p seq = Some n"
    unfolding pi_get_def st_get_ok [OF ok] slot_at_def by (auto intro!: exI [of _ "nat (seq - st_first p)"])
  finally show "(seq, n) \<in> set (pi_entries p) \<longleftrightarrow> pi_get p seq = Some n" .
  have "distinct (map fst (List.map_filter f (enumerate m slots))) \<and> (\<forall>x \<in> set (map fst (List.map_filter f (enumerate m slots))). st_first p + int m \<le> x)"
    if "m + length slots \<le> length (st_slots p)" for m slots
    using that
  proof (induction slots arbitrary: m)
    case (Cons slot slots)
    have IH: "distinct (map fst (List.map_filter f (enumerate (Suc m) slots)))"
        "\<forall>x \<in> set (map fst (List.map_filter f (enumerate (Suc m) slots))). st_first p + int (Suc m) \<le> x"
      using Cons.IH [of "Suc m"] Cons.prems by simp_all
    have "m < length (st_slots p)" using Cons.prems by simp
    note here = small [OF this]
    have step: "List.map_filter f (enumerate m (slot # slots)) = (case slot of None \<Rightarrow> [] | Some node \<Rightarrow> [(st_first p + int m, node)]) @ List.map_filter f (enumerate (Suc m) slots)"
      by (simp add: map_filter_simps f_def here split: option.split)
    show ?case unfolding step using IH by (cases slot) force+
  qed (simp add: map_filter_simps)
  from this [of 0 "st_slots p"] show "distinct (map fst (pi_entries p))"
    by (simp add: pi_entries_def st_iter_def f_def)
qed

text \<open>Bands are apart from one another, and every range scanned is inside one of them.\<close>

definition bands_apart :: "(u64 \<times> u64) list \<Rightarrow> bool" where
  "bands_apart bands \<longleftrightarrow> sorted_wrt (\<lambda>a b. snd a < fst b) bands \<and> (\<forall>b \<in> set bands. fst b \<le> snd b)"

definition in_a_band :: "(u64 \<times> u64) list \<Rightarrow> u64 \<times> u64 \<Rightarrow> bool" where
  "in_a_band bands r \<longleftrightarrow> (\<exists>b \<in> set bands. fst b \<le> fst r \<and> snd r \<le> snd b)"

lemma absorb_range_apart:
  assumes "bands_apart bands" "fst r \<le> snd r" "bands = [] \<or> fst (last bands) \<le> fst r"
  shows "bands_apart (absorb_range bands r)" "in_a_band (absorb_range bands r) r" "fst (last (absorb_range bands r)) \<le> fst r"
    "in_a_band bands q \<Longrightarrow> in_a_band (absorb_range bands r) q"
proof -
  have "bands_apart (absorb_range bands r) \<and> in_a_band (absorb_range bands r) r \<and> fst (last (absorb_range bands r)) \<le> fst r \<and>
    (in_a_band bands q \<longrightarrow> in_a_band (absorb_range bands r) q)"
  proof (cases bands rule: rev_cases)
    case Nil
    then show ?thesis using assms(2) by (cases r) (simp add: absorb_range_def bands_apart_def in_a_band_def)
  next
    case (snoc front b)
    have sep: "sorted_wrt (\<lambda>a b. snd a < fst b) front" "\<forall>a \<in> set front. snd a < fst b \<and> fst a \<le> snd a" "fst b \<le> snd b" "fst b \<le> fst r"
      using assms(1,3) by (auto simp: bands_apart_def snoc sorted_wrt_append)
    show ?thesis
    proof (cases "fst r \<le> snd b \<or> sat_sub (snd b) (fst b) < SCAN_BAND")
      case True
      then have "absorb_range bands r = front @ [(fst b, max (snd b) (snd r))]"
        by (cases r) (simp add: absorb_range_def snoc)
      then show ?thesis using sep
        by (auto simp: bands_apart_def in_a_band_def snoc sorted_wrt_append le_max_iff_disj)
    next
      case False
      then have "absorb_range bands r = bands @ [r]" by (cases r) (simp add: absorb_range_def snoc)
      moreover have "\<forall>a \<in> set bands. snd a < fst r" using sep False by (force simp: snoc)
      ultimately show ?thesis using assms(1,2)
        by (auto simp: bands_apart_def in_a_band_def sorted_wrt_append)
    qed
  qed
  then show "bands_apart (absorb_range bands r)" "in_a_band (absorb_range bands r) r" "fst (last (absorb_range bands r)) \<le> fst r"
    "in_a_band bands q \<Longrightarrow> in_a_band (absorb_range bands r) q" by blast+
qed

lemma absorb_ranges:
  assumes "bands_apart bands" "\<forall>r \<in> set rs. fst r \<le> snd r" "sorted (map fst rs)" "bands = [] \<or> rs = [] \<or> fst (last bands) \<le> fst (hd rs)"
  shows "bands_apart (foldl absorb_range bands rs) \<and> (\<forall>r \<in> set rs. in_a_band (foldl absorb_range bands rs) r) \<and>
    (\<forall>q. in_a_band bands q \<longrightarrow> in_a_band (foldl absorb_range bands rs) q)"
  using assms
proof (induction rs arbitrary: bands)
  case (Cons r rs)
  have first: "fst r \<le> snd r" "bands = [] \<or> fst (last bands) \<le> fst r" using Cons.prems(2,4) by auto
  note one = absorb_range_apart [OF Cons.prems(1) first]
  have "rs = [] \<or> fst r \<le> fst (hd rs)" using Cons.prems(3) by (cases rs) auto
  then have "rs = [] \<or> fst (last (absorb_range bands r)) \<le> fst (hd rs)" using one(3) by (auto intro: order_trans)
  with Cons.IH [OF one(1)] Cons.prems(2,3)
  have "bands_apart (foldl absorb_range bands (r # rs)) \<and> (\<forall>q \<in> set rs. in_a_band (foldl absorb_range bands (r # rs)) q) \<and>
      (\<forall>q. in_a_band (absorb_range bands r) q \<longrightarrow> in_a_band (foldl absorb_range bands (r # rs)) q)" by simp
  then show ?case using one(2,4) unfolding list.set(2) by blast
qed simp

lemma scan_bands_spec:
  assumes "\<forall>entry \<in> set entries. range_ok (ce_range entry)"
  shows "sorted_wrt (\<lambda>a b. kr_last a < kr_first b) (scan_bands entries)" "\<forall>b \<in> set (scan_bands entries). range_ok b"
    "\<forall>entry \<in> set entries. \<exists>b \<in> set (scan_bands entries). \<forall>k. contains (ce_range entry) k \<longrightarrow> contains b k"
proof -
  let ?rs = "sort (map (\<lambda>entry. (kr_first (ce_range entry), kr_last (ce_range entry))) entries)"
  have "sorted (map fst ?rs)"
    using sorted_sort [of "map (\<lambda>entry. (kr_first (ce_range entry), kr_last (ce_range entry))) entries"]
    unfolding sorted_map by (rule sorted_wrt_mono_rel [rotated]) (auto simp: less_eq_prod_def)
  moreover have "\<forall>r \<in> set ?rs. fst r \<le> snd r" using assms by (auto simp: range_ok_def)
  ultimately have bands: "bands_apart (foldl absorb_range [] ?rs)" "\<forall>r \<in> set ?rs. in_a_band (foldl absorb_range [] ?rs) r"
    using absorb_ranges [of "[]" ?rs] by (simp_all add: bands_apart_def)
  define bs where "bs = foldl absorb_range [] ?rs"
  have scan: "scan_bands entries = map (\<lambda>b. \<lparr>kr_first = fst b, kr_last = snd b\<rparr>) bs"
  proof -
    have "List.map_filter (\<lambda>(first, last'). case key_range_new first last' of Inl _ \<Rightarrow> None | Inr r \<Rightarrow> Some r) xs =
        map (\<lambda>b. \<lparr>kr_first = fst b, kr_last = snd b\<rparr>) xs" if "\<forall>b \<in> set xs. fst b \<le> snd b" for xs :: "(u64 \<times> u64) list"
      using that by (induction xs) (auto simp: map_filter_simps key_range_new_def)
    then show ?thesis using bands(1) by (simp add: scan_bands_def bs_def bands_apart_def)
  qed
  show "sorted_wrt (\<lambda>a b. kr_last a < kr_first b) (scan_bands entries)" "\<forall>b \<in> set (scan_bands entries). range_ok b"
    using bands(1) by (auto simp: scan bands_apart_def sorted_wrt_map range_ok_def simp flip: bs_def)
  show "\<forall>entry \<in> set entries. \<exists>b \<in> set (scan_bands entries). \<forall>k. contains (ce_range entry) k \<longrightarrow> contains b k"
    using bands(2) by (force simp: scan in_a_band_def contains_def simp flip: bs_def)
qed

context segment_store
begin

lemma held_row:
  assumes "inv w" "held w i k \<noteq> None"
  obtains row where "row \<in> set (rows (w_catalog w) i)" "contains (wr_range row) k"
proof -
  let ?vs = "List.map_filter (row_value (ss_value env) (view (w_bucket w))) (rows (w_catalog w) i)"
  have "\<exists>v \<in> set ?vs. at v k \<noteq> None"
  proof (rule ccontr)
    assume "\<not> (\<exists>v \<in> set ?vs. at v k \<noteq> None)"
    then have "answer merge at ?vs k = answer merge at [] k" by (intro answer_eq) auto
    then show False using assms(2) by (simp add: rows_answer_def answer_def)
  qed
  then obtain row v where row: "row \<in> set (rows (w_catalog w) i)" "row_value (ss_value env) (view (w_bucket w)) row = Some v" "at v k \<noteq> None"
    by (auto simp: set_map_filter)
  obtain u where "row_value (ss_value env) (view (w_bucket w)) row = Some u" "\<forall>k. at u k \<noteq> None \<longrightarrow> contains (wr_range row) k"
    by (rule okE [OF store_invD(1) [OF assms(1) row(1)]])
  with row that show thesis by auto
qed

end

definition pack_rows :: "(memory_catalog, 'b) engine \<Rightarrow> repo_id \<Rightarrow> written list" where
  "pack_rows e repo = scope_rows (index_of CommitPacks (en_lists e)) repo"

lemma pack_world:
  assumes "graph_kept cap pcap view cg e"
  shows "store_inv (ss_value (cg_packs cg)) (pi_ok pcap) pi_at (ss_ulid (cg_packs cg)) (ss_fresh (cg_packs cg))
      (scope_rows (w_catalog (engine_world e CommitPacks))) (view (w_bucket (engine_world e CommitPacks))) (w_made (engine_world e CommitPacks))"
    "sc_id (pack_scope repo) = repo" "scope_rows (w_catalog (engine_world e CommitPacks)) repo = pack_rows e repo"
  using assms by (simp_all add: graph_kept_def kept_def engine_world_def pack_scope_def tier_scope_def pack_rows_def)

text \<open>A band reads exactly the commits in it.\<close>

lemma band_read:
  assumes laws: "graph_laws ser de cap pcap view cg" "graph_kept cap pcap view cg e" "range_ok b"
    and read: "seg_read (cg_packs cg) (pack_scope repo) b (engine_world e CommitPacks) = Inr res"
  defines "es \<equiv> (case res of None \<Rightarrow> [] | Some index \<Rightarrow> pi_entries index)"
  shows "distinct (map fst es)"
    "(seq, n) \<in> set es \<longleftrightarrow> graph_pack view cg e repo seq = Some n \<and> contains b (of_int seq)"
proof -
  note store = graph_lawsD(5) [OF laws(1)] and inv = pack_world(1) [OF laws(2)]
  have valid: "pi_ok pcap v" if "res = Some v" for v using segment_store.read_valid [OF store inv laws(3)] read that by simp
  have es: "(seq, n) \<in> set es \<longleftrightarrow> (\<exists>v. res = Some v \<and> pi_get v seq = Some n)"
    using pi_entries_spec(1) [OF valid] by (auto simp: es_def split: option.split)
  show "distinct (map fst es)" using pi_entries_spec(2) [OF valid] by (auto simp: es_def split: option.split)
  show "(seq, n) \<in> set es \<longleftrightarrow> graph_pack view cg e repo seq = Some n \<and> contains b (of_int seq)"
  proof (cases "0 \<le> seq \<and> seq \<le> i64_max")
    case True
    note inside = segment_store.read_answer [OF store inv laws(3) read, of "of_int seq"]
    note outside = segment_store.read_outside [OF store inv laws(3) read, of "of_int seq"]
    have "graph_pack view cg e repo seq = rows_answer (ss_value (cg_packs cg)) max pi_at (view (w_bucket (engine_world e CommitPacks)))
        (scope_rows (w_catalog (engine_world e CommitPacks)) (sc_id (pack_scope repo))) (of_int seq)"
      using True by (simp add: graph_pack_def pack_at_def pack_scope_def tier_scope_def)
    with inside outside True show ?thesis unfolding es
      by (cases "contains b (of_int seq)") (auto simp: at_of_seq split: option.splits)
  next
    case False
    then have "graph_pack view cg e repo seq = None" by (auto simp: graph_pack_def pack_at_def)
    with False show ?thesis unfolding es using pi_get_seq [OF valid] by auto
  qed
qed

lemma in_some_band:
  assumes laws: "graph_laws ser de cap pcap view cg" "graph_kept cap pcap view cg e"
    and entries: "co_entries (ss_catalog (cg_packs cg)) (pack_scope repo) (w_catalog (engine_world e CommitPacks)) = Inr entries"
    and ranges: "\<forall>row \<in> set (pack_rows e repo). range_ok (wr_range row)"
    and n: "graph_pack view cg e repo seq = Some n"
  obtains b where "b \<in> set (scan_bands entries)" "contains b (of_int seq)"
proof -
  note store = graph_lawsD(5) [OF laws(1)] and inv = pack_world(1) [OF laws(2)]
  have es: "set entries = row_entry ` set (pack_rows e repo)"
    using memory.entries_rows [of "pack_scope repo" "w_catalog (engine_world e CommitPacks)"] entries laws(1)
    by (simp add: graph_laws_def pack_world(2,3) [OF laws(2)])
  then have ok: "\<forall>entry \<in> set entries. range_ok (ce_range entry)" using ranges by (auto simp: row_entry_def)
  have "rows_answer (ss_value (cg_packs cg)) max pi_at (view (w_bucket (engine_world e CommitPacks)))
      (scope_rows (w_catalog (engine_world e CommitPacks)) repo) (of_int seq) \<noteq> None"
    using n by (auto simp: graph_pack_def pack_at_def split: if_splits)
  then obtain row where "row \<in> set (pack_rows e repo)" "contains (wr_range row) (of_int seq)"
    using segment_store.held_row [OF store inv] pack_world(3) [OF laws(2)] by metis
  then have "row_entry row \<in> set entries" "contains (ce_range (row_entry row)) (of_int seq)" unfolding es by (auto simp: row_entry_def)
  with scan_bands_spec(3) [OF ok] that show thesis by blast
qed

lemma band_images_Inr:
  assumes "band_images de segments res = Inr xs"
  defines "es \<equiv> (case res of None \<Rightarrow> [] | Some index \<Rightarrow> pi_entries index)"
  shows "(seq, p) \<in> set xs \<longleftrightarrow> (\<exists>n. (seq, n) \<in> set es \<and> sl_id (pe_segment n) \<in> segments \<and> pack_image de n = Inr p)"
    "map fst xs = map fst (filter (\<lambda>(_, n). sl_id (pe_segment n) \<in> segments) es)"
proof -
  have all: "map (\<lambda>(seq, n). case pack_image de n of Inl e \<Rightarrow> Inl (WPack e) | Inr p \<Rightarrow> Inr (seq, p))
      (filter (\<lambda>(_, n). sl_id (pe_segment n) \<in> segments) es) = map Inr xs"
    using assms(1) by (simp add: band_images_def collect_results_Inr es_def)
  have "map fst ys = map fst fs \<and> ((seq, p) \<in> set ys \<longleftrightarrow> (\<exists>n. (seq, n) \<in> set fs \<and> pack_image de n = Inr p))"
    if "map (\<lambda>(seq, n). case pack_image de n of Inl e \<Rightarrow> Inl (WPack e) | Inr p \<Rightarrow> Inr (seq, p)) fs = map Inr ys"
    for fs and ys :: "(int \<times> pack) list"
    using that
  proof (induction fs arbitrary: ys)
    case (Cons f fs)
    obtain s n where f: "f = (s, n)" by (rule prod.exhaust)
    obtain q where q: "pack_image de n = Inr q" using Cons.prems by (cases "pack_image de n") (auto simp: f)
    then obtain ys' where "ys = (s, q) # ys'" "map (\<lambda>(seq, n). case pack_image de n of Inl e \<Rightarrow> Inl (WPack e) | Inr p \<Rightarrow> Inr (seq, p)) fs = map Inr ys'"
      using Cons.prems by (cases ys) (auto simp: f)
    with Cons.IH [of ys'] q show ?case by (auto simp: f)
  qed simp
  from this [OF all] show "(seq, p) \<in> set xs \<longleftrightarrow> (\<exists>n. (seq, n) \<in> set es \<and> sl_id (pe_segment n) \<in> segments \<and> pack_image de n = Inr p)"
    "map fst xs = map fst (filter (\<lambda>(_, n). sl_id (pe_segment n) \<in> segments) es)" by auto
qed

lemma bands_disjoint:
  assumes "sorted_wrt (\<lambda>a b. kr_last a < kr_first b) bands" "list_all2 (\<lambda>b xs. \<forall>s \<in> set xs. contains b (k s)) bands parts" "\<forall>xs \<in> set parts. distinct xs"
  shows "distinct (concat parts)"
  using assms(2,1,3)
proof (induction rule: list_all2_induct)
  case (Cons b bands xs parts)
  have "s \<notin> set (concat parts)" if s: "s \<in> set xs" for s
  proof
    assume "s \<in> set (concat parts)"
    then obtain ys where "ys \<in> set parts" "s \<in> set ys" by auto
    then obtain b' where "b' \<in> set bands" "contains b' (k s)" using list_all2_in_set2 [OF Cons.hyps(2)] by blast
    moreover have "contains b (k s)" using Cons.hyps(1) s by blast
    ultimately show False using Cons.prems(1) by (fastforce simp: contains_def)
  qed
  with Cons show ?case by auto
qed simp

lemma gather_band_spec:
  assumes laws: "graph_laws ser de cap pcap view cg" "graph_kept cap pcap view cg e" "range_ok b"
  shows "gather_band de cg repo e segments b = Inr xs \<Longrightarrow> (seq, p) \<in> set xs \<longleftrightarrow>
      (\<exists>n. graph_pack view cg e repo seq = Some n \<and> contains b (of_int seq) \<and> sl_id (pe_segment n) \<in> segments \<and> pack_image de n = Inr p)"
    "gather_band de cg repo e segments b = Inr xs \<Longrightarrow> distinct (map fst xs)"
    "gather_band de cg repo e segments b = Inl err \<Longrightarrow>
      (\<exists>seq n m. err = WPack m \<and> graph_pack view cg e repo seq = Some n \<and> sl_id (pe_segment n) \<in> segments \<and> pack_image de n = Inl m) \<or>
      (\<exists>i p m x. err = WStore (EBucket i m) \<and> bo_get (ss_bucket (cg_packs cg)) p (en_bucket e) = Inl m \<and> view (en_bucket e) p = Some x)"
proof -
  let ?w = "engine_world e CommitPacks" and ?env = "cg_packs cg" and ?scope = "pack_scope repo"
  let ?es = "\<lambda>res. case res of None \<Rightarrow> [] | Some index \<Rightarrow> pi_entries index"
  note read = band_read [OF laws]
  show "(seq, p) \<in> set xs \<longleftrightarrow>
      (\<exists>n. graph_pack view cg e repo seq = Some n \<and> contains b (of_int seq) \<and> sl_id (pe_segment n) \<in> segments \<and> pack_image de n = Inr p)"
    and "distinct (map fst xs)" if run: "gather_band de cg repo e segments b = Inr xs"
  proof -
    obtain res where res: "seg_read ?env ?scope b ?w = Inr res" "band_images de segments res = Inr xs"
      using run by (auto simp: gather_band_def result_simps)
    note imgs = band_images_Inr [OF res(2)]
    show "(seq, p) \<in> set xs \<longleftrightarrow>
      (\<exists>n. graph_pack view cg e repo seq = Some n \<and> contains b (of_int seq) \<and> sl_id (pe_segment n) \<in> segments \<and> pack_image de n = Inr p)"
      using imgs(1) [of seq p] read(2) [OF res(1), of seq] by auto
    show "distinct (map fst xs)" unfolding imgs(2) by (rule distinct_map_filter [OF read(1) [OF res(1)]])
  qed
  show "(\<exists>seq n m. err = WPack m \<and> graph_pack view cg e repo seq = Some n \<and> sl_id (pe_segment n) \<in> segments \<and> pack_image de n = Inl m) \<or>
      (\<exists>i p m x. err = WStore (EBucket i m) \<and> bo_get (ss_bucket (cg_packs cg)) p (en_bucket e) = Inl m \<and> view (en_bucket e) p = Some x)"
    if run: "gather_band de cg repo e segments b = Inl err"
  proof (cases "seg_read ?env ?scope b ?w")
    case (Inl e')
    then have err: "err = WStore e'" using run by (simp add: gather_band_def write_result_def)
    have "ss_catalog ?env = memory_ops" using laws(1) by (simp add: graph_laws_def)
    from segment_store.read_error [OF graph_lawsD(5) [OF laws(1)] pack_world(1) [OF laws(2)] laws(3) Inl] read_memory_catalog [OF this]
    have "\<exists>i p m x. e' = EBucket i m \<and> bo_get (ss_bucket ?env) p (w_bucket ?w) = Inl m \<and> view (w_bucket ?w) p = Some x" by blast
    then show ?thesis by (auto simp: err engine_world_def)
  next
    case (Inr res)
    then have "band_images de segments res = Inl err" using run by (simp add: gather_band_def write_result_def)
    then obtain seq n where "(seq, n) \<in> set (?es res)" "sl_id (pe_segment n) \<in> segments" "(case pack_image de n of Inl e \<Rightarrow> Inl (WPack e) | Inr p \<Rightarrow> Inr (seq, p)) = Inl err"
      by (auto simp: band_images_def dest!: collect_results_Inl)
    then show ?thesis using read(2) [OF Inr, of seq n] by (auto split: sum.splits)
  qed
qed

lemma gather_inside:
  assumes laws: "graph_laws ser de cap pcap view cg" "graph_kept cap pcap view cg e" "range_ok b"
    and run: "gather_band de cg repo e segments b = Inr xs"
  shows "\<forall>s \<in> set (map fst xs). contains b (of_int s :: u64)"
proof
  fix s assume "s \<in> set (map fst xs)"
  then obtain p where "(s, p) \<in> set xs" by auto
  then show "contains b (of_int s :: u64)" unfolding gather_band_spec(1) [OF laws run] by blast
qed

text \<open>C38: a scan for the images kept in some segments finds, whatever bands it is cut into, every commit whose newest image is in
  one of them, once, with the facts recorded for it, and no other commit; it fails only on an image whose bitmaps do not
  decode or on an object the bucket holds and does not return.\<close>

theorem images_in_exact:
  assumes laws: "graph_laws ser de cap pcap view cg" "graph_kept cap pcap view cg e"
    and ranges: "\<forall>row \<in> set (pack_rows e repo). range_ok (wr_range row)"
  shows "case images_in de cg repo e segments of
      Inr found \<Rightarrow> distinct (map fst found) \<and> (\<forall>seq p. (seq, p) \<in> set found \<longleftrightarrow>
        (\<exists>n. graph_pack view cg e repo seq = Some n \<and> sl_id (pe_segment n) \<in> segments \<and> pack_image de n = Inr p))
    | Inl err \<Rightarrow> (\<exists>seq n m. err = WPack m \<and> graph_pack view cg e repo seq = Some n \<and> sl_id (pe_segment n) \<in> segments \<and> pack_image de n = Inl m) \<or>
        (\<exists>i p m x. err = WStore (EBucket i m) \<and> bo_get (ss_bucket (cg_packs cg)) p (en_bucket e) = Inl m \<and> view (en_bucket e) p = Some x)"
proof -
  obtain entries where entries: "co_entries (ss_catalog (cg_packs cg)) (pack_scope repo) (w_catalog (engine_world e CommitPacks)) = Inr entries"
    using laws(1) by (auto simp: graph_laws_def memory_ops_def memory_entries_def)
  have "set entries = row_entry ` set (pack_rows e repo)"
    using memory.entries_rows [of "pack_scope repo" "w_catalog (engine_world e CommitPacks)"] entries laws(1)
    by (simp add: graph_laws_def pack_world(2,3) [OF laws(2)])
  then have "\<forall>entry \<in> set entries. range_ok (ce_range entry)" using ranges by (auto simp: row_entry_def)
  note bands = scan_bands_spec [OF this]
  let ?part = "gather_band de cg repo e segments" and ?bs = "scan_bands entries"
  note part = gather_band_spec [OF laws bands(2) [rule_format]]
  show ?thesis
  proof (cases "collect_results (map ?part ?bs)")
    case (Inr parts)
    then have each: "list_all2 (\<lambda>b xs. ?part b = Inr xs) ?bs parts"
      by (simp add: collect_results_Inr list_all2_conv_all_nth list_eq_iff_nth_eq)
    have mem: "\<exists>b \<in> set ?bs. ?part b = Inr xs" if "xs \<in> set parts" for xs
      using list_all2_in_set2 [OF each that] .
    have read: "\<exists>xs \<in> set parts. ?part b = Inr xs" if "b \<in> set ?bs" for b
      using list_all2_in_set [OF each that] by blast
    have "list_all2 (\<lambda>b xs. \<forall>s \<in> set xs. contains b (of_int s :: u64)) ?bs (map (map fst) parts)"
      unfolding list.rel_map by (rule list.rel_mono_strong [OF each]) (rule gather_inside [OF laws bands(2) [rule_format]])
    moreover have "\<forall>xs \<in> set (map (map fst) parts). distinct xs" using mem part(2) by fastforce
    ultimately have "distinct (map fst (concat parts))" unfolding map_concat by (rule bands_disjoint [OF bands(1)])
    moreover have "(seq, p) \<in> set (concat parts) \<longleftrightarrow>
        (\<exists>n. graph_pack view cg e repo seq = Some n \<and> sl_id (pe_segment n) \<in> segments \<and> pack_image de n = Inr p)" for seq p
    proof
      assume "(seq, p) \<in> set (concat parts)"
      then obtain xs where "xs \<in> set parts" "(seq, p) \<in> set xs" by auto
      with mem part(1) show "\<exists>n. graph_pack view cg e repo seq = Some n \<and> sl_id (pe_segment n) \<in> segments \<and> pack_image de n = Inr p" by blast
    next
      assume "\<exists>n. graph_pack view cg e repo seq = Some n \<and> sl_id (pe_segment n) \<in> segments \<and> pack_image de n = Inr p"
      then obtain n b where "graph_pack view cg e repo seq = Some n" "sl_id (pe_segment n) \<in> segments" "pack_image de n = Inr p"
          "b \<in> set ?bs" "contains b (of_int seq)"
        using in_some_band [OF laws entries ranges] by metis
      with read part(1) show "(seq, p) \<in> set (concat parts)" by fastforce
    qed
    ultimately show ?thesis by (simp add: images_in_def entries Inr)
  next
    case (Inl err)
    then obtain b where "b \<in> set ?bs" "?part b = Inl err" by (auto dest!: collect_results_Inl)
    from part(3) [OF this] show ?thesis by (simp add: images_in_def entries Inl)
  qed
qed

section \<open>Moving images\<close>

lemma add_to_runs_concat:
  "foldl add_to_runs (rs, run) xs = (rs', run') \<Longrightarrow> concat rs' @ run' = concat rs @ run @ xs \<and>
    (length rs' + (if run' = [] then 0 else 1) \<le> length rs + (if run = [] then 0 else 1) + length xs)"
proof (induction xs arbitrary: rs run)
  case (Cons x xs)
  obtain rs1 run1 where step: "add_to_runs (rs, run) x = (rs1, run1)" by (rule prod.exhaust)
  have "concat rs1 @ run1 = concat rs @ run @ [x]" "run1 \<noteq> []" "length rs1 \<le> length rs + (if run = [] then 0 else 1)"
    using step by (auto simp: add_to_runs_def split: if_splits)
  with Cons.IH [of rs1 run1] Cons.prems step show ?case by auto
qed simp

lemma image_runs_concat: "concat (image_runs xs) = xs" "length (image_runs xs) \<le> length xs"
proof -
  obtain rs run where runs: "foldl add_to_runs ([], []) xs = (rs, run)" by (rule prod.exhaust)
  from add_to_runs_concat [OF runs] show "concat (image_runs xs) = xs" "length (image_runs xs) \<le> length xs"
    by (auto simp: image_runs_def runs split: if_splits)
qed

text \<open>Whether an image can be held under its seq.\<close>

definition fits_pack :: "(u64 set \<Rightarrow> bytes option) \<Rightarrow> (nat \<Rightarrow> nat) \<Rightarrow> int \<times> pack \<Rightarrow> bool" where
  "fits_pack ser pcap img \<longleftrightarrow> (case img of (seq, pack) \<Rightarrow> 0 \<le> seq \<and> seq < int MAX_SEQ \<and>
     (\<forall>trees blobs. serialize ser (pk_trees pack) = Inr trees \<longrightarrow> serialize ser (pk_blobs pack) = Inr blobs \<longrightarrow>
        stow_len trees + stow_len blobs \<le> pcap (nat seq)))"

lemma insert_run_spec:
  assumes codec: "bitmap_codec ser de"
  shows "insert_run ser run b = Inr b' \<Longrightarrow> packs_within pcap b \<Longrightarrow> distinct (map fst run) \<Longrightarrow> \<forall>img \<in> set run. fits_pack ser pcap img \<Longrightarrow>
    packs_within pcap b' \<and> (\<forall>s. s \<notin> fst ` set run \<longrightarrow> map_of b' s = map_of b s) \<and>
    (\<forall>(s, p) \<in> set run. \<exists>n. map_of b' s = Some n \<and> pack_image de n = Inr p)"
proof (induction run arbitrary: b)
  case (Cons img run)
  obtain s p where img: "img = (s, p)" by (rule prod.exhaust)
  obtain b1 where ins: "pack_insert ser b s p = Inr b1" and rest: "insert_run ser run b1 = Inr b'"
    using Cons.prems(1) by (auto simp: img split: sum.splits)
  obtain n where n: "b1 = btree_insert s n b" "pack_image de n = Inr p"
    "\<exists>trees blobs. serialize ser (pk_trees p) = Inr trees \<and> serialize ser (pk_blobs p) = Inr blobs \<and> heap_weight n = stow_len trees + stow_len blobs"
    by (rule pack_insert_node [OF codec ins])
  have fit: "0 \<le> s" "s < int MAX_SEQ" "heap_weight n \<le> pcap (nat s)" using Cons.prems(4) n(3) by (auto simp: img fits_pack_def)
  have "packs_within pcap b1" unfolding n(1) by (rule packs_within_insert [OF Cons.prems(2) fit])
  from Cons.IH [OF rest this] Cons.prems(3,4)
  have IH: "packs_within pcap b'" "\<forall>s. s \<notin> fst ` set run \<longrightarrow> map_of b' s = map_of b1 s"
    "\<forall>(s, p) \<in> set run. \<exists>n. map_of b' s = Some n \<and> pack_image de n = Inr p" and new: "s \<notin> fst ` set run" by (simp_all add: img)
  have "map_of b' s = Some n" using IH(2) new by (simp add: n(1))
  then show ?case using IH n(2) by (auto simp: img n(1))
qed simp

lemma relocate_run_spec:
  assumes laws: "graph_laws ser de cap pcap view cg" and ok: "graph_kept cap pcap view cg (landed j e)" "en_made e < ID_SPACE"
    and run: "distinct (map fst run)" "\<forall>img \<in> set run. fits_pack ser pcap img" "insert_run ser run [] = Inr b"
      "list_segment (cg_packs cg) CommitPacks (pack_scope repo) (pack_build b) (j, e) = (Inr (), j', e')"
  shows "graph_kept cap pcap view cg (landed j' e')" "en_made e' \<le> Suc (en_made e)" "graph_node view cg (landed j' e') = graph_node view cg (landed j e)"
    "r \<noteq> repo \<or> s \<notin> fst ` set run \<Longrightarrow> graph_pack view cg (landed j' e') r s = graph_pack view cg (landed j e) r s"
    "(s, p) \<in> set run \<Longrightarrow> \<exists>n. pack_image de n = Inr p \<and> graph_pack view cg (landed j' e') repo s = max (graph_pack view cg (landed j e) repo s) (Some n)"
proof -
  have empty: "packs_within pcap []" by (simp add: packs_within_def)
  note built = insert_run_spec [OF graph_lawsD(1) [OF laws] run(3) empty run(1,2)]
  note get = pack_build_ok [OF conjunct1 [OF built]]
  note put = listed_packs [OF laws ok get(1) run(4)]
  show "graph_kept cap pcap view cg (landed j' e')" "en_made e' \<le> Suc (en_made e)" by (rule put(1), rule put(2))
  show "graph_node view cg (landed j' e') = graph_node view cg (landed j e)" by (intro ext put(4))
  show "graph_pack view cg (landed j' e') r s = graph_pack view cg (landed j e) r s" if "r \<noteq> repo \<or> s \<notin> fst ` set run"
    using put(3) [of r s] get(2) [of s] built that by auto
  show "\<exists>n. pack_image de n = Inr p \<and> graph_pack view cg (landed j' e') repo s = max (graph_pack view cg (landed j e) repo s) (Some n)" if mem: "(s, p) \<in> set run"
  proof -
    obtain n where n: "map_of b s = Some n" "pack_image de n = Inr p" using built mem by blast
    have "0 \<le> s \<and> s \<le> i64_max" using run(2) mem by (fastforce simp: fits_pack_def MAX_SEQ_def i64_max_def)
    then show ?thesis using put(3) [of repo s] get(2) [of s] n by auto
  qed
qed

lemma relocate_runs_spec:
  assumes laws: "graph_laws ser de cap pcap view cg"
  shows "relocate_runs ser cg repo runs (j, e) = (Inr (), j', e') \<Longrightarrow> graph_kept cap pcap view cg (landed j e) \<Longrightarrow> en_made e + length runs \<le> ID_SPACE \<Longrightarrow>
    distinct (map fst (concat runs)) \<Longrightarrow> \<forall>img \<in> set (concat runs). fits_pack ser pcap img \<Longrightarrow>
    graph_kept cap pcap view cg (landed j' e') \<and> graph_node view cg (landed j' e') = graph_node view cg (landed j e) \<and>
    (\<forall>r s. r \<noteq> repo \<or> s \<notin> fst ` set (concat runs) \<longrightarrow> graph_pack view cg (landed j' e') r s = graph_pack view cg (landed j e) r s) \<and>
    (\<forall>s p. (s, p) \<in> set (concat runs) \<longrightarrow> (\<exists>n. pack_image de n = Inr p \<and> graph_pack view cg (landed j' e') repo s = max (graph_pack view cg (landed j e) repo s) (Some n)))"
proof (induction runs arbitrary: j e)
  case (Cons run runs)
  obtain b j1 e1 where ins: "insert_run ser run [] = Inr b" and list: "list_segment (cg_packs cg) CommitPacks (pack_scope repo) (pack_build b) (j, e) = (Inr (), j1, e1)"
    and rest: "relocate_runs ser cg repo runs (j1, e1) = (Inr (), j', e')"
    using Cons.prems(1) by (auto split: sum.splits prod.splits)
  have here: "distinct (map fst run)" "\<forall>img \<in> set run. fits_pack ser pcap img" "fst ` set run \<inter> fst ` set (concat runs) = {}"
    and later: "distinct (map fst (concat runs))" "\<forall>img \<in> set (concat runs). fits_pack ser pcap img"
    using Cons.prems(4,5) by (auto simp: map_concat)
  have room: "en_made e < ID_SPACE" using Cons.prems(3) by simp
  note put = relocate_run_spec [OF laws Cons.prems(2) room here(1,2) ins list]
  have "en_made e1 + length runs \<le> ID_SPACE" using put(2) Cons.prems(3) by simp
  note IH = Cons.IH [OF rest put(1) this later]
  have one: "\<exists>n. pack_image de n = Inr p \<and> graph_pack view cg (landed j' e') repo s = max (graph_pack view cg (landed j e) repo s) (Some n)"
    if mem: "(s, p) \<in> set (concat (run # runs))" for s p
  proof (cases "(s, p) \<in> set run")
    case True
    then have "s \<in> fst ` set run" by force
    with here(3) IH have "graph_pack view cg (landed j' e') repo s = graph_pack view cg (landed j1 e1) repo s" by blast
    with put(5) [OF True] show ?thesis by simp
  next
    case False
    with mem have "(s, p) \<in> set (concat runs)" by auto
    moreover from this have "s \<notin> fst ` set run" using here(3) by (metis disjoint_iff fst_conv image_eqI)
    ultimately show ?thesis using IH put(4) [of repo s] by metis
  qed
  have "graph_pack view cg (landed j' e') r s = graph_pack view cg (landed j e) r s" if "r \<noteq> repo \<or> s \<notin> fst ` set (concat (run # runs))" for r s
    using IH put(4) [of r s] that by (metis (no_types, lifting) UnCI concat.simps(2) image_Un set_append)
  moreover have "graph_kept cap pcap view cg (landed j' e')" "graph_node view cg (landed j' e') = graph_node view cg (landed j e)"
    using IH put(3) by simp_all
  ultimately show ?case using one by blast
qed simp

text \<open>C39: images moved elsewhere are, once the journal has landed, joined with what the repository's packs said: a commit whose
  image was copied into a newer segment is found in its new place with the facts recorded, and no other commit of the
  repository or of any other changes.\<close>

theorem relocated_images_land:
  assumes laws: "graph_laws ser de cap pcap view cg"
    and ok: "graph_kept cap pcap view cg e" "en_made e + length moved \<le> ID_SPACE" "distinct (map fst moved)" "\<forall>img \<in> set moved. fits_pack ser pcap img"
    and others: "\<forall>one \<in> set (jn_listed j). ls_index one \<noteq> CommitGraph \<and> ls_index one \<noteq> CommitPacks"
    and run: "relocate_images ser cg repo moved (j, e) = (Inr (), j', e')"
    and commit: "ledger_commit memory_each now repo j' \<lparr>ld_lists = en_lists e', ld_rows = rows\<rparr> = (res, l')"
    and e2: "e2 = e'\<lparr>en_lists := ld_lists l'\<rparr>"
  shows "graph_kept cap pcap view cg e2 \<and> graph_node view cg e2 = graph_node view cg e \<and>
    (\<forall>r seq. r \<noteq> repo \<or> seq \<notin> fst ` set moved \<longrightarrow> graph_pack view cg e2 r seq = graph_pack view cg e r seq) \<and>
    (\<forall>seq p. (seq, p) \<in> set moved \<longrightarrow> (\<forall>old. graph_pack view cg e repo seq = Some old \<longrightarrow> pn_segment_id old < sl_id (pk_segment p)) \<longrightarrow>
      (\<exists>n. graph_pack view cg e2 repo seq = Some n \<and> pack_image de n = Inr p))"
proof -
  have final: "e2 = landed j' e'" using commit_lists [OF commit] by (simp add: landed_def e2)
  note same = landed_graph [OF others]
  let ?runs = "image_runs (sort_key fst moved)"
  have runs: "relocate_runs ser cg repo ?runs (j, e) = (Inr (), j', e')"
    using run by (cases "moved = []") (simp_all add: relocate_images_def image_runs_def)
  have kept: "graph_kept cap pcap view cg (landed j e)" by (simp add: same ok(1))
  have room: "en_made e + length ?runs \<le> ID_SPACE" using image_runs_concat(2) [of "sort_key fst moved"] ok(2) by simp
  have moved: "distinct (map fst (concat ?runs))" "\<forall>img \<in> set (concat ?runs). fits_pack ser pcap img"
    using ok(3,4) unfolding image_runs_concat(1) by (simp_all add: distinct_map)
  note spec = relocate_runs_spec [OF laws runs kept room moved, unfolded image_runs_concat(1) same set_sort, folded final]
  have newest: "\<exists>n. graph_pack view cg e2 repo seq = Some n \<and> pack_image de n = Inr p"
    if mem: "(seq, p) \<in> set moved" and newer: "\<forall>old. graph_pack view cg e repo seq = Some old \<longrightarrow> pn_segment_id old < sl_id (pk_segment p)" for seq p
  proof -
    obtain n where n: "pack_image de n = Inr p" "graph_pack view cg e2 repo seq = max (graph_pack view cg e repo seq) (Some n)"
      using spec mem by blast
    have "pn_segment_id n = sl_id (pk_segment p)" using n(1) by (auto simp: pack_image_def pe_segment_def result_simps)
    with newer have "old < n" if "graph_pack view cg e repo seq = Some old" for old
      using that by (auto simp: less_pack_node_def pack_node_key_def)
    then have "max (graph_pack view cg e repo seq) (Some n) = Some n"
      by (cases "graph_pack view cg e repo seq") (auto simp: max_def dest: leD)
    with n show ?thesis by simp
  qed
  then show ?thesis using spec by blast
qed

section \<open>An example push and an example move\<close>

definition example_graph :: "(memory_catalog, list_bucket) commit_graph" where
  "example_graph = \<lparr>cg_graph = example_env, cg_packs = example_pack_env\<rparr>"

lemma example_graph_laws: "graph_laws example_ser example_de example_cap example_cap map_of example_graph"
  using example_env_laws example_pack_env_laws example_objects_ok(1)
  by (simp add: graph_laws_def example_graph_def) (simp add: example_env_def example_pack_env_def)

lemma empty_graph:
  "graph_kept example_cap example_cap map_of example_graph empty_engine" "graph_node map_of example_graph empty_engine r s = None"
  "graph_pack map_of example_graph empty_engine r s = None"
proof -
  have "scope_rows (index_of i (en_lists empty_engine)) r = []" for i r
    by (cases i) (simp_all add: empty_engine_def index_of_def scope_rows_def)
  then show "graph_kept example_cap example_cap map_of example_graph empty_engine" "graph_node map_of example_graph empty_engine r s = None"
    "graph_pack map_of example_graph empty_engine r s = None"
    by (simp_all add: graph_kept_def kept_def store_inv_def graph_answers answers_def rows_answer_def map_filter_simps answer_def)
qed

lemma example_list:
  assumes "ss_bucket env = list_bucket_ops"
  obtains j' e' where "list_segment env i scope v (j, e) = (Inr (), j', e')"
proof -
  have "fst (list_segment env i scope v (j, e)) = Inr ()"
    using assms by (auto simp: list_segment_def seg_prepare_def seg_put_def list_bucket_ops_def Let_def split: option.splits residence.splits)
  then show thesis using that by (metis prod.collapse)
qed

definition example_commits :: "recorded_commit list" where
  "example_commits =
     [\<lparr>rd_seq = 4, rd_oid = [4], rd_parents = [3], rd_root_tree_seq = 9, rd_committer_date = 100, rd_pack = example_pack\<rparr>,
      \<lparr>rd_seq = 3, rd_oid = [3], rd_parents = [], rd_root_tree_seq = 8, rd_committer_date = 200, rd_pack = example_pack\<rparr>]"

lemma example_built: "\<exists>tiers. build_tiers example_ser example_commits [] = Inr tiers"
  by (simp add: build_tiers_def example_commits_def insort_key_def insert_dated_def builder_insert_def builder_new_def generation_of_def corrected_date_def
    sat_add_def object_slot_def optional_slot_def commit_slot_def commit_seq_def get_at_def NONE_def pack_insert_def serialize_def encode_bitmap_def
    example_pack_def example_ser_def ok_or_def)

theorem recorded_commits_land_witness:
  "\<exists>j' e' l' n. graph_record example_ser example_graph 7 example_commits [] (journal_new, empty_engine) = (Inr (), j', e') \<and>
    ledger_commit memory_each 0 7 j' \<lparr>ld_lists = en_lists e', ld_rows = no_state\<rparr> = (Inr (), l') \<and>
    graph_node map_of example_graph (e'\<lparr>en_lists := ld_lists l'\<rparr>) 7 4 = Some n \<and> node_parents n = [3] \<and>
    generations_ranked (graph_node map_of example_graph (e'\<lparr>en_lists := ld_lists l'\<rparr>) 7)"
proof -
  obtain graph packs where tiers: "build_tiers example_ser example_commits [] = Inr (graph, packs)" using example_built by auto
  obtain j1 e1 where one: "list_segment example_env CommitGraph (graph_scope 7) graph (journal_new, empty_engine) = (Inr (), j1, e1)"
    by (rule example_list [of example_env]) (auto simp: example_env_def)
  obtain j' e' where two: "list_segment example_pack_env CommitPacks (pack_scope 7) packs (j1, e1) = (Inr (), j', e')"
    by (rule example_list [of example_pack_env]) (auto simp: example_pack_env_def)
  have run: "graph_record example_ser example_graph 7 example_commits [] (journal_new, empty_engine) = (Inr (), j', e')"
    using tiers one two by (simp add: graph_record_def example_graph_def) (simp add: example_commits_def)
  obtain res l' where commit: "ledger_commit memory_each 0 7 j' \<lparr>ld_lists = en_lists e', ld_rows = no_state\<rparr> = (res, l')"
    by (rule prod.exhaust)
  have ok: "en_made empty_engine + 1 < ID_SPACE" "distinct (map rd_seq example_commits)"
    "ranks_of example_graph 7 empty_engine (map rd_seq example_commits) (concat (map rd_parents example_commits)) = Inr []"
    by (simp_all add: empty_engine_def ID_SPACE_def example_commits_def ranks_of_def generations_of_def)
  have fits: "\<forall>c \<in> set example_commits. fits_tiers example_ser example_cap example_cap c \<and> (\<forall>p \<in> set (rd_parents c). p \<le> i64_max) \<and>
      graph_node map_of example_graph empty_engine 7 (rd_seq c) = None \<and> graph_pack map_of example_graph empty_engine 7 (rd_seq c) = None"
    by (auto simp: example_commits_def fits_tiers_def empty_graph i64_max_def serialize_def encode_bitmap_def example_pack_def example_ser_def ok_or_def
      stow_len_def example_cap_def)
  have "generations_ranked (graph_node map_of example_graph empty_engine 7)" by (simp add: generations_ranked_def empty_graph)
  then show ?thesis
    using recorded_commits_land [OF example_graph_laws empty_graph(1) ok(1,2) fits _ ok(3) run commit refl] commit commit_memory(1) [OF commit] run
    by (simp add: journal_new_def example_commits_def node_of_def) blast
qed

lemma example_move:
  obtains j' e' b where "insert_run example_ser [(5, example_pack)] [] = Inr b"
    "list_segment example_pack_env CommitPacks (pack_scope 7) (pack_build b) (journal_new, empty_engine) = (Inr (), j', e')"
    "relocate_images example_ser example_graph 7 [(5, example_pack)] (journal_new, empty_engine) = (Inr (), j', e')"
proof -
  obtain b where b: "insert_run example_ser [(5, example_pack)] [] = Inr b"
    by (auto simp: pack_insert_def serialize_def encode_bitmap_def example_pack_def example_ser_def ok_or_def)
  obtain j' e' where list: "list_segment example_pack_env CommitPacks (pack_scope 7) (pack_build b) (journal_new, empty_engine) = (Inr (), j', e')"
    by (rule example_list [of example_pack_env]) (auto simp: example_pack_env_def)
  have "image_runs (sort_key fst [(5, example_pack)]) = [[(5, example_pack)]]" by (simp add: image_runs_def add_to_runs_def)
  then have "relocate_images example_ser example_graph 7 [(5, example_pack)] (journal_new, empty_engine) = (Inr (), j', e')"
    using b list by (simp add: relocate_images_def example_graph_def)
  with b list that show thesis by blast
qed

lemma example_fits: "fits_pack example_ser example_cap (5, example_pack)"
  by (simp add: fits_pack_def serialize_def encode_bitmap_def example_pack_def example_ser_def ok_or_def stow_len_def example_cap_def MAX_SEQ_def)

theorem relocated_images_land_witness:
  "\<exists>j' e' l' n. relocate_images example_ser example_graph 7 [(5, example_pack)] (journal_new, empty_engine) = (Inr (), j', e') \<and>
    ledger_commit memory_each 0 7 j' \<lparr>ld_lists = en_lists e', ld_rows = no_state\<rparr> = (Inr (), l') \<and>
    graph_pack map_of example_graph (e'\<lparr>en_lists := ld_lists l'\<rparr>) 7 5 = Some n \<and> pack_image example_de n = Inr example_pack"
proof -
  obtain j' e' b where run: "relocate_images example_ser example_graph 7 [(5, example_pack)] (journal_new, empty_engine) = (Inr (), j', e')"
    by (rule example_move)
  obtain res l' where commit: "ledger_commit memory_each 0 7 j' \<lparr>ld_lists = en_lists e', ld_rows = no_state\<rparr> = (res, l')"
    by (rule prod.exhaust)
  have "en_made empty_engine + length [(5 :: int, example_pack)] \<le> ID_SPACE" by (simp add: empty_engine_def ID_SPACE_def)
  from relocated_images_land [OF example_graph_laws empty_graph(1) this _ _ _ run commit refl] example_fits commit commit_memory(1) [OF commit] run
  show ?thesis by (simp add: journal_new_def empty_graph)
qed

text \<open>The engine once the example image has landed, and what it holds.\<close>

definition moved_engine :: "(memory_catalog, list_bucket) engine" where
  "moved_engine = (case relocate_images example_ser example_graph 7 [(5, example_pack)] (journal_new, empty_engine) of (_, j, e) \<Rightarrow> landed j e)"

lemma moved_engine:
  "graph_kept example_cap example_cap map_of example_graph moved_engine" "\<forall>row \<in> set (pack_rows moved_engine 7). range_ok (wr_range row)"
  "\<exists>n. graph_pack map_of example_graph moved_engine 7 5 = Some n \<and> pack_image example_de n = Inr example_pack"
  "s \<noteq> 5 \<Longrightarrow> graph_pack map_of example_graph moved_engine 7 s = None"
proof -
  obtain j' e' b where b: "insert_run example_ser [(5, example_pack)] [] = Inr b"
    and list: "list_segment example_pack_env CommitPacks (pack_scope 7) (pack_build b) (journal_new, empty_engine) = (Inr (), j', e')"
    and run: "relocate_images example_ser example_graph 7 [(5, example_pack)] (journal_new, empty_engine) = (Inr (), j', e')"
    by (rule example_move)
  have e: "moved_engine = landed j' e'" by (simp add: moved_engine_def run)
  have start: "landed journal_new empty_engine = empty_engine" by (simp add: landed_def journal_new_def)
  have kept: "graph_kept example_cap example_cap map_of example_graph (landed journal_new empty_engine)" by (simp add: start empty_graph)
  have room: "en_made empty_engine < ID_SPACE" by (simp add: empty_engine_def ID_SPACE_def)
  have cg: "cg_packs example_graph = example_pack_env" by (simp add: example_graph_def)
  note spec = relocate_run_spec [OF example_graph_laws kept room _ _ b, unfolded cg, OF _ _ list, simplified, OF example_fits, folded e]
  show "graph_kept example_cap example_cap map_of example_graph moved_engine" by (rule spec(1))
  show "\<exists>n. graph_pack map_of example_graph moved_engine 7 5 = Some n \<and> pack_image example_de n = Inr example_pack"
    using spec(5) by (auto simp: start empty_graph)
  show "graph_pack map_of example_graph moved_engine 7 s = None" if "s \<noteq> 5" using spec(4) [of 7 s] that by (simp add: start empty_graph)
  obtain row w' c where prep: "seg_prepare example_pack_env (pack_scope 7) (pack_build b) (engine_world (landed journal_new empty_engine) CommitPacks) = (Inr row, w')"
    and c: "index_of CommitPacks (en_lists (landed j' e')) = c"
    and rows: "\<And>r. set (scope_rows c r) = set (scope_rows (index_of CommitPacks (en_lists (landed journal_new empty_engine))) r) \<union>
      (if r = sc_id (pack_scope 7) then set_option row else {})"
    using list_segment_worlds [OF graph_lawsD(5) [OF example_graph_laws, unfolded cg] list] by metis
  have "range_ok (wr_range new)" if "row = Some new" for new
    using prep that by (auto simp: seg_prepare_def seg_put_def Let_def example_pack_env_def pack_ops_def st_range_def
      split: option.splits prod.splits sum.splits residence.splits if_splits dest: key_range_new_ok)
  moreover have "scope_rows (index_of CommitPacks (en_lists empty_engine)) 7 = []" by (simp add: empty_engine_def index_of_def scope_rows_def)
  ultimately show "\<forall>row \<in> set (pack_rows moved_engine 7). range_ok (wr_range row)"
    unfolding pack_rows_def e c rows start by (auto split: if_splits)
qed

theorem images_in_exact_witness: "images_in example_de example_graph 7 moved_engine {4} = Inr [(5, example_pack)]"
proof -
  note spec = images_in_exact [OF example_graph_laws moved_engine(1,2), of "{4}"]
  obtain n where n: "graph_pack map_of example_graph moved_engine 7 5 = Some n" "pack_image example_de n = Inr example_pack"
    using moved_engine(3) by blast
  have pack: "graph_pack map_of example_graph moved_engine 7 s = Some m \<longleftrightarrow> s = 5 \<and> m = n" for s m
    using n(1) moved_engine(4) [of s] by (cases "s = 5") auto
  have id: "sl_id (pe_segment n) = 4" using n(2) by (auto simp: pack_image_def result_simps example_pack_def)
  show ?thesis
  proof (cases "images_in example_de example_graph 7 moved_engine {4}")
    case (Inl err)
    have "bo_get (ss_bucket (cg_packs example_graph)) p b = Inl m \<Longrightarrow> map_of b p = None" for p b m
      by (auto simp: example_graph_def example_pack_env_def list_bucket_ops_def ok_or_def split: option.splits)
    then show ?thesis using spec n(2) by (auto simp: Inl pack)
  next
    case (Inr found)
    have found: "distinct (map fst found)" "(s, p) \<in> set found \<longleftrightarrow> s = 5 \<and> p = example_pack" for s p
      using spec id n(2) by (auto simp: Inr pack)
    then have "set found = {(5, example_pack)}" by auto
    moreover have "distinct found" using found(1) by (simp add: distinct_map)
    ultimately have "length found = 1" using distinct_card [of found] by simp
    then have "found = [(5, example_pack)]" using \<open>set found = {(5, example_pack)}\<close> by (cases found) auto
    then show ?thesis using Inr by simp
  qed
qed

end
