(* ===== verification/Graph_Rows.thy ===== *)
theory Graph_Rows
  imports Commit_Walk Object_Store
begin

text \<open>
  The numbering the commit graph reads its commits' names from: \<open>seqs_of\<close> and \<open>oids_of\<close> of
  \<open>git/graph-store/src/store.rs\<close> ask the rows of \<open>Metadata\<close> about commits. Rows that callers can reach name commits
  consistently, so the graph of a repository over such rows and the two segment stores is a history its walks may be
  asked about.
\<close>

section \<open>Reading the numbering\<close>

definition graph_seqs_of :: "rows_state \<Rightarrow> repo_id \<Rightarrow> oid list \<Rightarrow> (graph_error, oid \<rightharpoonup> int) result" where
  "graph_seqs_of rows repo oids = Inr (map_of (md_seqs_of rows repo Commit oids))"

definition graph_oids_of :: "rows_state \<Rightarrow> repo_id \<Rightarrow> int list \<Rightarrow> (graph_error, int \<rightharpoonup> oid) result" where
  "graph_oids_of rows repo seqs = Inr (map_of (md_oids_of rows repo Commit seqs))"

text \<open>What a seq names, as the rows have it.\<close>

definition commit_name :: "rows_state \<Rightarrow> repo_id \<Rightarrow> int \<rightharpoonup> oid" where
  "commit_name rows repo seq = rp_by_seq (state_repo rows repo) (kind_to_u8 Commit, seq)"

lemma map_of_filter_values:
  "distinct (map fst ps) \<Longrightarrow> map_of (map (\<lambda>(k, v). (k, f v)) (filter (\<lambda>(_, v). P v) ps)) k =
    (case map_of ps k of None \<Rightarrow> None | Some v \<Rightarrow> if P v then Some (f v) else None)"
  by (induction ps) (auto simp: rev_image_eqI split: option.splits dest: map_of_SomeD)

lemma identified:
  "distinct (map fst (md_identify rows repo oids))"
  "map_of (md_identify rows repo oids) oid = (if oid \<in> set oids then rp_identities (state_repo rows repo) oid else None)"
  using collect_map_sorted [of "[]"]
  by (auto simp: md_identify_def collect_map_def [symmetric] collect_map_filter state_held_def state_repo_def no_rows_def strict_sorted_iff split: option.splits)

lemma seqs_of_rows:
  "map_of (md_seqs_of rows repo k oids) oid = Some seq \<longleftrightarrow>
    oid \<in> set oids \<and> rp_identities (state_repo rows repo) oid = Some \<lparr>id_seq = seq, id_kind = k\<rparr>"
proof -
  have "held = \<lparr>id_seq = seq, id_kind = k\<rparr> \<longleftrightarrow> id_seq held = seq \<and> id_kind held = k" for held :: identity by (cases held) simp
  then show ?thesis
    unfolding md_seqs_of_def map_of_filter_values [OF identified(1)] identified(2) by (auto split: option.splits if_splits)
qed

lemma oids_of_rows:
  "seq \<in> set seqs \<Longrightarrow> map_of (md_oids_of rows repo k seqs) seq = rp_by_seq (state_repo rows repo) (kind_to_u8 k, seq)"
  by (auto simp: md_oids_of_def collect_map_filter state_held_def state_repo_def no_rows_def split: option.splits)

section \<open>A history over reachable rows\<close>

lemma reachable_name:
  assumes "(rows_step valid)\<^sup>*\<^sup>* (no_state, {}) (rows, owed)"
  shows "rp_identities (state_repo rows repo) oid = Some \<lparr>id_seq = seq, id_kind = Commit\<rparr> \<longleftrightarrow> commit_name rows repo seq = Some oid"
    "commit_name rows repo seq = Some oid \<Longrightarrow> 0 \<le> seq \<and> seq \<le> i64_max"
proof -
  have num: "numbered_ok (state_repo rows repo) (owed `` {repo})"
    using rows_okD(1) [OF rows_reachable [OF assms]] by (simp add: repo_ok_def)
  show "rp_identities (state_repo rows repo) oid = Some \<lparr>id_seq = seq, id_kind = Commit\<rparr> \<longleftrightarrow> commit_name rows repo seq = Some oid"
    using numbered_okD(1) [OF num, of Commit seq oid] by (simp add: commit_name_def)
  show "0 \<le> seq \<and> seq \<le> i64_max" if "commit_name rows repo seq = Some oid"
    using numbered_okD(2) [OF num, of Commit seq] numbered_okD(4) [OF num] that by (fastforce simp: commit_name_def)
qed

lemma rows_history:
  assumes graph: "capacity cap" "ss_value genv = commit_ops" "ss_catalog genv = memory_ops"
      "bucket_laws (ss_bucket genv) view" "ulid_laws (ss_ulid genv)" "inj_on (ss_fresh genv) {..<ID_SPACE}"
      "commits_ok cap genv view gw"
    and packs: "capacity pcap" "ss_value penv = pack_ops" "ss_catalog penv = memory_ops"
      "bucket_laws (ss_bucket penv) view" "ulid_laws (ss_ulid penv)" "inj_on (ss_fresh penv) {..<ID_SPACE}"
      "packs_ok pcap penv view pw" "1 \<le> ss_clusters penv"
    and rows: "(rows_step valid)\<^sup>*\<^sup>* (no_state, {}) (rows, owed)"
    and older: "\<And>seq p. p \<in> set (parents_in (node_at genv view gw repo) seq) \<Longrightarrow> p < seq"
  shows "history (repo_store genv gw penv pw repo (graph_oids_of rows repo) (graph_seqs_of rows repo) de)
    (node_at genv view gw repo) (pack_at penv view pw repo) (commit_name rows repo)"
proof (rule repo_store_history [OF graph packs _ _ _ older])
  show "m seq = commit_name rows repo seq" if "graph_oids_of rows repo s = Inr m" "seq \<in> set s" for s m seq
    using that by (auto simp: graph_oids_of_def oids_of_rows commit_name_def)
  show "commit_name rows repo seq = Some oid \<and> 0 \<le> seq \<and> seq \<le> i64_max"
    if "graph_seqs_of rows repo n = Inr m" "oid \<in> set n" "m oid = Some seq" for n m oid seq
    using that reachable_name(1) [OF rows, of repo oid seq] reachable_name(2) [OF rows, of repo seq oid] by (auto simp: graph_seqs_of_def seqs_of_rows)
  show "m oid = Some seq" if "graph_seqs_of rows repo n = Inr m" "oid \<in> set n" "commit_name rows repo seq = Some oid" for n m oid seq
    using that reachable_name(1) [OF rows, of repo oid seq] by (auto simp: graph_seqs_of_def seqs_of_rows)
qed

end
