(* ===== verification/Spec2Isabelle.thy ===== *)
theory Spec2Isabelle
  imports Delta Commit_Meta Depth_Walk Graph_Write Graph_Rows
begin

text \<open>
  Verification library of enroute, a git server that keeps repositories in an object store. Paths below are under
  \<open>src/crates\<close>.

  \<^bold>\<open>The program.\<close> A repository is rows, index segments and pack images. The rows (\<open>git/metadata\<close>) say which repositories
  exist, what number every object has and where the refs point. The commit graph (\<open>git/graph-store\<close>) and the object index
  (\<open>git/objects\<close>) say what the numbered commits, trees and blobs are and where their bytes sit; both are joinable values held
  as immutable segments over a catalog and a bucket (\<open>lattice\<close>), merged by compaction and swept of orphans. A push numbers
  its objects in the rows, builds one segment per index, puts it, and lists it in a journal that a ledger lands together
  with the segments it registers or retires (\<open>git/journal\<close>). A fetch walks the graph band by band from wants and haves and
  reads the packs it needs, whose entries may be deltas (\<open>git/packfile\<close>). Protocol, transport, configuration and the
  database sit around this.

  \<^bold>\<open>Theories and sources.\<close>
  \<^item> \<open>Enroute_Prelude\<close>: machine integers, \<open>Result\<close>, slices, saturating arithmetic, byte codecs, ordered maps.
  \<^item> \<open>Varint\<close>, \<open>Delta\<close>: \<open>git/packfile/src/varint.rs\<close>, \<open>delta/\<close> and the limits of \<open>format.rs\<close>.
  \<^item> \<open>Lattice_Key\<close>, \<open>Lattice_Join\<close>, \<open>Lattice_Segment\<close>, \<open>Lattice_Plan\<close>, \<open>Lattice_Frame\<close>: \<open>lattice/core/src\<close>. The traits \<open>Join\<close>
    and \<open>Segment\<close> are the locales \<open>join_laws\<close> and \<open>segment\<close>, interpreted on every index below.
  \<^item> \<open>Segment_Store\<close>, \<open>Store_Answers\<close>: \<open>lattice/store/src\<close>. The traits of the catalog and of the bucket are records of
    operations, the map catalog an interpretation of \<open>catalog\<close>; \<open>segment_store\<close> is what a store of segments promises.
  \<^item> \<open>Strided\<close>, \<open>Strided_Codec\<close>, \<open>Commit_Index\<close>, \<open>Pack_Index\<close>: \<open>git/graph-store/src/strided.rs\<close>, \<open>format.rs\<close>, \<open>index.rs\<close>,
    \<open>generation.rs\<close>, \<open>packs.rs\<close>.
  \<^item> \<open>Graph_Store\<close>, \<open>Repo_Graph\<close>, \<open>Band_Walk\<close>, \<open>Commit_Walk\<close>, \<open>Paint_Walk\<close>, \<open>Depth_Walk\<close>: \<open>store.rs\<close>, \<open>bands.rs\<close>, \<open>walk.rs\<close> and
    \<open>source.rs\<close> there, over the reachability lemmas of \<open>Descending_Graph\<close>. What a walk may rely on is the locale \<open>history\<close>.
    \<open>Graph_Rows\<close>: the numbering the graph asks the rows for, and that reachable rows make such a history.
  \<^item> \<open>Core_Objects\<close>, \<open>Commit_Meta\<close>, \<open>Metadata\<close>, \<open>Rows_Steps\<close>: \<open>git/core/src\<close> and \<open>git/metadata/src\<close>; the calls of concurrent callers are the
    step relation \<open>rows_step\<close>.
  \<^item> \<open>Journal\<close>: \<open>git/journal/src\<close>. \<open>Store_Engine\<close>: what the segment stores of one deployment share, and what listing a
    segment of one index does to it and to the others.
  \<^item> \<open>Object_Index\<close>, \<open>Object_Store\<close>, \<open>Object_Write\<close>: \<open>git/objects/src\<close>, with the lists its shelves are
    assembled over in \<open>git/retrieve/src/storage.rs\<close>. \<open>Graph_Write\<close>: \<open>git/graph-store/src/write.rs\<close>.

  \<^bold>\<open>What is shown.\<close>
  \<^item> Codecs: the delta encoder and decoder are inverse and the decoder writes exactly the declared length within bounds; the
    commit, pack and object indexes survive encoding, and a ranged decode answers its range as the whole does.
  \<^item> Algebra: the joins are associative, commutative and idempotent, so segments may be composed in any order, and a
    compaction plan is sound and makes progress.
  \<^item> Stores: reads answer the merge of everything written, writes add to it, compaction and sweeping change no answer.
  \<^item> Walks: ancestry, merge bases, first-parent pages, the commits a fetch needs and the shallow variant compute
    reachability and least depths in the graph, and end, whatever the schedule of bands.
  \<^item> Rows: a batch of ref updates refines compare-and-sets on one map, and every reachable state keeps numbering, counters,
    keys and tips consistent.
  \<^item> Composition: what a push records of commits and of objects is what reads find once its journal lands, beside what was
    there; generations stay above those of parents; gathered and moved pack images are exactly the live ones.

  \<^bold>\<open>Conventions.\<close> \<open>u8\<close> to \<open>u128\<close> are words, \<open>usize\<close> is \<open>nat\<close>, \<open>i64\<close> is \<open>int\<close> with saturation and wrap-around written out where
  the source has them. \<open>Result\<close> is a sum, error messages keep their fixed text. A \<open>BTreeMap\<close>, and a hash map whose order
  could be observed, is an association list in key order; a hash map read only by key is a map. Asynchronous calls are
  calls: a lock or a transaction covers each step. Code that is not in the repository is a parameter with named laws: the
  object store (\<open>bucket_laws\<close>), ULIDs (\<open>ulid_laws\<close>), roaring bitmaps (\<open>bitmap_codec\<close>), \<open>gix_validate\<close>, the clock and fresh keys.

  \<^bold>\<open>Bounds.\<close> No fuel is used. Loops that descend by bands or follow trees are partial functions where not returning is \<open>None\<close>,
  and are shown to return; all other recursion is total. \<open>ID_SPACE\<close> is the number of ULIDs that can be drawn. \<open>capacity\<close>
  bounds the out-of-line tail of a segment by 32-bit offsets, a limit the format has and the writer does not check.

  \<^bold>\<open>Where comments and code differ.\<close> The theorems state what the code does.
  \<^item> \<open>read_varint\<close> drops the high bits of a tenth byte, where its comment promises an error.
  \<^item> A merge of two segments is planned under any \<open>max_inputs\<close> and \<open>max_input_bytes\<close>, where \<open>Policy\<close> calls them the most one takes.
  \<^item> \<open>is_ancestor\<close> is an error for a commit that is numbered and not held and an older ancestor, where its comment has \<open>false\<close>.
  \<^item> A ref update with a null \<open>old_id\<close> is refused over an existing ref, where \<open>RefUpdate\<close> says it overwrites.
  \<^item> A failed commit of the in-memory ledger keeps the listings before the failure, where the trait says nothing landed.
  \<^item> Marking an absent repository deleted answers true in the in-memory rows and false in the database.

  \<^bold>\<open>Not modelled.\<close>
  \<^item> Packfile streams (\<open>git/packfile\<close> reader and writer) and loose objects (\<open>git/core\<close>): they inflate, deflate and hash through
    libraries, and the parts apart from that are small.
  \<^item> \<open>git/ingest\<close>, the rest of \<open>git/retrieve\<close>, \<open>git/store\<close>: concurrent pipelines over ranged reads and uploads; the parts that decide
    what is stored are those of the indexes, the journal and the rows above.
  \<^item> \<open>git/graph\<close>: diffs and ancestry over parsed objects, whose parser is a library. \<open>git/proto\<close>, \<open>git/http\<close>, \<open>git/remote\<close>: wire
    formats and transports. \<open>git/cost\<close>: counters. \<open>git/test-support\<close>: tests.
  \<^item> \<open>server\<close>, \<open>api\<close>: configuration, gRPC, the lambda worker, and the database whose rows \<open>Metadata\<close> models in memory; mostly
    input and output, SQL and generated code.
\<close>

end
